(* ===== verification/Sponge_Prelude.thy ===== *)
theory Sponge_Prelude
  imports Main "HOL-Library.Word"
begin

unbundle bit_operations_syntax

text \<open>
  Shared vocabulary of the development: the machine integer types of the C++ sources, the
  exceptions they throw, sequencing of computations that may throw, and the generic facts on
  words, lists and sums that the component theories use.

  Conventions. A fixed-width integer whose wrap-around is observable (sequence numbers, stream
  indices, timers, header fields, checksums) is a word of that width. A \<open>size_t\<close> that counts the
  bytes of an in-memory string or buffer is a \<open>nat\<close>: such counts are bounded by the address space
  and every subtraction on them is guarded, which the invariants of the component theories show.
  A byte string is a list of bytes.
\<close>

section \<open>Machine integers and byte strings\<close>

type_synonym u8 = "8 word"
type_synonym u16 = "16 word"
type_synonym u32 = "32 word"
type_synonym u64 = "64 word"
type_synonym bytes = "8 word list"

section \<open>Exceptions\<close>

text \<open>
  \<open>OutOfRange\<close> and \<open>RuntimeError\<close> are the two exception classes the library throws.
  \<open>Undefined\<close> stands for undefined behaviour of the C++ program (\<open>front()\<close> of an empty queue, an
  index past the end of a vector, a shift by a negative amount), so that its absence is a theorem.
\<close>

datatype exn = OutOfRange string | RuntimeError string | Undefined string

definition bindE :: "'e + 'a \<Rightarrow> ('a \<Rightarrow> 'e + 'b) \<Rightarrow> 'e + 'b" where
  "bindE m f = (case m of Inl e \<Rightarrow> Inl e | Inr x \<Rightarrow> f x)"

lemma bindE_simps [simp]:
  "bindE (Inl e) f = Inl e"
  "bindE (Inr x) f = f x"
  by (simp_all add: bindE_def)

lemma bindE_eq_Inr_iff: "bindE m f = Inr y \<longleftrightarrow> (\<exists>x. m = Inr x \<and> f x = Inr y)"
  by (simp add: bindE_def split: sum.splits)

lemma bindE_assoc: "bindE (bindE m f) g = bindE m (\<lambda>x. bindE (f x) g)"
  by (simp add: bindE_def split: sum.splits)

section \<open>Named collections\<close>

named_theorems word_nat \<open>transfer of word arithmetic and order to natural numbers\<close>

section \<open>Words\<close>

lemmas word_order_nat [word_nat] = word_le_nat_alt word_less_nat_alt

lemma unat_of_nat64 [word_nat]: "n < 2 ^ 64 \<Longrightarrow> unat (of_nat n :: u64) = n"
  by (simp add: unat_of_nat take_bit_nat_eq_self)

lemma unat_add64: "unat (a::u64) + unat b < 2 ^ 64 \<Longrightarrow> unat (a + b) = unat a + unat b"
  by (simp add: unat_word_ariths)

lemma unat_sub64: "unat (b::u64) \<le> unat a \<Longrightarrow> unat (a - b) = unat a - unat b"
  by (simp add: unat_sub word_le_nat_alt)

lemma unat_add32: "unat (a::u32) + unat b < 2 ^ 32 \<Longrightarrow> unat (a + b) = unat a + unat b"
  by (simp add: unat_word_ariths)

lemma unat_lt64 [simp]: "unat (a::u64) < 18446744073709551616"
proof -
  have "unat a < 2 ^ LENGTH(64)" by (rule unsigned_less)
  then show ?thesis by simp
qed

lemma unat_lt32 [simp]: "unat (a::u32) < 4294967296"
proof -
  have "unat a < 2 ^ LENGTH(32)" by (rule unsigned_less)
  then show ?thesis by simp
qed

lemma unat_lt16 [simp]: "unat (a::u16) < 65536"
proof -
  have "unat a < 2 ^ LENGTH(16)" by (rule unsigned_less)
  then show ?thesis by simp
qed

lemma unat_lt8 [simp]: "unat (a::u8) < 256"
proof -
  have "unat a < 2 ^ LENGTH(8)" by (rule unsigned_less)
  then show ?thesis by simp
qed

lemma unat_ucast_mod: "unat (ucast (w::'a::len word) :: 'b::len word) = unat w mod 2 ^ LENGTH('b)"
  unfolding unsigned_ucast_eq unsigned_take_bit_eq by (rule take_bit_eq_mod)

lemma unat_ucast_32_64: "unat (ucast (w::u32) :: u64) = unat w"
proof -
  have "unat w < 2 ^ 64" using unat_lt32 [of w] by (rule less_trans) simp
  then show ?thesis by (simp add: unat_ucast_mod)
qed

lemma unat_ucast_16_32: "unat (ucast (w::u16) :: u32) = unat w"
proof -
  have "unat w < 2 ^ 32" using unat_lt16 [of w] by (rule less_trans) simp
  then show ?thesis by (simp add: unat_ucast_mod)
qed

lemma sint_u32: "sint (x::u32) = (if uint x < 2 ^ 31 then uint x else uint x - 2 ^ 32)"
proof -
  have b: "0 \<le> uint x" "uint x < 2 ^ 32" using uint_lt2p [of x] by simp_all
  show ?thesis
  proof (cases "uint x < 2 ^ 31")
    case True
    with b have "sint x = uint x"
      by (simp add: sint_uint signed_take_bit_eq_take_bit_shift take_bit_eq_mod)
    with True show ?thesis by simp
  next
    case False
    have "(uint x + 2 ^ 31) mod 2 ^ 32 = (uint x - 2 ^ 31) mod 2 ^ 32"
      using mod_add_self2 [of "uint x - 2 ^ 31" "2 ^ 32"] by (simp add: add.commute)
    with False b show ?thesis
      by (simp add: sint_uint signed_take_bit_eq_take_bit_shift take_bit_eq_mod)
  qed
qed

lemma sint_u64: "sint (x::u64) = (if uint x < 2 ^ 63 then uint x else uint x - 2 ^ 64)"
proof -
  have b: "0 \<le> uint x" "uint x < 2 ^ 64" using uint_lt2p [of x] by simp_all
  show ?thesis
  proof (cases "uint x < 2 ^ 63")
    case True
    with b have "sint x = uint x"
      by (simp add: sint_uint signed_take_bit_eq_take_bit_shift take_bit_eq_mod)
    with True show ?thesis by simp
  next
    case False
    have "(uint x + 2 ^ 63) mod 2 ^ 64 = (uint x - 2 ^ 63) mod 2 ^ 64"
      using mod_add_self2 [of "uint x - 2 ^ 63" "2 ^ 64"] by (simp add: add.commute)
    with False b show ?thesis
      by (simp add: sint_uint signed_take_bit_eq_take_bit_shift take_bit_eq_mod)
  qed
qed

text \<open>
  Among the numbers congruent to \<open>m\<close> modulo \<open>2 * M\<close>, the one at signed distance in \<open>[-M, M)\<close>
  from \<open>c\<close> is nearest to \<open>c\<close>; if it is negative, the next one is the nearest that is not.
\<close>

lemma congruent_nearest:
  fixes d c m M :: int
  assumes "- M \<le> d - c" "d - c < M" "d mod (2 * M) = m mod (2 * M)" "0 \<le> m" "0 < M"
  shows "\<bar>(if d < 0 then d + 2 * M else d) - c\<bar> \<le> \<bar>m - c\<bar>"
proof -
  obtain k where k: "m = d + (2 * M) * k"
    using assms(3) by (metis mod_eqE mult.commute)
  define K where "K = (2 * M) * k"
  consider "K \<le> (2 * M) * (- 1)" | "K = 0" | "(2 * M) * 1 \<le> K"
  proof -
    have "k \<le> - 1 \<or> k = 0 \<or> 1 \<le> k" by linarith
    then show thesis
      using that assms(5) mult_left_mono [of k "- 1" "2 * M"] mult_left_mono [of 1 k "2 * M"]
      unfolding K_def by fastforce
  qed
  then show ?thesis
    using k assms unfolding K_def [symmetric] by cases (auto simp: abs_if)
qed

section \<open>Components as step systems\<close>

text \<open>
  A component driven by a sequence of operations, any of which might throw. The contract: every
  operation succeeds from a state of the invariant and leads back into it; then so does every
  sequence of operations.
\<close>

fun run_ops :: "('op \<Rightarrow> 's \<Rightarrow> exn + 's) \<Rightarrow> 'op list \<Rightarrow> 's \<Rightarrow> exn + 's" where
  "run_ops step [] s = Inr s"
| "run_ops step (op # ops) s = bindE (step op s) (run_ops step ops)"

lemma run_ops_append: "run_ops step (xs @ ys) s = bindE (run_ops step xs s) (run_ops step ys)"
  by (induction xs arbitrary: s) (auto simp: bindE_def split: sum.splits)

locale step_system =
  fixes step :: "'op \<Rightarrow> 's \<Rightarrow> exn + 's" and ok :: "'op \<Rightarrow> bool" and inv :: "'s \<Rightarrow> bool"
  assumes step_inv: "ok op \<Longrightarrow> inv s \<Longrightarrow> \<exists>s'. step op s = Inr s' \<and> inv s'"
begin

lemma run_inv: "\<forall>op\<in>set ops. ok op \<Longrightarrow> inv s \<Longrightarrow> \<exists>s'. run_ops step ops s = Inr s' \<and> inv s'"
proof (induction ops arbitrary: s)
  case (Cons op ops)
  then obtain s1 where "step op s = Inr s1" "inv s1" using step_inv [of op s] by auto
  then show ?case using Cons by simp
qed simp

lemma run_invD: "\<forall>op\<in>set ops. ok op \<Longrightarrow> inv s \<Longrightarrow> run_ops step ops s = Inr s' \<Longrightarrow> inv s'"
  using run_inv [of ops s] by auto

end

end
