(* ===== verification/Buffers.thy ===== *)
theory Buffers
  imports Sponge_Prelude
begin

text \<open>
  Model of \<open>util/buffer.hh\<close> and \<open>util/buffer.cc\<close>: the reference-counted string \<open>Buffer\<close>, the
  discontiguous \<open>BufferList\<close> and the non-owning \<open>BufferViewList\<close>. The contract the three share is
  the locale \<open>byte_store\<close>: a store has contents, a size, and a \<open>remove_prefix\<close> that discards bytes
  from the front or throws \<open>out_of_range\<close>.
\<close>

section \<open>Buffer\<close>

text \<open>
  \<open>_storage\<close> is a shared pointer to an immutable string; sharing is not observable, so the pointer
  is the string it points to or nothing.
\<close>

record buffer =
  buf_storage :: "bytes option"
  buf_starting_offset :: nat

definition buf_empty :: buffer where
  "buf_empty = \<lparr>buf_storage = None, buf_starting_offset = 0\<rparr>"

definition buf_of_string :: "bytes \<Rightarrow> buffer" where
  "buf_of_string s = \<lparr>buf_storage = Some s, buf_starting_offset = 0\<rparr>"

definition buf_str :: "buffer \<Rightarrow> bytes" where
  "buf_str b = (case buf_storage b of None \<Rightarrow> [] | Some s \<Rightarrow> drop (buf_starting_offset b) s)"

definition buf_at :: "buffer \<Rightarrow> nat \<Rightarrow> exn + u8" where
  "buf_at b n =
     (if n < length (buf_str b) then Inr (buf_str b ! n) else Inl (OutOfRange ''string_view::at''))"

definition buf_size :: "buffer \<Rightarrow> nat" where
  "buf_size b = length (buf_str b)"

definition buf_copy :: "buffer \<Rightarrow> bytes" where
  "buf_copy b = buf_str b"

definition buf_remove_prefix :: "nat \<Rightarrow> buffer \<Rightarrow> exn + buffer" where
  "buf_remove_prefix n b =
     (if n > length (buf_str b) then Inl (OutOfRange ''Buffer::remove_prefix'')
      else let b' = b\<lparr>buf_starting_offset := buf_starting_offset b + n\<rparr> in
        case buf_storage b' of
          None \<Rightarrow> Inr b'
        | Some s \<Rightarrow>
            if buf_starting_offset b' = length s then Inr (b'\<lparr>buf_storage := None\<rparr>) else Inr b')"

definition buf_wf :: "buffer \<Rightarrow> bool" where
  "buf_wf b = (case buf_storage b of None \<Rightarrow> True | Some s \<Rightarrow> buf_starting_offset b \<le> length s)"

section \<open>BufferList\<close>

type_synonym buffer_list = "buffer list"

definition bl_of_string :: "bytes \<Rightarrow> buffer_list" where
  "bl_of_string s = [buf_of_string s]"

definition bl_append :: "buffer_list \<Rightarrow> buffer_list \<Rightarrow> buffer_list" where
  "bl_append bl other = foldl (\<lambda>acc buf. acc @ [buf]) bl other"

definition bl_to_buffer :: "buffer_list \<Rightarrow> exn + buffer" where
  "bl_to_buffer bl =
     (case bl of
        [] \<Rightarrow> Inr buf_empty
      | [b] \<Rightarrow> Inr b
      | _ \<Rightarrow> Inl (RuntimeError ''BufferList: please use concatenate() to combine a multi-Buffer BufferList into one Buffer''))"

definition bl_concatenate :: "buffer_list \<Rightarrow> bytes" where
  "bl_concatenate bl = foldl (\<lambda>ret buf. ret @ buf_str buf) [] bl"

definition bl_size :: "buffer_list \<Rightarrow> nat" where
  "bl_size bl = foldl (\<lambda>ret buf. ret + buf_size buf) 0 bl"

fun bl_remove_prefix :: "nat \<Rightarrow> buffer_list \<Rightarrow> exn + buffer_list" where
  "bl_remove_prefix n [] =
     (if n > 0 then Inl (OutOfRange ''BufferList::remove_prefix'') else Inr [])"
| "bl_remove_prefix n (b # bs) =
     (if n > 0 then
        (if n < buf_size b then bindE (buf_remove_prefix n b) (\<lambda>b'. Inr (b' # bs))
         else bl_remove_prefix (n - buf_size b) bs)
      else Inr (b # bs))"

section \<open>BufferViewList\<close>

type_synonym buffer_view_list = "bytes list"

definition bvl_of_string :: "bytes \<Rightarrow> buffer_view_list" where
  "bvl_of_string s = [s]"

definition bvl_of_buffer_list :: "buffer_list \<Rightarrow> buffer_view_list" where
  "bvl_of_buffer_list bl = map buf_str bl"

definition bvl_size :: "buffer_view_list \<Rightarrow> nat" where
  "bvl_size vs = foldl (\<lambda>ret v. ret + length v) 0 vs"

fun bvl_remove_prefix :: "nat \<Rightarrow> buffer_view_list \<Rightarrow> exn + buffer_view_list" where
  "bvl_remove_prefix n [] =
     (if n > 0 then Inl (OutOfRange ''BufferListView::remove_prefix'') else Inr [])"
| "bvl_remove_prefix n (v # vs) =
     (if n > 0 then
        (if n < length v then Inr (drop n v # vs)
         else bvl_remove_prefix (n - length v) vs)
      else Inr (v # vs))"

text \<open>An \<open>iovec\<close> is a pointer and a length: the bytes it denotes.\<close>

definition bvl_as_iovecs :: "buffer_view_list \<Rightarrow> bytes list" where
  "bvl_as_iovecs vs = vs"

section \<open>The shared contract\<close>

text \<open>Removing prefixes of the given lengths one after the other.\<close>

fun remove_prefixes :: "(nat \<Rightarrow> 'b \<Rightarrow> exn + 'b) \<Rightarrow> nat list \<Rightarrow> 'b \<Rightarrow> exn + 'b" where
  "remove_prefixes rm [] b = Inr b"
| "remove_prefixes rm (n # ns) b = bindE (rm n b) (remove_prefixes rm ns)"

locale byte_store =
  fixes contents :: "'b \<Rightarrow> bytes"
    and store_size :: "'b \<Rightarrow> nat"
    and remove_prefix :: "nat \<Rightarrow> 'b \<Rightarrow> exn + 'b"
    and store_ok :: "'b \<Rightarrow> bool"
  assumes size_contents: "store_ok b \<Longrightarrow> store_size b = length (contents b)"
    and remove_prefix_fits: "store_ok b \<Longrightarrow> n \<le> length (contents b) \<Longrightarrow>
      \<exists>b'. remove_prefix n b = Inr b' \<and> store_ok b' \<and> contents b' = drop n (contents b)"
    and remove_prefix_throws: "store_ok b \<Longrightarrow> length (contents b) < n \<Longrightarrow>
      \<exists>e. remove_prefix n b = Inl (OutOfRange e)"
begin

lemma remove_prefix_Inr:
  assumes "store_ok b" "remove_prefix n b = Inr b'"
  shows "n \<le> length (contents b) \<and> store_ok b' \<and> contents b' = drop n (contents b)"
proof (cases "n \<le> length (contents b)")
  case True
  then show ?thesis using remove_prefix_fits [OF assms(1) True] assms(2) by auto
next
  case False
  then show ?thesis using remove_prefix_throws [OF assms(1), of n] assms(2) by auto
qed

lemma remove_prefixes_fit:
  assumes "store_ok b" "sum_list ns \<le> length (contents b)"
  shows "\<exists>b'. remove_prefixes remove_prefix ns b = Inr b' \<and> store_ok b' \<and>
    contents b' = drop (sum_list ns) (contents b)"
  using assms
proof (induction ns arbitrary: b)
  case Nil
  then show ?case by simp
next
  case (Cons n ns)
  then obtain b1 where b1: "remove_prefix n b = Inr b1" "store_ok b1"
      "contents b1 = drop n (contents b)"
    using remove_prefix_fits [of b n] by auto
  with Cons.IH [of b1] Cons.prems show ?case by (auto simp: add.commute)
qed

end

section \<open>The three implementations meet the contract\<close>

lemma foldl_append_map: "foldl (\<lambda>acc x. acc @ f x) a xs = a @ concat (map f xs)"
  by (induction xs arbitrary: a) simp_all

lemma foldl_add_nat: "foldl (\<lambda>acc x. acc + f x) (a::nat) xs = a + sum_list (map f xs)"
  by (induction xs arbitrary: a) simp_all

lemma bl_concatenate_eq: "bl_concatenate bl = concat (map buf_str bl)"
  by (simp add: bl_concatenate_def foldl_append_map)

lemma bl_concatenate_simps [simp]:
  "bl_concatenate [] = []"
  "bl_concatenate (b # bl) = buf_str b @ bl_concatenate bl"
  "bl_concatenate (xs @ ys) = bl_concatenate xs @ bl_concatenate ys"
  by (simp_all add: bl_concatenate_eq)

lemma bl_size_eq: "bl_size bl = length (bl_concatenate bl)"
  by (simp add: bl_size_def foldl_add_nat bl_concatenate_eq buf_size_def length_concat comp_def)

lemma bl_append_eq [simp]: "bl_append bl other = bl @ other"
  unfolding bl_append_def by (induction other arbitrary: bl) simp_all

lemma bvl_size_eq: "bvl_size vs = length (concat vs)"
  by (simp add: bvl_size_def foldl_add_nat length_concat)

lemma buf_str_of_string [simp]: "buf_str (buf_of_string s) = s"
  by (simp add: buf_str_def buf_of_string_def)

lemma buf_str_empty [simp]: "buf_str buf_empty = []"
  by (simp add: buf_str_def buf_empty_def)

lemma buf_wf_simps [simp]: "buf_wf (buf_of_string s)" "buf_wf buf_empty"
  by (simp_all add: buf_wf_def buf_of_string_def buf_empty_def)

lemma bl_of_string_simps [simp]:
  "bl_concatenate (bl_of_string s) = s"
  "list_all buf_wf (bl_of_string s)"
  by (simp_all add: bl_of_string_def)

lemma buf_remove_prefix_fits:
  "n \<le> length (buf_str b) \<Longrightarrow>
   \<exists>b'. buf_remove_prefix n b = Inr b' \<and> (buf_wf b \<longrightarrow> buf_wf b') \<and> buf_str b' = drop n (buf_str b)"
  by (auto simp: buf_remove_prefix_def buf_str_def buf_wf_def Let_def add.commute split: option.splits)

lemma buf_remove_prefix_throws:
  "length (buf_str b) < n \<Longrightarrow> buf_remove_prefix n b = Inl (OutOfRange ''Buffer::remove_prefix'')"
  by (simp add: buf_remove_prefix_def)

interpretation buf: byte_store buf_str buf_size buf_remove_prefix buf_wf
proof unfold_locales
  show "buf_wf b \<Longrightarrow> n \<le> length (buf_str b) \<Longrightarrow>
      \<exists>b'. buf_remove_prefix n b = Inr b' \<and> buf_wf b' \<and> buf_str b' = drop n (buf_str b)" for b n
    using buf_remove_prefix_fits by blast
qed (simp_all add: buf_size_def buf_remove_prefix_throws)

lemma bl_remove_prefix_fits:
  "n \<le> length (bl_concatenate bl) \<Longrightarrow>
   \<exists>bl'. bl_remove_prefix n bl = Inr bl' \<and> (list_all buf_wf bl \<longrightarrow> list_all buf_wf bl') \<and>
     bl_concatenate bl' = drop n (bl_concatenate bl)"
proof (induction n bl rule: bl_remove_prefix.induct)
  case (1 n)
  then show ?case by simp
next
  case (2 n b bs)
  show ?case
  proof (cases "0 < n \<and> n < buf_size b")
    case True
    then obtain b' where "buf_remove_prefix n b = Inr b'" "buf_wf b \<longrightarrow> buf_wf b'"
        "buf_str b' = drop n (buf_str b)"
      using buf_remove_prefix_fits [of n b] by (auto simp: buf_size_def)
    with True show ?thesis by (simp add: buf_size_def)
  next
    case False
    show ?thesis
    proof (cases "n = 0")
      case True
      then show ?thesis by simp
    next
      case n: False
      with False "2.prems" have "n - buf_size b \<le> length (bl_concatenate bs)"
        by (simp add: buf_size_def)
      with n False "2.IH" obtain bl' where
          "bl_remove_prefix (n - buf_size b) bs = Inr bl'"
          "list_all buf_wf bs \<longrightarrow> list_all buf_wf bl'"
          "bl_concatenate bl' = drop (n - buf_size b) (bl_concatenate bs)"
        by auto
      with n False show ?thesis by (simp add: buf_size_def)
    qed
  qed
qed

lemma bl_remove_prefix_throws:
  "length (bl_concatenate bl) < n \<Longrightarrow>
   bl_remove_prefix n bl = Inl (OutOfRange ''BufferList::remove_prefix'')"
  by (induction n bl rule: bl_remove_prefix.induct) (auto simp: buf_size_def)

interpretation bl: byte_store bl_concatenate bl_size bl_remove_prefix "list_all buf_wf"
proof unfold_locales
  show "list_all buf_wf b \<Longrightarrow> n \<le> length (bl_concatenate b) \<Longrightarrow>
      \<exists>b'. bl_remove_prefix n b = Inr b' \<and> list_all buf_wf b' \<and>
        bl_concatenate b' = drop n (bl_concatenate b)" for b n
    using bl_remove_prefix_fits by blast
qed (simp_all add: bl_size_eq bl_remove_prefix_throws)

lemma bvl_remove_prefix_fits:
  "n \<le> length (concat vs) \<Longrightarrow>
   \<exists>vs'. bvl_remove_prefix n vs = Inr vs' \<and> concat vs' = drop n (concat vs)"
  by (induction n vs rule: bvl_remove_prefix.induct) auto

lemma bvl_remove_prefix_throws:
  "length (concat vs) < n \<Longrightarrow>
   bvl_remove_prefix n vs = Inl (OutOfRange ''BufferListView::remove_prefix'')"
  by (induction n vs rule: bvl_remove_prefix.induct) auto

interpretation bvl: byte_store concat bvl_size bvl_remove_prefix "\<lambda>_. True"
  by unfold_locales (simp_all add: bvl_size_eq bvl_remove_prefix_fits bvl_remove_prefix_throws)

text \<open>
  \<open>remove_prefix\<close> as the operations of the library use it: never past the end, so never throwing.
\<close>

lemma bl_remove_prefix_Inr:
  "bl_remove_prefix n bl = Inr bl' \<Longrightarrow> n \<le> length (bl_concatenate bl) \<and>
    bl_concatenate bl' = drop n (bl_concatenate bl) \<and> (list_all buf_wf bl \<longrightarrow> list_all buf_wf bl')"
  using bl_remove_prefix_fits [of n bl] bl_remove_prefix_throws [of bl n]
  by (cases "n \<le> length (bl_concatenate bl)") auto

lemma bvl_of_buffer_list_contents: "concat (bvl_of_buffer_list bl) = bl_concatenate bl"
  by (simp add: bvl_of_buffer_list_def bl_concatenate_eq)

end
