(* ===== verification/Net_Parser.thy ===== *)
theory Net_Parser
  imports Buffers
begin

text \<open>
  Model of \<open>util/parser.hh\<close> and \<open>util/parser.cc\<close>: \<open>ParseResult\<close>, the \<open>NetParser\<close> that consumes
  big-endian integers from a \<open>Buffer\<close> with a sticky error, and the \<open>NetUnparser\<close> that appends them to
  a string. The template parameter \<open>T\<close> is the word type of the result and \<open>sizeof(T)\<close> its length in
  bytes. The contract between a serializer and its parser is the locale \<open>wire_format\<close>.
\<close>

section \<open>State and operations\<close>

datatype parse_result = NoError | BadChecksum | PacketTooShort | WrongIPVersion | HeaderTooShort
  | TruncatedPacket | Unsupported

text \<open>The table of names has no entry for \<open>Unsupported\<close>: showing it reads past the end of the array.\<close>

fun parse_result_as_string :: "parse_result \<Rightarrow> exn + string" where
  "parse_result_as_string NoError = Inr ''NoError''"
| "parse_result_as_string BadChecksum = Inr ''BadChecksum''"
| "parse_result_as_string PacketTooShort = Inr ''PacketTooShort''"
| "parse_result_as_string WrongIPVersion = Inr ''WrongIPVersion''"
| "parse_result_as_string HeaderTooShort = Inr ''HeaderTooShort''"
| "parse_result_as_string TruncatedPacket = Inr ''TruncatedPacket''"
| "parse_result_as_string Unsupported = Inl (Undefined ''as_string: _names[6]'')"

record net_parser =
  np_buffer :: buffer
  np_error :: parse_result

definition np_new :: "buffer \<Rightarrow> net_parser" where
  "np_new b = \<lparr>np_buffer = b, np_error = NoError\<rparr>"

definition np_has_error :: "net_parser \<Rightarrow> bool" where
  "np_has_error p \<longleftrightarrow> np_error p \<noteq> NoError"

definition np_check_size :: "nat \<Rightarrow> net_parser \<Rightarrow> net_parser" where
  "np_check_size n p = (if n > buf_size (np_buffer p) then p\<lparr>np_error := PacketTooShort\<rparr> else p)"

text \<open>The loop of \<open>_parse_int\<close> over the byte positions.\<close>

fun np_int_loop :: "nat list \<Rightarrow> buffer \<Rightarrow> 'a::len word \<Rightarrow> exn + 'a word" where
  "np_int_loop [] b ret = Inr ret"
| "np_int_loop (i # is) b ret =
     bindE (buf_at b i) (\<lambda>c. np_int_loop is b (push_bit 8 ret + ucast c))"

definition np_parse_int :: "net_parser \<Rightarrow> exn + 'a::len word \<times> net_parser" where
  "np_parse_int p0 =
     (let len = LENGTH('a) div 8;
          p = np_check_size len p0
      in if np_has_error p then Inr (0, p)
         else bindE (np_int_loop [0..<len] (np_buffer p) 0) (\<lambda>ret.
                bindE (buf_remove_prefix len (np_buffer p)) (\<lambda>b. Inr (ret, p\<lparr>np_buffer := b\<rparr>))))"

definition np_u32 :: "net_parser \<Rightarrow> exn + u32 \<times> net_parser" where
  "np_u32 = np_parse_int"

definition np_u16 :: "net_parser \<Rightarrow> exn + u16 \<times> net_parser" where
  "np_u16 = np_parse_int"

definition np_u8 :: "net_parser \<Rightarrow> exn + u8 \<times> net_parser" where
  "np_u8 = np_parse_int"

definition np_remove_prefix :: "nat \<Rightarrow> net_parser \<Rightarrow> exn + net_parser" where
  "np_remove_prefix n p0 =
     (let p = np_check_size n p0
      in if np_has_error p then Inr p
         else bindE (buf_remove_prefix n (np_buffer p)) (\<lambda>b. Inr (p\<lparr>np_buffer := b\<rparr>)))"

definition nu_unparse_int :: "bytes \<Rightarrow> 'a::len word \<Rightarrow> bytes" where
  "nu_unparse_int s val =
     (let len = LENGTH('a) div 8
      in foldl (\<lambda>s i. s @ [ucast (drop_bit ((len - i - 1) * 8) val AND 0xff)]) s [0..<len])"

definition nu_u32 :: "bytes \<Rightarrow> u32 \<Rightarrow> bytes" where
  "nu_u32 = nu_unparse_int"

definition nu_u16 :: "bytes \<Rightarrow> u16 \<Rightarrow> bytes" where
  "nu_u16 = nu_unparse_int"

definition nu_u8 :: "bytes \<Rightarrow> u8 \<Rightarrow> bytes" where
  "nu_u8 = nu_unparse_int"

section \<open>Big-endian integers\<close>

definition be32 :: "u32 \<Rightarrow> bytes" where
  "be32 w = [ucast (drop_bit 24 w), ucast (drop_bit 16 w), ucast (drop_bit 8 w), ucast w]"

definition be16 :: "u16 \<Rightarrow> bytes" where
  "be16 w = [ucast (drop_bit 8 w), ucast w]"

lemma be16_length [simp]: "length (be16 w) = 2" by (simp add: be16_def)

lemma be32_length [simp]: "length (be32 w) = 4" by (simp add: be32_def)

lemma ucast_low_byte: "LENGTH('a) \<ge> 8 \<Longrightarrow> (ucast (w AND 0xff :: 'a::len word) :: u8) = ucast w"
proof -
  assume len: "LENGTH('a) \<ge> 8"
  have "w AND 0xff = take_bit 8 w" by (simp add: take_bit_eq_mask mask_eq_exp_minus_1)
  then show ?thesis using len by (auto intro!: bit_word_eqI simp: bit_simps)
qed

lemma nu_ints:
  "nu_u32 s w32 = s @ be32 w32" "nu_u16 s w16 = s @ be16 w16" "nu_u8 s w8 = s @ [w8]"
proof -
  have "w8 AND 0xff = w8" using ucast_low_byte [of w8] by simp
  then show "nu_u32 s w32 = s @ be32 w32" "nu_u16 s w16 = s @ be16 w16" "nu_u8 s w8 = s @ [w8]"
    by (simp_all add: nu_u32_def nu_u16_def nu_u8_def nu_unparse_int_def be32_def be16_def
        ucast_low_byte upt_rec)
qed

text \<open>What \<open>NetParser\<close> leaves behind: the error and the bytes still to be parsed.\<close>

abbreviation np_rest :: "net_parser \<Rightarrow> bytes" where
  "np_rest p \<equiv> buf_str (np_buffer p)"

lemma np_int_loop_bytes:
  "\<forall>i\<in>set is. i < length (buf_str b) \<Longrightarrow>
   np_int_loop is b ret = Inr (foldl (\<lambda>r i. push_bit 8 r + ucast (buf_str b ! i)) ret is)"
  by (induction "is" arbitrary: ret) (auto simp: buf_at_def)

text \<open>\<open>_parse_int\<close> never throws: it fails with a sticky error, or consumes its bytes.\<close>

lemma np_parse_int_cases:
  fixes p :: net_parser
  defines "len \<equiv> LENGTH('a::len) div 8"
  obtains (error) "np_error p \<noteq> NoError \<or> length (np_rest p) < len"
      "(np_parse_int p :: exn + 'a word \<times> net_parser) = Inr (0, np_check_size len p)"
    | (parsed) p' where "np_error p = NoError" "len \<le> length (np_rest p)"
      "(np_parse_int p :: exn + 'a word \<times> net_parser) =
        Inr (foldl (\<lambda>r i. push_bit 8 r + ucast (np_rest p ! i)) 0 [0..<len], p')"
      "np_error p' = NoError" "np_rest p' = drop len (np_rest p)"
proof (cases "np_error p \<noteq> NoError \<or> length (np_rest p) < len")
  case True
  then show thesis
    by (intro error) (auto simp: np_parse_int_def np_check_size_def np_has_error_def buf_size_def len_def)
next
  case False
  then have chk: "np_check_size len p = p" "\<not> np_has_error p"
    by (auto simp: np_check_size_def np_has_error_def buf_size_def)
  obtain b where b: "buf_remove_prefix len (np_buffer p) = Inr b" "buf_str b = drop len (np_rest p)"
    using False buf_remove_prefix_fits [of len "np_buffer p"] by auto
  have "\<forall>i\<in>set [0..<len]. i < length (np_rest p)" using False by auto
  from np_int_loop_bytes [OF this, of "0 :: 'a word"] chk b show thesis
    using False by (intro parsed [of "p\<lparr>np_buffer := b\<rparr>"]) (simp_all add: np_parse_int_def len_def)
qed

lemma ucast_of_nat: "(ucast (b :: 'a::len word) :: 'b::len word) = of_nat (unat b)"
  by (rule word_unat_eq_iff [THEN iffD2]) (simp add: unat_ucast_mod unat_of_nat take_bit_eq_mod)

lemma base256:
  fixes n :: nat
  shows "256 * (n div 256 mod 256) + n mod 256 = n mod 65536"
    "256 * (256 * (256 * (n div 16777216 mod 256) + n div 65536 mod 256) + n div 256 mod 256) + n mod 256
      = n mod 4294967296"
proof -
  have step: "256 * (m div 256 mod k) + m mod 256 = m mod (256 * k)" for m k :: nat
    by (simp add: mod_mult2_eq)
  show "256 * (n div 256 mod 256) + n mod 256 = n mod 65536" using step [of n 256] by simp
  have "n div 16777216 = n div 65536 div 256" "n div 65536 = n div 256 div 256"
    by (simp_all add: div_mult2_eq [symmetric])
  then show "256 * (256 * (256 * (n div 16777216 mod 256) + n div 65536 mod 256) + n div 256 mod 256) + n mod 256
      = n mod 4294967296"
    using step [of "n div 65536" 256] step [of "n div 256" 65536] step [of n 16777216] by simp
qed

lemma push_byte: "push_bit 8 (of_nat n :: 'a::len word) + ucast (b :: u8) = of_nat (256 * n + unat b)"
proof -
  have "push_bit 8 (of_nat n :: 'a word) = 256 * of_nat n" by (simp add: push_bit_eq_mult mult.commute)
  then show ?thesis unfolding ucast_of_nat by (simp only: of_nat_add of_nat_mult of_nat_numeral)
qed

lemma unat_be_bytes:
  fixes w :: "'a::len word"
  shows "unat (ucast w :: u8) = unat w mod 256"
    "unat (ucast (drop_bit 8 w) :: u8) = unat w div 256 mod 256"
    "unat (ucast (drop_bit 16 w) :: u8) = unat w div 65536 mod 256"
    "unat (ucast (drop_bit 24 w) :: u8) = unat w div 16777216 mod 256"
proof -
  have "take_bit LENGTH('a) (unat w) = unat w" by (simp add: take_bit_nat_eq_self)
  then show "unat (ucast w :: u8) = unat w mod 256"
    "unat (ucast (drop_bit 8 w) :: u8) = unat w div 256 mod 256"
    "unat (ucast (drop_bit 16 w) :: u8) = unat w div 65536 mod 256"
    "unat (ucast (drop_bit 24 w) :: u8) = unat w div 16777216 mod 256"
    unfolding unat_ucast_mod unsigned_drop_bit_eq by (simp_all add: drop_bit_eq_div)
qed

lemma unat_be16: "256 * unat (be16 w ! 0) + unat (be16 w ! 1) = unat w"
  using base256(1) [of "unat w"] unat_be_bytes(1,2) [of w] by (simp add: be16_def)

lemma be_decode:
  "foldl (\<lambda>r i. push_bit 8 r + ucast ((be32 w @ xs) ! i)) 0 [0..<4] = (w :: u32)"
  "foldl (\<lambda>r i. push_bit 8 r + ucast ((be16 v @ xs) ! i)) 0 [0..<2] = (v :: u16)"
proof -
  have u: "[0..<4] = [0, 1, 2, Suc 2]" "[0..<2] = [0, 1 :: nat]" by (simp_all add: upt_rec)
  have z: "(0 :: u32) = of_nat 0" "(0 :: u16) = of_nat 0" by simp_all
  have n: "(be32 w @ xs) ! 0 = ucast (drop_bit 24 w)" "(be32 w @ xs) ! 1 = ucast (drop_bit 16 w)"
      "(be32 w @ xs) ! 2 = ucast (drop_bit 8 w)" "(be32 w @ xs) ! Suc 2 = ucast w"
      "(be16 v @ xs) ! 0 = ucast (drop_bit 8 v)" "(be16 v @ xs) ! 1 = ucast v"
    by (simp_all add: be32_def be16_def)
  have "unat w mod 4294967296 = unat w" "unat v mod 65536 = unat v" by simp_all
  then show "foldl (\<lambda>r i. push_bit 8 r + ucast ((be32 w @ xs) ! i)) 0 [0..<4] = w"
    "foldl (\<lambda>r i. push_bit 8 r + ucast ((be16 v @ xs) ! i)) 0 [0..<2] = v"
    unfolding u z foldl.simps n push_byte unat_be_bytes [of w] unat_be_bytes [of v] mult_0_right add_0 base256
    by simp_all
qed

section \<open>The contract of a wire format\<close>

text \<open>
  A parser that, on the bytes a serializer wrote followed by anything, returns the value and leaves
  the rest. Formats compose: a sequence of values is parsed back as written.
\<close>

fun parse_many :: "(net_parser \<Rightarrow> exn + 'a \<times> net_parser) \<Rightarrow> nat \<Rightarrow> net_parser \<Rightarrow> exn + 'a list \<times> net_parser"
where
  "parse_many dec 0 p = Inr ([], p)"
| "parse_many dec (Suc n) p =
     bindE (dec p) (\<lambda>(x, p'). bindE (parse_many dec n p') (\<lambda>(xs, p''). Inr (x # xs, p'')))"

locale wire_format =
  fixes enc :: "'a \<Rightarrow> bytes"
    and dec :: "net_parser \<Rightarrow> exn + 'a \<times> net_parser"
    and valid :: "'a \<Rightarrow> bool"
  assumes dec_enc: "valid x \<Longrightarrow> np_error p = NoError \<Longrightarrow> np_rest p = enc x @ rest \<Longrightarrow>
    \<exists>p'. dec p = Inr (x, p') \<and> np_error p' = NoError \<and> np_rest p' = rest"
begin

lemma dec_encE:
  assumes "valid x" "np_error p = NoError" "np_rest p = enc x @ rest"
  obtains p' where "dec p = Inr (x, p')" "np_error p' = NoError" "np_rest p' = rest"
  using dec_enc [OF assms] by blast

text \<open>One step of a parser written in sequence.\<close>

lemma step:
  assumes "np_error p = NoError" "np_rest p = enc x @ rest" "valid x"
    and "\<And>p'. np_error p' = NoError \<Longrightarrow> np_rest p' = rest \<Longrightarrow> Q (k x p')"
  shows "Q (bindE (dec p) (\<lambda>(y, p'). k y p'))"
  using dec_enc [OF assms(3,1,2)] assms(4) by auto

lemma parse_many_enc:
  assumes "\<forall>x\<in>set xs. valid x" "np_error p = NoError" "np_rest p = concat (map enc xs) @ rest"
  shows "\<exists>p'. parse_many dec (length xs) p = Inr (xs, p') \<and> np_error p' = NoError \<and> np_rest p' = rest"
  using assms
proof (induction xs arbitrary: p)
  case Nil
  then show ?case by simp
next
  case (Cons x xs)
  then have v: "valid x" "np_rest p = enc x @ (concat (map enc xs) @ rest)" by simp_all
  obtain p' where "dec p = Inr (x, p')" "np_error p' = NoError" "np_rest p' = concat (map enc xs) @ rest"
    using dec_encE [OF v(1) Cons.prems(2) v(2)] .
  with Cons.IH [of p'] Cons.prems(1) show ?case by auto
qed

lemma enc_prefix_free:
  assumes "valid x" "valid y" "enc x @ xs = enc y @ ys"
  shows "x = y \<and> xs = ys"
proof -
  let ?p = "np_new (buf_of_string (enc x @ xs))"
  have e: "np_error ?p = NoError" "np_rest ?p = enc x @ xs" by (simp_all add: np_new_def)
  then have "np_rest ?p = enc y @ ys" using assms(3) by simp
  from dec_enc [OF assms(1) e] dec_enc [OF assms(2) e(1) this] show ?thesis
    by (metis Inr_inject prod.inject)
qed

end

lemma np_parse_int_enc:
  assumes "np_error p = NoError" "np_rest p = e @ rest" "length e = LENGTH('a::len) div 8"
    and "foldl (\<lambda>r i. push_bit 8 r + ucast ((e @ rest) ! i)) 0 [0..<LENGTH('a) div 8] = (x :: 'a word)"
  shows "\<exists>p'. np_parse_int p = Inr (x, p') \<and> np_error p' = NoError \<and> np_rest p' = rest"
proof (cases rule: np_parse_int_cases [where 'a = 'a and p = p])
  case error
  then show ?thesis using assms by simp
next
  case (parsed p')
  then have "np_parse_int p = Inr (x, p')" using assms(2,4) by simp
  then show ?thesis using parsed assms by simp
qed

interpretation u32: wire_format be32 np_u32 "\<lambda>_. True"
proof
  show "\<exists>p'. np_u32 p = Inr (x, p') \<and> np_error p' = NoError \<and> np_rest p' = rest"
    if "np_error p = NoError" "np_rest p = be32 x @ rest" for x p rest
    unfolding np_u32_def using that by (rule np_parse_int_enc) (use be_decode(1) in simp_all)
qed

interpretation u16: wire_format be16 np_u16 "\<lambda>_. True"
proof
  show "\<exists>p'. np_u16 p = Inr (x, p') \<and> np_error p' = NoError \<and> np_rest p' = rest"
    if "np_error p = NoError" "np_rest p = be16 x @ rest" for x p rest
    unfolding np_u16_def using that by (rule np_parse_int_enc) (use be_decode(2) in simp_all)
qed

interpretation u8: wire_format "\<lambda>x. [x]" np_u8 "\<lambda>_. True"
proof
  show "\<exists>p'. np_u8 p = Inr (x, p') \<and> np_error p' = NoError \<and> np_rest p' = rest"
    if "np_error p = NoError" "np_rest p = [x] @ rest" for x p rest
    unfolding np_u8_def using that by (rule np_parse_int_enc) simp_all
qed

lemma np_remove_prefix_cases:
  obtains (error) "np_error p \<noteq> NoError \<or> length (np_rest p) < n"
      "np_remove_prefix n p = Inr (np_check_size n p)"
    | (skip) p' where "np_error p = NoError" "n \<le> length (np_rest p)" "np_remove_prefix n p = Inr p'"
      "np_error p' = NoError" "np_rest p' = drop n (np_rest p)"
proof (cases "np_error p \<noteq> NoError \<or> length (np_rest p) < n")
  case True
  then show thesis
    by (intro error) (auto simp: np_remove_prefix_def np_check_size_def np_has_error_def buf_size_def)
next
  case False
  then obtain b where "buf_remove_prefix n (np_buffer p) = Inr b" "buf_str b = drop n (np_rest p)"
    using buf_remove_prefix_fits [of n "np_buffer p"] by auto
  then show thesis using False
    by (intro skip [of "p\<lparr>np_buffer := b\<rparr>"])
      (auto simp: np_remove_prefix_def np_check_size_def np_has_error_def buf_size_def)
qed

lemma np_remove_prefix_step:
  assumes "np_error p = NoError" "np_rest p = pad @ rest" "n = length pad"
    and "\<And>p'. np_error p' = NoError \<Longrightarrow> np_rest p' = rest \<Longrightarrow> Q (k p')"
  shows "Q (bindE (np_remove_prefix n p) k)"
  by (cases rule: np_remove_prefix_cases [of p n]) (use assms in auto)

text \<open>Sticky errors: once an error is set, nothing is consumed and the error stays set.\<close>

lemma np_sticky:
  assumes "np_error p \<noteq> NoError"
  shows "np_u32 p = Inr (0, np_check_size 4 p)" "np_u16 p = Inr (0, np_check_size 2 p)"
    "np_u8 p = Inr (0, np_check_size 1 p)" "np_remove_prefix n p = Inr (np_check_size n p)"
  using assms by (auto simp: np_u32_def np_u16_def np_u8_def np_remove_prefix_def np_parse_int_def
      np_check_size_def np_has_error_def Let_def)

lemma np_check_size_facts [simp]:
  "np_buffer (np_check_size n p) = np_buffer p"
  "np_error (np_check_size n p) = (if length (np_rest p) < n then PacketTooShort else np_error p)"
  by (simp_all add: np_check_size_def buf_size_def)

end
