(* ===== verification/Wire_Formats.thy ===== *)
theory Wire_Formats
  imports Net_Parser
begin

text \<open>
  A stronger contract for wire formats, on top of the one of \<open>Net_Parser\<close>: the parser is total and
  accepts only what the serializer writes. The integer parsers satisfy it.
\<close>

section \<open>Canonical formats\<close>

text \<open>
  A format whose parser never throws and accepts nothing but encodings: what was parsed without error
  is followed by the rest.
\<close>

locale canonical_format = wire_format +
  assumes dec_total: "\<exists>x p'. dec p = Inr (x, p')"
    and dec_canonical: "dec p = Inr (x, p') \<Longrightarrow> np_error p' = NoError \<Longrightarrow>
      np_error p = NoError \<and> np_rest p = enc x @ np_rest p'"
begin

lemma dec_totalE:
  obtains x p' where "dec p = Inr (x, p')"
  using dec_total by blast

lemma bind_total:
  assumes "\<And>x p'. \<exists>y. k x p' = Inr y"
  shows "\<exists>y. bindE (dec p) (\<lambda>(x, p'). k x p') = Inr y"
  using dec_total [of p] assms by auto

lemma bindE_Inr:
  assumes "bindE (dec p) (\<lambda>(x, p'). k x p') = Inr y"
  obtains x p' where "k x p' = Inr y" "np_error p' = NoError \<Longrightarrow> np_error p = NoError"
    "np_error p' = NoError \<Longrightarrow> np_rest p = enc x @ np_rest p'"
  using assms dec_canonical [of p] by (cases "dec p") auto

end

lemma bytes_nat:
  fixes a b c d :: nat
  assumes "a < 256" "b < 256" "c < 256" "d < 256"
  shows "256 * a + b < 65536" "256 * (256 * (256 * a + b) + c) + d < 4294967296"
    "(256 * a + b) div 256 mod 256 = a" "(256 * a + b) mod 256 = b"
    "(256 * (256 * (256 * a + b) + c) + d) div 16777216 mod 256 = a"
    "(256 * (256 * (256 * a + b) + c) + d) div 65536 mod 256 = b"
    "(256 * (256 * (256 * a + b) + c) + d) div 256 mod 256 = c"
    "(256 * (256 * (256 * a + b) + c) + d) mod 256 = d"
proof -
  have h: "x < 256 \<Longrightarrow> (256 * n + x) div 256 = n" "x < 256 \<Longrightarrow> (256 * n + x) mod 256 = x" for n x :: nat by simp_all
  show "256 * a + b < 65536" "256 * (256 * (256 * a + b) + c) + d < 4294967296" using assms by auto
  show "(256 * a + b) div 256 mod 256 = a" "(256 * a + b) mod 256 = b" using assms h by simp_all
  have "n div 65536 = n div 256 div 256" "n div 16777216 = n div 256 div 256 div 256" for n :: nat
    by (simp_all add: div_mult2_eq [symmetric])
  then show "(256 * (256 * (256 * a + b) + c) + d) div 16777216 mod 256 = a"
    "(256 * (256 * (256 * a + b) + c) + d) div 65536 mod 256 = b"
    "(256 * (256 * (256 * a + b) + c) + d) div 256 mod 256 = c"
    "(256 * (256 * (256 * a + b) + c) + d) mod 256 = d"
    using assms by (simp_all only: h) simp
qed

lemma unat_of_nat_small: "n < 2 ^ LENGTH('a::len) \<Longrightarrow> unat (of_nat n :: 'a word) = n"
  by (simp add: unat_of_nat take_bit_nat_eq_self)

lemma be16_surj: "\<exists>w. be16 w = [a, b]"
proof -
  define w :: u16 where "w = of_nat (256 * unat a + unat b)"
  note n = bytes_nat [of "unat a" "unat b" 0 0, simplified]
  have "unat w = 256 * unat a + unat b"
    unfolding w_def by (rule unat_of_nat_small) (use n(1) in simp)
  then have "be16 w = [a, b]" using n by (simp add: be16_def word_unat_eq_iff unat_be_bytes(2) unat_be_bytes(1) [of w])
  then show ?thesis by blast
qed

lemma be32_surj: "\<exists>w. be32 w = [a, b, c, d]"
proof -
  define w :: u32 where "w = of_nat (256 * (256 * (256 * unat a + unat b) + unat c) + unat d)"
  note n = bytes_nat [of "unat a" "unat b" "unat c" "unat d", OF unat_lt8 unat_lt8 unat_lt8 unat_lt8]
  have "unat w = 256 * (256 * (256 * unat a + unat b) + unat c) + unat d"
    unfolding w_def by (rule unat_of_nat_small) (use n(2) in simp)
  then have "be32 w = [a, b, c, d]" using n
    by (simp only: be32_def word_unat_eq_iff unat_be_bytes(2-4) unat_be_bytes(1) [of w] list.inject simp_thms)
  then show ?thesis by blast
qed

lemma np_parse_int_total: "\<exists>x p'. np_parse_int p = Inr (x, p')"
  by (cases rule: np_parse_int_cases [where 'a = 'a and p = p]) auto

lemma np_parse_int_canonical:
  fixes enc :: "'a::len word \<Rightarrow> bytes"
  assumes wf: "wire_format enc np_parse_int (\<lambda>_. True)"
    and surj: "\<And>bs. length bs = LENGTH('a) div 8 \<Longrightarrow> \<exists>x. enc x = bs"
    and dec: "np_parse_int p = Inr (x, p')" "np_error p' = NoError"
  shows "np_error p = NoError \<and> np_rest p = enc x @ np_rest p'"
proof (cases rule: np_parse_int_cases [where 'a = 'a and p = p])
  case error
  then show ?thesis using dec by (auto simp: np_check_size_def buf_size_def split: if_splits)
next
  case (parsed q)
  let ?n = "LENGTH('a) div 8"
  obtain w where w: "enc w = take ?n (np_rest p)" using surj [of "take ?n (np_rest p)"] parsed(2) by auto
  then have "np_rest p = enc w @ drop ?n (np_rest p)" by simp
  from wire_format.dec_enc [OF wf _ parsed(1) this] dec parsed(1) show ?thesis
    by (auto simp: w)
qed

lemma length_eq_two: "length xs = 2 \<longleftrightarrow> (\<exists>a b. xs = [a, b])"
  by (auto simp: numeral_2_eq_2 length_Suc_conv)

lemma length_eq_four: "length xs = 4 \<longleftrightarrow> (\<exists>a b c d. xs = [a, b, c, d])"
  by (auto simp: numeral_eq_Suc length_Suc_conv)

interpretation u32: canonical_format be32 np_u32 "\<lambda>_. True"
proof
  show "\<exists>x p'. np_u32 p = Inr (x, p')" for p unfolding np_u32_def by (rule np_parse_int_total)
  show "np_error p = NoError \<and> np_rest p = be32 x @ np_rest p'"
    if "np_u32 p = Inr (x, p')" "np_error p' = NoError" for p x p'
    by (rule np_parse_int_canonical [OF u32.wire_format_axioms [unfolded np_u32_def] _ that(1) [unfolded np_u32_def] that(2)])
      (use be32_surj in \<open>auto simp: length_eq_four\<close>)
qed

interpretation u16: canonical_format be16 np_u16 "\<lambda>_. True"
proof
  show "\<exists>x p'. np_u16 p = Inr (x, p')" for p unfolding np_u16_def by (rule np_parse_int_total)
  show "np_error p = NoError \<and> np_rest p = be16 x @ np_rest p'"
    if "np_u16 p = Inr (x, p')" "np_error p' = NoError" for p x p'
    by (rule np_parse_int_canonical [OF u16.wire_format_axioms [unfolded np_u16_def] _ that(1) [unfolded np_u16_def] that(2)])
      (use be16_surj in \<open>auto simp: length_eq_two\<close>)
qed

interpretation u8: canonical_format "\<lambda>x. [x]" np_u8 "\<lambda>_. True"
proof
  show "\<exists>x p'. np_u8 p = Inr (x, p')" for p unfolding np_u8_def by (rule np_parse_int_total)
  show "np_error p = NoError \<and> np_rest p = [x] @ np_rest p'"
    if "np_u8 p = Inr (x, p')" "np_error p' = NoError" for p x p'
    by (rule np_parse_int_canonical [OF u8.wire_format_axioms [unfolded np_u8_def] _ that(1) [unfolded np_u8_def] that(2)])
      (auto simp: length_Suc_conv)
qed

end
