(* ===== verification/Wrapping_Integers.thy ===== *)
theory Wrapping_Integers
  imports Sponge_Prelude
begin

text \<open>
  Model of \<open>wrapping_integers.hh\<close> and \<open>wrapping_integers.cc\<close>: 32-bit sequence numbers relative to
  an initial sequence number, and their translation to and from 64-bit absolute sequence numbers.
  A \<open>WrappingInt32\<close> is its raw value.
\<close>

type_synonym wrapping_int32 = u32

definition wi_minus :: "wrapping_int32 \<Rightarrow> wrapping_int32 \<Rightarrow> int" where
  "wi_minus a b = sint (a - b)"

definition wi_plus :: "wrapping_int32 \<Rightarrow> u32 \<Rightarrow> wrapping_int32" where
  "wi_plus a b = a + b"

definition wi_minus_steps :: "wrapping_int32 \<Rightarrow> u32 \<Rightarrow> wrapping_int32" where
  "wi_minus_steps a b = wi_plus a (- b)"

definition wrap :: "u64 \<Rightarrow> wrapping_int32 \<Rightarrow> wrapping_int32" where
  "wrap n isn = ucast n + isn"

text \<open>
  \<open>checkpoint + offset\<close> converts the signed offset to \<open>uint64_t\<close> and adds modulo \<open>2^64\<close>; the sum
  is read back as \<open>int64_t\<close> and compared with zero.
\<close>

definition unwrap :: "wrapping_int32 \<Rightarrow> wrapping_int32 \<Rightarrow> u64 \<Rightarrow> u64" where
  "unwrap n isn checkpoint =
     (let chpo_wrap = wrap checkpoint isn;
          offset = wi_minus n chpo_wrap;
          res = checkpoint + of_int offset
      in if sint res < 0 then res + 2 ^ 32 else res)"

section \<open>Arithmetic of the translation\<close>

lemma uint_wrap: "uint (wrap n isn) = (uint n + uint isn) mod 2 ^ 32"
  by (simp add: wrap_def uint_word_ariths unsigned_ucast_eq take_bit_eq_mod mod_simps)

lemma wrap_eq_iff: "wrap a isn = wrap b isn \<longleftrightarrow> uint a mod 2 ^ 32 = uint b mod 2 ^ 32"
proof -
  have "wrap a isn = wrap b isn \<longleftrightarrow> (ucast a :: u32) = ucast b"
    by (simp add: wrap_def)
  also have "\<dots> \<longleftrightarrow> uint a mod 2 ^ 32 = uint b mod 2 ^ 32"
    by (simp only: word_uint_eq_iff unsigned_ucast_eq take_bit_eq_mod) simp
  finally show ?thesis .
qed

lemma wi_minus_range: "- (2 ^ 31) \<le> wi_minus a b" "wi_minus a b < 2 ^ 31"
  using sint_ge [of "a - b"] sint_lt [of "a - b"] by (simp_all add: wi_minus_def)

lemma wrap_add_wi_minus: "(uint c + wi_minus n (wrap c isn)) mod 2 ^ 32 = (uint n - uint isn) mod 2 ^ 32"
proof -
  let ?w = "wrap c isn"
  have m: "uint (n - ?w) = (uint n - uint ?w) mod 2 ^ 32"
    by (simp add: uint_word_ariths)
  have s: "wi_minus n ?w mod 2 ^ 32 = uint (n - ?w) mod 2 ^ 32"
    by (simp add: wi_minus_def sint_u32)
  have "(uint c + wi_minus n ?w) mod 2 ^ 32 = (uint c + (wi_minus n ?w mod 2 ^ 32)) mod 2 ^ 32"
    by (simp only: mod_simps)
  also have "\<dots> = (uint c + (uint n - (uint c + uint isn))) mod 2 ^ 32"
    by (simp only: s m uint_wrap mod_simps)
  finally show ?thesis by simp
qed

lemma uint_unwrap:
  fixes n isn :: u32
  assumes c: "uint c < 2 ^ 63 - 2 ^ 31"
  defines "d \<equiv> uint c + wi_minus n (wrap c isn)"
  shows "uint (unwrap n isn c) = (if d < 0 then d + 2 ^ 32 else d)"
proof -
  let ?r = "c + of_int (wi_minus n (wrap c isn)) :: u64"
  have o: "- (2 ^ 31) \<le> wi_minus n (wrap c isn)" "wi_minus n (wrap c isn) < 2 ^ 31"
    by (fact wi_minus_range)+
  have "0 \<le> uint c" by simp
  with o c have d: "- (2 ^ 31) \<le> d" "d < 2 ^ 63" unfolding d_def by linarith+
  have r: "uint ?r = d mod 2 ^ 64"
    by (simp add: d_def uint_word_ariths uint_word_of_int take_bit_eq_mod mod_simps)
  show ?thesis
  proof (cases "d < 0")
    case True
    have "d mod 2 ^ 64 = (d + 2 ^ 64) mod 2 ^ 64" by simp
    also have "\<dots> = d + 2 ^ 64" by (rule mod_pos_pos_trivial) (use True d in simp_all)
    finally have u: "uint ?r = d + 2 ^ 64" using r by simp
    have add: "uint (x + 2 ^ 32) = (uint x + 2 ^ 32) mod 2 ^ 64" for x :: u64
      by (simp add: uint_word_ariths)
    have "uint (?r + 2 ^ 32) = (d + 2 ^ 32 + 2 ^ 64) mod 2 ^ 64"
      unfolding add [of ?r] u by (simp only: ac_simps)
    also have "\<dots> = (d + 2 ^ 32) mod 2 ^ 64" by (simp only: mod_add_self2)
    also have "\<dots> = d + 2 ^ 32" by (rule mod_pos_pos_trivial) (use True d in simp_all)
    finally have "uint (?r + 2 ^ 32) = d + 2 ^ 32" .
    moreover from True d u have "sint ?r < 0" by (simp add: sint_u64)
    ultimately show ?thesis using True by (simp add: unwrap_def Let_def)
  next
    case False
    with d r have u: "uint ?r = d" by simp
    with False d have "\<not> sint ?r < 0" by (simp add: sint_u64)
    with u False show ?thesis by (simp add: unwrap_def Let_def)
  qed
qed

lemma unwrap_mod: "uint (unwrap n isn c) mod 2 ^ 32 = (uint n - uint isn) mod 2 ^ 32"
proof -
  let ?r = "c + of_int (wi_minus n (wrap c isn)) :: u64"
  have r: "uint ?r mod 2 ^ 32 = (uint n - uint isn) mod 2 ^ 32"
    using wrap_add_wi_minus [of c n isn]
    by (simp add: uint_word_ariths uint_word_of_int take_bit_eq_mod mod_mod_cancel mod_simps)
  have "uint (?r + 2 ^ 32) mod 2 ^ 32 = uint ?r mod 2 ^ 32"
    by (simp add: uint_word_ariths mod_mod_cancel)
  with r show ?thesis by (simp add: unwrap_def Let_def)
qed

lemma wrap_unwrap: "wrap (unwrap n isn c) isn = n"
proof -
  have "uint (wrap (unwrap n isn c) isn) = ((uint n - uint isn) + uint isn) mod 2 ^ 32"
    unfolding uint_wrap by (metis mod_add_left_eq unwrap_mod)
  also have "\<dots> = uint n" using uint_lt2p [of n] by simp
  finally show ?thesis by (simp add: word_uint_eq_iff)
qed

text \<open>
  Below \<open>2^63 - 2^31\<close> the 64-bit arithmetic of \<^const>\<open>unwrap\<close> does not overflow, and the result is
  the closest candidate to the checkpoint.
\<close>

lemma unwrap_closest:
  assumes c: "uint c < 2 ^ 63 - 2 ^ 31" and m: "wrap m isn = n"
  shows "\<bar>uint (unwrap n isn c) - uint c\<bar> \<le> \<bar>uint m - uint c\<bar>"
proof -
  define d where "d = uint c + wi_minus n (wrap c isn)"
  have eq: "uint (unwrap n isn c) = (if d < 0 then d + 2 * 2 ^ 31 else d)"
    using uint_unwrap [OF c, of n isn] by (simp add: d_def)
  have o: "- (2 ^ 31) \<le> d - uint c" "d - uint c < 2 ^ 31"
    using wi_minus_range [where a = n and b = "wrap c isn"] by (simp_all add: d_def)
  have "wrap (unwrap n isn c) isn = wrap m isn" using m by (simp add: wrap_unwrap)
  then have "d mod (2 * 2 ^ 31) = uint m mod (2 * 2 ^ 31)"
    using wrap_add_wi_minus [of c n isn] unwrap_mod [of n isn c]
    by (simp add: wrap_eq_iff d_def)
  then show ?thesis unfolding eq using o by (intro congruent_nearest) simp_all
qed

lemma unwrap_wrap:
  assumes c: "uint c < 2 ^ 63 - 2 ^ 31" and d: "\<bar>uint m - uint c\<bar> < 2 ^ 31"
  shows "unwrap (wrap m isn) isn c = m"
proof -
  let ?r = "unwrap (wrap m isn) isn c"
  have "\<bar>uint ?r - uint c\<bar> < 2 ^ 31" using unwrap_closest [OF c refl, of m isn] d by simp
  then have lt: "\<bar>uint ?r - uint m\<bar> < 2 ^ 32" using d by (simp add: abs_if split: if_splits)
  have "uint ?r mod 2 ^ 32 = uint m mod 2 ^ 32"
    using wrap_unwrap [of "wrap m isn" isn c] by (simp add: wrap_eq_iff)
  then have "2 ^ 32 dvd \<bar>uint ?r - uint m\<bar>" by (simp add: mod_eq_dvd_iff)
  with lt have "\<bar>uint ?r - uint m\<bar> = 0" using zdvd_not_zless [of "\<bar>uint ?r - uint m\<bar>" "2 ^ 32"] by linarith
  then show ?thesis by (simp add: word_uint_eq_iff)
qed

lemma unwrap_far_checkpoint:
  assumes "2 ^ 63 \<le> uint c"
  shows "unwrap (wrap c isn) isn c = c + 2 ^ 32"
proof -
  have "sint c < 0" using assms uint_lt2p [of c] by (simp add: sint_u64)
  then show ?thesis by (simp add: unwrap_def wi_minus_def)
qed

lemma unwrap_wrap_nat:
  assumes "unat c < 2 ^ 62" "unat m < unat c + 2 ^ 31" "unat c < unat m + 2 ^ 31"
  shows "unwrap (wrap m isn) isn c = m"
proof (rule unwrap_wrap)
  have u: "uint c = int (unat c)" "uint m = int (unat m)" by simp_all
  have dist: "\<bar>int a - int b\<bar> < 2 ^ 31" if "a < b + 2 ^ 31" "b < a + 2 ^ 31" for a b :: nat
    using that by auto
  have "int (unat c) < int (2 ^ 62)" using assms(1) by (simp only: of_nat_less_iff)
  then show "uint c < 2 ^ 63 - 2 ^ 31" by simp
  show "\<bar>uint m - uint c\<bar> < 2 ^ 31" unfolding u
    using dist [OF assms(2,3)] .
qed

section \<open>Properties\<close>



text \<open>
  Round trip: an absolute sequence number less than \<open>2^31\<close> away from the checkpoint survives
  being sent as a 32-bit sequence number.
\<close>

theorem unwrap_wrap_roundtrip:
  assumes "uint checkpoint < 2 ^ 63 - 2 ^ 31" and "\<bar>uint m - uint checkpoint\<bar> < 2 ^ 31"
  shows "unwrap (wrap m isn) isn checkpoint = m"
  using assms by (rule unwrap_wrap)

theorem unwrap_wrap_roundtrip_witness:
  "unwrap (wrap 5000000000 4000000000) 4000000000 4999999990 = 5000000000"
  by (rule unwrap_wrap_roundtrip) simp_all

text \<open>
  The documentation states no bound on the checkpoint, but from \<open>2^63\<close> on the result is \<open>2^32\<close>
  too large: the intermediate sum is read as a negative \<open>int64_t\<close>.
\<close>

theorem unwrap_overshoots_far_checkpoint:
  assumes "2 ^ 63 \<le> uint checkpoint"
  shows "unwrap (wrap checkpoint isn) isn checkpoint = checkpoint + 2 ^ 32"
  using assms by (rule unwrap_far_checkpoint)

theorem unwrap_overshoots_far_checkpoint_witness:
  "unwrap (wrap (2 ^ 63) 0) 0 (2 ^ 63) = 2 ^ 63 + 2 ^ 32"
  by (rule unwrap_overshoots_far_checkpoint) simp

end
