(* ===== verification/Text_Format.thy ===== *)
theory Text_Format
  imports Wrapping_Integers
begin

text \<open>
  Text output: what the sources print with \<open>std::stringstream\<close>, \<open>std::to_string\<close> and \<open>inet_ntoa\<close>,
  and \<open>std::stoi\<close> that reads numbers back.
\<close>

section \<open>Numerals\<close>

definition digit :: "nat \<Rightarrow> char" where
  "digit d = (if d < 10 then char_of (48 + d) else char_of (87 + d))"

function show_base :: "nat \<Rightarrow> nat \<Rightarrow> string" where
  "show_base b n = (if n < b \<or> b < 2 then [digit n] else show_base b (n div b) @ [digit (n mod b)])"
  by pat_completeness auto
termination by (relation "measure snd") auto

declare show_base.simps [simp del]

definition dec_string :: "nat \<Rightarrow> string" where
  "dec_string = show_base 10"

definition hex_string :: "nat \<Rightarrow> string" where
  "hex_string = show_base 16"

text \<open>\<open>setw(n)\<close> with \<open>setfill('0')\<close>.\<close>

definition zero_fill :: "nat \<Rightarrow> string \<Rightarrow> string" where
  "zero_fill n s = replicate (n - length s) (CHR ''0'') @ s"

definition bool_alpha :: "bool \<Rightarrow> string" where
  "bool_alpha b = (if b then ''true'' else ''false'')"

text \<open>\<open>operator<<\<close> of \<open>WrappingInt32\<close>, in the number base the stream is set to.\<close>

definition wi_show :: "nat \<Rightarrow> wrapping_int32 \<Rightarrow> string" where
  "wi_show base a = show_base base (unat a)"

definition inet_ntoa :: "u32 \<Rightarrow> string" where
  "inet_ntoa ip = dec_string (unat (drop_bit 24 ip)) @ ''.'' @ dec_string (unat (drop_bit 16 ip AND 0xff)) @ ''.'' @
     dec_string (unat (drop_bit 8 ip AND 0xff)) @ ''.'' @ dec_string (unat (ip AND 0xff))"

section \<open>Reading a number\<close>

definition is_digit :: "char \<Rightarrow> bool" where
  "is_digit c \<longleftrightarrow> 48 \<le> (of_char c :: nat) \<and> (of_char c :: nat) \<le> 57"

definition is_space :: "char \<Rightarrow> bool" where
  "is_space c \<longleftrightarrow> (of_char c :: nat) = 32 \<or> 9 \<le> (of_char c :: nat) \<and> (of_char c :: nat) \<le> 13"

fun read_digits :: "nat \<Rightarrow> string \<Rightarrow> nat" where
  "read_digits acc [] = acc"
| "read_digits acc (c # cs) = (if is_digit c then read_digits (10 * acc + (of_char c - 48)) cs else acc)"

text \<open>\<open>std::stoi\<close>: white space, a sign, at least one digit, and a value that fits an \<open>int\<close>.\<close>

definition stoi :: "string \<Rightarrow> exn + int" where
  "stoi s0 =
     (let s1 = dropWhile is_space s0;
          neg = (s1 \<noteq> [] \<and> hd s1 = CHR ''-'');
          s2 = (if s1 \<noteq> [] \<and> (hd s1 = CHR ''-'' \<or> hd s1 = CHR ''+'') then tl s1 else s1)
      in if s2 = [] \<or> \<not> is_digit (hd s2) then Inl (RuntimeError ''stoi'')
         else let n = int (read_digits 0 s2); v = (if neg then - n else n)
              in if v < - (2 ^ 31) \<or> 2 ^ 31 \<le> v then Inl (OutOfRange ''stoi'') else Inr v)"

lemma of_char_digit: "d < 10 \<Longrightarrow> (of_char (digit d) :: nat) = 48 + d"
  by (simp add: digit_def)

lemma is_digit_digit: "d < 10 \<Longrightarrow> is_digit (digit d)"
  by (simp add: is_digit_def of_char_digit)

lemma read_digits_snoc:
  "\<forall>c\<in>set s. is_digit c \<Longrightarrow> is_digit d \<Longrightarrow>
   read_digits acc (s @ [d]) = 10 * read_digits acc s + (of_char d - 48)"
  by (induction s arbitrary: acc) auto

lemma dec_string_digits: "\<forall>c\<in>set (dec_string n). is_digit c" "dec_string n \<noteq> []"
proof (induction n rule: less_induct)
  case (less n)
  have "\<forall>c\<in>set (show_base 10 (n div 10)). is_digit c" if "\<not> n < 10"
    using less(1) [of "n div 10"] that by (simp add: dec_string_def)
  then show "\<forall>c\<in>set (dec_string n). is_digit c"
    by (subst dec_string_def, subst show_base.simps) (auto simp: is_digit_digit)
  show "dec_string n \<noteq> []" by (subst dec_string_def, subst show_base.simps) simp
qed

lemma read_dec_string: "read_digits 0 (dec_string n) = n"
proof (induction n rule: less_induct)
  case (less n)
  show ?case
  proof (cases "n < 10")
    case True
    then show ?thesis by (simp add: dec_string_def show_base.simps is_digit_digit of_char_digit)
  next
    case False
    have "dec_string n = dec_string (n div 10) @ [digit (n mod 10)]"
      using False by (simp add: dec_string_def) (subst show_base.simps, simp)
    then have "read_digits 0 (dec_string n) = 10 * (n div 10) + n mod 10"
      using less [of "n div 10"] False dec_string_digits(1) [of "n div 10"]
      by (simp add: read_digits_snoc is_digit_digit of_char_digit)
    then show ?thesis by simp
  qed
qed

text \<open>\<open>stoi\<close> reads back what \<open>to_string\<close> wrote.\<close>

lemma stoi_dec_string:
  assumes "n < 2 ^ 31"
  shows "stoi (dec_string n) = Inr (int n)"
proof -
  obtain c cs where s: "dec_string n = c # cs" "is_digit c"
    using dec_string_digits [of n] by (cases "dec_string n") auto
  then have "\<not> is_space c" "c \<noteq> CHR ''-''" "c \<noteq> CHR ''+''"
    by (auto simp: is_digit_def is_space_def)
  then show ?thesis using s assms read_dec_string [of n] by (simp add: stoi_def Let_def)
qed

end
