(* ===== verification/Ethernet.thy ===== *)
theory Ethernet
  imports Wire_Formats Text_Format
begin

text \<open>
  Model of \<open>tcp_helpers/ethernet_header\<close>, \<open>tcp_helpers/ethernet_frame\<close> and \<open>tcp_helpers/arp_message\<close>:
  link-layer frames and the messages of the Address Resolution Protocol.
\<close>

section \<open>Ethernet\<close>

text \<open>\<open>std::array<uint8_t, 6>\<close>.\<close>

datatype ethernet_address = EthernetAddress u8 u8 u8 u8 u8 u8

fun eth_bytes :: "ethernet_address \<Rightarrow> bytes" where
  "eth_bytes (EthernetAddress a b c d e f) = [a, b, c, d, e, f]"

definition eth_zero :: ethernet_address where
  "eth_zero = EthernetAddress 0 0 0 0 0 0"

definition ETHERNET_BROADCAST :: ethernet_address where
  "ETHERNET_BROADCAST = EthernetAddress 0xff 0xff 0xff 0xff 0xff 0xff"

definition TYPE_IPv4 :: u16 where "TYPE_IPv4 = 0x800"
definition TYPE_ARP :: u16 where "TYPE_ARP = 0x806"

record ethernet_header =
  eh_dst :: ethernet_address
  eh_src :: ethernet_address
  eh_type :: u16

text \<open>The loop \<open>for (auto &byte : dst) byte = p.u8()\<close>.\<close>

definition np_eth :: "net_parser \<Rightarrow> exn + ethernet_address \<times> net_parser" where
  "np_eth p =
     bindE (np_u8 p) (\<lambda>(a, p). bindE (np_u8 p) (\<lambda>(b, p). bindE (np_u8 p) (\<lambda>(c, p).
     bindE (np_u8 p) (\<lambda>(d, p). bindE (np_u8 p) (\<lambda>(e, p). bindE (np_u8 p) (\<lambda>(f, p).
       Inr (EthernetAddress a b c d e f, p)))))))"

text \<open>The loop \<open>for (auto &byte : dst) NetUnparser::u8(ret, byte)\<close>.\<close>

definition nu_eth :: "bytes \<Rightarrow> ethernet_address \<Rightarrow> bytes" where
  "nu_eth ret a = foldl nu_u8 ret (eth_bytes a)"

definition eh_parse :: "ethernet_header \<Rightarrow> net_parser \<Rightarrow> exn + (parse_result \<times> ethernet_header) \<times> net_parser" where
  "eh_parse h p =
     (if buf_size (np_buffer p) < 14 then Inr ((PacketTooShort, h), p)
      else
        bindE (np_eth p) (\<lambda>(dst, p).
        bindE (np_eth p) (\<lambda>(src, p).
        bindE (np_u16 p) (\<lambda>(ty, p).
          Inr ((np_error p, \<lparr>eh_dst = dst, eh_src = src, eh_type = ty\<rparr>), p)))))"

definition eh_serialize :: "ethernet_header \<Rightarrow> bytes" where
  "eh_serialize h =
     (let ret = [];
          ret = nu_eth ret (eh_dst h);
          ret = nu_eth ret (eh_src h);
          ret = nu_u16 ret (eh_type h)
      in ret)"

text \<open>The loop of \<open>to_string\<close>: a colon after every byte but the last.\<close>

fun eth_show_loop :: "bytes \<Rightarrow> string" where
  "eth_show_loop [] = []"
| "eth_show_loop [b] = zero_fill 2 (hex_string (unat b))"
| "eth_show_loop (b # bs) = zero_fill 2 (hex_string (unat b)) @ '':'' @ eth_show_loop bs"

definition eth_to_string :: "ethernet_address \<Rightarrow> string" where
  "eth_to_string a = eth_show_loop (eth_bytes a)"

definition eh_to_string :: "ethernet_header \<Rightarrow> string" where
  "eh_to_string h = ''dst='' @ eth_to_string (eh_dst h) @ '', src='' @ eth_to_string (eh_src h) @ '', type='' @
     (if eh_type h = TYPE_IPv4 then ''IPv4''
      else if eh_type h = TYPE_ARP then ''ARP''
      else ''[unknown type '' @ hex_string (unat (eh_type h)) @ ''!]'')"

section \<open>Frames\<close>

record ethernet_frame =
  ef_header :: ethernet_header
  ef_payload :: buffer_list

definition ef_new :: ethernet_frame where
  "ef_new = \<lparr>ef_header = \<lparr>eh_dst = eth_zero, eh_src = eth_zero, eh_type = 0\<rparr>, ef_payload = []\<rparr>"

definition ef_parse :: "buffer \<Rightarrow> ethernet_frame \<Rightarrow> exn + parse_result \<times> ethernet_frame" where
  "ef_parse buffer f =
     bindE (eh_parse (ef_header f) (np_new buffer)) (\<lambda>((_, h), p).
       Inr (np_error p, f\<lparr>ef_header := h, ef_payload := [np_buffer p]\<rparr>))"

definition ef_serialize :: "ethernet_frame \<Rightarrow> buffer_list" where
  "ef_serialize f = bl_append (bl_append [] (bl_of_string (eh_serialize (ef_header f)))) (ef_payload f)"

section \<open>ARP messages\<close>

definition TYPE_ETHERNET :: u16 where "TYPE_ETHERNET = 1"
definition OPCODE_REQUEST :: u16 where "OPCODE_REQUEST = 1"
definition OPCODE_REPLY :: u16 where "OPCODE_REPLY = 2"

record arp_message =
  arp_hardware_type :: u16
  arp_protocol_type :: u16
  arp_hardware_address_size :: u8
  arp_protocol_address_size :: u8
  arp_opcode :: u16
  arp_sender_ethernet_address :: ethernet_address
  arp_sender_ip_address :: u32
  arp_target_ethernet_address :: ethernet_address
  arp_target_ip_address :: u32

definition arp_new :: arp_message where
  "arp_new = \<lparr>arp_hardware_type = TYPE_ETHERNET, arp_protocol_type = TYPE_IPv4, arp_hardware_address_size = 6,
     arp_protocol_address_size = 4, arp_opcode = 0, arp_sender_ethernet_address = eth_zero,
     arp_sender_ip_address = 0, arp_target_ethernet_address = eth_zero, arp_target_ip_address = 0\<rparr>"

definition arp_supported :: "arp_message \<Rightarrow> bool" where
  "arp_supported m \<longleftrightarrow> arp_hardware_type m = TYPE_ETHERNET \<and> arp_protocol_type m = TYPE_IPv4 \<and>
     arp_hardware_address_size m = 6 \<and> arp_protocol_address_size m = 4 \<and>
     (arp_opcode m = OPCODE_REQUEST \<or> arp_opcode m = OPCODE_REPLY)"

definition arp_parse :: "buffer \<Rightarrow> arp_message \<Rightarrow> exn + parse_result \<times> arp_message" where
  "arp_parse buffer m0 =
     (let p = np_new buffer
      in if buf_size (np_buffer p) < 28 then Inr (PacketTooShort, m0)
         else
           bindE (np_u16 p) (\<lambda>(hardware_type, p).
           bindE (np_u16 p) (\<lambda>(protocol_type, p).
           bindE (np_u8 p) (\<lambda>(hardware_address_size, p).
           bindE (np_u8 p) (\<lambda>(protocol_address_size, p).
           bindE (np_u16 p) (\<lambda>(opcode, p).
             let m = m0\<lparr>arp_hardware_type := hardware_type, arp_protocol_type := protocol_type,
                       arp_hardware_address_size := hardware_address_size,
                       arp_protocol_address_size := protocol_address_size, arp_opcode := opcode\<rparr>
             in if \<not> arp_supported m then Inr (Unsupported, m)
                else
                  bindE (np_eth p) (\<lambda>(sender_eth, p).
                  bindE (np_u32 p) (\<lambda>(sender_ip, p).
                  bindE (np_eth p) (\<lambda>(target_eth, p).
                  bindE (np_u32 p) (\<lambda>(target_ip, p).
                    Inr (np_error p, m\<lparr>arp_sender_ethernet_address := sender_eth,
                      arp_sender_ip_address := sender_ip, arp_target_ethernet_address := target_eth,
                      arp_target_ip_address := target_ip\<rparr>)))))))))))"

definition arp_serialize :: "arp_message \<Rightarrow> exn + bytes" where
  "arp_serialize m =
     (if \<not> arp_supported m
      then Inl (RuntimeError ''ARPMessage::serialize(): unsupported field combination (must be Ethernet/IP, and request or reply)'')
      else
        let ret = [];
            ret = nu_u16 ret (arp_hardware_type m);
            ret = nu_u16 ret (arp_protocol_type m);
            ret = nu_u8 ret (arp_hardware_address_size m);
            ret = nu_u8 ret (arp_protocol_address_size m);
            ret = nu_u16 ret (arp_opcode m);
            ret = nu_eth ret (arp_sender_ethernet_address m);
            ret = nu_u32 ret (arp_sender_ip_address m);
            ret = nu_eth ret (arp_target_ethernet_address m);
            ret = nu_u32 ret (arp_target_ip_address m)
        in Inr ret)"

definition arp_to_string :: "arp_message \<Rightarrow> string" where
  "arp_to_string m =
     (let opcode_str = ''(unknown type)'';
          opcode_str = (if arp_opcode m = OPCODE_REQUEST then ''REQUEST'' else opcode_str);
          opcode_str = (if arp_opcode m = OPCODE_REPLY then ''REPLY'' else opcode_str)
      in ''opcode='' @ opcode_str @ '', sender='' @ eth_to_string (arp_sender_ethernet_address m) @ ''/'' @
         inet_ntoa (arp_sender_ip_address m) @ '', target='' @ eth_to_string (arp_target_ethernet_address m) @
         ''/'' @ inet_ntoa (arp_target_ip_address m))"

section \<open>Wire formats\<close>

lemma nu_eth_bytes [simp]: "nu_eth ret a = ret @ eth_bytes a"
  by (cases a) (simp add: nu_eth_def nu_ints)

lemma eth_bytes_length [simp]: "length (eth_bytes a) = 6"
  by (cases a) simp

interpretation eth: wire_format eth_bytes np_eth "\<lambda>_. True"
proof
  fix x p rest
  assume p: "np_error p = NoError" "np_rest p = eth_bytes x @ rest"
  let ?Q = "\<lambda>m. \<exists>p'. m = Inr (x, p') \<and> np_error p' = NoError \<and> np_rest p' = rest"
  obtain a b c d e f where x: "x = EthernetAddress a b c d e f" by (cases x)
  then have r: "np_rest p = [a] @ [b] @ [c] @ [d] @ [e] @ [f] @ rest" using p(2) by simp
  show "?Q (np_eth p)"
    unfolding np_eth_def
    by (insert p(1) r, (rule u8.step [where Q = ?Q], assumption, assumption, rule TrueI)+) (simp add: x)
qed

lemma eh_serialize_eq: "eh_serialize h = eth_bytes (eh_dst h) @ eth_bytes (eh_src h) @ be16 (eh_type h)"
  by (simp add: eh_serialize_def nu_ints Let_def)

lemma eh_parse_enc:
  assumes "np_error p = NoError" "np_rest p = eh_serialize h @ rest"
  shows "\<exists>p'. eh_parse h0 p = Inr ((NoError, h), p') \<and> np_error p' = NoError \<and> np_rest p' = rest"
proof -
  let ?Q = "\<lambda>m. \<exists>p'. m = Inr ((NoError, h), p') \<and> np_error p' = NoError \<and> np_rest p' = rest"
  have r: "np_rest p = eth_bytes (eh_dst h) @ eth_bytes (eh_src h) @ be16 (eh_type h) @ rest"
    using assms(2) by (simp add: eh_serialize_eq)
  have sz: "\<not> buf_size (np_buffer p) < 14" unfolding buf_size_def r by simp
  show ?thesis
    unfolding eh_parse_def if_not_P [OF sz]
    by (insert assms(1) r, (rule eth.step [where Q = ?Q] u16.step [where Q = ?Q], assumption, assumption, rule TrueI)+)
      (cases h, simp)
qed

interpretation ethernet_header: wire_format "\<lambda>(res, h). eh_serialize h" "eh_parse h0" "\<lambda>(res, h). res = NoError" for h0
  by unfold_locales (use eh_parse_enc in \<open>auto split: prod.splits\<close>)

definition arp_bytes :: "arp_message \<Rightarrow> bytes" where
  "arp_bytes m = be16 (arp_hardware_type m) @ be16 (arp_protocol_type m) @ [arp_hardware_address_size m] @
     [arp_protocol_address_size m] @ be16 (arp_opcode m) @ eth_bytes (arp_sender_ethernet_address m) @
     be32 (arp_sender_ip_address m) @ eth_bytes (arp_target_ethernet_address m) @ be32 (arp_target_ip_address m)"

lemma arp_serialize_eq: "arp_supported m \<Longrightarrow> arp_serialize m = Inr (arp_bytes m)"
  by (simp add: arp_serialize_def arp_bytes_def nu_ints Let_def)

lemma arp_parse_enc:
  assumes "arp_supported m" "buf_str b = arp_bytes m @ rest"
  shows "arp_parse b m0 = Inr (NoError, m)"
proof -
  let ?Q = "\<lambda>x. x = Inr (NoError, m)" and ?p = "np_new b"
  have e: "np_error ?p = NoError" by (simp add: np_new_def)
  have r: "np_rest ?p = be16 (arp_hardware_type m) @ be16 (arp_protocol_type m) @ [arp_hardware_address_size m] @
     [arp_protocol_address_size m] @ be16 (arp_opcode m) @ eth_bytes (arp_sender_ethernet_address m) @
     be32 (arp_sender_ip_address m) @ eth_bytes (arp_target_ethernet_address m) @ be32 (arp_target_ip_address m) @ rest"
    using assms(2) by (simp add: np_new_def arp_bytes_def)
  have sz: "\<not> buf_size (np_buffer ?p) < 28" unfolding buf_size_def r by simp
  have sup: "arp_supported (m0\<lparr>arp_hardware_type := arp_hardware_type m, arp_protocol_type := arp_protocol_type m,
      arp_hardware_address_size := arp_hardware_address_size m,
      arp_protocol_address_size := arp_protocol_address_size m, arp_opcode := arp_opcode m\<rparr>)"
    using assms(1) by (simp add: arp_supported_def)
  note steps = u16.step [where Q = ?Q] u32.step [where Q = ?Q] u8.step [where Q = ?Q] eth.step [where Q = ?Q]
  show ?thesis
    unfolding arp_parse_def Let_def
    by (simp only: sz if_False, insert e r, (rule steps, assumption, assumption, rule TrueI)+,
        simp only: sup not_True_eq_False if_False, (rule steps, assumption, assumption, rule TrueI)+)
      (cases m, simp)
qed

section \<open>Parsing is total and canonical\<close>

interpretation eth: canonical_format eth_bytes np_eth "\<lambda>_. True"
proof
  fix p
  show "\<exists>x p'. np_eth p = Inr (x, p')"
    unfolding np_eth_def by (rule u8.dec_totalE [of p]) (simp, metis (no_types, lifting) bindE_simps(2) case_prod_conv u8.dec_total)
next
  fix p x p'
  assume "np_eth p = Inr (x, p')" "np_error p' = NoError"
  then show "np_error p = NoError \<and> np_rest p = eth_bytes x @ np_rest p'"
    unfolding np_eth_def by (auto elim!: u8.bindE_Inr)
qed

lemma if_total:
  "(c \<Longrightarrow> \<exists>y. a = Inr y) \<Longrightarrow> (\<not> c \<Longrightarrow> \<exists>y. b = Inr y) \<Longrightarrow> \<exists>y. (if c then a else b) = Inr y"
  by simp

lemma Inr_total: "\<exists>y. Inr x = Inr y"
  by simp

lemmas total_intros = if_total Inr_total u8.bind_total u16.bind_total u32.bind_total eth.bind_total

lemma arp_parse_total: "\<exists>res m. arp_parse b m0 = Inr (res, m)"
proof -
  have "\<exists>y. arp_parse b m0 = Inr y"
    unfolding arp_parse_def Let_def by (intro total_intros)
  then show ?thesis by auto
qed

lemma arp_parse_canonical:
  assumes "arp_parse b m0 = Inr (NoError, m)"
  shows "arp_supported m \<and> (\<exists>rest. buf_str b = arp_bytes m @ rest)"
proof -
  have *: "(if c then Inr (PacketTooShort, m0) else x) = Inr (NoError, m) \<Longrightarrow> x = Inr (NoError, m)"
    "(if c then Inr (Unsupported, m1) else x) = Inr (NoError, m) \<Longrightarrow> \<not> c \<and> x = Inr (NoError, m)"
    for c :: bool and x :: "exn + parse_result \<times> arp_message" and m1 by (cases c; simp)+
  show ?thesis
    using assms unfolding arp_parse_def Let_def
    by (auto dest!: * elim!: u8.bindE_Inr u16.bindE_Inr u32.bindE_Inr eth.bindE_Inr
        simp: np_new_def arp_bytes_def arp_supported_def)
qed

lemma ef_parse_serialized:
  assumes "buf_str b = bl_concatenate (ef_serialize f)"
  shows "\<exists>b'. ef_parse b f0 = Inr (NoError, f0\<lparr>ef_header := ef_header f, ef_payload := [b']\<rparr>) \<and>
    buf_str b' = bl_concatenate (ef_payload f)"
proof -
  have "np_error (np_new b) = NoError"
    "np_rest (np_new b) = eh_serialize (ef_header f) @ bl_concatenate (ef_payload f)"
    using assms by (simp_all add: np_new_def ef_serialize_def)
  from eh_parse_enc [OF this, of "ef_header f0"] show ?thesis by (auto simp: ef_parse_def)
qed

section \<open>Properties\<close>

text \<open>
  Ethernet round trip: a frame that is serialized and parsed again has its header back, and its
  payload in one buffer.
\<close>

theorem ethernet_frame_roundtrip:
  "\<exists>b. ef_parse (buf_of_string (bl_concatenate (ef_serialize f))) f0 =
     Inr (NoError, f0\<lparr>ef_header := ef_header f, ef_payload := [b]\<rparr>) \<and> buf_str b = bl_concatenate (ef_payload f)"
  by (rule ef_parse_serialized) simp

text \<open>
  (C37) The ARP codec is exact: \<open>parse\<close> never throws, and it accepts a buffer if and only if the buffer
  starts with the serialization of a supported message, which is then the message returned.
\<close>

theorem arp_codec_exact:
  "(\<exists>res m. arp_parse b m0 = Inr (res, m)) \<and>
   (arp_parse b m0 = Inr (NoError, m) \<longleftrightarrow>
      (\<exists>s rest. arp_serialize m = Inr s \<and> buf_str b = s @ rest))"
proof -
  have "arp_parse b m0 = Inr (NoError, m)" if "arp_serialize m = Inr s" "buf_str b = s @ rest" for s rest
  proof -
    have "arp_supported m" using that(1) by (auto simp: arp_serialize_def split: if_splits)
    then show ?thesis using arp_parse_enc that arp_serialize_eq by auto
  qed
  then show ?thesis using arp_parse_total arp_parse_canonical arp_serialize_eq by blast
qed

text \<open>
  \<open>EthernetFrame::parse\<close> drops the result of \<open>EthernetHeader::parse\<close>: a buffer too short for a
  header is accepted without error, with the header left as it was and all its bytes as payload.
\<close>

theorem ethernet_short_frame_accepted:
  assumes "length (buf_str b) < 14"
  shows "ef_parse b f = Inr (NoError, f\<lparr>ef_payload := [b]\<rparr>)"
  using assms by (simp add: ef_parse_def eh_parse_def np_new_def buf_size_def)

theorem ethernet_short_frame_accepted_witness:
  "ef_parse (buf_of_string [1, 2, 3]) ef_new = Inr (NoError, ef_new\<lparr>ef_payload := [buf_of_string [1, 2, 3]]\<rparr>)"
  by (rule ethernet_short_frame_accepted) simp

end
