(* ===== verification/Checksum.thy ===== *)
theory Checksum
  imports Sponge_Prelude
begin

text \<open>
  Model of \<open>InternetChecksum\<close> (\<open>util/util.hh\<close>, \<open>util/util.cc\<close>): a 32-bit accumulator of 16-bit
  big-endian units, with a parity bit that lets the data arrive in pieces of any length.
\<close>

section \<open>State and operations\<close>

record internet_checksum =
  ck_sum :: u32
  ck_parity :: bool

definition ck_new :: "u32 \<Rightarrow> internet_checksum" where
  "ck_new initial_sum = \<lparr>ck_sum = initial_sum, ck_parity = False\<rparr>"

fun ck_add :: "bytes \<Rightarrow> internet_checksum \<Rightarrow> internet_checksum" where
  "ck_add [] c = c"
| "ck_add (b # data) c =
     (let val = (ucast b :: u16);
          val = (if \<not> ck_parity c then push_bit 8 val else val)
      in ck_add data (c\<lparr>ck_sum := ck_sum c + ucast val, ck_parity := \<not> ck_parity c\<rparr>))"

lemma fold_decreases:
  assumes "\<not> ret \<le> (0xffff :: u32)"
  shows "unat (drop_bit 16 ret + (ret AND 0xffff)) = unat ret div 65536 + unat ret mod 65536"
    "unat ret div 65536 + unat ret mod 65536 < unat ret"
proof -
  let ?n = "unat ret"
  have m: "ret AND 0xffff = take_bit 16 ret"
    by (simp add: take_bit_eq_mask mask_eq_exp_minus_1)
  have b: "?n div 65536 < 65536" "?n mod 65536 < 65536" using unat_lt32 [of ret] by linarith+
  show "unat (drop_bit 16 ret + (ret AND 0xffff)) = ?n div 65536 + ?n mod 65536"
    unfolding m using b
    by (subst unat_add32) (simp_all add: unat_div_distrib unat_mod_distrib take_bit_eq_mod drop_bit_eq_div)
  have "65536 \<le> ?n" using assms by (simp add: word_le_nat_alt)
  then have "1 \<le> ?n div 65536" by simp
  moreover have "?n = 65536 * (?n div 65536) + ?n mod 65536" by simp
  ultimately show "?n div 65536 + ?n mod 65536 < ?n" by linarith
qed

function ck_fold :: "u32 \<Rightarrow> u32" where
  "ck_fold ret = (if ret > 0xffff then ck_fold (drop_bit 16 ret + (ret AND 0xffff)) else ret)"
  by pat_completeness auto
termination
  by (relation "measure unat") (auto simp: fold_decreases not_le)

declare ck_fold.simps [simp del]

definition ck_value :: "internet_checksum \<Rightarrow> u16" where
  "ck_value c = ucast (NOT (ck_fold (ck_sum c)))"

section \<open>The sum as a number\<close>

text \<open>\<open>byte_sum low data\<close> is the integer sum of the 16-bit units; \<open>low\<close>: the first byte is a low one.\<close>

fun byte_sum :: "bool \<Rightarrow> bytes \<Rightarrow> nat" where
  "byte_sum low [] = 0"
| "byte_sum low (b # data) = (if low then unat b else 256 * unat b) + byte_sum (\<not> low) data"

lemma byte_sum_append:
  "byte_sum low (xs @ ys) = byte_sum low xs + byte_sum (low = even (length xs)) ys"
proof (induction xs arbitrary: low)
  case (Cons x xs)
  then show ?case by (cases low) simp_all
qed simp

lemma byte_sum_bound: "byte_sum low data \<le> 65280 * length data"
proof (induction data arbitrary: low)
  case Nil
  then show ?case by simp
next
  case (Cons b data)
  have "unat b \<le> 255" using unat_lt8 [of b] by linarith
  then show ?case using Cons.IH [of "\<not> low"] by auto
qed

lemma ck_add_append: "ck_add (xs @ ys) c = ck_add ys (ck_add xs c)"
  by (induction xs arbitrary: c) (auto simp: Let_def)

lemma ck_add_sum:
  assumes "unat (ck_sum c) + byte_sum (ck_parity c) data < 2 ^ 32"
  shows "unat (ck_sum (ck_add data c)) = unat (ck_sum c) + byte_sum (ck_parity c) data"
    "ck_parity (ck_add data c) = (ck_parity c = even (length data))"
proof -
  have "unat (ck_sum (ck_add data c)) = unat (ck_sum c) + byte_sum (ck_parity c) data \<and>
      ck_parity (ck_add data c) = (ck_parity c = even (length data))"
    using assms
  proof (induction data arbitrary: c)
    case Nil
    then show ?case by simp
  next
    case (Cons b data)
    let ?v = "if ck_parity c then ucast b else push_bit 8 (ucast b) :: u16"
    let ?n = "if ck_parity c then unat b else 256 * unat b"
    have "unat b * 256 < 65536" "unat b < 65536" using unat_lt8 [of b] by linarith+
    then have v: "unat (ucast ?v :: u32) = ?n"
      by (simp add: unat_ucast_mod push_bit_eq_mult unat_word_ariths unat_lt8 mult.commute)
    have "?n + byte_sum (\<not> ck_parity c) data + unat (ck_sum c) < 2 ^ 32" using Cons.prems by simp
    then have "unat (ck_sum c + ucast ?v) = unat (ck_sum c) + ?n"
      using v by (subst unat_add32) simp_all
    then show ?case
      using Cons.IH [of "c\<lparr>ck_sum := ck_sum c + ucast ?v, ck_parity := \<not> ck_parity c\<rparr>"] Cons.prems
      by (simp add: Let_def split: if_splits)
  qed
  then show "unat (ck_sum (ck_add data c)) = unat (ck_sum c) + byte_sum (ck_parity c) data"
    "ck_parity (ck_add data c) = (ck_parity c = even (length data))" by simp_all
qed

section \<open>Folding\<close>

lemma ck_fold_facts:
  "unat (ck_fold s) \<le> 65535 \<and> unat (ck_fold s) mod 65535 = unat s mod 65535 \<and>
   (unat (ck_fold s) = 0 \<longleftrightarrow> unat s = 0)"
proof (induction s rule: ck_fold.induct)
  case (1 s)
  let ?n = "unat s"
  show ?case
  proof (cases "s > 0xffff")
    case True
    let ?s = "drop_bit 16 s + (s AND 0xffff)"
    have u: "unat ?s = ?n div 65536 + ?n mod 65536" using True fold_decreases(1) [of s] by (simp add: not_le)
    have "?n = 65536 * (?n div 65536) + ?n mod 65536" by simp
    then have "?n = unat ?s + 65535 * (?n div 65536)" using u by linarith
    then have "?n mod 65535 = unat ?s mod 65535" by (metis mod_mult_self2)
    moreover have "unat ?s \<noteq> 0" "?n \<noteq> 0"
      using True u by (auto simp: word_less_nat_alt div_eq_0_iff)
    ultimately show ?thesis using "1.IH" [OF True] True by (simp add: ck_fold.simps [of s])
  next
    case False
    then show ?thesis by (simp add: ck_fold.simps [of s] word_less_nat_alt)
  qed
qed

lemma unat_ck_value: "unat (ck_value c) = 65535 - unat (ck_fold (ck_sum c))"
proof -
  let ?f = "ck_fold (ck_sum c)"
  have le: "unat ?f \<le> 65535" using ck_fold_facts by blast
  have "NOT ?f = - 1 - ?f" by (simp add: not_eq_complement)
  then have "unat (NOT ?f) = 2 ^ 32 - 1 - unat ?f"
    by (simp add: unat_sub unsigned_minus_1_eq_mask mask_eq_exp_minus_1)
  then have "unat (NOT ?f) = 65536 * 65535 + (65535 - unat ?f)" using le by simp
  then have "unat (NOT ?f) mod 65536 = (65535 - unat ?f) mod 65536" by (metis mod_mult_self4)
  then show ?thesis by (simp add: ck_value_def unat_ucast_mod)
qed

text \<open>
  The checksum is zero exactly for a non-zero sum that is a multiple of 65535 (the two
  representations of zero in one's complement are identified on the all-ones side).
\<close>

lemma ck_value_zero_iff:
  "ck_value c = 0 \<longleftrightarrow> unat (ck_sum c) \<noteq> 0 \<and> unat (ck_sum c) mod 65535 = 0"
proof -
  let ?f = "unat (ck_fold (ck_sum c))"
  note f = ck_fold_facts [of "ck_sum c"]
  have "ck_value c = 0 \<longleftrightarrow> unat (ck_value c) = 0" by (simp add: unat_eq_zero)
  also have "\<dots> \<longleftrightarrow> ?f = 65535" using f unat_ck_value [of c] by auto
  also have "\<dots> \<longleftrightarrow> ?f \<noteq> 0 \<and> ?f mod 65535 = 0"
  proof
    assume "?f \<noteq> 0 \<and> ?f mod 65535 = 0"
    then obtain k where "?f = 65535 * k" "0 < k" by (metis mod_0_imp_dvd dvdE gr0I mult_0_right)
    then show "?f = 65535" using f by (cases "k = 1") auto
  qed simp
  finally show ?thesis using f by simp
qed

text \<open>Adding the checksum of a sum to that sum gives a sum whose checksum is zero.\<close>

lemma ck_complement:
  assumes "unat (ck_sum d) = unat (ck_sum c) + unat (ck_value c)"
  shows "ck_value d = 0"
proof -
  let ?s = "unat (ck_sum c)"
  note f = ck_fold_facts [of "ck_sum c"]
  have "unat (ck_sum d) + unat (ck_fold (ck_sum c)) = ?s + 65535" using assms f unat_ck_value by simp
  then have "int (unat (ck_sum d)) = (int ?s - int (unat (ck_fold (ck_sum c)))) + 65535" by linarith
  moreover have "int ?s mod int 65535 = int (unat (ck_fold (ck_sum c))) mod int 65535"
    using f by (metis of_nat_mod)
  ultimately have "int 65535 dvd int (unat (ck_sum d))"
    by (simp only: mod_eq_dvd_iff) simp
  then have "unat (ck_sum d) mod 65535 = 0" unfolding int_dvd_int_iff by simp
  moreover have "unat (ck_sum d) \<noteq> 0" using assms f unat_ck_value [of c] by (cases "?s = 0") auto
  ultimately show ?thesis by (simp add: ck_value_zero_iff)
qed

end
