(* ===== verification/Tcp_Segments.thy ===== *)
theory Tcp_Segments
  imports Wrapping_Integers Net_Parser Checksum
begin

text \<open>
  Model of \<open>tcp_helpers/tcp_header\<close> and \<open>tcp_helpers/tcp_segment\<close>: the TCP header and segment, their
  serialization with the Internet checksum, and their parsing.
\<close>

section \<open>Header\<close>

record tcp_header =
  th_sport :: u16
  th_dport :: u16
  th_seqno :: wrapping_int32
  th_ackno :: wrapping_int32
  th_doff :: u8
  th_urg :: bool
  th_ack :: bool
  th_psh :: bool
  th_rst :: bool
  th_syn :: bool
  th_fin :: bool
  th_win :: u16
  th_cksum :: u16
  th_uptr :: u16

definition th_new :: tcp_header where
  "th_new = \<lparr>th_sport = 0, th_dport = 0, th_seqno = 0, th_ackno = 0, th_doff = 5, th_urg = False,
     th_ack = False, th_psh = False, th_rst = False, th_syn = False, th_fin = False, th_win = 0,
     th_cksum = 0, th_uptr = 0\<rparr>"

definition th_parse :: "net_parser \<Rightarrow> exn + (parse_result \<times> tcp_header) \<times> net_parser" where
  "th_parse p =
     bindE (np_u16 p) (\<lambda>(sport, p).
     bindE (np_u16 p) (\<lambda>(dport, p).
     bindE (np_u32 p) (\<lambda>(seqno, p).
     bindE (np_u32 p) (\<lambda>(ackno, p).
     bindE (np_u8 p) (\<lambda>(doff_b, p).
     bindE (np_u8 p) (\<lambda>(fl_b, p).
     bindE (np_u16 p) (\<lambda>(win, p).
     bindE (np_u16 p) (\<lambda>(cksum, p).
     bindE (np_u16 p) (\<lambda>(uptr, p).
       let doff = drop_bit 4 doff_b;
           h = \<lparr>th_sport = sport, th_dport = dport, th_seqno = seqno, th_ackno = ackno,
                th_doff = doff,
                th_urg = (fl_b AND 0b00100000 \<noteq> 0), th_ack = (fl_b AND 0b00010000 \<noteq> 0),
                th_psh = (fl_b AND 0b00001000 \<noteq> 0), th_rst = (fl_b AND 0b00000100 \<noteq> 0),
                th_syn = (fl_b AND 0b00000010 \<noteq> 0), th_fin = (fl_b AND 0b00000001 \<noteq> 0),
                th_win = win, th_cksum = cksum, th_uptr = uptr\<rparr>
       in if doff < 5 then Inr ((HeaderTooShort, h), p)
          else bindE (np_remove_prefix (unat doff * 4 - 20) p) (\<lambda>p.
                 if np_has_error p then Inr ((np_error p, h), p) else Inr ((NoError, h), p)))))))))))"

definition th_flags :: "tcp_header \<Rightarrow> u8" where
  "th_flags h = (if th_urg h then 0b00100000 else 0) OR (if th_ack h then 0b00010000 else 0) OR
     (if th_psh h then 0b00001000 else 0) OR (if th_rst h then 0b00000100 else 0) OR
     (if th_syn h then 0b00000010 else 0) OR (if th_fin h then 0b00000001 else 0)"

text \<open>\<open>std::string::resize\<close>.\<close>

definition str_resize :: "nat \<Rightarrow> bytes \<Rightarrow> bytes" where
  "str_resize n s = take n s @ replicate (n - length s) 0"

definition th_serialize :: "tcp_header \<Rightarrow> exn + bytes" where
  "th_serialize h =
     (if th_doff h < 5 then Inl (RuntimeError ''TCP header too short'')
      else
        let ret = [];
            ret = nu_u16 ret (th_sport h);
            ret = nu_u16 ret (th_dport h);
            ret = nu_u32 ret (th_seqno h);
            ret = nu_u32 ret (th_ackno h);
            ret = nu_u8 ret (push_bit 4 (th_doff h));
            ret = nu_u8 ret (th_flags h);
            ret = nu_u16 ret (th_win h);
            ret = nu_u16 ret (th_cksum h);
            ret = nu_u16 ret (th_uptr h)
        in Inr (str_resize (4 * unat (th_doff h)) ret))"

definition th_eq :: "tcp_header \<Rightarrow> tcp_header \<Rightarrow> bool" where
  "th_eq a b \<longleftrightarrow> th_seqno a = th_seqno b \<and> th_ackno a = th_ackno b \<and> th_doff a = th_doff b \<and>
     th_urg a = th_urg b \<and> th_ack a = th_ack b \<and> th_psh a = th_psh b \<and> th_rst a = th_rst b \<and>
     th_syn a = th_syn b \<and> th_fin a = th_fin b \<and> th_win a = th_win b \<and> th_uptr a = th_uptr b"

section \<open>Segment\<close>

record tcp_segment =
  seg_header :: tcp_header
  seg_payload :: buffer

definition seg_new :: tcp_segment where
  "seg_new = \<lparr>seg_header = th_new, seg_payload = buf_empty\<rparr>"

definition seg_parse :: "buffer \<Rightarrow> u32 \<Rightarrow> tcp_segment \<Rightarrow> exn + parse_result \<times> tcp_segment" where
  "seg_parse buffer datagram_layer_checksum seg =
     (let check = ck_add (buf_str buffer) (ck_new datagram_layer_checksum)
      in if ck_value check \<noteq> 0 then Inr (BadChecksum, seg)
         else bindE (th_parse (np_new buffer)) (\<lambda>((_, h), p).
                Inr (np_error p, seg\<lparr>seg_header := h, seg_payload := np_buffer p\<rparr>)))"

definition length_in_sequence_space :: "tcp_segment \<Rightarrow> nat" where
  "length_in_sequence_space seg =
     length (buf_str (seg_payload seg)) + (if th_syn (seg_header seg) then 1 else 0) +
     (if th_fin (seg_header seg) then 1 else 0)"

definition seg_serialize :: "u32 \<Rightarrow> tcp_segment \<Rightarrow> exn + buffer_list" where
  "seg_serialize datagram_layer_checksum seg =
     (let header_out = (seg_header seg)\<lparr>th_cksum := 0\<rparr>
      in bindE (th_serialize header_out) (\<lambda>hs.
           let check = ck_add (buf_str (seg_payload seg)) (ck_add hs (ck_new datagram_layer_checksum));
               header_out = header_out\<lparr>th_cksum := ck_value check\<rparr>
           in bindE (th_serialize header_out) (\<lambda>hs.
                Inr (bl_append (bl_append [] (bl_of_string hs)) [seg_payload seg]))))"

section \<open>The header as a wire format\<close>

definition th_ok :: "tcp_header \<Rightarrow> bool" where
  "th_ok h \<longleftrightarrow> 5 \<le> th_doff h \<and> th_doff h < 16"

definition th_bytes :: "tcp_header \<Rightarrow> bytes" where
  "th_bytes h = be16 (th_sport h) @ be16 (th_dport h) @ be32 (th_seqno h) @ be32 (th_ackno h) @
     [push_bit 4 (th_doff h)] @ [th_flags h] @ be16 (th_win h) @ be16 (th_cksum h) @
     be16 (th_uptr h) @ replicate (4 * unat (th_doff h) - 20) 0"

lemma str_resize_grow: "length s \<le> n \<Longrightarrow> str_resize n s = s @ replicate (n - length s) 0"
  by (simp add: str_resize_def)

lemma th_serialize_eq:
  "th_serialize h = (if th_doff h < 5 then Inl (RuntimeError ''TCP header too short'') else Inr (th_bytes h))"
proof -
  have "\<not> th_doff h < 5 \<Longrightarrow> 20 \<le> 4 * unat (th_doff h)" by (simp add: word_less_nat_alt)
  then show ?thesis
    by (simp add: th_serialize_def th_bytes_def nu_ints str_resize_grow Let_def)
qed

lemma th_bytes_length: "\<not> th_doff h < 5 \<Longrightarrow> length (th_bytes h) = 4 * unat (th_doff h)"
  by (simp add: th_bytes_def word_less_nat_alt)

lemma th_flags_bits [simp]:
  "(th_flags h AND 0b00100000 \<noteq> 0) = th_urg h" "(th_flags h AND 0b00010000 \<noteq> 0) = th_ack h"
  "(th_flags h AND 0b00001000 \<noteq> 0) = th_psh h" "(th_flags h AND 0b00000100 \<noteq> 0) = th_rst h"
  "(th_flags h AND 0b00000010 \<noteq> 0) = th_syn h" "(th_flags h AND 0b00000001 \<noteq> 0) = th_fin h"
  by (simp_all add: th_flags_def)

lemma doff_shift: "(d :: u8) < 16 \<Longrightarrow> drop_bit 4 (push_bit 4 d) = d"
  by (simp add: word_unat_eq_iff word_less_nat_alt push_bit_eq_mult drop_bit_eq_div
      unat_div_distrib unat_word_ariths)


lemma th_parse_enc:
  assumes "th_ok h" "np_error p = NoError" "np_rest p = th_bytes h @ rest"
  shows "\<exists>p'. th_parse p = Inr ((NoError, h), p') \<and> np_error p' = NoError \<and> np_rest p' = rest"
proof -
  let ?Q = "\<lambda>m. \<exists>p'. m = Inr ((NoError, h), p') \<and> np_error p' = NoError \<and> np_rest p' = rest"
  let ?pad = "replicate (4 * unat (th_doff h) - 20) (0 :: u8)"
  have r: "np_rest p = be16 (th_sport h) @ be16 (th_dport h) @ be32 (th_seqno h) @ be32 (th_ackno h) @
      [push_bit 4 (th_doff h)] @ [th_flags h] @ be16 (th_win h) @ be16 (th_cksum h) @
      be16 (th_uptr h) @ ?pad @ rest" using assms(3) by (simp add: th_bytes_def)
  have d: "\<not> th_doff h < 5" "drop_bit 4 (push_bit 4 (th_doff h)) = th_doff h"
    using assms(1) doff_shift by (auto simp: th_ok_def)
  note steps = u16.step [where Q = ?Q] u32.step [where Q = ?Q] u8.step [where Q = ?Q]
  show ?thesis
    unfolding th_parse_def
    by (insert assms(2) r, (rule steps, assumption, assumption, rule TrueI)+)
      (simp add: d Let_def, rule np_remove_prefix_step [where Q = ?Q], auto simp: np_has_error_def)
qed

interpretation tcp_header: wire_format "\<lambda>(res, h). th_bytes h" th_parse
  "\<lambda>(res, h). res = NoError \<and> th_ok h"
  by unfold_locales (use th_parse_enc in \<open>auto split: prod.splits\<close>)

section \<open>The checksum of a segment\<close>

lemma byte_sum_field:
  assumes "even (length xs)"
  shows "byte_sum False (xs @ be16 c @ ys) = byte_sum False (xs @ be16 0 @ ys) + unat c"
proof -
  have "byte_sum False (be16 w) = unat w" for w
    using unat_be16 [of w] by (simp add: be16_def)
  then show ?thesis using assms by (simp add: byte_sum_append)
qed

lemma th_bytes_cksum:
  "byte_sum False (th_bytes (h\<lparr>th_cksum := c\<rparr>) @ ys) = byte_sum False (th_bytes (h\<lparr>th_cksum := 0\<rparr>) @ ys) + unat c"
proof -
  let ?xs = "be16 (th_sport h) @ be16 (th_dport h) @ be32 (th_seqno h) @ be32 (th_ackno h) @
     [push_bit 4 (th_doff h)] @ [th_flags h] @ be16 (th_win h)"
  let ?ys = "be16 (th_uptr h) @ replicate (4 * unat (th_doff h) - 20) 0 @ ys"
  have "th_bytes (h\<lparr>th_cksum := w\<rparr>) @ ys = ?xs @ be16 w @ ?ys" for w
    by (simp add: th_bytes_def th_flags_def)
  moreover have "even (length ?xs)" by simp
  ultimately show ?thesis using byte_sum_field [of ?xs c ?ys] by presburger
qed

lemma ck_sum_data:
  assumes "unat d + byte_sum False data < 2 ^ 32"
  shows "unat (ck_sum (ck_add data (ck_new d))) = unat d + byte_sum False data"
  using ck_add_sum(1) [of "ck_new d" data] assms by (simp add: ck_new_def)

text \<open>
  Serialization fills the checksum field so that the checksum over the whole segment, started from the
  same pseudo-header sum, is zero.
\<close>

lemma seg_serialize_facts:
  assumes "\<not> th_doff (seg_header seg) < 5"
  obtains c where
    "seg_serialize d seg = Inr [buf_of_string (th_bytes ((seg_header seg)\<lparr>th_cksum := c\<rparr>)), seg_payload seg]"
    "unat d + 65280 * (4 * unat (th_doff (seg_header seg)) + length (buf_str (seg_payload seg))) < 2 ^ 32 \<Longrightarrow>
     ck_value (ck_add (th_bytes ((seg_header seg)\<lparr>th_cksum := c\<rparr>) @ buf_str (seg_payload seg)) (ck_new d)) = 0"
proof -
  let ?h = "seg_header seg" and ?pl = "buf_str (seg_payload seg)"
  let ?hb = "\<lambda>w. th_bytes (?h\<lparr>th_cksum := w\<rparr>)"
  define check where "check = ck_add ?pl (ck_add (?hb 0) (ck_new d))"
  have ser: "seg_serialize d seg = Inr [buf_of_string (?hb (ck_value check)), seg_payload seg]"
    using assms by (simp add: seg_serialize_def th_serialize_eq Let_def check_def bl_of_string_def)
  have "ck_value (ck_add (?hb (ck_value check) @ ?pl) (ck_new d)) = 0"
    if small: "unat d + 65280 * (4 * unat (th_doff ?h) + length ?pl) < 2 ^ 32"
  proof -
    have len: "length (?hb w @ ?pl) = 4 * unat (th_doff ?h) + length ?pl" for w
      using assms by (simp add: th_bytes_length)
    have bound: "unat d + byte_sum False (?hb w @ ?pl) < 2 ^ 32" for w
      using byte_sum_bound [of False "?hb w @ ?pl"] small unfolding len by linarith
    have "unat (ck_sum check) = unat d + byte_sum False (?hb 0 @ ?pl)"
      using ck_sum_data [OF bound] by (simp add: check_def ck_add_append)
    then have "unat (ck_sum (ck_add (?hb (ck_value check) @ ?pl) (ck_new d))) =
        unat (ck_sum check) + unat (ck_value check)"
      using ck_sum_data [OF bound] th_bytes_cksum [where h = ?h and c = "ck_value check" and ys = ?pl] by simp
    then show ?thesis by (rule ck_complement)
  qed
  then show thesis using ser by (intro that [of "ck_value check"])
qed

text \<open>Changing one byte changes the sum by a non-multiple of 65535.\<close>

lemma byte_sum_update:
  assumes "i < length xs"
  shows "byte_sum low (xs[i := b]) + (if low = even i then unat (xs ! i) else 256 * unat (xs ! i)) =
    byte_sum low xs + (if low = even i then unat b else 256 * unat b)"
  using assms
proof (induction xs arbitrary: low i)
  case (Cons x xs)
  show ?case
  proof (cases i)
    case 0
    then show ?thesis by simp
  next
    case (Suc j)
    then show ?thesis using Cons.IH [of j "\<not> low"] Cons.prems by (cases low) auto
  qed
qed simp

lemma ck_detects_byte:
  assumes "unat d + 65280 * length xs < 2 ^ 32" "i < length xs" "b \<noteq> xs ! i"
    and "ck_value (ck_add xs (ck_new d)) = 0"
  shows "ck_value (ck_add (xs[i := b]) (ck_new d)) \<noteq> 0"
proof
  assume z': "ck_value (ck_add (xs[i := b]) (ck_new d)) = 0"
  define f :: nat where "f = (if even i then 256 else 1)"
  define B X s s' where "B = unat b" and "X = unat (xs ! i)"
    and "s = unat d + byte_sum False xs" and "s' = unat d + byte_sum False (xs[i := b])"
  have bound: "unat d + byte_sum False ys < 2 ^ 32" if "length ys = length xs" for ys
    using byte_sum_bound [of False ys] assms(1) that by simp
  have "65535 dvd s" "65535 dvd s'"
    using assms(4) z' ck_sum_data [OF bound] by (auto simp: ck_value_zero_iff s_def s'_def)
  moreover have "s' + f * X = s + f * B"
    using byte_sum_update [OF assms(2), of False b] by (auto simp: f_def B_def X_def s_def s'_def)
  ultimately have "65535 dvd f * B \<longleftrightarrow> 65535 dvd f * X" "f * B mod 65535 = f * X mod 65535"
    by (metis dvd_add_right_iff, metis dvd_imp_mod_0 mod_add_left_eq add_0)
  moreover have "f * B < 65535" "f * X < 65535"
  proof -
    have "B \<le> 255" "X \<le> 255" using unat_lt8 [of b] unat_lt8 [of "xs ! i"] unfolding B_def X_def by linarith+
    then show "f * B < 65535" "f * X < 65535" by (simp_all add: f_def)
  qed
  ultimately have "f * B = f * X" by simp
  then show False using assms(3) by (auto simp: f_def B_def X_def word_unat_eq_iff split: if_splits)
qed

lemma seg_roundtrip:
  assumes "th_ok (seg_header seg)" "unat d < 2 ^ 24"
    and "4 * unat (th_doff (seg_header seg)) + length (buf_str (seg_payload seg)) < 2 ^ 16"
  obtains bl c where "seg_serialize d seg = Inr bl"
    "bl_size bl = 4 * unat (th_doff (seg_header seg)) + length (buf_str (seg_payload seg))"
    "\<forall>b seg0. buf_str b = bl_concatenate bl \<longrightarrow> (\<exists>seg'. seg_parse b d seg0 = Inr (NoError, seg') \<and>
      seg_header seg' = (seg_header seg)\<lparr>th_cksum := c\<rparr> \<and> buf_str (seg_payload seg') = buf_str (seg_payload seg))"
proof -
  let ?pl = "buf_str (seg_payload seg)"
  have ok: "\<not> th_doff (seg_header seg) < 5" using assms(1) by (auto simp: th_ok_def)
  obtain c where ser: "seg_serialize d seg =
        Inr [buf_of_string (th_bytes ((seg_header seg)\<lparr>th_cksum := c\<rparr>)), seg_payload seg]"
      and z: "ck_value (ck_add (th_bytes ((seg_header seg)\<lparr>th_cksum := c\<rparr>) @ ?pl) (ck_new d)) = 0"
    by (rule seg_serialize_facts [OF ok, of d]) (use assms(2,3) in simp)
  let ?h = "(seg_header seg)\<lparr>th_cksum := c\<rparr>"
  have parse: "\<exists>seg'. seg_parse b d seg0 = Inr (NoError, seg') \<and> seg_header seg' = ?h \<and> buf_str (seg_payload seg') = ?pl"
    if b: "buf_str b = bl_concatenate [buf_of_string (th_bytes ?h), seg_payload seg]" for b and seg0 :: tcp_segment
  proof -
    have "th_ok ?h" "np_error (np_new b) = NoError" "np_rest (np_new b) = th_bytes ?h @ ?pl"
      using assms(1) b by (simp_all add: th_ok_def np_new_def)
    from th_parse_enc [OF this] obtain p' where
      "th_parse (np_new b) = Inr ((NoError, ?h), p')" "np_error p' = NoError" "np_rest p' = ?pl" by blast
    then show ?thesis using z b by (auto simp: seg_parse_def)
  qed
  have "bl_size [buf_of_string (th_bytes ?h), seg_payload seg] = 4 * unat (th_doff (seg_header seg)) + length ?pl"
    using th_bytes_length [of ?h] ok by (simp add: bl_size_eq)
  then show thesis by (rule that [OF ser]) (use parse in blast)
qed

section \<open>Properties\<close>

text \<open>
  (C35) Round trip: a segment whose header length is a legal one is serialized without error, and
  parsing the bytes with the same pseudo-header sum succeeds and gives back the header (with the
  checksum filled in) and the payload.
\<close>

theorem tcp_segment_roundtrip:
  assumes "th_ok (seg_header seg)" "unat d < 2 ^ 24"
    and "4 * unat (th_doff (seg_header seg)) + length (buf_str (seg_payload seg)) < 2 ^ 16"
  shows "\<exists>bl c seg'. seg_serialize d seg = Inr bl \<and>
    seg_parse (buf_of_string (bl_concatenate bl)) d seg0 = Inr (NoError, seg') \<and>
    seg_header seg' = (seg_header seg)\<lparr>th_cksum := c\<rparr> \<and>
    buf_str (seg_payload seg') = buf_str (seg_payload seg)"
  by (rule seg_roundtrip [OF assms, of ?thesis]) (meson buf_str_of_string)

theorem tcp_segment_roundtrip_witness:
  "\<exists>bl c seg'. seg_serialize 1000 (seg_new\<lparr>seg_payload := buf_of_string [1, 2, 3]\<rparr>) = Inr bl \<and>
    seg_parse (buf_of_string (bl_concatenate bl)) 1000 seg_new = Inr (NoError, seg') \<and>
    seg_header seg' = th_new\<lparr>th_cksum := c\<rparr> \<and> buf_str (seg_payload seg') = [1, 2, 3]"
  using tcp_segment_roundtrip [of "seg_new\<lparr>seg_payload := buf_of_string [1, 2, 3]\<rparr>" 1000 seg_new]
  by (simp add: seg_new_def th_new_def th_ok_def)

text \<open>
  (C36) Every corruption of a single byte is detected: if \<open>TCPSegment::parse\<close> does not reject a buffer
  for its checksum, it rejects the buffer in which any one byte is replaced by another value, and
  leaves the segment untouched.
\<close>

theorem tcp_corruption_detected:
  assumes "unat d < 2 ^ 24" "length bytes < 2 ^ 16" "i < length bytes" "b \<noteq> bytes ! i"
    and "seg_parse (buf_of_string bytes) d seg = Inr (res, seg')" "res \<noteq> BadChecksum"
  shows "seg_parse (buf_of_string (bytes[i := b])) d seg = Inr (BadChecksum, seg)"
proof -
  have "ck_value (ck_add bytes (ck_new d)) = 0"
    using assms(5,6) by (auto simp: seg_parse_def Let_def split: if_splits)
  then have "ck_value (ck_add (bytes[i := b]) (ck_new d)) \<noteq> 0"
    using assms(1-4) by (intro ck_detects_byte) auto
  then show ?thesis by (simp add: seg_parse_def)
qed

theorem tcp_corruption_detected_witness:
  "seg_parse (buf_of_string (replicate 16 0 @ [248, 254, 0, 0, 7])) 0 seg_new = Inr (BadChecksum, seg_new)"
proof -
  let ?b = "replicate 16 0 @ [248, 255, 0, 0, 7] :: bytes"
  have "case seg_parse (buf_of_string ?b) 0 seg_new of Inr (res, _) \<Rightarrow> res \<noteq> BadChecksum | Inl e \<Rightarrow> False"
    by code_simp
  then obtain res seg where p: "seg_parse (buf_of_string ?b) 0 seg_new = Inr (res, seg)" "res \<noteq> BadChecksum"
    by (auto split: sum.splits prod.splits)
  have "seg_parse (buf_of_string (?b[17 := 254])) 0 seg_new = Inr (BadChecksum, seg_new)"
    by (rule tcp_corruption_detected [OF _ _ _ _ p]) (simp_all add: nth_append)
  then show ?thesis by (simp add: list_update_append)
qed

text \<open>
  \<open>TCPSegment::parse\<close> reports \<open>NoError\<close> for a header whose data offset is below the minimum:
  the \<open>HeaderTooShort\<close> result of \<open>TCPHeader::parse\<close> is not looked at.
\<close>

theorem tcp_short_header_accepted:
  "case seg_parse (buf_of_string (replicate 16 0 @ [248, 255, 0, 0, 7])) 0 seg_new of
     Inr (res, seg) \<Rightarrow> res = NoError \<and> th_doff (seg_header seg) = 0 \<and> buf_str (seg_payload seg) = [7]
   | Inl e \<Rightarrow> False"
  by code_simp

end
