(* ===== verification/Ipv4.thy ===== *)
theory Ipv4
  imports Wire_Formats Text_Format Tcp_Segments
begin

text \<open>
  Model of \<open>tcp_helpers/ipv4_header\<close> and \<open>tcp_helpers/ipv4_datagram\<close>: the IPv4 header with its
  checksum, and datagrams.
\<close>

section \<open>Header\<close>

definition IP_LENGTH :: nat where "IP_LENGTH = 20"
definition DEFAULT_TTL :: u8 where "DEFAULT_TTL = 128"
definition PROTO_TCP :: u8 where "PROTO_TCP = 6"

record ipv4_header =
  ip_ver :: u8
  ip_hlen :: u8
  ip_tos :: u8
  ip_len :: u16
  ip_id :: u16
  ip_df :: bool
  ip_mf :: bool
  ip_offset :: u16
  ip_ttl :: u8
  ip_proto :: u8
  ip_cksum :: u16
  ip_src :: u32
  ip_dst :: u32

definition ip_new :: ipv4_header where
  "ip_new = \<lparr>ip_ver = 4, ip_hlen = 5, ip_tos = 0, ip_len = 0, ip_id = 0, ip_df = True, ip_mf = False,
     ip_offset = 0, ip_ttl = DEFAULT_TTL, ip_proto = PROTO_TCP, ip_cksum = 0, ip_src = 0, ip_dst = 0\<rparr>"

text \<open>The checks at the end of \<open>parse\<close>, once all fields are read.\<close>

definition ip_check :: "bytes \<Rightarrow> ipv4_header \<Rightarrow> net_parser \<Rightarrow> exn + (parse_result \<times> ipv4_header) \<times> net_parser" where
  "ip_check original h p =
     (let data_size = length original
      in if data_size < 4 * unat (ip_hlen h) then Inr ((PacketTooShort, h), p)
         else if ip_ver h \<noteq> 4 then Inr ((WrongIPVersion, h), p)
         else if ip_hlen h < 5 then Inr ((HeaderTooShort, h), p)
         else if data_size \<noteq> unat (ip_len h) then Inr ((TruncatedPacket, h), p)
         else bindE (np_remove_prefix (unat (ip_hlen h) * 4 - IP_LENGTH) p) (\<lambda>p.
           if np_has_error p then Inr ((np_error p, h), p)
           else if ck_value (ck_add (take (4 * unat (ip_hlen h)) original) (ck_new 0)) \<noteq> 0
                then Inr ((BadChecksum, h), p)
                else Inr ((NoError, h), p)))"

definition ip_parse :: "ipv4_header \<Rightarrow> net_parser \<Rightarrow> exn + (parse_result \<times> ipv4_header) \<times> net_parser" where
  "ip_parse h0 p0 =
     (let original = buf_str (np_buffer p0)
      in if buf_size (np_buffer p0) < IP_LENGTH then Inr ((PacketTooShort, h0), p0)
         else
           bindE (np_u8 p0) (\<lambda>(first_byte, p).
           bindE (np_u8 p) (\<lambda>(tos, p).
           bindE (np_u16 p) (\<lambda>(len, p).
           bindE (np_u16 p) (\<lambda>(ident, p).
           bindE (np_u16 p) (\<lambda>(fo_val, p).
           bindE (np_u8 p) (\<lambda>(ttl, p).
           bindE (np_u8 p) (\<lambda>(proto, p).
           bindE (np_u16 p) (\<lambda>(cksum, p).
           bindE (np_u32 p) (\<lambda>(src, p).
           bindE (np_u32 p) (\<lambda>(dst, p).
             ip_check original
               \<lparr>ip_ver = drop_bit 4 first_byte, ip_hlen = first_byte AND 0x0f, ip_tos = tos, ip_len = len,
                ip_id = ident, ip_df = (fo_val AND 0x4000 \<noteq> 0), ip_mf = (fo_val AND 0x2000 \<noteq> 0),
                ip_offset = fo_val AND 0x1fff, ip_ttl = ttl, ip_proto = proto, ip_cksum = cksum,
                ip_src = src, ip_dst = dst\<rparr> p)))))))))))"

definition ip_fo_val :: "ipv4_header \<Rightarrow> u16" where
  "ip_fo_val h = (if ip_df h then 0x4000 else 0) OR (if ip_mf h then 0x2000 else 0) OR (ip_offset h AND 0x1fff)"

definition ip_serialize :: "ipv4_header \<Rightarrow> exn + bytes" where
  "ip_serialize h =
     (if ip_ver h \<noteq> 4 then Inl (RuntimeError ''wrong IP version'')
      else if 4 * unat (ip_hlen h) < IP_LENGTH then Inl (RuntimeError ''IP header too short'')
      else
        let ret = [];
            first_byte = push_bit 4 (ip_ver h) OR (ip_hlen h AND 0xf);
            ret = nu_u8 ret first_byte;
            ret = nu_u8 ret (ip_tos h);
            ret = nu_u16 ret (ip_len h);
            ret = nu_u16 ret (ip_id h);
            ret = nu_u16 ret (ip_fo_val h);
            ret = nu_u8 ret (ip_ttl h);
            ret = nu_u8 ret (ip_proto h);
            ret = nu_u16 ret (ip_cksum h);
            ret = nu_u32 ret (ip_src h);
            ret = nu_u32 ret (ip_dst h)
        in Inr (str_resize (4 * unat (ip_hlen h)) ret))"

definition ip_payload_length :: "ipv4_header \<Rightarrow> u16" where
  "ip_payload_length h = ip_len h - 4 * ucast (ip_hlen h)"

definition ip_pseudo_cksum :: "ipv4_header \<Rightarrow> u32" where
  "ip_pseudo_cksum h =
     (let pcksum = drop_bit 16 (ip_src h) + (ip_src h AND 0xffff);
          pcksum = pcksum + (drop_bit 16 (ip_dst h) + (ip_dst h AND 0xffff));
          pcksum = pcksum + ucast (ip_proto h);
          pcksum = pcksum + ucast (ip_payload_length h)
      in pcksum)"

definition ip_to_string :: "ipv4_header \<Rightarrow> string" where
  "ip_to_string h =
     ''IP version: '' @ hex_string (unat (ip_ver h)) @ [CHR 0x0A] @
     ''IP hdr len: '' @ hex_string (unat (ip_hlen h)) @ [CHR 0x0A] @
     ''IP tos: '' @ hex_string (unat (ip_tos h)) @ [CHR 0x0A] @
     ''IP dgram len: '' @ hex_string (unat (ip_len h)) @ [CHR 0x0A] @
     ''IP id: '' @ hex_string (unat (ip_id h)) @ [CHR 0x0A] @
     ''Flags: df: '' @ bool_alpha (ip_df h) @ '' mf: '' @ bool_alpha (ip_mf h) @ [CHR 0x0A] @
     ''Offset: '' @ hex_string (unat (ip_offset h)) @ [CHR 0x0A] @
     ''TTL: '' @ hex_string (unat (ip_ttl h)) @ [CHR 0x0A] @
     ''Protocol: '' @ hex_string (unat (ip_proto h)) @ [CHR 0x0A] @
     ''Checksum: '' @ hex_string (unat (ip_cksum h)) @ [CHR 0x0A] @
     ''Src addr: '' @ hex_string (unat (ip_src h)) @ [CHR 0x0A] @
     ''Dst addr: '' @ hex_string (unat (ip_dst h)) @ [CHR 0x0A]"

definition ip_summary :: "ipv4_header \<Rightarrow> string" where
  "ip_summary h =
     ''IPv'' @ hex_string (unat (ip_ver h)) @ '', '' @ ''len='' @ hex_string (unat (ip_len h)) @ '', '' @
     ''protocol='' @ hex_string (unat (ip_proto h)) @ '', '' @
     (if ip_ttl h \<ge> 10 then [] else ''ttl='' @ dec_string (unat (ip_ttl h)) @ '', '') @
     ''src='' @ inet_ntoa (ip_src h) @ '', '' @ ''dst='' @ inet_ntoa (ip_dst h)"

text \<open>The text form of a TCP header.\<close>

definition th_to_string :: "tcp_header \<Rightarrow> string" where
  "th_to_string h =
     ''TCP source port: '' @ hex_string (unat (th_sport h)) @ [CHR 0x0A] @
     ''TCP dest port: '' @ hex_string (unat (th_dport h)) @ [CHR 0x0A] @
     ''TCP seqno: '' @ wi_show 16 (th_seqno h) @ [CHR 0x0A] @
     ''TCP ackno: '' @ wi_show 16 (th_ackno h) @ [CHR 0x0A] @
     ''TCP doff: '' @ hex_string (unat (th_doff h)) @ [CHR 0x0A] @
     ''Flags: urg: '' @ bool_alpha (th_urg h) @ '' ack: '' @ bool_alpha (th_ack h) @ '' psh: '' @ bool_alpha (th_psh h) @
     '' rst: '' @ bool_alpha (th_rst h) @ '' syn: '' @ bool_alpha (th_syn h) @ '' fin: '' @ bool_alpha (th_fin h) @ [CHR 0x0A] @
     ''TCP winsize: '' @ hex_string (unat (th_win h)) @ [CHR 0x0A] @
     ''TCP cksum: '' @ hex_string (unat (th_cksum h)) @ [CHR 0x0A] @
     ''TCP uptr: '' @ hex_string (unat (th_uptr h)) @ [CHR 0x0A]"

definition th_summary :: "tcp_header \<Rightarrow> string" where
  "th_summary h =
     ''Header(flags='' @ (if th_syn h then ''S'' else []) @ (if th_ack h then ''A'' else []) @
     (if th_rst h then ''R'' else []) @ (if th_fin h then ''F'' else []) @
     '',seqno='' @ wi_show 10 (th_seqno h) @ '',ack='' @ wi_show 10 (th_ackno h) @
     '',win='' @ dec_string (unat (th_win h)) @ '')''"

section \<open>Datagram\<close>

record ipv4_datagram =
  dg_header :: ipv4_header
  dg_payload :: buffer_list

definition dg_new :: ipv4_datagram where
  "dg_new = \<lparr>dg_header = ip_new, dg_payload = []\<rparr>"

definition dg_parse :: "buffer \<Rightarrow> ipv4_datagram \<Rightarrow> exn + parse_result \<times> ipv4_datagram" where
  "dg_parse buffer d =
     bindE (ip_parse (dg_header d) (np_new buffer)) (\<lambda>((_, h), p).
       let d = d\<lparr>dg_header := h, dg_payload := [np_buffer p]\<rparr>
       in if bl_size (dg_payload d) \<noteq> unat (ip_payload_length h) then Inr (PacketTooShort, d)
          else Inr (np_error p, d))"

definition dg_serialize :: "ipv4_datagram \<Rightarrow> exn + buffer_list" where
  "dg_serialize d =
     (if bl_size (dg_payload d) \<noteq> unat (ip_payload_length (dg_header d))
      then Inl (RuntimeError ''IPv4Datagram::serialize: payload is wrong size'')
      else
        let header_out = (dg_header d)\<lparr>ip_cksum := 0\<rparr>
        in bindE (ip_serialize header_out) (\<lambda>header_zero_checksum.
             let check = ck_add header_zero_checksum (ck_new 0);
                 header_out = header_out\<lparr>ip_cksum := ck_value check\<rparr>
             in bindE (ip_serialize header_out) (\<lambda>hs.
                  Inr (bl_append (bl_append [] (bl_of_string hs)) (dg_payload d)))))"

section \<open>The header as a wire format\<close>

definition ip_ok :: "ipv4_header \<Rightarrow> bool" where
  "ip_ok h \<longleftrightarrow> ip_ver h = 4 \<and> 5 \<le> ip_hlen h \<and> ip_hlen h < 16 \<and> ip_offset h < 0x2000"

definition ip_bytes :: "ipv4_header \<Rightarrow> bytes" where
  "ip_bytes h = [push_bit 4 (ip_ver h) OR (ip_hlen h AND 0xf)] @ [ip_tos h] @ be16 (ip_len h) @ be16 (ip_id h) @
     be16 (ip_fo_val h) @ [ip_ttl h] @ [ip_proto h] @ be16 (ip_cksum h) @ be32 (ip_src h) @ be32 (ip_dst h) @
     replicate (4 * unat (ip_hlen h) - 20) 0"

lemma ip_hlen_nat: "ip_ok h \<Longrightarrow> 20 \<le> 4 * unat (ip_hlen h) \<and> 4 * unat (ip_hlen h) \<le> 60"
  by (simp add: ip_ok_def word_le_nat_alt word_less_nat_alt)

lemma ip_serialize_eq: "ip_ok h \<Longrightarrow> ip_serialize h = Inr (ip_bytes h)"
  using ip_hlen_nat [of h]
  by (simp add: ip_serialize_def ip_bytes_def nu_ints str_resize_grow Let_def ip_ok_def IP_LENGTH_def)

lemma ip_bytes_length:
  assumes "ip_ok h"
  shows "length (ip_bytes h) = 4 * unat (ip_hlen h)"
proof -
  have "length (ip_bytes h) = 20 + (4 * unat (ip_hlen h) - 20)" by (simp add: ip_bytes_def)
  then show ?thesis using ip_hlen_nat [OF assms] by linarith
qed

lemma take_bit_small: "unat (w :: 'a::len word) < 2 ^ n \<Longrightarrow> take_bit n w = w"
  by (simp add: word_unat_eq_iff unsigned_take_bit_eq take_bit_nat_eq_self)

lemma ip_first_byte:
  assumes "ip_ok h"
  shows "drop_bit 4 (push_bit 4 (ip_ver h) OR (ip_hlen h AND 0xf)) = ip_ver h"
    "(push_bit 4 (ip_ver h) OR (ip_hlen h AND 0xf)) AND 0xf = ip_hlen h"
proof -
  have v: "ip_ver h = 4" and l: "take_bit 4 (ip_hlen h) = ip_hlen h"
    using assms by (auto simp: ip_ok_def word_less_nat_alt intro: take_bit_small)
  have m: "x AND 0xf = take_bit 4 x" for x :: u8 by (simp add: take_bit_eq_mask mask_eq_exp_minus_1)
  have "drop_bit 4 (take_bit 4 (ip_hlen h)) = 0" by (simp only: drop_bit_take_bit) simp
  then show "drop_bit 4 (push_bit 4 (ip_ver h) OR (ip_hlen h AND 0xf)) = ip_ver h"
    unfolding m drop_bit_or by (simp add: v)
  show "(push_bit 4 (ip_ver h) OR (ip_hlen h AND 0xf)) AND 0xf = ip_hlen h"
    unfolding m take_bit_or l by (simp add: v)
qed

lemma ip_fo_bits:
  assumes "ip_ok h"
  shows "(ip_fo_val h AND 0x4000 \<noteq> 0) = ip_df h" "(ip_fo_val h AND 0x2000 \<noteq> 0) = ip_mf h"
    "ip_fo_val h AND 0x1fff = ip_offset h"
proof -
  have m: "x AND 0x1fff = take_bit 13 x" for x :: u16 by (simp add: take_bit_eq_mask mask_eq_exp_minus_1)
  have o: "take_bit 13 (ip_offset h) = ip_offset h"
    using assms by (auto simp: ip_ok_def word_less_nat_alt intro: take_bit_small)
  have z: "(ip_offset h AND 0x1fff) AND 0x4000 = 0" "(ip_offset h AND 0x1fff) AND 0x2000 = 0"
    by (simp_all add: and.assoc)
  show "(ip_fo_val h AND 0x4000 \<noteq> 0) = ip_df h" "(ip_fo_val h AND 0x2000 \<noteq> 0) = ip_mf h"
    unfolding ip_fo_val_def bit.conj_disj_distrib2 z by simp_all
  show "ip_fo_val h AND 0x1fff = ip_offset h"
    unfolding ip_fo_val_def bit.conj_disj_distrib2 by (simp add: m o)
qed

lemma ip_check_ok:
  assumes ok: "ip_ok h" and p: "np_error p = NoError" "np_rest p = replicate (4 * unat (ip_hlen h) - 20) 0 @ rest"
    and o: "original = ip_bytes h @ rest" "length original = unat (ip_len h)"
    and ck: "ck_value (ck_add (ip_bytes h) (ck_new 0)) = 0"
  shows "\<exists>p'. ip_check original h p = Inr ((NoError, h), p') \<and> np_error p' = NoError \<and> np_rest p' = rest"
proof -
  let ?Q = "\<lambda>m. \<exists>p'. m = Inr ((NoError, h), p') \<and> np_error p' = NoError \<and> np_rest p' = rest"
  have l: "length (ip_bytes h) = 4 * unat (ip_hlen h)" by (rule ip_bytes_length [OF ok])
  have "?Q (bindE (np_remove_prefix (unat (ip_hlen h) * 4 - IP_LENGTH) p) (\<lambda>p.
      if np_has_error p then Inr ((np_error p, h), p)
      else if ck_value (ck_add (take (4 * unat (ip_hlen h)) original) (ck_new 0)) \<noteq> 0
           then Inr ((BadChecksum, h), p) else Inr ((NoError, h), p)))"
    by (rule np_remove_prefix_step [where Q = ?Q, OF p])
      (use o(1) l ck in \<open>auto simp: IP_LENGTH_def np_has_error_def\<close>)
  moreover have "\<not> length original < 4 * unat (ip_hlen h)" using o(1) l by simp
  ultimately show ?thesis using ok o(2) by (simp add: ip_check_def ip_ok_def not_less [symmetric] Let_def)
qed

lemma ip_parse_enc:
  assumes ok: "ip_ok h" and p: "np_error p = NoError" "np_rest p = ip_bytes h @ rest"
    and len: "unat (ip_len h) = 4 * unat (ip_hlen h) + length rest"
    and ck: "ck_value (ck_add (ip_bytes h) (ck_new 0)) = 0"
  shows "\<exists>p'. ip_parse h0 p = Inr ((NoError, h), p') \<and> np_error p' = NoError \<and> np_rest p' = rest"
proof -
  let ?Q = "\<lambda>m. \<exists>p'. m = Inr ((NoError, h), p') \<and> np_error p' = NoError \<and> np_rest p' = rest"
  let ?b = "push_bit 4 (ip_ver h) OR (ip_hlen h AND 0xf)"
  let ?pad = "replicate (4 * unat (ip_hlen h) - 20) (0 :: u8)"
  have r: "np_rest p = [?b] @ [ip_tos h] @ be16 (ip_len h) @ be16 (ip_id h) @ be16 (ip_fo_val h) @ [ip_ttl h] @
      [ip_proto h] @ be16 (ip_cksum h) @ be32 (ip_src h) @ be32 (ip_dst h) @ ?pad @ rest"
    using p(2) by (simp add: ip_bytes_def)
  have sz: "\<not> buf_size (np_buffer p) < IP_LENGTH" unfolding buf_size_def r by (simp add: IP_LENGTH_def)
  have h: "\<lparr>ip_ver = drop_bit 4 ?b, ip_hlen = ?b AND 0x0f, ip_tos = ip_tos h, ip_len = ip_len h,
      ip_id = ip_id h, ip_df = (ip_fo_val h AND 0x4000 \<noteq> 0), ip_mf = (ip_fo_val h AND 0x2000 \<noteq> 0),
      ip_offset = ip_fo_val h AND 0x1fff, ip_ttl = ip_ttl h, ip_proto = ip_proto h, ip_cksum = ip_cksum h,
      ip_src = ip_src h, ip_dst = ip_dst h\<rparr> = h"
    unfolding ip_first_byte [OF ok] ip_fo_bits [OF ok] by simp
  note steps = u16.step [where Q = ?Q] u32.step [where Q = ?Q] u8.step [where Q = ?Q]
  have l: "length (ip_bytes h @ rest) = unat (ip_len h)" using len ip_bytes_length [OF ok] by simp
  show ?thesis
    unfolding ip_parse_def Let_def if_not_P [OF sz] p(2)
    by (insert p(1) r, (rule steps, assumption, assumption, rule TrueI)+)
      (simp only: h, rule ip_check_ok [OF ok _ _ refl l ck])
qed

lemma ip_bytes_cksum:
  "byte_sum False (ip_bytes (h\<lparr>ip_cksum := c\<rparr>)) = byte_sum False (ip_bytes (h\<lparr>ip_cksum := 0\<rparr>)) + unat c"
proof -
  let ?xs = "[push_bit 4 (ip_ver h) OR (ip_hlen h AND 0xf)] @ [ip_tos h] @ be16 (ip_len h) @ be16 (ip_id h) @
     be16 (ip_fo_val h) @ [ip_ttl h] @ [ip_proto h]"
  let ?ys = "be32 (ip_src h) @ be32 (ip_dst h) @ replicate (4 * unat (ip_hlen h) - 20) 0"
  have "ip_bytes (h\<lparr>ip_cksum := w\<rparr>) = ?xs @ be16 w @ ?ys" for w
    by (simp add: ip_bytes_def ip_fo_val_def)
  moreover have "even (length ?xs)" by simp
  ultimately show ?thesis using byte_sum_field [of ?xs c ?ys] by presburger
qed

lemma ip_ok_cksum [simp]: "ip_ok (h\<lparr>ip_cksum := c\<rparr>) = ip_ok h"
  by (simp add: ip_ok_def)

lemma dg_serialize_facts:
  assumes ok: "ip_ok (dg_header d)" and sz: "bl_size (dg_payload d) = unat (ip_payload_length (dg_header d))"
  obtains c where "dg_serialize d = Inr (buf_of_string (ip_bytes ((dg_header d)\<lparr>ip_cksum := c\<rparr>)) # dg_payload d)"
    "ck_value (ck_add (ip_bytes ((dg_header d)\<lparr>ip_cksum := c\<rparr>)) (ck_new 0)) = 0"
proof -
  let ?b = "\<lambda>w. ip_bytes ((dg_header d)\<lparr>ip_cksum := w\<rparr>)"
  define check where "check = ck_add (?b 0) (ck_new 0)"
  have ser: "dg_serialize d = Inr (buf_of_string (?b (ck_value check)) # dg_payload d)"
    using ok sz by (simp add: dg_serialize_def ip_serialize_eq Let_def check_def bl_of_string_def)
  have bound: "unat (0 :: u32) + byte_sum False (?b w) < 2 ^ 32" for w
  proof -
    have "length (?b w) \<le> 60" using ip_bytes_length [of "(dg_header d)\<lparr>ip_cksum := w\<rparr>"] ip_hlen_nat [OF ok] ok by simp
    then show ?thesis using byte_sum_bound [of False "?b w"] by simp
  qed
  have "unat (ck_sum (ck_add (?b (ck_value check)) (ck_new 0))) = unat (ck_sum check) + unat (ck_value check)"
    using ck_sum_data [OF bound] ip_bytes_cksum [where h = "dg_header d" and c = "ck_value check"] by (simp add: check_def)
  then have "ck_value (ck_add (?b (ck_value check)) (ck_new 0)) = 0" by (rule ck_complement)
  then show thesis using ser that by blast
qed

lemma ip_payload_nat:
  assumes "unat (ip_len h) = 4 * unat (ip_hlen h) + n"
  shows "unat (ip_payload_length h) = n"
proof -
  have c: "unat (ucast (ip_hlen h) :: u16) = unat (ip_hlen h)"
  proof -
    have "unat (ip_hlen h) < 65536" by (rule less_trans [OF unat_lt8]) simp
    then show ?thesis by (simp add: unat_ucast_mod)
  qed
  have "4 * unat (ip_hlen h) < 65536" using assms unat_lt16 [of "ip_len h"] by (simp del: unat_lt16)
  then have m: "unat (4 * ucast (ip_hlen h) :: u16) = 4 * unat (ip_hlen h)"
    by (simp add: unat_word_ariths c)
  then have "(4 * ucast (ip_hlen h) :: u16) \<le> ip_len h" using assms by (simp add: word_le_nat_alt)
  then show ?thesis using assms m by (simp add: ip_payload_length_def unat_sub)
qed

text \<open>A \<open>NetParser\<close> only ever reports that it ran out of bytes.\<close>

definition np_short :: "net_parser \<Rightarrow> bool" where
  "np_short p \<longleftrightarrow> np_error p = NoError \<or> np_error p = PacketTooShort"

lemma np_parse_int_short: "np_parse_int p = Inr (x :: 'a::len word, p') \<Longrightarrow> np_short p \<Longrightarrow> np_short p'"
  by (cases rule: np_parse_int_cases [where 'a = 'a and p = p])
    (auto simp: np_short_def np_check_size_def split: if_splits)

lemma np_remove_prefix_short: "np_remove_prefix n p = Inr p' \<Longrightarrow> np_short p \<Longrightarrow> np_short p'"
  by (cases rule: np_remove_prefix_cases [of p n])
    (auto simp: np_short_def np_check_size_def split: if_splits)

lemma np_remove_prefix_total: "\<exists>p'. np_remove_prefix n p = Inr p'"
  by (cases rule: np_remove_prefix_cases [of p n]) auto

lemma ip_check_total: "\<exists>res p'. ip_check original h p = Inr ((res, h), p') \<and> (np_short p \<longrightarrow> np_short p')"
  using np_remove_prefix_total [of "unat (ip_hlen h) * 4 - IP_LENGTH" p]
  by (auto simp: ip_check_def Let_def dest: np_remove_prefix_short)

lemma np_short_int:
  assumes "np_short p" "\<And>(x :: 'a::len word) p'. np_short p' \<Longrightarrow> Q (k x p')"
  shows "Q (bindE (np_parse_int p) (\<lambda>(x, p'). k x p'))"
proof -
  obtain x :: "'a word" and p' where "np_parse_int p = Inr (x, p')" using np_parse_int_total by blast
  then show ?thesis using assms np_parse_int_short by fastforce
qed

lemma np_short_steps:
  "np_short p \<Longrightarrow> (\<And>x p'. np_short p' \<Longrightarrow> Q (k8 x p')) \<Longrightarrow> Q (bindE (np_u8 p) (\<lambda>(x, p'). k8 x p'))"
  "np_short p \<Longrightarrow> (\<And>x p'. np_short p' \<Longrightarrow> Q (k16 x p')) \<Longrightarrow> Q (bindE (np_u16 p) (\<lambda>(x, p'). k16 x p'))"
  "np_short p \<Longrightarrow> (\<And>x p'. np_short p' \<Longrightarrow> Q (k32 x p')) \<Longrightarrow> Q (bindE (np_u32 p) (\<lambda>(x, p'). k32 x p'))"
  unfolding np_u8_def np_u16_def np_u32_def by (rule np_short_int; assumption)+

lemma ip_parse_total:
  assumes "np_short p"
  shows "\<exists>r p'. ip_parse h0 p = Inr (r, p') \<and> np_short p'"
proof -
  let ?Q = "\<lambda>m. \<exists>r p'. m = Inr (r, p') \<and> np_short p'"
  have f: "?Q (ip_check original h q)" if "np_short q" for original h q
    using ip_check_total [of original h q] that by blast
  show ?thesis
  proof (cases "buf_size (np_buffer p) < IP_LENGTH")
    case True
    then show ?thesis using assms by (simp add: ip_parse_def)
  next
    case False
    show ?thesis
      unfolding ip_parse_def Let_def if_not_P [OF False]
      by (insert assms, (rule np_short_steps [where Q = ?Q], assumption)+) (rule f)
  qed
qed

text \<open>Datagrams that can be serialized, and what parsing the serialization gives.\<close>

definition dg_ok :: "ipv4_datagram \<Rightarrow> bool" where
  "dg_ok d \<longleftrightarrow> ip_ok (dg_header d) \<and>
     unat (ip_len (dg_header d)) = 4 * unat (ip_hlen (dg_header d)) + bl_size (dg_payload d)"

lemma dg_roundtrip:
  assumes "dg_ok d"
  obtains bl c where "dg_serialize d = Inr bl"
    "\<forall>b h0 d0. buf_str b = bl_concatenate bl \<longrightarrow>
      (\<exists>p. ip_parse h0 (np_new b) = Inr ((NoError, (dg_header d)\<lparr>ip_cksum := c\<rparr>), p)) \<and>
      (\<exists>b'. dg_parse b d0 = Inr (NoError, d0\<lparr>dg_header := (dg_header d)\<lparr>ip_cksum := c\<rparr>, dg_payload := [b']\<rparr>) \<and>
        buf_str b' = bl_concatenate (dg_payload d))"
proof -
  have ok: "ip_ok (dg_header d)"
    and len: "unat (ip_len (dg_header d)) = 4 * unat (ip_hlen (dg_header d)) + bl_size (dg_payload d)"
    using assms by (simp_all add: dg_ok_def)
  have n: "unat (ip_payload_length (dg_header d)) = bl_size (dg_payload d)" by (rule ip_payload_nat [OF len])
  obtain c where c: "dg_serialize d = Inr (buf_of_string (ip_bytes ((dg_header d)\<lparr>ip_cksum := c\<rparr>)) # dg_payload d)"
    "ck_value (ck_add (ip_bytes ((dg_header d)\<lparr>ip_cksum := c\<rparr>)) (ck_new 0)) = 0"
    using dg_serialize_facts [OF ok n [symmetric]] by metis
  let ?h = "(dg_header d)\<lparr>ip_cksum := c\<rparr>" and ?rest = "bl_concatenate (dg_payload d)"
  show thesis
  proof (rule that [OF c(1)], intro allI impI)
    fix b h0 and d0 :: ipv4_datagram
    assume b: "buf_str b = bl_concatenate (buf_of_string (ip_bytes ?h) # dg_payload d)"
    have e: "np_error (np_new b) = NoError" "np_rest (np_new b) = ip_bytes ?h @ ?rest" by (simp_all add: np_new_def b)
    have len': "unat (ip_len ?h) = 4 * unat (ip_hlen ?h) + length ?rest" using len by (simp add: bl_size_eq)
    have parse: "\<exists>p'. ip_parse h (np_new b) = Inr ((NoError, ?h), p') \<and> np_error p' = NoError \<and> np_rest p' = ?rest" for h
      by (rule ip_parse_enc [OF _ e len' c(2)]) (use ok in simp)
    have "unat (ip_payload_length ?h) = bl_size (dg_payload d)" using n by (simp add: ip_payload_length_def)
    moreover obtain q where "ip_parse (dg_header d0) (np_new b) = Inr ((NoError, ?h), q)" "np_error q = NoError" "np_rest q = ?rest"
      using parse by blast
    ultimately show "(\<exists>p. ip_parse h0 (np_new b) = Inr ((NoError, ?h), p)) \<and>
      (\<exists>b'. dg_parse b d0 = Inr (NoError, d0\<lparr>dg_header := ?h, dg_payload := [b']\<rparr>) \<and> buf_str b' = ?rest)"
      using parse [of h0] by (auto simp: dg_parse_def bl_size_eq)
  qed
qed

lemma dg_parse_total: "\<exists>res d'. dg_parse b d = Inr (res, d') \<and> res \<in> {NoError, PacketTooShort}"
proof -
  have "np_short (np_new b)" by (simp add: np_short_def np_new_def)
  from ip_parse_total [OF this, of "dg_header d"] show ?thesis
    by (auto simp: dg_parse_def Let_def np_short_def)
qed

section \<open>Properties\<close>

text \<open>
  (C38) IPv4 round trip: a datagram with a well-formed header and consistent length is serialized with a
  header checksum such that \<open>IPv4Header::parse\<close> accepts the header, and parsing the whole gives the
  header (with that checksum) and the payload back.
\<close>

theorem ipv4_datagram_roundtrip:
  assumes "dg_ok d"
  shows "\<exists>bl c b p. dg_serialize d = Inr bl \<and>
    ip_parse h0 (np_new (buf_of_string (bl_concatenate bl))) = Inr ((NoError, (dg_header d)\<lparr>ip_cksum := c\<rparr>), p) \<and>
    dg_parse (buf_of_string (bl_concatenate bl)) d0 =
      Inr (NoError, d0\<lparr>dg_header := (dg_header d)\<lparr>ip_cksum := c\<rparr>, dg_payload := [b]\<rparr>) \<and>
    buf_str b = bl_concatenate (dg_payload d)"
proof -
  obtain bl c where "dg_serialize d = Inr bl"
    "\<forall>b h0 d0. buf_str b = bl_concatenate bl \<longrightarrow>
      (\<exists>p. ip_parse h0 (np_new b) = Inr ((NoError, (dg_header d)\<lparr>ip_cksum := c\<rparr>), p)) \<and>
      (\<exists>b'. dg_parse b d0 = Inr (NoError, d0\<lparr>dg_header := (dg_header d)\<lparr>ip_cksum := c\<rparr>, dg_payload := [b']\<rparr>) \<and>
        buf_str b' = bl_concatenate (dg_payload d))"
    using dg_roundtrip [OF assms] .
  then show ?thesis by (meson buf_str_of_string)
qed

definition demo_dgram :: ipv4_datagram where
  "demo_dgram = \<lparr>dg_header = ip_new\<lparr>ip_len := 22, ip_src := 0x0a000001, ip_dst := 0x0a000002\<rparr>,
     dg_payload = [buf_of_string [1], buf_of_string [2]]\<rparr>"

theorem ipv4_datagram_roundtrip_witness:
  "\<exists>bl c b. dg_serialize demo_dgram = Inr bl \<and>
    dg_parse (buf_of_string (bl_concatenate bl)) dg_new =
      Inr (NoError, dg_new\<lparr>dg_header := (dg_header demo_dgram)\<lparr>ip_cksum := c\<rparr>, dg_payload := [b]\<rparr>) \<and> buf_str b = [1, 2]"
proof -
  have "dg_ok demo_dgram" by (simp add: dg_ok_def demo_dgram_def ip_ok_def ip_new_def bl_size_eq)
  moreover have "bl_concatenate (dg_payload demo_dgram) = [1, 2]" by (simp add: demo_dgram_def)
  ultimately show ?thesis using ipv4_datagram_roundtrip [of demo_dgram ip_new dg_new] by auto
qed

text \<open>
  \<open>IPv4Datagram::parse\<close> never throws, but it drops the result of \<open>IPv4Header::parse\<close>: the only error
  it ever reports is a wrong size. A datagram whose header checksum is wrong (and one whose version is
  not 4) is accepted without error.
\<close>

theorem ipv4_header_errors_dropped:
  "(\<exists>res d'. dg_parse b d = Inr (res, d') \<and> res \<in> {NoError, PacketTooShort}) \<and>
   (let s = [0x45, 0, 0, 20, 0, 0, 0, 0, 64, 6, 0, 0, 10, 0, 0, 1, 10, 0, 0, 2]; corrupt = buf_of_string s;
        version6 = buf_of_string (s[0 := 0x65])
    in (case ip_parse ip_new (np_new corrupt) of Inr ((BadChecksum, h), p) \<Rightarrow> True | _ \<Rightarrow> False) \<and>
       (case dg_parse corrupt dg_new of Inr (NoError, d') \<Rightarrow> True | _ \<Rightarrow> False) \<and>
       (case ip_parse ip_new (np_new version6) of Inr ((WrongIPVersion, h), p) \<Rightarrow> True | _ \<Rightarrow> False) \<and>
       (case dg_parse version6 dg_new of Inr (NoError, d') \<Rightarrow> True | _ \<Rightarrow> False))"
proof
  show "\<exists>res d'. dg_parse b d = Inr (res, d') \<and> res \<in> {NoError, PacketTooShort}" by (rule dg_parse_total)
qed code_simp

end
