(* ===== verification/Addresses.thy ===== *)
theory Addresses
  imports Wire_Formats Text_Format
begin

text \<open>
  Model of \<open>util/address\<close>: socket addresses. The resolver of the C library is not part of the program:
  \<open>getaddrinfo\<close> and \<open>getnameinfo\<close> are parameters \<open>gai\<close> and \<open>gni\<close>, with their documented behaviour on
  numeric addresses as a contract. The layout of \<open>sockaddr_in\<close> is that of Linux on a little-endian machine.
\<close>

section \<open>Raw socket addresses\<close>

definition SIZEOF_SOCKADDR_STORAGE :: nat where "SIZEOF_SOCKADDR_STORAGE = 128"
definition SIZEOF_SOCKADDR_IN :: nat where "SIZEOF_SOCKADDR_IN = 16"

text \<open>\<open>AF_INET\<close> in the two bytes of \<open>sin_family\<close>, then port and address in network byte order.\<close>

definition AF_INET :: bytes where "AF_INET = [2, 0]"

definition sockaddr_in :: "u32 \<Rightarrow> u16 \<Rightarrow> bytes" where
  "sockaddr_in ip port = AF_INET @ be16 port @ be32 ip @ replicate 8 0"

record address =
  addr_size :: nat
  addr_storage :: bytes

definition addr_of_sockaddr :: "bytes \<Rightarrow> nat \<Rightarrow> exn + address" where
  "addr_of_sockaddr addr len =
     (if len > SIZEOF_SOCKADDR_STORAGE then Inl (RuntimeError ''invalid sockaddr size'')
      else Inr \<lparr>addr_size = len, addr_storage = take len addr @ replicate (SIZEOF_SOCKADDR_STORAGE - len) 0\<rparr>)"

section \<open>Resolution\<close>

type_synonym getaddrinfo = "string \<Rightarrow> string \<Rightarrow> nat \<Rightarrow> int + (bytes \<times> nat) list"
type_synonym getnameinfo = "bytes \<Rightarrow> nat \<Rightarrow> int + string \<times> string"

definition AI_ALL :: nat where "AI_ALL = 16"
definition AI_NUMERIC :: nat where "AI_NUMERIC = 4 + 1024"

definition addr_resolve :: "getaddrinfo \<Rightarrow> string \<Rightarrow> string \<Rightarrow> nat \<Rightarrow> exn + address" where
  "addr_resolve gai node service hints =
     (case gai node service hints of
        Inl gai_ret \<Rightarrow> Inl (RuntimeError (''getaddrinfo('' @ node @ '', '' @ service @ '')''))
      | Inr [] \<Rightarrow> Inl (RuntimeError ''getaddrinfo returned successfully but with no results'')
      | Inr ((ai_addr, ai_addrlen) # _) \<Rightarrow> addr_of_sockaddr ai_addr ai_addrlen)"

definition addr_of_host :: "getaddrinfo \<Rightarrow> string \<Rightarrow> string \<Rightarrow> exn + address" where
  "addr_of_host gai hostname service = addr_resolve gai hostname service AI_ALL"

definition addr_of_ip_port :: "getaddrinfo \<Rightarrow> string \<Rightarrow> u16 \<Rightarrow> exn + address" where
  "addr_of_ip_port gai ip port = addr_resolve gai ip (dec_string (unat port)) AI_NUMERIC"

section \<open>Accessors\<close>

definition addr_ip_port :: "getnameinfo \<Rightarrow> address \<Rightarrow> exn + string \<times> u16" where
  "addr_ip_port gni a =
     (case gni (addr_storage a) (addr_size a) of
        Inl gni_ret \<Rightarrow> Inl (RuntimeError ''getnameinfo'')
      | Inr (ip, port) \<Rightarrow> bindE (stoi port) (\<lambda>n. Inr (ip, word_of_int n)))"

definition addr_ip :: "getnameinfo \<Rightarrow> address \<Rightarrow> exn + string" where
  "addr_ip gni a = bindE (addr_ip_port gni a) (\<lambda>(ip, port). Inr ip)"

definition addr_port :: "getnameinfo \<Rightarrow> address \<Rightarrow> exn + u16" where
  "addr_port gni a = bindE (addr_ip_port gni a) (\<lambda>(ip, port). Inr port)"

definition addr_to_string :: "getnameinfo \<Rightarrow> address \<Rightarrow> exn + string" where
  "addr_to_string gni a =
     bindE (addr_ip_port gni a) (\<lambda>(ip, port). Inr (ip @ '':'' @ dec_string (unat port)))"

text \<open>The four bytes of \<open>sin_addr\<close>, read with \<open>be32toh\<close>.\<close>

definition be32toh :: "bytes \<Rightarrow> u32" where
  "be32toh bs = foldl (\<lambda>r b. push_bit 8 r + ucast b) 0 bs"

definition addr_ipv4_numeric :: "address \<Rightarrow> exn + u32" where
  "addr_ipv4_numeric a =
     (if take 2 (addr_storage a) \<noteq> AF_INET \<or> addr_size a \<noteq> SIZEOF_SOCKADDR_IN
      then Inl (RuntimeError ''ipv4_numeric called on non-IPV4 address'')
      else Inr (be32toh (take 4 (drop 4 (addr_storage a)))))"

definition addr_from_ipv4_numeric :: "u32 \<Rightarrow> exn + address" where
  "addr_from_ipv4_numeric ip_address = addr_of_sockaddr (sockaddr_in ip_address 0) SIZEOF_SOCKADDR_IN"

definition addr_eq :: "address \<Rightarrow> address \<Rightarrow> bool" where
  "addr_eq a b \<longleftrightarrow> addr_size a = addr_size b \<and>
     take (addr_size a) (addr_storage a) = take (addr_size b) (addr_storage b)"

section \<open>IPv4 addresses\<close>

definition inet_address :: "u32 \<Rightarrow> u16 \<Rightarrow> address" where
  "inet_address ip port = \<lparr>addr_size = SIZEOF_SOCKADDR_IN, addr_storage = sockaddr_in ip port @ replicate 112 0\<rparr>"

lemma sockaddr_in_length [simp]: "length (sockaddr_in ip port) = 16"
  by (simp add: sockaddr_in_def AF_INET_def)

lemma addr_of_sockaddr_in [simp]: "addr_of_sockaddr (sockaddr_in ip port) 16 = Inr (inet_address ip port)"
  by (simp add: addr_of_sockaddr_def inet_address_def SIZEOF_SOCKADDR_STORAGE_def SIZEOF_SOCKADDR_IN_def)

lemma be32toh_be32 [simp]: "be32toh (be32 w) = w"
proof -
  have "[0..<4] = [0, 1, 2, 3 :: nat]" by (simp add: upt_rec)
  with be_decode(1) [of w "[]"] show ?thesis by (simp add: be32toh_def be32_def)
qed

lemma ipv4_numeric_inet [simp]: "addr_ipv4_numeric (inet_address ip port) = Inr ip"
proof -
  have "take 4 (drop 4 (addr_storage (inet_address ip port))) = be32 ip"
    by (simp add: inet_address_def sockaddr_in_def AF_INET_def be16_def be32_def)
  moreover have "take 2 (addr_storage (inet_address ip port)) = AF_INET"
    by (simp add: inet_address_def sockaddr_in_def AF_INET_def)
  ultimately show ?thesis by (simp add: addr_ipv4_numeric_def) (simp add: inet_address_def)
qed

lemma from_ipv4_numeric_inet [simp]: "addr_from_ipv4_numeric ip = Inr (inet_address ip 0)"
  by (simp add: addr_from_ipv4_numeric_def SIZEOF_SOCKADDR_IN_def)

lemma addr_eq_inet: "addr_eq (inet_address ip port) (inet_address ip' port') \<longleftrightarrow> ip = ip' \<and> port = port'"
proof
  assume "addr_eq (inet_address ip port) (inet_address ip' port')"
  then have "be16 port @ be32 ip @ [] = be16 port' @ be32 ip' @ []"
    by (simp add: addr_eq_def inet_address_def SIZEOF_SOCKADDR_IN_def sockaddr_in_def AF_INET_def)
  then show "ip = ip' \<and> port = port'"
    using u16.enc_prefix_free [OF TrueI TrueI] u32.enc_prefix_free [OF TrueI TrueI] by blast
qed (simp add: addr_eq_def)

section \<open>The resolver\<close>

text \<open>What the program relies on: numeric addresses are resolved to themselves and printed as such.\<close>

locale resolver =
  fixes gai :: getaddrinfo and gni :: getnameinfo
  assumes gai_numeric: "gai (inet_ntoa ip) (dec_string (unat port)) AI_NUMERIC = Inr [(sockaddr_in ip port, 16)]"
    and gni_numeric: "gni (addr_storage (inet_address ip port)) (addr_size (inet_address ip port)) =
      Inr (inet_ntoa ip, dec_string (unat port))"
begin

lemma of_ip_port_inet: "addr_of_ip_port gai (inet_ntoa ip) port = Inr (inet_address ip port)"
  by (simp add: addr_of_ip_port_def addr_resolve_def gai_numeric)

lemma ip_port_inet: "addr_ip_port gni (inet_address ip port) = Inr (inet_ntoa ip, port)"
proof -
  have "stoi (dec_string (unat port)) = Inr (int (unat port))"
    by (rule stoi_dec_string) (rule less_trans [OF unat_lt16], simp)
  then show ?thesis by (simp add: addr_ip_port_def gni_numeric)
qed

lemma port_inet: "addr_port gni (inet_address ip port) = Inr port"
  by (simp add: addr_port_def ip_port_inet)

end

text \<open>A resolver for numeric addresses, which satisfies the contract.\<close>

fun split_on :: "char \<Rightarrow> string \<Rightarrow> string list" where
  "split_on c [] = [[]]"
| "split_on c (x # xs) =
     (if x = c then [] # split_on c xs
      else case split_on c xs of [] \<Rightarrow> [[x]] | w # ws \<Rightarrow> (x # w) # ws)"

definition inet_aton :: "string \<Rightarrow> u32 option" where
  "inet_aton s =
     (case map (read_digits 0) (split_on (CHR ''.'') s) of
        [a, b, c, d] \<Rightarrow> Some (256 * (256 * (256 * of_nat a + of_nat b) + of_nat c) + of_nat d)
      | [a] \<Rightarrow> Some (of_nat a)
      | _ \<Rightarrow> None)"

definition numeric_gai :: getaddrinfo where
  "numeric_gai node service hints =
     (case inet_aton node of
        None \<Rightarrow> Inl (- 2)
      | Some ip \<Rightarrow> Inr [(sockaddr_in ip (of_nat (read_digits 0 service)), 16)])"

definition numeric_gni :: getnameinfo where
  "numeric_gni st n =
     Inr (inet_ntoa (be32toh (take 4 (drop 4 st))),
          dec_string (unat (foldl (\<lambda>r b. push_bit 8 r + ucast b) (0 :: u16) (take 2 (drop 2 st)))))"

lemma split_on_join:
  "c \<notin> set w \<Longrightarrow> split_on c (w @ c # rest) = w # split_on c rest"
  "c \<notin> set w \<Longrightarrow> split_on c w = [w]"
  by (induction w) auto

lemma dec_string_no_dot: "CHR ''.'' \<notin> set (dec_string n)"
  using dec_string_digits(1) [of n] by (auto simp: is_digit_def)

lemma inet_aton_ntoa: "inet_aton (inet_ntoa ip) = Some ip"
proof -
  have m: "w AND 0xff = take_bit 8 w" for w :: u32 by (simp add: take_bit_eq_mask mask_eq_exp_minus_1)
  let ?n = "unat ip"
  have u: "unat (drop_bit 24 ip) = ?n div 16777216 mod 256" "unat (drop_bit 16 ip AND 0xff) = ?n div 65536 mod 256"
    "unat (drop_bit 8 ip AND 0xff) = ?n div 256 mod 256" "unat (ip AND 0xff) = ?n mod 256"
  proof -
    have "?n div 16777216 < 256" using unat_lt32 [of ip] by (simp add: less_mult_imp_div_less del: unat_lt32)
    then show "unat (drop_bit 24 ip) = ?n div 16777216 mod 256"
      unfolding unsigned_drop_bit_eq by (simp add: drop_bit_eq_div take_bit_nat_eq_self)
  qed (simp_all add: m drop_bit_eq_div take_bit_eq_mod unat_div_distrib unat_mod_distrib)
  have "split_on (CHR ''.'') (inet_ntoa ip) = [dec_string (unat (drop_bit 24 ip)),
      dec_string (unat (drop_bit 16 ip AND 0xff)), dec_string (unat (drop_bit 8 ip AND 0xff)), dec_string (unat (ip AND 0xff))]"
    by (simp add: inet_ntoa_def split_on_join dec_string_no_dot)
  then have "map (read_digits 0) (split_on (CHR ''.'') (inet_ntoa ip)) =
      [?n div 16777216 mod 256, ?n div 65536 mod 256, ?n div 256 mod 256, ?n mod 256]"
    by (simp only: list.map read_dec_string u)
  then have "inet_aton (inet_ntoa ip) =
      Some (of_nat (256 * (256 * (256 * (?n div 16777216 mod 256) + ?n div 65536 mod 256) + ?n div 256 mod 256) + ?n mod 256))"
    by (simp only: inet_aton_def list.case) simp
  then have "inet_aton (inet_ntoa ip) = Some (of_nat (?n mod 4294967296))"
    by (simp only: base256(2))
  then show ?thesis by simp
qed

interpretation numeric: resolver numeric_gai numeric_gni
proof
  fix ip port
  show "numeric_gai (inet_ntoa ip) (dec_string (unat port)) AI_NUMERIC = Inr [(sockaddr_in ip port, 16)]"
    by (simp add: numeric_gai_def inet_aton_ntoa read_dec_string)
  have "take 4 (drop 4 (addr_storage (inet_address ip port))) = be32 ip"
    "take 2 (drop 2 (addr_storage (inet_address ip port))) = be16 port"
    by (simp_all add: inet_address_def sockaddr_in_def AF_INET_def be16_def be32_def)
  moreover have "foldl (\<lambda>r b. push_bit 8 r + ucast b) (0 :: u16) (be16 port) = port"
    using be_decode(2) [of port "[]"] by (simp add: be16_def upt_rec)
  ultimately show "numeric_gni (addr_storage (inet_address ip port)) (addr_size (inet_address ip port)) =
      Inr (inet_ntoa ip, dec_string (unat port))"
    by (simp add: numeric_gni_def)
qed

section \<open>Properties\<close>

text \<open>
  Address round trips, for every resolver that handles numeric addresses: an address made from a
  dotted quad and a port has that IP, that port, and that number; the number gives an address with
  the same IP; and two such addresses are equal exactly if IP and port are.
\<close>

theorem address_roundtrip:
  assumes "resolver gai gni"
  shows "\<exists>a b. addr_of_ip_port gai (inet_ntoa ip) port = Inr a \<and> addr_ip_port gni a = Inr (inet_ntoa ip, port) \<and>
    addr_ipv4_numeric a = Inr ip \<and> addr_from_ipv4_numeric ip = Inr b \<and> addr_ipv4_numeric b = Inr ip \<and>
    (addr_eq a b \<longleftrightarrow> port = 0)"
  using resolver.of_ip_port_inet [OF assms] resolver.ip_port_inet [OF assms]
  by (intro exI [of _ "inet_address ip port"] exI [of _ "inet_address ip 0"]) (simp add: addr_eq_inet)

theorem address_roundtrip_witness:
  "\<exists>a. addr_of_ip_port numeric_gai ''10.0.0.1'' 80 = Inr a \<and> addr_ip_port numeric_gni a = Inr (''10.0.0.1'', 80) \<and>
    addr_ipv4_numeric a = Inr 0x0a000001"
proof -
  have "inet_ntoa 0x0a000001 = ''10.0.0.1''" by code_simp
  then show ?thesis
    using address_roundtrip [OF numeric.resolver_axioms, where ip = "0x0a000001" and port = 80] by auto
qed

end
