(* ===== verification/Net_Interface.thy ===== *)
theory Net_Interface
  imports Ethernet Ipv4 Addresses
begin

text \<open>
  Model of \<open>network_interface.hh\<close> and \<open>network_interface.cc\<close>: the network interface that sends datagrams
  in Ethernet frames and resolves the address of the next hop with ARP.
\<close>

section \<open>State and operations\<close>

record ethernet_address_entry =
  en_time_caching :: u64
  en_MAC_address :: ethernet_address

record queuing_list =
  ql_time_since_last_ARP_req :: u64
  ql_queuing_datagrams :: "ipv4_datagram list"

record network_interface =
  ni_ethernet_address :: ethernet_address
  ni_ip_address :: address
  ni_frames_out :: "ethernet_frame list"
  ni_cache :: "u32 \<rightharpoonup> ethernet_address_entry"
  ni_Queuing_List_Map :: "u32 \<rightharpoonup> queuing_list"

definition ni_new :: "ethernet_address \<Rightarrow> address \<Rightarrow> network_interface" where
  "ni_new ethernet_address ip_address = \<lparr>ni_ethernet_address = ethernet_address, ni_ip_address = ip_address,
     ni_frames_out = [], ni_cache = Map.empty, ni_Queuing_List_Map = Map.empty\<rparr>"

datatype arp_type = ARP_REQUEST | ARP_REPLY

definition send_datagram_handler :: "ipv4_datagram \<Rightarrow> ethernet_address \<Rightarrow> network_interface \<Rightarrow> exn + network_interface" where
  "send_datagram_handler dgram next_hop_MAC n =
     (let h = (ef_header ef_new)\<lparr>eh_type := TYPE_IPv4, eh_src := ni_ethernet_address n, eh_dst := next_hop_MAC\<rparr>
      in bindE (dg_serialize dgram) (\<lambda>payload.
           Inr (n\<lparr>ni_frames_out := ni_frames_out n @ [ef_new\<lparr>ef_header := h, ef_payload := payload\<rparr>]\<rparr>)))"

definition send_ARP :: "arp_type \<Rightarrow> ethernet_address \<Rightarrow> u32 \<Rightarrow> network_interface \<Rightarrow> exn + network_interface" where
  "send_ARP ARP_TYPE next_hop_MAC next_hop_ip n =
     (let h = (ef_header ef_new)\<lparr>eh_type := TYPE_ARP, eh_src := ni_ethernet_address n, eh_dst := next_hop_MAC\<rparr>
      in bindE (addr_ipv4_numeric (ni_ip_address n)) (\<lambda>sender_ip.
           let arp = arp_new\<lparr>arp_opcode := (if ARP_TYPE = ARP_REQUEST then OPCODE_REQUEST else OPCODE_REPLY),
                       arp_sender_ip_address := sender_ip,
                       arp_sender_ethernet_address := ni_ethernet_address n,
                       arp_target_ip_address := next_hop_ip\<rparr>;
               arp = (if ARP_TYPE = ARP_REPLY then arp\<lparr>arp_target_ethernet_address := next_hop_MAC\<rparr> else arp)
           in bindE (arp_serialize arp) (\<lambda>s.
                Inr (n\<lparr>ni_frames_out := ni_frames_out n @
                       [ef_new\<lparr>ef_header := h, ef_payload := bl_of_string s\<rparr>]\<rparr>))))"

text \<open>
  In \<open>send_datagram\<close> the queue of an address that is already being resolved is copied into a local
  variable; the datagram is pushed onto the copy.
\<close>

definition ni_send_datagram :: "ipv4_datagram \<Rightarrow> address \<Rightarrow> network_interface \<Rightarrow> exn + network_interface" where
  "ni_send_datagram dgram next_hop n =
     bindE (addr_ipv4_numeric next_hop) (\<lambda>next_hop_ip.
       case ni_cache n next_hop_ip of
         Some entry \<Rightarrow> send_datagram_handler dgram (en_MAC_address entry) n
       | None \<Rightarrow>
           (case ni_Queuing_List_Map n next_hop_ip of
              Some QueuingList \<Rightarrow>
                let copy = QueuingList\<lparr>ql_queuing_datagrams := ql_queuing_datagrams QueuingList @ [dgram]\<rparr>
                in if ql_time_since_last_ARP_req copy \<ge> 5000
                   then send_ARP ARP_REQUEST ETHERNET_BROADCAST next_hop_ip n else Inr n
            | None \<Rightarrow>
                let new_queuing_list = \<lparr>ql_time_since_last_ARP_req = 0, ql_queuing_datagrams = [dgram]\<rparr>
                in send_ARP ARP_REQUEST ETHERNET_BROADCAST next_hop_ip
                     (n\<lparr>ni_Queuing_List_Map := (ni_Queuing_List_Map n)(next_hop_ip \<mapsto> new_queuing_list)\<rparr>)))"

text \<open>The loop that empties the queue of a resolved address.\<close>

fun send_queued :: "ipv4_datagram list \<Rightarrow> ethernet_address \<Rightarrow> network_interface \<Rightarrow> exn + network_interface" where
  "send_queued [] mac n = Inr n"
| "send_queued (dgram # dgrams) mac n = bindE (send_datagram_handler dgram mac n) (send_queued dgrams mac)"

definition ni_recv_ARP :: "arp_message \<Rightarrow> network_interface \<Rightarrow> exn + network_interface" where
  "ni_recv_ARP arp n =
     (let ip = arp_sender_ip_address arp; mac = arp_sender_ethernet_address arp;
          n = (case ni_cache n ip of
                 Some entry \<Rightarrow>
                   n\<lparr>ni_cache := (ni_cache n)(ip \<mapsto> entry\<lparr>en_time_caching := 0, en_MAC_address := mac\<rparr>)\<rparr>
               | None \<Rightarrow>
                   n\<lparr>ni_cache := (ni_cache n)(ip \<mapsto> \<lparr>en_time_caching = 0, en_MAC_address = mac\<rparr>)\<rparr>)
      in bindE (case ni_Queuing_List_Map n ip of
                  Some q \<Rightarrow> bindE (send_queued (ql_queuing_datagrams q) mac n) (\<lambda>n.
                    Inr (n\<lparr>ni_Queuing_List_Map := (ni_Queuing_List_Map n)(ip := None)\<rparr>))
                | None \<Rightarrow> Inr n) (\<lambda>n.
           if arp_opcode arp = OPCODE_REQUEST
           then bindE (addr_ipv4_numeric (ni_ip_address n)) (\<lambda>own_ip.
                  if arp_target_ip_address arp = own_ip then send_ARP ARP_REPLY mac ip n else Inr n)
           else Inr n))"

definition ni_recv_frame :: "ethernet_frame \<Rightarrow> network_interface \<Rightarrow> exn + ipv4_datagram option \<times> network_interface" where
  "ni_recv_frame frame n =
     (let dst_MAC = eh_dst (ef_header frame)
      in if dst_MAC \<noteq> ni_ethernet_address n \<and> dst_MAC \<noteq> ETHERNET_BROADCAST then Inr (None, n)
         else if eh_type (ef_header frame) = TYPE_ARP then
           bindE (bl_to_buffer (ef_payload frame)) (\<lambda>b.
           bindE (arp_parse b arp_new) (\<lambda>(res, arp).
             if res = NoError then bindE (ni_recv_ARP arp n) (\<lambda>n. Inr (None, n)) else Inr (None, n)))
         else if eh_type (ef_header frame) = TYPE_IPv4 then
           bindE (bl_to_buffer (ef_payload frame)) (\<lambda>b.
           bindE (dg_parse b dg_new) (\<lambda>(res, datagram).
             if res = NoError then Inr (Some datagram, n) else Inr (None, n)))
         else Inr (None, n))"

definition ni_tick :: "u64 \<Rightarrow> network_interface \<Rightarrow> network_interface" where
  "ni_tick ms_since_last_tick n =
     (let cache = (\<lambda>ip. case ni_cache n ip of
                     None \<Rightarrow> None
                   | Some entry \<Rightarrow>
                       let entry = entry\<lparr>en_time_caching := en_time_caching entry + ms_since_last_tick\<rparr>
                       in if en_time_caching entry \<ge> 30000 then None else Some entry);
          queues = (\<lambda>ip. map_option (\<lambda>q. q\<lparr>ql_time_since_last_ARP_req :=
                      ql_time_since_last_ARP_req q + ms_since_last_tick\<rparr>) (ni_Queuing_List_Map n ip))
      in n\<lparr>ni_cache := cache, ni_Queuing_List_Map := queues\<rparr>)"

section \<open>What the operations send\<close>

definition arp_of :: "arp_type \<Rightarrow> ethernet_address \<Rightarrow> u32 \<Rightarrow> ethernet_address \<Rightarrow> u32 \<Rightarrow> arp_message" where
  "arp_of ty smac sip mac ip = arp_new\<lparr>arp_opcode := (if ty = ARP_REQUEST then OPCODE_REQUEST else OPCODE_REPLY),
     arp_sender_ip_address := sip, arp_sender_ethernet_address := smac, arp_target_ip_address := ip,
     arp_target_ethernet_address := (if ty = ARP_REPLY then mac else eth_zero)\<rparr>"

definition eth_frame :: "u16 \<Rightarrow> ethernet_address \<Rightarrow> ethernet_address \<Rightarrow> buffer_list \<Rightarrow> ethernet_frame" where
  "eth_frame ty src dst payload = \<lparr>ef_header = \<lparr>eh_dst = dst, eh_src = src, eh_type = ty\<rparr>, ef_payload = payload\<rparr>"

definition arp_frame :: "arp_type \<Rightarrow> ethernet_address \<Rightarrow> u32 \<Rightarrow> ethernet_address \<Rightarrow> u32 \<Rightarrow> ethernet_frame" where
  "arp_frame ty smac sip mac ip = eth_frame TYPE_ARP smac mac [buf_of_string (arp_bytes (arp_of ty smac sip mac ip))]"

lemma arp_of_supported [simp]: "arp_supported (arp_of ty smac sip mac ip)"
  by (simp add: arp_supported_def arp_of_def arp_new_def)

lemma arp_of_fields [simp]:
  "arp_sender_ip_address (arp_of ty smac sip mac ip) = sip"
  "arp_sender_ethernet_address (arp_of ty smac sip mac ip) = smac"
  "arp_target_ip_address (arp_of ty smac sip mac ip) = ip"
  "arp_opcode (arp_of ty smac sip mac ip) = (if ty = ARP_REQUEST then OPCODE_REQUEST else OPCODE_REPLY)"
  by (simp_all add: arp_of_def)

lemma send_ARP_sends:
  assumes "addr_ipv4_numeric (ni_ip_address n) = Inr sip"
  shows "send_ARP ty mac ip n = Inr (n\<lparr>ni_frames_out := ni_frames_out n @ [arp_frame ty (ni_ethernet_address n) sip mac ip]\<rparr>)"
proof -
  have "(if ty = ARP_REPLY then arp_new\<lparr>arp_opcode := c, arp_sender_ip_address := sip,
      arp_sender_ethernet_address := m, arp_target_ip_address := ip, arp_target_ethernet_address := mac\<rparr>
     else arp_new\<lparr>arp_opcode := c, arp_sender_ip_address := sip, arp_sender_ethernet_address := m,
      arp_target_ip_address := ip\<rparr>) = arp_new\<lparr>arp_opcode := c, arp_sender_ip_address := sip,
      arp_sender_ethernet_address := m, arp_target_ip_address := ip,
      arp_target_ethernet_address := (if ty = ARP_REPLY then mac else eth_zero)\<rparr>" for c m
    by (simp add: arp_new_def)
  then have a: "(let arp = arp_new\<lparr>arp_opcode := (if ty = ARP_REQUEST then OPCODE_REQUEST else OPCODE_REPLY),
        arp_sender_ip_address := sip, arp_sender_ethernet_address := ni_ethernet_address n, arp_target_ip_address := ip\<rparr>;
      arp = (if ty = ARP_REPLY then arp\<lparr>arp_target_ethernet_address := mac\<rparr> else arp) in arp) =
      arp_of ty (ni_ethernet_address n) sip mac ip"
    by (simp add: arp_of_def Let_def)
  show ?thesis
    using assms a arp_serialize_eq [OF arp_of_supported [of ty "ni_ethernet_address n" sip mac ip]]
    by (simp add: send_ARP_def Let_def arp_frame_def eth_frame_def ef_new_def bl_of_string_def)
qed

lemma dg_ok_serializes:
  assumes "dg_ok d"
  obtains bl where "dg_serialize d = Inr bl"
  using dg_roundtrip [OF assms] by metis

lemma send_handler_sends:
  assumes "dg_serialize d = Inr bl"
  shows "send_datagram_handler d mac n =
    Inr (n\<lparr>ni_frames_out := ni_frames_out n @ [eth_frame TYPE_IPv4 (ni_ethernet_address n) mac bl]\<rparr>)"
  using assms by (simp add: send_datagram_handler_def Let_def eth_frame_def ef_new_def)

lemma send_queued_sends:
  assumes "\<forall>d\<in>set ds. dg_ok d"
  shows "\<exists>fs. send_queued ds mac n = Inr (n\<lparr>ni_frames_out := ni_frames_out n @ fs\<rparr>) \<and> length fs = length ds \<and>
    (\<forall>i<length ds. \<exists>bl. dg_serialize (ds ! i) = Inr bl \<and> fs ! i = eth_frame TYPE_IPv4 (ni_ethernet_address n) mac bl)"
  using assms
proof (induction ds arbitrary: n)
  case (Cons d ds)
  obtain bl where bl: "dg_serialize d = Inr bl" using dg_ok_serializes [of d] Cons.prems by auto
  let ?f = "eth_frame TYPE_IPv4 (ni_ethernet_address n) mac bl"
  obtain fs where fs: "send_queued ds mac (n\<lparr>ni_frames_out := ni_frames_out n @ [?f]\<rparr>) =
      Inr (n\<lparr>ni_frames_out := (ni_frames_out n @ [?f]) @ fs\<rparr>)" "length fs = length ds"
      "\<forall>i<length ds. \<exists>bl. dg_serialize (ds ! i) = Inr bl \<and> fs ! i = eth_frame TYPE_IPv4 (ni_ethernet_address n) mac bl"
    using Cons.IH [of "n\<lparr>ni_frames_out := ni_frames_out n @ [?f]\<rparr>"] Cons.prems by auto
  show ?case
    using fs bl by (intro exI [of _ "?f # fs"]) (auto simp: send_handler_sends less_Suc_eq_0_disj)
qed simp

section \<open>Invariant\<close>

text \<open>
  The frames of an interface with Ethernet address \<open>mac\<close> and IP address \<open>ip\<close> that was given the datagrams
  \<open>D\<close>: ARP messages in its own name, and datagrams of \<open>D\<close>.
\<close>

definition frame_of :: "ethernet_address \<Rightarrow> u32 \<Rightarrow> ipv4_datagram set \<Rightarrow> ethernet_frame \<Rightarrow> bool" where
  "frame_of mac ip D f \<longleftrightarrow> (\<exists>ty dmac dip. f = arp_frame ty mac ip dmac dip) \<or>
     (\<exists>dmac d bl. d \<in> D \<and> dg_serialize d = Inr bl \<and> f = eth_frame TYPE_IPv4 mac dmac bl)"

definition ni_inv :: "ethernet_address \<Rightarrow> u32 \<Rightarrow> ipv4_datagram set \<Rightarrow> network_interface \<Rightarrow> bool" where
  "ni_inv mac ip D n \<longleftrightarrow> ni_ethernet_address n = mac \<and> addr_ipv4_numeric (ni_ip_address n) = Inr ip \<and>
     (\<forall>d\<in>D. dg_ok d) \<and>
     (\<forall>a q. ni_Queuing_List_Map n a = Some q \<longrightarrow> set (ql_queuing_datagrams q) \<subseteq> D) \<and>
     (\<forall>a e. ni_cache n a = Some e \<longrightarrow> unat (en_time_caching e) < 30000) \<and>
     (\<forall>f\<in>set (ni_frames_out n). frame_of mac ip D f)"

lemma eth_frame_header [simp]:
  "ef_header (eth_frame ty src dst p) = \<lparr>eh_dst = dst, eh_src = src, eh_type = ty\<rparr>" "ef_payload (eth_frame ty src dst p) = p"
  by (simp_all add: eth_frame_def)

lemma arp_frame_src [simp]: "eh_src (ef_header (arp_frame ty smac sip mac ip)) = smac"
  by (simp add: arp_frame_def)

text \<open>What an ARP message does: learn the sender, send what was waiting for it, answer a request.\<close>

lemma recv_ARP_facts:
  fixes arp
  defines "ip \<equiv> arp_sender_ip_address arp" and "mac \<equiv> arp_sender_ethernet_address arp"
  assumes inv: "ni_inv own own_ip D n"
  obtains fs where "ni_recv_ARP arp n = Inr (n\<lparr>ni_cache := (ni_cache n)(ip \<mapsto> \<lparr>en_time_caching = 0, en_MAC_address = mac\<rparr>),
      ni_frames_out := ni_frames_out n @ fs @
        (if arp_opcode arp = OPCODE_REQUEST \<and> arp_target_ip_address arp = own_ip
         then [arp_frame ARP_REPLY own own_ip mac ip] else []),
      ni_Queuing_List_Map := (ni_Queuing_List_Map n)(ip := None)\<rparr>)"
    "length fs = (case ni_Queuing_List_Map n ip of None \<Rightarrow> 0 | Some q \<Rightarrow> length (ql_queuing_datagrams q))"
    "\<forall>i<length fs. \<exists>bl. dg_serialize (ql_queuing_datagrams (the (ni_Queuing_List_Map n ip)) ! i) = Inr bl \<and>
       fs ! i = eth_frame TYPE_IPv4 own mac bl"
proof -
  define n1 where "n1 = n\<lparr>ni_cache := (ni_cache n)(ip \<mapsto> \<lparr>en_time_caching = 0, en_MAC_address = mac\<rparr>)\<rparr>"
  have c: "(case ni_cache n ip of
      Some entry \<Rightarrow> n\<lparr>ni_cache := (ni_cache n)(ip \<mapsto> entry\<lparr>en_time_caching := 0, en_MAC_address := mac\<rparr>)\<rparr>
    | None \<Rightarrow> n\<lparr>ni_cache := (ni_cache n)(ip \<mapsto> \<lparr>en_time_caching = 0, en_MAC_address = mac\<rparr>)\<rparr>) = n1"
    by (auto simp: n1_def split: option.split) (metis (full_types) ethernet_address_entry.surjective
        ethernet_address_entry.update_convs old.unit.exhaust)
  have own: "ni_ethernet_address n = own" "addr_ipv4_numeric (ni_ip_address n) = Inr own_ip"
    using inv by (simp_all add: ni_inv_def)
  obtain fs where fs: "(case ni_Queuing_List_Map n1 ip of
        Some q \<Rightarrow> bindE (send_queued (ql_queuing_datagrams q) mac n1) (\<lambda>n.
          Inr (n\<lparr>ni_Queuing_List_Map := (ni_Queuing_List_Map n)(ip := None)\<rparr>))
      | None \<Rightarrow> Inr n1) =
      Inr (n1\<lparr>ni_frames_out := ni_frames_out n @ fs, ni_Queuing_List_Map := (ni_Queuing_List_Map n)(ip := None)\<rparr>)"
    "length fs = (case ni_Queuing_List_Map n ip of None \<Rightarrow> 0 | Some q \<Rightarrow> length (ql_queuing_datagrams q))"
    "\<forall>i<length fs. \<exists>bl. dg_serialize (ql_queuing_datagrams (the (ni_Queuing_List_Map n ip)) ! i) = Inr bl \<and>
       fs ! i = eth_frame TYPE_IPv4 own mac bl"
  proof (cases "ni_Queuing_List_Map n ip")
    case None
    then have "(ni_Queuing_List_Map n)(ip := None) = ni_Queuing_List_Map n" by auto
    then show thesis using None by (intro that [of "[]"]) (simp_all add: n1_def)
  next
    case (Some q)
    then have "\<forall>d\<in>set (ql_queuing_datagrams q). dg_ok d" using inv by (auto simp: ni_inv_def)
    from send_queued_sends [OF this, of mac n1] obtain fs where
      "send_queued (ql_queuing_datagrams q) mac n1 = Inr (n1\<lparr>ni_frames_out := ni_frames_out n1 @ fs\<rparr>)"
      "length fs = length (ql_queuing_datagrams q)"
      "\<forall>i<length (ql_queuing_datagrams q). \<exists>bl. dg_serialize (ql_queuing_datagrams q ! i) = Inr bl \<and>
        fs ! i = eth_frame TYPE_IPv4 (ni_ethernet_address n1) mac bl" by blast
    then show thesis using Some own by (intro that [of fs]) (simp_all add: n1_def)
  qed
  show thesis
  proof (rule that [OF _ fs(2,3)])
    let ?n2 = "n1\<lparr>ni_frames_out := ni_frames_out n @ fs, ni_Queuing_List_Map := (ni_Queuing_List_Map n)(ip := None)\<rparr>"
    have "send_ARP ARP_REPLY mac ip ?n2 = Inr (?n2\<lparr>ni_frames_out := (ni_frames_out n @ fs) @ [arp_frame ARP_REPLY own own_ip mac ip]\<rparr>)"
      using send_ARP_sends [of ?n2 own_ip ARP_REPLY mac ip] own by (simp add: n1_def)
    then show "ni_recv_ARP arp n = Inr (n\<lparr>ni_cache := (ni_cache n)(ip \<mapsto> \<lparr>en_time_caching = 0, en_MAC_address = mac\<rparr>),
      ni_frames_out := ni_frames_out n @ fs @
        (if arp_opcode arp = OPCODE_REQUEST \<and> arp_target_ip_address arp = own_ip
         then [arp_frame ARP_REPLY own own_ip mac ip] else []),
      ni_Queuing_List_Map := (ni_Queuing_List_Map n)(ip := None)\<rparr>)"
      unfolding ni_recv_ARP_def ip_def [symmetric] mac_def [symmetric] Let_def c fs(1)
      using own by (simp add: n1_def)
  qed
qed

lemma frame_of_intros:
  "frame_of mac ip D (arp_frame ty mac ip dmac dip)"
  "d \<in> D \<Longrightarrow> dg_serialize d = Inr bl \<Longrightarrow> frame_of mac ip D (eth_frame TYPE_IPv4 mac dmac bl)"
  unfolding frame_of_def by blast+

lemma ni_inv_queued: "ni_inv mac ip D n \<Longrightarrow> ni_Queuing_List_Map n a = Some q \<Longrightarrow> set (ql_queuing_datagrams q) \<subseteq> D"
  by (simp add: ni_inv_def)

lemma ni_inv_insert:
  assumes "ni_inv mac ip D n" "dg_ok d"
  shows "ni_inv mac ip (insert d D) n"
proof -
  have "frame_of mac ip (insert d D) f" if "frame_of mac ip D f" for f using that unfolding frame_of_def by blast
  then show ?thesis using assms by (auto simp: ni_inv_def subset_iff)
qed

lemma ni_inv_send:
  assumes inv: "ni_inv mac ip D n" and f: "frame_of mac ip D f"
  shows "ni_inv mac ip D (n\<lparr>ni_frames_out := ni_frames_out n @ [f]\<rparr>)"
  using assms by (auto simp: ni_inv_def)

lemma send_ARP_inv:
  assumes inv: "ni_inv mac ip D n"
  shows "\<exists>n'. send_ARP ty dmac dip n = Inr n' \<and> ni_inv mac ip D n'"
  using send_ARP_sends [of n ip ty dmac dip] ni_inv_send [OF inv frame_of_intros(1)] inv by (auto simp: ni_inv_def)

lemma ni_send_inv:
  assumes inv: "ni_inv mac ip D n" and d: "d \<in> D" and hop: "addr_ipv4_numeric hop = Inr hop_ip"
  shows "\<exists>n'. ni_send_datagram d hop n = Inr n' \<and> ni_inv mac ip D n'"
proof (cases "ni_cache n hop_ip")
  case (Some e)
  have ok: "dg_ok d" "ni_ethernet_address n = mac" using inv d by (auto simp: ni_inv_def)
  obtain bl where "dg_serialize d = Inr bl" using dg_ok_serializes [OF ok(1)] .
  then show ?thesis
    using Some hop ok ni_inv_send [OF inv frame_of_intros(2) [OF d]] by (simp add: ni_send_datagram_def send_handler_sends)
next
  case None
  show ?thesis
  proof (cases "ni_Queuing_List_Map n hop_ip")
    case None
    let ?n = "n\<lparr>ni_Queuing_List_Map := (ni_Queuing_List_Map n)(hop_ip \<mapsto>
        \<lparr>ql_time_since_last_ARP_req = 0, ql_queuing_datagrams = [d]\<rparr>)\<rparr>"
    have "ni_inv mac ip D ?n" using inv d by (auto simp: ni_inv_def)
    then show ?thesis
      using None \<open>ni_cache n hop_ip = None\<close> hop send_ARP_inv [of mac ip D ?n ARP_REQUEST ETHERNET_BROADCAST hop_ip]
      by (simp add: ni_send_datagram_def)
  next
    case (Some q)
    then show ?thesis
      using \<open>ni_cache n hop_ip = None\<close> hop inv send_ARP_inv [OF inv, of ARP_REQUEST ETHERNET_BROADCAST hop_ip]
      by (simp add: ni_send_datagram_def Let_def)
  qed
qed

lemma recv_ARP_inv:
  assumes inv: "ni_inv mac ip D n"
  shows "\<exists>n'. ni_recv_ARP arp n = Inr n' \<and> ni_inv mac ip D n'"
proof -
  let ?q = "ql_queuing_datagrams (the (ni_Queuing_List_Map n (arp_sender_ip_address arp)))"
  obtain fs where fs: "ni_recv_ARP arp n = Inr (n\<lparr>ni_cache := (ni_cache n)(arp_sender_ip_address arp \<mapsto>
        \<lparr>en_time_caching = 0, en_MAC_address = arp_sender_ethernet_address arp\<rparr>),
      ni_frames_out := ni_frames_out n @ fs @
        (if arp_opcode arp = OPCODE_REQUEST \<and> arp_target_ip_address arp = ip
         then [arp_frame ARP_REPLY mac ip (arp_sender_ethernet_address arp) (arp_sender_ip_address arp)] else []),
      ni_Queuing_List_Map := (ni_Queuing_List_Map n)(arp_sender_ip_address arp := None)\<rparr>)"
    "length fs = (case ni_Queuing_List_Map n (arp_sender_ip_address arp) of None \<Rightarrow> 0 | Some q \<Rightarrow> length (ql_queuing_datagrams q))"
    "\<forall>i<length fs. \<exists>bl. dg_serialize (?q ! i) = Inr bl \<and> fs ! i = eth_frame TYPE_IPv4 mac (arp_sender_ethernet_address arp) bl"
    using recv_ARP_facts [OF inv] .
  have "?q ! i \<in> D" if "i < length fs" for i
    using that ni_inv_queued [OF inv, of "arp_sender_ip_address arp"] fs(2) by (fastforce split: option.splits)
  then have "frame_of mac ip D f" if "f \<in> set fs" for f
    using that fs(3) by (metis in_set_conv_nth frame_of_intros(2))
  then show ?thesis using fs(1) inv frame_of_intros(1) by (auto simp: ni_inv_def)
qed

lemma ni_tick_inv: "ni_inv mac ip D n \<Longrightarrow> ni_inv mac ip D (ni_tick ms n)"
  by (auto simp: ni_inv_def ni_tick_def Let_def word_le_nat_alt not_le subset_iff split: option.splits if_splits)

lemma bl_to_buffer_total: "length bl \<le> 1 \<Longrightarrow> \<exists>b. bl_to_buffer bl = Inr b"
  by (cases bl; cases "tl bl") (auto simp: bl_to_buffer_def)

lemma ni_recv_inv:
  assumes inv: "ni_inv mac ip D n" and f: "length (ef_payload f) \<le> 1"
  shows "\<exists>r n'. ni_recv_frame f n = Inr (r, n') \<and> ni_inv mac ip D n'"
proof -
  obtain b where b: "bl_to_buffer (ef_payload f) = Inr b" using bl_to_buffer_total [OF f] ..
  obtain res arp where arp: "arp_parse b arp_new = Inr (res, arp)" using arp_parse_total by blast
  obtain res' d where d: "dg_parse b dg_new = Inr (res', d)" using dg_parse_total by blast
  obtain n' where "ni_recv_ARP arp n = Inr n'" "ni_inv mac ip D n'" using recv_ARP_inv [OF inv] by blast
  then show ?thesis using inv by (simp add: ni_recv_frame_def Let_def b arp d)
qed

section \<open>Runs of an interface\<close>

datatype ni_op = NiSend ipv4_datagram address | NiRecv ethernet_frame | NiTick u64

fun ni_step :: "ni_op \<Rightarrow> network_interface \<Rightarrow> exn + network_interface" where
  "ni_step (NiSend dgram next_hop) n = ni_send_datagram dgram next_hop n"
| "ni_step (NiRecv frame) n = bindE (ni_recv_frame frame n) (\<lambda>(res, n). Inr n)"
| "ni_step (NiTick ms) n = Inr (ni_tick ms n)"

text \<open>
  The conditions on the caller: datagrams can be serialized, next hops are IPv4 addresses, and a frame
  has its payload in one buffer, as \<open>EthernetFrame::parse\<close> leaves it.
\<close>

fun ni_op_ok :: "ni_op \<Rightarrow> bool" where
  "ni_op_ok (NiSend dgram next_hop) = (dg_ok dgram \<and> (case addr_ipv4_numeric next_hop of Inr ip \<Rightarrow> True | Inl e \<Rightarrow> False))"
| "ni_op_ok (NiRecv frame) = (length (ef_payload frame) \<le> 1)"
| "ni_op_ok (NiTick ms) = True"

fun ni_given :: "ni_op \<Rightarrow> ipv4_datagram set" where
  "ni_given (NiSend dgram next_hop) = {dgram}"
| "ni_given op = {}"

interpretation ni: step_system ni_step "\<lambda>op. ni_op_ok op \<and> ni_given op \<subseteq> D" "ni_inv mac ip D" for mac ip D
proof
  fix op n
  assume "ni_op_ok op \<and> ni_given op \<subseteq> D" "ni_inv mac ip D n"
  then show "\<exists>n'. ni_step op n = Inr n' \<and> ni_inv mac ip D n'"
  proof (cases op)
    case (NiSend d hop)
    then show ?thesis
      using ni_send_inv [of mac ip D n d hop] \<open>ni_op_ok op \<and> _\<close> \<open>ni_inv mac ip D n\<close> by (auto split: sum.splits)
  next
    case (NiRecv f)
    then obtain r n' where "ni_recv_frame f n = Inr (r, n')" "ni_inv mac ip D n'"
      using ni_recv_inv [of mac ip D n f] \<open>ni_op_ok op \<and> _\<close> \<open>ni_inv mac ip D n\<close> by auto
    then show ?thesis using NiRecv by simp
  next
    case (NiTick ms)
    then show ?thesis using ni_tick_inv [OF \<open>ni_inv mac ip D n\<close>] by simp
  qed
qed


definition demo_mac :: "u8 \<Rightarrow> ethernet_address" where
  "demo_mac x = EthernetAddress 2 0 0 0 0 x"


section \<open>Address resolution\<close>

text \<open>A frame on the wire: serialized by one interface, parsed and received by another.\<close>

definition wire_recv :: "ethernet_frame \<Rightarrow> network_interface \<Rightarrow> exn + ipv4_datagram option \<times> network_interface" where
  "wire_recv f n =
     bindE (ef_parse (buf_of_string (bl_concatenate (ef_serialize f))) ef_new) (\<lambda>(res, f'). ni_recv_frame f' n)"

lemma wire_recv_frame:
  obtains b where "wire_recv f n = ni_recv_frame \<lparr>ef_header = ef_header f, ef_payload = [b]\<rparr> n"
    "buf_str b = bl_concatenate (ef_payload f)"
proof -
  have b: "buf_str (buf_of_string (bl_concatenate (ef_serialize f))) = bl_concatenate (ef_serialize f)" by simp
  from ef_parse_serialized [OF b, of ef_new] that show thesis by (auto simp: wire_recv_def ef_new_def)
qed

lemma wire_recv_ARP:
  assumes "mac = ni_ethernet_address n \<or> mac = ETHERNET_BROADCAST"
  shows "wire_recv (arp_frame ty smac sip mac ip) n =
    bindE (ni_recv_ARP (arp_of ty smac sip mac ip) n) (\<lambda>n. Inr (None, n))"
proof -
  let ?a = "arp_of ty smac sip mac ip"
  obtain b where b: "wire_recv (arp_frame ty smac sip mac ip) n =
      ni_recv_frame \<lparr>ef_header = \<lparr>eh_dst = mac, eh_src = smac, eh_type = TYPE_ARP\<rparr>, ef_payload = [b]\<rparr> n"
    "buf_str b = arp_bytes ?a"
    using wire_recv_frame [of "arp_frame ty smac sip mac ip" n] by (auto simp: arp_frame_def)
  have "arp_parse b arp_new = Inr (NoError, ?a)"
    using arp_parse_enc [OF arp_of_supported, of b ty smac sip mac ip "[]"] b(2) by auto
  then show ?thesis using assms by (auto simp: b(1) ni_recv_frame_def bl_to_buffer_def)
qed

lemma frame_types_differ [simp]: "TYPE_IPv4 \<noteq> TYPE_ARP"
  by (simp add: TYPE_ARP_def TYPE_IPv4_def)

lemma wire_recv_datagram:
  assumes "dg_ok d" "dg_serialize d = Inr bl" "mac = ni_ethernet_address n \<or> mac = ETHERNET_BROADCAST"
  shows "\<exists>c b. wire_recv (eth_frame TYPE_IPv4 smac mac bl) n =
      Inr (Some \<lparr>dg_header = (dg_header d)\<lparr>ip_cksum := c\<rparr>, dg_payload = [b]\<rparr>, n) \<and>
    buf_str b = bl_concatenate (dg_payload d)"
proof -
  obtain b where b: "wire_recv (eth_frame TYPE_IPv4 smac mac bl) n =
      ni_recv_frame \<lparr>ef_header = \<lparr>eh_dst = mac, eh_src = smac, eh_type = TYPE_IPv4\<rparr>, ef_payload = [b]\<rparr> n"
    "buf_str b = bl_concatenate bl"
    using wire_recv_frame [of "eth_frame TYPE_IPv4 smac mac bl" n] by auto
  obtain c b' where "dg_parse b dg_new = Inr (NoError, dg_new\<lparr>dg_header := (dg_header d)\<lparr>ip_cksum := c\<rparr>, dg_payload := [b']\<rparr>)"
    "buf_str b' = bl_concatenate (dg_payload d)"
    using dg_roundtrip [OF assms(1)] assms(2) b(2) by (metis Inr_inject)
  then show ?thesis using assms(3) by (auto simp: b(1) ni_recv_frame_def bl_to_buffer_def dg_new_def)
qed

text \<open>
  (C10) Address resolution works: when interface \<open>A\<close> sends a datagram to a next hop whose Ethernet address
  it does not know, it broadcasts one ARP request; the owner \<open>B\<close> of the address answers it and learns
  who asked; the answer makes \<open>A\<close> remember the address and send exactly the waiting datagram to \<open>B\<close>,
  which delivers it with the same header (up to the checksum computed on sending) and payload.
\<close>

theorem interface_resolves_and_delivers:
  assumes A: "ni_inv macA ipA DA A" "ni_cache A ipB = None" "ni_Queuing_List_Map A ipB = None"
    and B: "ni_inv macB ipB DB B"
    and d: "dg_ok d" and hop: "addr_ipv4_numeric hop = Inr ipB"
  shows "\<exists>A1 A2 B1 req reply f c b. ni_send_datagram d hop A = Inr A1 \<and> ni_frames_out A1 = ni_frames_out A @ [req] \<and>
    wire_recv req B = Inr (None, B1) \<and> last (ni_frames_out B1) = reply \<and>
    ni_cache B1 ipA = Some \<lparr>en_time_caching = 0, en_MAC_address = macA\<rparr> \<and>
    wire_recv reply A1 = Inr (None, A2) \<and> ni_frames_out A2 = ni_frames_out A1 @ [f] \<and>
    ni_cache A2 ipB = Some \<lparr>en_time_caching = 0, en_MAC_address = macB\<rparr> \<and> ni_Queuing_List_Map A2 ipB = None \<and>
    wire_recv f B1 = Inr (Some \<lparr>dg_header = (dg_header d)\<lparr>ip_cksum := c\<rparr>, dg_payload = [b]\<rparr>, B1) \<and>
    buf_str b = bl_concatenate (dg_payload d)"
proof -
  define A1 where "A1 = A\<lparr>ni_Queuing_List_Map := (ni_Queuing_List_Map A)(ipB \<mapsto>
      \<lparr>ql_time_since_last_ARP_req = 0, ql_queuing_datagrams = [d]\<rparr>),
    ni_frames_out := ni_frames_out A @ [arp_frame ARP_REQUEST macA ipA ETHERNET_BROADCAST ipB]\<rparr>"
  have own: "ni_ethernet_address A = macA" "addr_ipv4_numeric (ni_ip_address A) = Inr ipA" "ni_ethernet_address B = macB"
    using A(1) B by (simp_all add: ni_inv_def)
  have A1: "ni_send_datagram d hop A = Inr A1"
    using A hop own by (simp add: ni_send_datagram_def send_ARP_sends A1_def)
  from ni_send_inv [OF ni_inv_insert [OF A(1) d] insertI1 hop] A1 have inv: "ni_inv macA ipA (insert d DA) A1" by simp
  let ?req = "arp_of ARP_REQUEST macA ipA ETHERNET_BROADCAST ipB"
  obtain fs where B1: "ni_recv_ARP ?req B = Inr (B\<lparr>ni_cache := (ni_cache B)(ipA \<mapsto> \<lparr>en_time_caching = 0, en_MAC_address = macA\<rparr>),
      ni_frames_out := ni_frames_out B @ fs @ [arp_frame ARP_REPLY macB ipB macA ipA],
      ni_Queuing_List_Map := (ni_Queuing_List_Map B)(ipA := None)\<rparr>)" (is "_ = Inr ?B1")
    using recv_ARP_facts [OF B, of ?req] by auto
  let ?reply = "arp_of ARP_REPLY macB ipB macA ipA"
  have "OPCODE_REPLY \<noteq> OPCODE_REQUEST" by (simp add: OPCODE_REPLY_def OPCODE_REQUEST_def)
  with recv_ARP_facts [OF inv, of ?reply] obtain gs where
    A2: "ni_recv_ARP ?reply A1 = Inr (A1\<lparr>ni_cache := (ni_cache A1)(ipB \<mapsto> \<lparr>en_time_caching = 0, en_MAC_address = macB\<rparr>),
        ni_frames_out := ni_frames_out A1 @ gs, ni_Queuing_List_Map := (ni_Queuing_List_Map A1)(ipB := None)\<rparr>)"
    and gs: "length gs = 1" "\<forall>i<length gs. \<exists>bl. dg_serialize ([d] ! i) = Inr bl \<and> gs ! i = eth_frame TYPE_IPv4 macA macB bl"
    by (auto simp: A1_def)
  then obtain bl where bl: "gs = [eth_frame TYPE_IPv4 macA macB bl]" "dg_serialize d = Inr bl"
    by (cases gs) auto
  obtain c b where "wire_recv (eth_frame TYPE_IPv4 macA macB bl) ?B1 =
      Inr (Some \<lparr>dg_header = (dg_header d)\<lparr>ip_cksum := c\<rparr>, dg_payload = [b]\<rparr>, ?B1)"
    "buf_str b = bl_concatenate (dg_payload d)"
    using wire_recv_datagram [OF d bl(2), of macB ?B1 macA] own by auto
  moreover have "wire_recv (arp_frame ARP_REQUEST macA ipA ETHERNET_BROADCAST ipB) B = Inr (None, ?B1)"
    by (simp add: wire_recv_ARP B1)
  moreover have "ni_ethernet_address A1 = macA" by (simp add: A1_def own)
  ultimately show ?thesis
    using A1 A2 bl(1) wire_recv_ARP [of macA A1 ARP_REPLY macB ipB ipA]
    by (intro exI [of _ A1] exI [of _ ?B1] exI [of _ "arp_frame ARP_REPLY macB ipB macA ipA"] exI) (auto simp: A1_def)
qed

theorem interface_resolves_and_delivers_witness:
  "\<exists>A1 A2 B1 req reply f c b. ni_send_datagram demo_dgram (inet_address 0x0a000002 0)
      (ni_new (demo_mac 1) (inet_address 0x0a000001 0)) = Inr A1 \<and> ni_frames_out A1 = [req] \<and>
    wire_recv req (ni_new (demo_mac 2) (inet_address 0x0a000002 0)) = Inr (None, B1) \<and> last (ni_frames_out B1) = reply \<and>
    wire_recv reply A1 = Inr (None, A2) \<and> ni_frames_out A2 = ni_frames_out A1 @ [f] \<and>
    wire_recv f B1 = Inr (Some \<lparr>dg_header = (dg_header demo_dgram)\<lparr>ip_cksum := c\<rparr>, dg_payload = [b]\<rparr>, B1) \<and>
    buf_str b = [1, 2]"
proof -
  have n: "ni_inv (demo_mac x) ip {} (ni_new (demo_mac x) (inet_address ip 0))" for x ip
    by (simp add: ni_inv_def ni_new_def)
  have d: "dg_ok demo_dgram" "bl_concatenate (dg_payload demo_dgram) = [1, 2]"
    by (simp_all add: dg_ok_def demo_dgram_def ip_ok_def ip_new_def bl_size_eq)
  have e: "ni_frames_out (ni_new m a) = []" "ni_cache (ni_new m a) x = None" "ni_Queuing_List_Map (ni_new m a) x = None" for m a x
    by (simp_all add: ni_new_def)
  show ?thesis
    using interface_resolves_and_delivers [OF n [of 1 "0x0a000001"] e(2,3) n [of 2 "0x0a000002"] d(1) ipv4_numeric_inet [of _ 0]]
    unfolding e(1) d(2) append_Nil by (elim exE conjE) (intro exI conjI; assumption)
qed

text \<open>
  While an address is being resolved, further datagrams for it are lost: \<open>send_datagram\<close> pushes them
  onto a copy of the queue, so that the queue, and with it what is sent once the address is known,
  stays as it was. And once five seconds have passed, every call repeats the ARP request, as the timer
  of the queue is not reset.
\<close>

theorem interface_loses_datagrams:
  assumes "addr_ipv4_numeric (ni_ip_address n) = Inr ip" "addr_ipv4_numeric hop = Inr hop_ip"
    and "ni_cache n hop_ip = None" "ni_Queuing_List_Map n hop_ip = Some q"
  shows "ni_send_datagram d hop n = Inr (n\<lparr>ni_frames_out := ni_frames_out n @
     (if 5000 \<le> ql_time_since_last_ARP_req q
      then [arp_frame ARP_REQUEST (ni_ethernet_address n) ip ETHERNET_BROADCAST hop_ip] else [])\<rparr>)"
  using assms by (simp add: ni_send_datagram_def send_ARP_sends Let_def)

theorem interface_loses_datagrams_witness:
  "\<exists>n1 n2. ni_send_datagram demo_dgram (inet_address 0x0a000002 0) (ni_new (demo_mac 1) (inet_address 0x0a000001 0)) = Inr n1 \<and>
    ni_send_datagram demo_dgram (inet_address 0x0a000002 0) n1 = Inr n2 \<and>
    map_option ql_queuing_datagrams (ni_Queuing_List_Map n2 0x0a000002) = Some [demo_dgram] \<and> ni_frames_out n2 = ni_frames_out n1"
proof -
  let ?q = "\<lparr>ql_time_since_last_ARP_req = 0, ql_queuing_datagrams = [demo_dgram]\<rparr>"
  obtain n1 where n1: "ni_send_datagram demo_dgram (inet_address 0x0a000002 0) (ni_new (demo_mac 1) (inet_address 0x0a000001 0)) = Inr n1"
    "addr_ipv4_numeric (ni_ip_address n1) = Inr 0x0a000001" "ni_cache n1 0x0a000002 = None" "ni_Queuing_List_Map n1 0x0a000002 = Some ?q"
    by (simp add: ni_send_datagram_def ni_new_def send_ARP_sends)
  then show ?thesis
    using interface_loses_datagrams [OF n1(2) ipv4_numeric_inet n1(3,4), of demo_dgram 0]
    by (intro exI conjI) (rule n1(1), assumption, simp_all)
qed

lemma cache_after_ticks:
  assumes "ni_cache n ip = Some \<lparr>en_time_caching = t, en_MAC_address = mac\<rparr>"
    and "unat t < 30000" "unat t + sum_list (map unat mss) < 2 ^ 64"
  shows "ni_cache (foldl (\<lambda>n ms. ni_tick ms n) n mss) ip =
    (if unat t + sum_list (map unat mss) < 30000
     then Some \<lparr>en_time_caching = t + sum_list mss, en_MAC_address = mac\<rparr> else None)"
  using assms
proof (induction mss arbitrary: n t)
  case (Cons ms mss)
  have gone: "ni_cache n ip = None \<Longrightarrow> ni_cache (foldl (\<lambda>n ms. ni_tick ms n) n mss) ip = None" for n
    by (induction mss arbitrary: n) (auto simp: ni_tick_def Let_def)
  have t: "unat (t + ms) = unat t + unat ms" using Cons.prems(3) by (intro unat_add64) simp
  have step: "ni_cache (ni_tick ms n) ip =
      (if unat t + unat ms < 30000 then Some \<lparr>en_time_caching = t + ms, en_MAC_address = mac\<rparr> else None)"
    using Cons.prems(1) t by (simp add: ni_tick_def Let_def word_le_nat_alt)
  show ?case
  proof (cases "unat t + unat ms < 30000")
    case True
    then show ?thesis using Cons.IH [of "ni_tick ms n" "t + ms"] step t Cons.prems(3) by (simp add: add.assoc)
  next
    case False
    then show ?thesis using gone [of "ni_tick ms n"] step by simp
  qed
qed simp

text \<open>
  What is learnt from an ARP message is kept for 30 seconds and then forgotten: after any sequence of
  ticks, the entry is there exactly if they add up to less than 30000 ms.
\<close>

theorem arp_entry_lifetime:
  assumes "ni_recv_ARP arp n = Inr n'" and "sum_list (map unat mss) < 2 ^ 64"
    and "ni_inv mac ip D n"
  shows "map_option en_MAC_address (ni_cache (foldl (\<lambda>n ms. ni_tick ms n) n' mss) (arp_sender_ip_address arp)) =
    (if sum_list (map unat mss) < 30000 then Some (arp_sender_ethernet_address arp) else None)"
proof -
  have "ni_cache n' (arp_sender_ip_address arp) =
      Some \<lparr>en_time_caching = 0, en_MAC_address = arp_sender_ethernet_address arp\<rparr>"
    by (rule recv_ARP_facts [OF assms(3), of arp]) (use assms(1) in simp)
  from cache_after_ticks [OF this, of mss] assms(2) show ?thesis by simp
qed

theorem arp_entry_lifetime_witness:
  "\<exists>n. ni_recv_ARP (arp_of ARP_REPLY (demo_mac 2) 0x0a000002 (demo_mac 1) 0x0a000001)
      (ni_new (demo_mac 1) (inet_address 0x0a000001 0)) = Inr n \<and>
    map_option en_MAC_address (ni_cache (ni_tick 999 (ni_tick 29000 n)) 0x0a000002) = Some (demo_mac 2) \<and>
    ni_cache (ni_tick 1000 (ni_tick 29000 n)) 0x0a000002 = None"
proof -
  let ?a = "arp_of ARP_REPLY (demo_mac 2) 0x0a000002 (demo_mac 1) 0x0a000001"
  have inv: "ni_inv (demo_mac 1) 0x0a000001 {} (ni_new (demo_mac 1) (inet_address 0x0a000001 0))"
    by (simp add: ni_inv_def ni_new_def)
  obtain n where n: "ni_recv_ARP ?a (ni_new (demo_mac 1) (inet_address 0x0a000001 0)) = Inr n"
    using recv_ARP_inv [OF inv] by blast
  show ?thesis
  proof (intro exI conjI)
    have s: "sum_list (map unat [29000, 999 :: u64]) = 29999" "sum_list (map unat [29000, 1000 :: u64]) = 30000" by simp_all
    show "map_option en_MAC_address (ni_cache (ni_tick 999 (ni_tick 29000 n)) 0x0a000002) = Some (demo_mac 2)"
      using arp_entry_lifetime [OF n _ inv, of "[29000, 999]"] unfolding s by simp
    show "ni_cache (ni_tick 1000 (ni_tick 29000 n)) 0x0a000002 = None"
      using arp_entry_lifetime [OF n _ inv, of "[29000, 1000]"] unfolding s by simp
  qed (rule n)
qed

end
