(* ===== verification/Router.thy ===== *)
theory Router
  imports Net_Interface
begin

text \<open>
  Model of \<open>router.hh\<close> and \<open>router.cc\<close>: a router forwards the datagrams its interfaces received by
  longest-prefix match.
\<close>

section \<open>State\<close>

text \<open>An \<open>AsyncNetworkInterface\<close> is a \<open>NetworkInterface\<close> that keeps the datagrams it receives.\<close>

record async_network_interface =
  an_base :: network_interface
  an_datagrams_out :: "ipv4_datagram list"

definition an_new :: "network_interface \<Rightarrow> async_network_interface" where
  "an_new interface = \<lparr>an_base = interface, an_datagrams_out = []\<rparr>"

definition an_recv_frame :: "ethernet_frame \<Rightarrow> async_network_interface \<Rightarrow> exn + async_network_interface" where
  "an_recv_frame frame a =
     bindE (ni_recv_frame frame (an_base a)) (\<lambda>(optional_dgram, n).
       let a = a\<lparr>an_base := n\<rparr>
       in Inr (case optional_dgram of
                 Some dgram \<Rightarrow> a\<lparr>an_datagrams_out := an_datagrams_out a @ [dgram]\<rparr>
               | None \<Rightarrow> a))"

definition an_send_datagram :: "ipv4_datagram \<Rightarrow> address \<Rightarrow> async_network_interface \<Rightarrow> exn + async_network_interface" where
  "an_send_datagram dgram next_hop a = bindE (ni_send_datagram dgram next_hop (an_base a)) (\<lambda>n. Inr (a\<lparr>an_base := n\<rparr>))"

record route_entry =
  re_route_prefix :: u32
  re_prefix_length :: u8
  re_next_hop :: "address option"
  re_interface_num :: nat

record router =
  rt_interfaces :: "async_network_interface list"
  rt_routing_table :: "route_entry list"

definition rt_new :: router where
  "rt_new = \<lparr>rt_interfaces = [], rt_routing_table = []\<rparr>"

definition rt_add_interface :: "async_network_interface \<Rightarrow> router \<Rightarrow> nat \<times> router" where
  "rt_add_interface interface r =
     (let r = r\<lparr>rt_interfaces := rt_interfaces r @ [interface]\<rparr> in (length (rt_interfaces r) - 1, r))"

definition rt_interface :: "nat \<Rightarrow> router \<Rightarrow> exn + async_network_interface" where
  "rt_interface N r = (if N < length (rt_interfaces r) then Inr (rt_interfaces r ! N) else Inl (OutOfRange ''vector::at''))"

definition rt_add_route :: "u32 \<Rightarrow> u8 \<Rightarrow> address option \<Rightarrow> nat \<Rightarrow> router \<Rightarrow> router" where
  "rt_add_route route_prefix prefix_length next_hop interface_num r =
     r\<lparr>rt_routing_table := rt_routing_table r @ [\<lparr>re_route_prefix = route_prefix, re_prefix_length = prefix_length,
        re_next_hop = next_hop, re_interface_num = interface_num\<rparr>]\<rparr>"

section \<open>Routing one datagram\<close>

text \<open>The mask of a route. Shifting by a negative amount is undefined.\<close>

definition rt_mask :: "u8 \<Rightarrow> exn + u32" where
  "rt_mask prefix_length =
     (if prefix_length = 0 then Inr 0
      else if 32 < unat prefix_length then Inl (Undefined ''shift by a negative amount'')
      else Inr (push_bit (32 - unat prefix_length) 0xffffffff))"

text \<open>The search for the longest match, from entry \<open>i\<close> on.\<close>

fun rt_match :: "u32 \<Rightarrow> route_entry list \<Rightarrow> int \<Rightarrow> int \<Rightarrow> int \<Rightarrow> exn + int \<times> int" where
  "rt_match dst [] i match_num match_len = Inr (match_num, match_len)"
| "rt_match dst (e # es) i match_num match_len =
     bindE (rt_mask (re_prefix_length e)) (\<lambda>mask.
       if dst AND mask = re_route_prefix e \<and> match_len < uint (re_prefix_length e)
       then rt_match dst es (i + 1) i (uint (re_prefix_length e))
       else rt_match dst es (i + 1) match_num match_len)"

text \<open>\<open>send_datagram\<close> on \<open>_interfaces[k]\<close>.\<close>

definition rt_send :: "nat \<Rightarrow> ipv4_datagram \<Rightarrow> address \<Rightarrow> router \<Rightarrow> exn + router" where
  "rt_send k dgram next_hop r =
     (if k < length (rt_interfaces r)
      then bindE (an_send_datagram dgram next_hop (rt_interfaces r ! k)) (\<lambda>a.
             Inr (r\<lparr>rt_interfaces := (rt_interfaces r)[k := a]\<rparr>))
      else Inl (Undefined ''vector index out of range''))"

definition route_one_datagram :: "ipv4_datagram \<Rightarrow> router \<Rightarrow> exn + router" where
  "route_one_datagram dgram r =
     (if ip_ttl (dg_header dgram) \<le> 1 then Inr r
      else
        bindE (rt_match (ip_dst (dg_header dgram)) (rt_routing_table r) 0 (- 1) (- 1)) (\<lambda>(match_num, match_len).
          if match_num = - 1 then Inr r
          else
            let dgram = dgram\<lparr>dg_header := (dg_header dgram)\<lparr>ip_ttl := ip_ttl (dg_header dgram) - 1\<rparr>\<rparr>;
                match_entry = rt_routing_table r ! nat match_num
            in case re_next_hop match_entry of
                 Some next_hop \<Rightarrow> rt_send (re_interface_num match_entry) dgram next_hop r
               | None \<Rightarrow> bindE (addr_from_ipv4_numeric (ip_dst (dg_header dgram))) (\<lambda>next_hop.
                   rt_send (re_interface_num match_entry) dgram next_hop r)))"

section \<open>Routing everything\<close>

text \<open>Sending leaves the queues of received datagrams alone, so that the loop over a queue ends.\<close>

definition rt_queue :: "nat \<Rightarrow> router \<Rightarrow> ipv4_datagram list" where
  "rt_queue i r = an_datagrams_out (rt_interfaces r ! i)"

definition rt_pop :: "nat \<Rightarrow> router \<Rightarrow> router" where
  "rt_pop i r = r\<lparr>rt_interfaces := (rt_interfaces r)[i := (rt_interfaces r ! i)\<lparr>an_datagrams_out := tl (rt_queue i r)\<rparr>]\<rparr>"

lemma rt_send_keeps:
  assumes "rt_send k d hop r = Inr r'"
  shows "length (rt_interfaces r') = length (rt_interfaces r)" "rt_routing_table r' = rt_routing_table r"
    "rt_queue i r' = rt_queue i r"
  using assms unfolding rt_send_def an_send_datagram_def
  by (auto simp: bindE_eq_Inr_iff rt_queue_def nth_list_update split: if_splits)

lemma route_one_keeps:
  assumes "route_one_datagram d r = Inr r'"
  shows "length (rt_interfaces r') = length (rt_interfaces r)" "rt_routing_table r' = rt_routing_table r"
    "rt_queue i r' = rt_queue i r"
  using assms unfolding route_one_datagram_def
  by (auto simp: bindE_eq_Inr_iff Let_def rt_send_keeps split: if_splits option.splits)

lemma rt_pop_queue: "i < length (rt_interfaces r) \<Longrightarrow> rt_queue j (rt_pop i r) = (if j = i then tl (rt_queue i r) else rt_queue j r)"
  by (simp add: rt_pop_def rt_queue_def)

function rt_route_queue :: "nat \<Rightarrow> router \<Rightarrow> exn + router" where
  "rt_route_queue i r =
     (if i < length (rt_interfaces r) then
        (case rt_queue i r of
           [] \<Rightarrow> Inr r
         | dgram # _ \<Rightarrow>
             (case route_one_datagram dgram r of
                Inl e \<Rightarrow> Inl e
              | Inr r' \<Rightarrow> rt_route_queue i (rt_pop i r')))
      else Inr r)"
  by pat_completeness auto

termination
  by (relation "measure (\<lambda>(i, r). length (rt_queue i r))") (auto simp: rt_pop_queue route_one_keeps)

declare rt_route_queue.simps [simp del]

fun rt_route_from :: "nat list \<Rightarrow> router \<Rightarrow> exn + router" where
  "rt_route_from [] r = Inr r"
| "rt_route_from (i # is) r = bindE (rt_route_queue i r) (rt_route_from is)"

definition rt_route :: "router \<Rightarrow> exn + router" where
  "rt_route r = rt_route_from [0..<length (rt_interfaces r)] r"

section \<open>Longest-prefix match\<close>

text \<open>
  The specification: a route applies to an address if the two agree on the first \<open>prefix_length\<close> bits,
  and the rest of the prefix is zero; the first one of the longest routes that apply is taken.
\<close>

definition plen :: "route_entry \<Rightarrow> nat" where
  "plen e = unat (re_prefix_length e)"

definition applies :: "u32 \<Rightarrow> route_entry \<Rightarrow> bool" where
  "applies dst e \<longleftrightarrow> unat dst div 2 ^ (32 - plen e) = unat (re_route_prefix e) div 2 ^ (32 - plen e) \<and>
     unat (re_route_prefix e) mod 2 ^ (32 - plen e) = 0"

definition longest_match :: "u32 \<Rightarrow> route_entry list \<Rightarrow> nat \<Rightarrow> bool" where
  "longest_match dst es k \<longleftrightarrow> k < length es \<and> applies dst (es ! k) \<and>
     (\<forall>j<length es. applies dst (es ! j) \<longrightarrow> plen (es ! j) \<le> plen (es ! k) \<and> (j < k \<longrightarrow> plen (es ! j) < plen (es ! k)))"

lemma and_high_bits: "unat (w AND push_bit k (0xffffffff :: u32)) = unat w div 2 ^ k * 2 ^ k"
proof -
  have m: "(0xffffffff :: u32) = mask 32" by (simp add: mask_eq_exp_minus_1)
  have "w AND push_bit k 0xffffffff = push_bit k (drop_bit k w)"
    unfolding m by (intro bit_word_eqI) (auto simp: bit_simps)
  moreover have "unat (push_bit k (drop_bit k w)) = take_bit 32 (push_bit k (drop_bit k (take_bit 32 (unat w))))"
    by (simp only: unsigned_push_bit_eq unsigned_drop_bit_eq) simp
  moreover have "take_bit 32 (unat w) = unat w" by (simp add: take_bit_nat_eq_self)
  ultimately have "unat (w AND push_bit k 0xffffffff) = take_bit 32 (unat w div 2 ^ k * 2 ^ k)"
    by (simp only: push_bit_nat_def drop_bit_nat_def)
  moreover have "unat w div 2 ^ k * 2 ^ k < 2 ^ 32"
    by (rule le_less_trans [OF div_times_less_eq_dividend]) simp
  ultimately show ?thesis by (simp only: take_bit_nat_eq_self)
qed

lemma multiple_eq: "0 < c \<Longrightarrow> (a * c = (p :: nat)) = (a = p div c \<and> p mod c = 0)"
  by auto

lemma rt_mask_applies:
  assumes "plen e \<le> 32"
  shows "\<exists>m. rt_mask (re_prefix_length e) = Inr m \<and> (dst AND m = re_route_prefix e \<longleftrightarrow> applies dst e)"
proof (cases "re_prefix_length e = 0")
  case True
  then have "applies dst e \<longleftrightarrow> re_route_prefix e = 0"
    by (simp add: applies_def plen_def word_unat_eq_iff)
  then show ?thesis using True by (intro exI [of _ 0]) (auto simp: rt_mask_def)
next
  case False
  have "(dst AND push_bit (32 - plen e) 0xffffffff = re_route_prefix e) = applies dst e"
    unfolding word_unat_eq_iff and_high_bits applies_def by (rule multiple_eq) simp
  then show ?thesis using False assms by (simp add: rt_mask_def plen_def)
qed

lemma rt_match_longest:
  assumes "\<forall>e\<in>set es. plen e \<le> 32"
  shows "(\<forall>e\<in>set es. applies dst e \<longrightarrow> int (plen e) \<le> len) \<and> rt_match dst es i num len = Inr (num, len) \<or>
    (\<exists>k. longest_match dst es k \<and> len < int (plen (es ! k)) \<and>
      rt_match dst es i num len = Inr (i + int k, int (plen (es ! k))))"
  using assms
proof (induction es arbitrary: i num len)
  case (Cons e es)
  obtain m where m: "rt_mask (re_prefix_length e) = Inr m" "dst AND m = re_route_prefix e \<longleftrightarrow> applies dst e"
    using rt_mask_applies [of e dst] Cons.prems by auto
  have u: "uint (re_prefix_length e) = int (plen e)" by (simp add: plen_def)
  have shift: "longest_match dst (e # es) (Suc k)"
    if "longest_match dst es k" "applies dst e \<Longrightarrow> plen e < plen (es ! k)" for k
    using that by (auto simp: longest_match_def less_Suc_eq_0_disj)
  show ?case
  proof (cases "applies dst e \<and> len < int (plen e)")
    case True
    then have step: "rt_match dst (e # es) i num len = rt_match dst es (i + 1) i (int (plen e))" by (simp add: m u)
    have here: "longest_match dst (e # es) 0" if "\<forall>x\<in>set es. applies dst x \<longrightarrow> int (plen x) \<le> int (plen e)"
      using that True by (auto simp: longest_match_def less_Suc_eq_0_disj)
    from Cons.prems have "\<forall>x\<in>set es. plen x \<le> 32" by simp
    from Cons.IH [OF this, of "int (plen e)" "i + 1" i] show ?thesis
    proof (elim disjE exE conjE)
      fix k assume "longest_match dst es k" "int (plen e) < int (plen (es ! k))"
        "rt_match dst es (i + 1) i (int (plen e)) = Inr (i + 1 + int k, int (plen (es ! k)))"
      then show ?thesis using True shift step by (intro disjI2 exI [of _ "Suc k"]) auto
    qed (use True here step in \<open>auto intro!: exI [of _ 0]\<close>)
  next
    case False
    then have step: "rt_match dst (e # es) i num len = rt_match dst es (i + 1) num len" by (auto simp: m u)
    from Cons.prems have "\<forall>x\<in>set es. plen x \<le> 32" by simp
    from Cons.IH [OF this, of len "i + 1" num] show ?thesis
    proof (elim disjE exE conjE)
      fix k assume "longest_match dst es k" "len < int (plen (es ! k))"
        "rt_match dst es (i + 1) num len = Inr (i + 1 + int k, int (plen (es ! k)))"
      then show ?thesis using False shift step by (intro disjI2 exI [of _ "Suc k"]) auto
    qed (use False step in auto)
  qed
qed simp

section \<open>Forwarding\<close>

text \<open>What the routing of a datagram does, in terms of the specification of the match.\<close>

definition forwarded :: "ipv4_datagram \<Rightarrow> ipv4_datagram" where
  "forwarded d = d\<lparr>dg_header := (dg_header d)\<lparr>ip_ttl := ip_ttl (dg_header d) - 1\<rparr>\<rparr>"

definition hop_of :: "ipv4_datagram \<Rightarrow> route_entry \<Rightarrow> address" where
  "hop_of d e = (case re_next_hop e of Some a \<Rightarrow> a | None \<Rightarrow> inet_address (ip_dst (dg_header d)) 0)"

lemma route_one_cases:
  assumes len: "\<forall>e\<in>set (rt_routing_table r). plen e \<le> 32"
  obtains (dropped) "ip_ttl (dg_header d) \<le> 1 \<or> (\<forall>e\<in>set (rt_routing_table r). \<not> applies (ip_dst (dg_header d)) e)"
      "route_one_datagram d r = Inr r"
  | (sent) k e where "1 < ip_ttl (dg_header d)" "longest_match (ip_dst (dg_header d)) (rt_routing_table r) k"
      "e = rt_routing_table r ! k" "route_one_datagram d r = rt_send (re_interface_num e) (forwarded d) (hop_of d e) r"
proof (cases "ip_ttl (dg_header d) \<le> 1")
  case True
  then show thesis using dropped by (simp add: route_one_datagram_def)
next
  case False
  let ?dst = "ip_dst (dg_header d)" and ?es = "rt_routing_table r"
  from rt_match_longest [OF len, of ?dst "- 1" 0 "- 1"] show thesis
  proof (elim disjE exE conjE)
    assume none: "\<forall>e\<in>set ?es. applies ?dst e \<longrightarrow> int (plen e) \<le> - 1" "rt_match ?dst ?es 0 (- 1) (- 1) = Inr (- 1, - 1)"
    then have "route_one_datagram d r = Inr r" by (simp add: route_one_datagram_def)
    moreover have "\<forall>e\<in>set ?es. \<not> applies ?dst e" using none(1) by auto
    ultimately show thesis using dropped by blast
  next
    fix k assume k: "longest_match ?dst ?es k" "rt_match ?dst ?es 0 (- 1) (- 1) = Inr (0 + int k, int (plen (?es ! k)))"
    then have "route_one_datagram d r = rt_send (re_interface_num (?es ! k)) (forwarded d) (hop_of d (?es ! k)) r"
      using False by (auto simp: route_one_datagram_def forwarded_def hop_of_def Let_def split: option.split)
    then show thesis using k(1) False by (intro sent [of k]) auto
  qed
qed

text \<open>
  The invariant of a router: routes have at most 32 bits, refer to existing interfaces and to IPv4 next
  hops; the interfaces satisfy theirs; and what waits to be routed can be serialized.
\<close>

definition re_ok :: "nat \<Rightarrow> route_entry \<Rightarrow> bool" where
  "re_ok n e \<longleftrightarrow> plen e \<le> 32 \<and> re_interface_num e < n \<and>
     (case re_next_hop e of Some a \<Rightarrow> (case addr_ipv4_numeric a of Inr ip \<Rightarrow> True | Inl x \<Rightarrow> False) | None \<Rightarrow> True)"

definition an_inv :: "async_network_interface \<Rightarrow> bool" where
  "an_inv a \<longleftrightarrow> (\<exists>mac ip. ni_inv mac ip (Collect dg_ok) (an_base a)) \<and> (\<forall>d\<in>set (an_datagrams_out a). dg_ok d)"

definition rt_inv :: "router \<Rightarrow> bool" where
  "rt_inv r \<longleftrightarrow> (\<forall>e\<in>set (rt_routing_table r). re_ok (length (rt_interfaces r)) e) \<and> (\<forall>a\<in>set (rt_interfaces r). an_inv a)"

lemma forwarded_ok [simp]: "dg_ok (forwarded d) = dg_ok d"
  by (simp add: dg_ok_def forwarded_def ip_ok_def)

lemma rt_inv_update: "rt_inv r \<Longrightarrow> an_inv a \<Longrightarrow> rt_inv (r\<lparr>rt_interfaces := (rt_interfaces r)[k := a]\<rparr>)"
  by (auto simp: rt_inv_def dest: set_update_subset_insert [THEN subsetD])

lemma rt_send_inv:
  assumes inv: "rt_inv r" and d: "dg_ok d" and k: "k < length (rt_interfaces r)" and hop: "addr_ipv4_numeric hop = Inr ip"
  shows "\<exists>r'. rt_send k d hop r = Inr r' \<and> rt_inv r'"
proof -
  let ?a = "rt_interfaces r ! k"
  have a: "an_inv ?a" using inv k by (auto simp: rt_inv_def)
  then obtain mac own where "ni_inv mac own (Collect dg_ok) (an_base ?a)" by (auto simp: an_inv_def)
  from ni_send_inv [OF this _ hop, of d] d obtain n where
    "ni_send_datagram d hop (an_base ?a) = Inr n" "ni_inv mac own (Collect dg_ok) n" by auto
  then show ?thesis
    using rt_inv_update [OF inv, of "?a\<lparr>an_base := n\<rparr>" k] a k by (auto simp: rt_send_def an_send_datagram_def an_inv_def)
qed

lemma hop_of_numeric:
  assumes "re_ok n e"
  shows "\<exists>ip. addr_ipv4_numeric (hop_of d e) = Inr ip"
  using assms by (auto simp: re_ok_def hop_of_def split: option.splits sum.splits)

lemma route_one_inv:
  assumes inv: "rt_inv r" and d: "dg_ok d"
  shows "\<exists>r'. route_one_datagram d r = Inr r' \<and> rt_inv r'"
proof -
  have len: "\<forall>e\<in>set (rt_routing_table r). plen e \<le> 32" using inv by (auto simp: rt_inv_def re_ok_def)
  show ?thesis
  proof (cases rule: route_one_cases [OF len, of d])
    case 1
    then show ?thesis using inv by simp
  next
    case (2 k e)
    then have e: "re_ok (length (rt_interfaces r)) e" using inv by (auto simp: rt_inv_def longest_match_def)
    then obtain ip where "addr_ipv4_numeric (hop_of d e) = Inr ip" using hop_of_numeric by blast
    then show ?thesis using rt_send_inv [OF inv, of "forwarded d"] d e 2(4) by (simp add: re_ok_def)
  qed
qed

lemma rt_pop_inv:
  assumes inv: "rt_inv r"
  shows "rt_inv (rt_pop i r)"
proof (cases "i < length (rt_interfaces r)")
  case True
  then have "an_inv (rt_interfaces r ! i)" using inv by (auto simp: rt_inv_def)
  then have "an_inv ((rt_interfaces r ! i)\<lparr>an_datagrams_out := tl (rt_queue i r)\<rparr>)"
    by (cases "rt_queue i r") (auto simp: an_inv_def rt_queue_def)
  then show ?thesis unfolding rt_pop_def by (rule rt_inv_update [OF inv])
qed (use inv in \<open>simp add: rt_pop_def list_update_beyond\<close>)

lemma rt_route_queue_inv:
  assumes "rt_inv r" "i < length (rt_interfaces r)"
  shows "\<exists>r'. rt_route_queue i r = Inr r' \<and> rt_inv r' \<and> length (rt_interfaces r') = length (rt_interfaces r) \<and>
    (\<forall>j. rt_queue j r' = (if j = i then [] else rt_queue j r))"
  using assms
proof (induction i r rule: rt_route_queue.induct)
  case (1 i r)
  show ?case
  proof (cases "rt_queue i r")
    case Nil
    then show ?thesis using "1.prems" by (auto simp: rt_route_queue.simps [of i r])
  next
    case (Cons d ds)
    have "an_inv (rt_interfaces r ! i)" using "1.prems" by (simp add: rt_inv_def)
    then have "dg_ok d" using Cons by (simp add: an_inv_def rt_queue_def)
    then obtain r1 where r1: "route_one_datagram d r = Inr r1" "rt_inv r1"
      using route_one_inv [OF "1.prems"(1)] by blast
    have keep: "length (rt_interfaces (rt_pop i r1)) = length (rt_interfaces r)"
      "rt_queue j (rt_pop i r1) = (if j = i then ds else rt_queue j r)" for j
      using route_one_keeps [OF r1(1)] Cons "1.prems"(2) by (simp_all add: rt_pop_queue) (simp add: rt_pop_def)
    from "1.IH" [OF "1.prems"(2) Cons r1(1) rt_pop_inv [OF r1(2)]] keep "1.prems"(2)
    show ?thesis using Cons r1(1) by (auto simp: rt_route_queue.simps [of i r])
  qed
qed

lemma rt_route_from_inv:
  assumes "rt_inv r" "\<forall>i\<in>set is. i < length (rt_interfaces r)"
  shows "\<exists>r'. rt_route_from is r = Inr r' \<and> rt_inv r' \<and> length (rt_interfaces r') = length (rt_interfaces r) \<and>
    (\<forall>j. rt_queue j r' = (if j \<in> set is then [] else rt_queue j r))"
  using assms
proof (induction "is" arbitrary: r)
  case (Cons i "is")
  then obtain r1 where r1: "rt_route_queue i r = Inr r1" "rt_inv r1" "length (rt_interfaces r1) = length (rt_interfaces r)"
    "\<forall>j. rt_queue j r1 = (if j = i then [] else rt_queue j r)"
    using rt_route_queue_inv [of r i] by auto
  from Cons.IH [OF r1(2)] Cons.prems r1(3) obtain r2 where "rt_route_from is r1 = Inr r2" "rt_inv r2"
    "length (rt_interfaces r2) = length (rt_interfaces r)" "\<forall>j. rt_queue j r2 = (if j \<in> set is then [] else rt_queue j r1)"
    by auto
  then show ?case using r1 by simp
qed simp

section \<open>Properties\<close>

lemma longest_match_unique:
  assumes "longest_match dst es k" "longest_match dst es k'"
  shows "k' = k"
  using assms unfolding longest_match_def by (metis leD linorder_neqE_nat)


definition demo_route :: "u32 \<Rightarrow> u8 \<Rightarrow> nat \<Rightarrow> route_entry" where
  "demo_route prefix len i = \<lparr>re_route_prefix = prefix, re_prefix_length = len, re_next_hop = None, re_interface_num = i\<rparr>"


text \<open>
  (C16) Routing always ends, does not throw and leaves no received datagram behind: from a well-formed
  router whose waiting datagrams can be serialized, \<open>route\<close> empties the queue of every interface and the
  router is well-formed again.
\<close>

theorem router_routes_everything:
  assumes "rt_inv r"
  shows "\<exists>r'. rt_route r = Inr r' \<and> rt_inv r' \<and> length (rt_interfaces r') = length (rt_interfaces r) \<and>
    (\<forall>a\<in>set (rt_interfaces r'). an_datagrams_out a = [])"
proof -
  obtain r' where r': "rt_route r = Inr r'" "rt_inv r'" "length (rt_interfaces r') = length (rt_interfaces r)"
    "\<forall>j. rt_queue j r' = (if j < length (rt_interfaces r) then [] else rt_queue j r)"
    using rt_route_from_inv [OF assms, of "[0..<length (rt_interfaces r)]"] by (auto simp: rt_route_def)
  then have "an_datagrams_out a = []" if "a \<in> set (rt_interfaces r')" for a
    using that by (metis in_set_conv_nth rt_queue_def)
  then show ?thesis using r' by blast
qed

definition demo_router :: router where
  "demo_router = \<lparr>rt_interfaces = [\<lparr>an_base = ni_new (demo_mac 1) (inet_address 0x0a000001 0), an_datagrams_out = [demo_dgram]\<rparr>],
     rt_routing_table = [demo_route 0 0 0]\<rparr>"

theorem router_routes_everything_witness:
  "\<exists>r. rt_route demo_router = Inr r \<and> map an_datagrams_out (rt_interfaces r) = [[]]"
proof -
  have "ni_inv (demo_mac 1) 0x0a000001 (Collect dg_ok) (ni_new (demo_mac 1) (inet_address 0x0a000001 0))"
    by (simp add: ni_inv_def ni_new_def)
  moreover have "dg_ok demo_dgram" by (simp add: dg_ok_def demo_dgram_def ip_ok_def ip_new_def bl_size_eq)
  ultimately have "rt_inv demo_router"
    by (auto simp: rt_inv_def demo_router_def an_inv_def re_ok_def demo_route_def plen_def)
  then obtain r where "rt_route demo_router = Inr r" "length (rt_interfaces r) = 1" "\<forall>a\<in>set (rt_interfaces r). an_datagrams_out a = []"
    using router_routes_everything [of demo_router] by (auto simp: demo_router_def)
  then show ?thesis by (cases "rt_interfaces r") auto
qed

text \<open>
  A datagram from the network can bring the router down: because \<open>IPv4Datagram::parse\<close> accepts a
  header with a wrong version, such a datagram is queued for routing, and \<open>route\<close> throws when the
  interface serializes it again.
\<close>

theorem router_throws_on_wrong_version:
  "bindE (an_recv_frame (arp_frame ARP_REPLY (demo_mac 2) 0x0a000002 (demo_mac 1) 0x0a000001)
      (an_new (ni_new (demo_mac 1) (inet_address 0x0a000001 0)))) (\<lambda>a.
   bindE (an_recv_frame (eth_frame TYPE_IPv4 (demo_mac 2) (demo_mac 1)
      [buf_of_string [0x65, 0, 0, 20, 0, 0, 0, 0, 64, 6, 0, 0, 10, 0, 0, 2, 10, 0, 0, 3]]) a) (\<lambda>a.
     rt_route (rt_add_route 0 0 (Some (inet_address 0x0a000002 0)) 0 (snd (rt_add_interface a rt_new))))) =
   Inl (RuntimeError ''wrong IP version'')"
  by code_simp

end
