(* ===== verification/Network_Simulator.thy ===== *)
theory Network_Simulator
  imports Router "HOL-Library.Multiset"
begin

text \<open>
  Model of \<open>apps/network_simulator.cc\<close>: hosts and a router on simulated Ethernet links, with which the network interface
  and the router are tested. The random generator is a sequence of values, an argument here. Output on the
  terminal is left out, but not the computations it needs, since they can throw.
\<close>

section \<open>Helpers\<close>

type_synonym random_bytes = "u8 \<times> u8 \<times> u8 \<times> u8 \<times> u8 \<times> u8"

fun random_host_ethernet_address :: "random_bytes \<Rightarrow> ethernet_address" where
  "random_host_ethernet_address (b0, b1, b2, b3, b4, b5) = EthernetAddress ((b0 OR 0x02) AND 0xfe) b1 b2 b3 b4 b5"

fun random_router_ethernet_address :: "random_bytes \<Rightarrow> ethernet_address" where
  "random_router_ethernet_address (b0, b1, b2, b3, b4, b5) = EthernetAddress 0x02 0 0 b3 b4 b5"

definition sim_ip :: "getaddrinfo \<Rightarrow> string \<Rightarrow> exn + u32" where
  "sim_ip gai str = bindE (addr_of_ip_port gai str 0) addr_ipv4_numeric"

text \<open>Popping as many elements from the second queue as the first one has; \<open>pop\<close> on an empty queue is undefined.\<close>

fun clear_queues :: "'a list \<Rightarrow> 'a list \<Rightarrow> exn + 'a list" where
  "clear_queues [] queue2 = Inr queue2"
| "clear_queues (x # queue1) [] = Inl (Undefined ''pop on an empty queue'')"
| "clear_queues (x # queue1) (y # queue2) = clear_queues queue1 queue2"

definition string_of_bytes :: "bytes \<Rightarrow> string" where
  "string_of_bytes bs = map (\<lambda>b. char_of (unat b)) bs"

definition bytes_of_string :: "string \<Rightarrow> bytes" where
  "bytes_of_string s = map of_char s"

definition frame_summary :: "ethernet_frame \<Rightarrow> exn + string" where
  "frame_summary frame =
     (let ret = eh_to_string (ef_header frame)
      in if eh_type (ef_header frame) = TYPE_IPv4 then
           bindE (bl_to_buffer (ef_payload frame)) (\<lambda>b. bindE (dg_parse b dg_new) (\<lambda>(res, dgram).
             Inr (if res = NoError
                  then ret @ '' '' @ ip_summary (dg_header dgram) @ '' payload=\"'' @
                    string_of_bytes (bl_concatenate (dg_payload dgram)) @ ''\"''
                  else ret @ '' (bad IPv4)'')))
         else if eh_type (ef_header frame) = TYPE_ARP then
           bindE (bl_to_buffer (ef_payload frame)) (\<lambda>b. bindE (arp_parse b arp_new) (\<lambda>(res, arp).
             Inr (if res = NoError then ret @ '' '' @ arp_to_string arp else ret @ '' (bad ARP)'')))
         else Inr ret)"

section \<open>Hosts\<close>

record host =
  ho_name :: string
  ho_my_address :: address
  ho_interface :: async_network_interface
  ho_next_hop :: address
  ho_expecting_to_receive :: "ipv4_datagram list"

definition ho_new :: "random_bytes \<Rightarrow> string \<Rightarrow> address \<Rightarrow> address \<Rightarrow> host" where
  "ho_new random name my_address next_hop =
     \<lparr>ho_name = name, ho_my_address = my_address, ho_interface = an_new (ni_new (random_host_ethernet_address random) my_address),
      ho_next_hop = next_hop, ho_expecting_to_receive = []\<rparr>"

text \<open>Two datagrams are the same if their serializations are.\<close>

definition same_wire :: "ipv4_datagram \<Rightarrow> ipv4_datagram \<Rightarrow> exn + bool" where
  "same_wire x y =
     bindE (dg_serialize x) (\<lambda>a. bindE (dg_serialize y) (\<lambda>b. Inr (bl_concatenate a = bl_concatenate b)))"

fun expecting_in :: "ipv4_datagram list \<Rightarrow> ipv4_datagram \<Rightarrow> exn + bool" where
  "expecting_in [] expected = Inr False"
| "expecting_in (x # xs) expected = bindE (same_wire x expected) (\<lambda>b. if b then Inr True else expecting_in xs expected)"

fun remove_expectation_in :: "ipv4_datagram list \<Rightarrow> ipv4_datagram \<Rightarrow> exn + ipv4_datagram list" where
  "remove_expectation_in [] expected = Inr []"
| "remove_expectation_in (x # xs) expected =
     bindE (same_wire x expected) (\<lambda>b.
       if b then Inr xs else bindE (remove_expectation_in xs expected) (\<lambda>xs. Inr (x # xs)))"

definition ho_expecting :: "host \<Rightarrow> ipv4_datagram \<Rightarrow> exn + bool" where
  "ho_expecting h expected = expecting_in (ho_expecting_to_receive h) expected"

definition ho_remove_expectation :: "ipv4_datagram \<Rightarrow> host \<Rightarrow> exn + host" where
  "ho_remove_expectation expected h =
     bindE (remove_expectation_in (ho_expecting_to_receive h) expected) (\<lambda>xs. Inr (h\<lparr>ho_expecting_to_receive := xs\<rparr>))"

definition ho_expect :: "ipv4_datagram \<Rightarrow> host \<Rightarrow> host" where
  "ho_expect expected h = h\<lparr>ho_expecting_to_receive := ho_expecting_to_receive h @ [expected]\<rparr>"

definition ho_send_to :: "getnameinfo \<Rightarrow> u32 \<Rightarrow> address \<Rightarrow> u8 \<Rightarrow> host \<Rightarrow> exn + ipv4_datagram \<times> host" where
  "ho_send_to gni random destination ttl h =
     bindE (addr_ipv4_numeric (ho_my_address h)) (\<lambda>src.
     bindE (addr_ipv4_numeric destination) (\<lambda>dst.
       let dgram = dg_new\<lparr>dg_header := (dg_header dg_new)\<lparr>ip_src := src, ip_dst := dst\<rparr>,
                     dg_payload := bl_of_string (bytes_of_string (''random payload: {'' @ dec_string (unat random) @ ''}''))\<rparr>;
           dgram = dgram\<lparr>dg_header := (dg_header dgram)\<lparr>
                     ip_len := of_nat (unat (ip_hlen (dg_header dgram)) * 4 + bl_size (dg_payload dgram)), ip_ttl := ttl\<rparr>\<rparr>
       in bindE (an_send_datagram dgram (ho_next_hop h) (ho_interface h)) (\<lambda>interface.
          bindE (addr_ip gni (ho_next_hop h)) (\<lambda>_. Inr (dgram, h\<lparr>ho_interface := interface\<rparr>)))))"

definition ho_received :: "host \<Rightarrow> ipv4_datagram list" where
  "ho_received h = an_datagrams_out (ho_interface h)"

definition ho_pop :: "host \<Rightarrow> host" where
  "ho_pop h = h\<lparr>ho_interface := (ho_interface h)\<lparr>an_datagrams_out := tl (ho_received h)\<rparr>\<rparr>"

text \<open>The loop of \<open>check\<close> over the received datagrams.\<close>

fun ho_check_received :: "ipv4_datagram list \<Rightarrow> host \<Rightarrow> exn + host" where
  "ho_check_received [] h = Inr h"
| "ho_check_received (dgram_received # dgrams) h =
     bindE (ho_expecting h dgram_received) (\<lambda>expected.
       if \<not> expected
       then Inl (RuntimeError (''Host '' @ ho_name h @ '' received unexpected Internet datagram: '' @ ip_summary (dg_header dgram_received) @
         '' payload=\"'' @ string_of_bytes (bl_concatenate (dg_payload dgram_received)) @ ''\"''))
       else bindE (ho_remove_expectation dgram_received h) (\<lambda>h. ho_check_received dgrams (ho_pop h)))"

definition ho_check :: "host \<Rightarrow> exn + host" where
  "ho_check h =
     bindE (ho_check_received (ho_received h) h) (\<lambda>h.
       case ho_expecting_to_receive h of
         [] \<Rightarrow> Inr h
       | expected # _ \<Rightarrow>
           Inl (RuntimeError (''Host '' @ ho_name h @ '' did NOT receive an expected Internet datagram: '' @ ip_summary (dg_header expected) @
             '' payload=\"'' @ string_of_bytes (bl_concatenate (dg_payload expected)) @ ''\"'')))"

section \<open>The network\<close>

record network =
  nw_router :: router
  nw_default_id :: nat
  nw_eth0_id :: nat
  nw_eth1_id :: nat
  nw_eth2_id :: nat
  nw_uun3_id :: nat
  nw_hs4_id :: nat
  nw_mit5_id :: nat
  nw_hosts :: "(string \<times> host) list"

text \<open>The copy of the queue of frames that is transferred, one frame after the other.\<close>

fun deliver :: "ethernet_frame list \<Rightarrow> async_network_interface \<Rightarrow> exn + async_network_interface" where
  "deliver [] dst = Inr dst"
| "deliver (frame # to_send) dst =
     (let frame = frame\<lparr>ef_payload := bl_of_string (bl_concatenate (ef_payload frame))\<rparr>
      in bindE (frame_summary frame) (\<lambda>_. bindE (an_recv_frame frame dst) (deliver to_send)))"

definition an_frames_out :: "async_network_interface \<Rightarrow> ethernet_frame list" where
  "an_frames_out a = ni_frames_out (an_base a)"

definition an_clear :: "ethernet_frame list \<Rightarrow> async_network_interface \<Rightarrow> exn + async_network_interface" where
  "an_clear frames a =
     bindE (clear_queues frames (an_frames_out a)) (\<lambda>q. Inr (a\<lparr>an_base := (an_base a)\<lparr>ni_frames_out := q\<rparr>\<rparr>))"

definition exchange_frames :: "async_network_interface \<Rightarrow> async_network_interface \<Rightarrow>
    exn + async_network_interface \<times> async_network_interface" where
  "exchange_frames x y =
     (let x_frames = an_frames_out x; y_frames = an_frames_out y
      in bindE (deliver x_frames y) (\<lambda>y. bindE (deliver y_frames x) (\<lambda>x.
         bindE (an_clear x_frames x) (\<lambda>x. bindE (an_clear y_frames y) (\<lambda>y. Inr (x, y))))))"

definition exchange_frames3 :: "async_network_interface \<Rightarrow> async_network_interface \<Rightarrow> async_network_interface \<Rightarrow>
    exn + async_network_interface \<times> async_network_interface \<times> async_network_interface" where
  "exchange_frames3 x y z =
     (let x_frames = an_frames_out x; y_frames = an_frames_out y; z_frames = an_frames_out z
      in bindE (deliver x_frames y) (\<lambda>y. bindE (deliver x_frames z) (\<lambda>z.
         bindE (deliver y_frames x) (\<lambda>x. bindE (deliver y_frames z) (\<lambda>z.
         bindE (deliver z_frames x) (\<lambda>x. bindE (deliver z_frames y) (\<lambda>y.
         bindE (an_clear x_frames x) (\<lambda>x. bindE (an_clear y_frames y) (\<lambda>y. bindE (an_clear z_frames z) (\<lambda>z.
           Inr (x, y, z)))))))))))"

definition nw_host :: "string \<Rightarrow> network \<Rightarrow> exn + host" where
  "nw_host name nw =
     (case map_of (nw_hosts nw) name of
        None \<Rightarrow> Inl (RuntimeError (''unknown host: '' @ name))
      | Some h \<Rightarrow> if ho_name h \<noteq> name then Inl (RuntimeError (''invalid host: '' @ name)) else Inr h)"

definition nw_set_host :: "string \<Rightarrow> host \<Rightarrow> network \<Rightarrow> network" where
  "nw_set_host name h nw = nw\<lparr>nw_hosts := map (\<lambda>(k, x). (k, if k = name then h else x)) (nw_hosts nw)\<rparr>"

definition nw_set_interface :: "nat \<Rightarrow> async_network_interface \<Rightarrow> network \<Rightarrow> network" where
  "nw_set_interface k a nw = nw\<lparr>nw_router := (nw_router nw)\<lparr>rt_interfaces := (rt_interfaces (nw_router nw))[k := a]\<rparr>\<rparr>"

text \<open>A call of \<open>exchange_frames\<close> for an interface of the router and one or two hosts.\<close>

definition link :: "nat \<Rightarrow> string \<Rightarrow> network \<Rightarrow> exn + network" where
  "link k name nw =
     bindE (rt_interface k (nw_router nw)) (\<lambda>x. bindE (nw_host name nw) (\<lambda>h.
     bindE (exchange_frames x (ho_interface h)) (\<lambda>(x, y).
       Inr (nw_set_host name (h\<lparr>ho_interface := y\<rparr>) (nw_set_interface k x nw)))))"

definition link3 :: "nat \<Rightarrow> string \<Rightarrow> string \<Rightarrow> network \<Rightarrow> exn + network" where
  "link3 k name name' nw =
     bindE (rt_interface k (nw_router nw)) (\<lambda>x. bindE (nw_host name nw) (\<lambda>h. bindE (nw_host name' nw) (\<lambda>h'.
     bindE (exchange_frames3 x (ho_interface h) (ho_interface h')) (\<lambda>(x, y, z).
       Inr (nw_set_host name' (h'\<lparr>ho_interface := z\<rparr>) (nw_set_host name (h\<lparr>ho_interface := y\<rparr>) (nw_set_interface k x nw)))))))"

definition simulate_physical_connections :: "network \<Rightarrow> exn + network" where
  "simulate_physical_connections nw =
     bindE (link (nw_default_id nw) ''default_router'' nw) (\<lambda>nw.
     bindE (link (nw_eth0_id nw) ''applesauce'' nw) (\<lambda>nw.
     bindE (link (nw_eth2_id nw) ''cherrypie'' nw) (\<lambda>nw.
     bindE (link (nw_hs4_id nw) ''hs_router'' nw) (\<lambda>nw.
       link3 (nw_uun3_id nw) ''dm42'' ''dm43'' nw))))"

definition nw_round :: "network \<Rightarrow> exn + network" where
  "nw_round nw = bindE (rt_route (nw_router nw)) (\<lambda>r. simulate_physical_connections (nw\<lparr>nw_router := r\<rparr>))"

fun nw_rounds :: "nat \<Rightarrow> network \<Rightarrow> exn + network" where
  "nw_rounds 0 nw = Inr nw"
| "nw_rounds (Suc n) nw = bindE (nw_round nw) (nw_rounds n)"

text \<open>The loop over the hosts; the order of an \<open>unordered_map\<close> is not specified.\<close>

fun check_hosts :: "(string \<times> host) list \<Rightarrow> exn + (string \<times> host) list" where
  "check_hosts [] = Inr []"
| "check_hosts ((k, h) # hosts) = bindE (ho_check h) (\<lambda>h. bindE (check_hosts hosts) (\<lambda>hosts. Inr ((k, h) # hosts)))"

definition simulate :: "network \<Rightarrow> exn + network" where
  "simulate nw =
     bindE (nw_rounds 256 nw) (\<lambda>nw. bindE (check_hosts (nw_hosts nw)) (\<lambda>hosts. Inr (nw\<lparr>nw_hosts := hosts\<rparr>)))"

section \<open>The simulated network and its test cases\<close>

fun add_interfaces :: "getaddrinfo \<Rightarrow> (random_bytes \<times> string) list \<Rightarrow> router \<Rightarrow> exn + nat list \<times> router" where
  "add_interfaces gai [] r = Inr ([], r)"
| "add_interfaces gai ((random, str) # specs) r =
     bindE (addr_of_ip_port gai str 0) (\<lambda>a.
       let (k, r) = rt_add_interface (an_new (ni_new (random_router_ethernet_address random) a)) r
       in bindE (add_interfaces gai specs r) (\<lambda>(ks, r). Inr (k # ks, r)))"

fun insert_hosts :: "getaddrinfo \<Rightarrow> (random_bytes \<times> string \<times> string \<times> string) list \<Rightarrow> (string \<times> host) list \<Rightarrow> exn + (string \<times> host) list" where
  "insert_hosts gai [] hosts = Inr hosts"
| "insert_hosts gai ((random, name, my_address, next_hop) # specs) hosts =
     bindE (addr_of_ip_port gai my_address 0) (\<lambda>my. bindE (addr_of_ip_port gai next_hop 0) (\<lambda>hop.
       insert_hosts gai specs (if name \<in> fst ` set hosts then hosts else hosts @ [(name, ho_new random name my hop)])))"

fun add_routes :: "getaddrinfo \<Rightarrow> (string \<times> u8 \<times> address option \<times> nat) list \<Rightarrow> router \<Rightarrow> exn + router" where
  "add_routes gai [] r = Inr r"
| "add_routes gai ((prefix, len, next_hop, k) # specs) r =
     bindE (sim_ip gai prefix) (\<lambda>p. add_routes gai specs (rt_add_route p len next_hop k r))"

definition network_new :: "getaddrinfo \<Rightarrow> (nat \<Rightarrow> random_bytes) \<Rightarrow> exn + network" where
  "network_new gai random =
     bindE (add_interfaces gai [(random 0, ''171.67.76.46''), (random 1, ''10.0.0.1''), (random 2, ''172.16.0.1''),
       (random 3, ''192.168.0.1''), (random 4, ''198.178.229.1''), (random 5, ''143.195.0.2''), (random 6, ''128.30.76.255'')] rt_new) (\<lambda>(ids, r).
     bindE (insert_hosts gai [(random 7, ''applesauce'', ''10.0.0.2'', ''10.0.0.1''), (random 8, ''default_router'', ''171.67.76.1'', ''0''),
       (random 9, ''cherrypie'', ''192.168.0.2'', ''192.168.0.1''), (random 10, ''hs_router'', ''143.195.0.1'', ''0''),
       (random 11, ''dm42'', ''198.178.229.42'', ''198.178.229.1''), (random 12, ''dm43'', ''198.178.229.43'', ''198.178.229.1'')] []) (\<lambda>hosts.
       let nw = \<lparr>nw_router = r, nw_default_id = ids ! 0, nw_eth0_id = ids ! 1, nw_eth1_id = ids ! 2, nw_eth2_id = ids ! 3,
                  nw_uun3_id = ids ! 4, nw_hs4_id = ids ! 5, nw_mit5_id = ids ! 6, nw_hosts = hosts\<rparr>
       in bindE (nw_host ''default_router'' nw) (\<lambda>default_router. bindE (nw_host ''hs_router'' nw) (\<lambda>hs_router.
          bindE (addr_of_ip_port gai ''128.30.0.1'' 0) (\<lambda>mit_hop.
          bindE (add_routes gai [(''0.0.0.0'', 0, Some (ho_my_address default_router), nw_default_id nw), (''10.0.0.0'', 8, None, nw_eth0_id nw),
            (''172.16.0.0'', 16, None, nw_eth1_id nw), (''192.168.0.0'', 24, None, nw_eth2_id nw), (''198.178.229.0'', 24, None, nw_uun3_id nw),
            (''143.195.0.0'', 17, Some (ho_my_address hs_router), nw_hs4_id nw), (''143.195.128.0'', 18, Some (ho_my_address hs_router), nw_hs4_id nw),
            (''143.195.192.0'', 19, Some (ho_my_address hs_router), nw_hs4_id nw), (''128.30.76.255'', 16, Some mit_hop, nw_mit5_id nw)]
            (nw_router nw)) (\<lambda>r. Inr (nw\<lparr>nw_router := r\<rparr>)))))))"

text \<open>
  A test case: a host sends a datagram; a host, if any, is told to expect it with its time to live decremented; then the network
  is simulated.
\<close>

definition sim_send :: "getnameinfo \<Rightarrow> u32 \<Rightarrow> string \<Rightarrow> address \<Rightarrow> u8 \<Rightarrow> string option \<Rightarrow> network \<Rightarrow> exn + network" where
  "sim_send gni random sender destination ttl receiver nw =
     bindE (nw_host sender nw) (\<lambda>h. bindE (ho_send_to gni random destination ttl h) (\<lambda>(dgram, h).
       let nw = nw_set_host sender h nw
       in case receiver of
            None \<Rightarrow> Inr nw
          | Some name \<Rightarrow>
              let dgram = dgram\<lparr>dg_header := (dg_header dgram)\<lparr>ip_ttl := ip_ttl (dg_header dgram) - 1\<rparr>\<rparr>
              in bindE (nw_host name nw) (\<lambda>h. Inr (nw_set_host name (ho_expect dgram h) nw))))"

definition test_host :: "getnameinfo \<Rightarrow> u32 \<Rightarrow> string \<Rightarrow> string \<Rightarrow> network \<Rightarrow> exn + network" where
  "test_host gni random sender receiver nw =
     bindE (nw_host receiver nw) (\<lambda>h. bindE (sim_send gni random sender (ho_my_address h) 64 (Some receiver) nw) simulate)"

definition test_address :: "getaddrinfo \<Rightarrow> getnameinfo \<Rightarrow> u32 \<Rightarrow> string \<Rightarrow> string \<Rightarrow> u8 \<Rightarrow> string option \<Rightarrow> network \<Rightarrow> exn + network" where
  "test_address gai gni random sender destination ttl receiver nw =
     bindE (addr_of_ip_port gai destination 0) (\<lambda>a. bindE (sim_send gni random sender a ttl receiver nw) simulate)"

definition network_simulator :: "getaddrinfo \<Rightarrow> getnameinfo \<Rightarrow> (nat \<Rightarrow> random_bytes) \<Rightarrow> (nat \<Rightarrow> u32) \<Rightarrow> exn + network" where
  "network_simulator gai gni random val =
     bindE (network_new gai random) (\<lambda>nw.
     bindE (test_host gni (val 0) ''applesauce'' ''cherrypie'' nw) (\<lambda>nw.
     bindE (test_host gni (val 1) ''cherrypie'' ''applesauce'' nw) (\<lambda>nw.
     bindE (test_address gai gni (val 2) ''applesauce'' ''1.2.3.4'' 64 (Some ''default_router'') nw) (\<lambda>nw.
     bindE (test_address gai gni (val 3) ''applesauce'' ''143.195.131.17'' 64 (Some ''hs_router'') nw) (\<lambda>nw.
     bindE (test_address gai gni (val 4) ''cherrypie'' ''143.195.193.52'' 64 (Some ''hs_router'') nw) (\<lambda>nw.
     bindE (test_address gai gni (val 5) ''cherrypie'' ''143.195.223.255'' 64 (Some ''hs_router'') nw) (\<lambda>nw.
     bindE (test_address gai gni (val 6) ''cherrypie'' ''143.195.224.0'' 64 (Some ''default_router'') nw) (\<lambda>nw.
     bindE (test_host gni (val 7) ''dm42'' ''dm43'' nw) (\<lambda>nw.
     bindE (test_address gai gni (val 8) ''applesauce'' ''1.2.3.4'' 1 None nw) (\<lambda>nw.
       test_address gai gni (val 9) ''applesauce'' ''1.2.3.4'' 0 None nw))))))))))"

section \<open>The verdict of a host\<close>

definition dg_wire :: "ipv4_datagram \<Rightarrow> bytes" where
  "dg_wire d = (case dg_serialize d of Inr bl \<Rightarrow> bl_concatenate bl | Inl e \<Rightarrow> [])"

definition dg_serializes :: "ipv4_datagram \<Rightarrow> bool" where
  "dg_serializes d \<longleftrightarrow> (\<exists>bl. dg_serialize d = Inr bl)"

lemma same_wire_eq: "dg_serializes x \<Longrightarrow> dg_serializes y \<Longrightarrow> same_wire x y = Inr (dg_wire x = dg_wire y)"
  by (auto simp: same_wire_def dg_serializes_def dg_wire_def)

lemma expecting_in_eq:
  assumes "dg_serializes d" "\<forall>x\<in>set xs. dg_serializes x"
  shows "expecting_in xs d = Inr (dg_wire d \<in># mset (map dg_wire xs))"
  using assms by (induction xs) (auto simp: same_wire_eq)

lemma remove_expectation_in_eq:
  assumes "dg_serializes d" "\<forall>x\<in>set xs. dg_serializes x"
  shows "\<exists>ys. remove_expectation_in xs d = Inr ys \<and> set ys \<subseteq> set xs \<and> mset (map dg_wire ys) = mset (map dg_wire xs) - {#dg_wire d#}"
  using assms(2)
proof (induction xs)
  case (Cons x xs)
  then obtain ys where "remove_expectation_in xs d = Inr ys" "set ys \<subseteq> set xs" "mset (map dg_wire ys) = mset (map dg_wire xs) - {#dg_wire d#}"
    by auto
  then show ?case using Cons.prems assms(1) by (auto simp: same_wire_eq)
qed simp

abbreviation ho_expected_wire :: "host \<Rightarrow> bytes multiset" where
  "ho_expected_wire h \<equiv> mset (map dg_wire (ho_expecting_to_receive h))"

lemma ho_pop_fields [simp]: "ho_expecting_to_receive (ho_pop h) = ho_expecting_to_receive h" "ho_received (ho_pop h) = tl (ho_received h)"
  "ho_received (h\<lparr>ho_expecting_to_receive := xs\<rparr>) = ho_received h"
  by (simp_all add: ho_pop_def ho_received_def)

lemma ho_check_received_eq:
  assumes "\<forall>d\<in>set ds. dg_serializes d" "\<forall>x\<in>set (ho_expecting_to_receive h). dg_serializes x"
  shows "if mset (map dg_wire ds) \<subseteq># ho_expected_wire h
    then \<exists>h'. ho_check_received ds h = Inr h' \<and> ho_received h' = drop (length ds) (ho_received h) \<and>
        ho_expected_wire h' = ho_expected_wire h - mset (map dg_wire ds)
    else \<exists>e. ho_check_received ds h = Inl e"
  using assms
proof (induction ds arbitrary: h)
  case (Cons d ds)
  have d: "dg_serializes d" using Cons.prems(1) by simp
  note ex = expecting_in_eq [OF d Cons.prems(2)]
  show ?case
  proof (cases "dg_wire d \<in># ho_expected_wire h")
    case True
    obtain ys where ys: "remove_expectation_in (ho_expecting_to_receive h) d = Inr ys" "set ys \<subseteq> set (ho_expecting_to_receive h)"
        "mset (map dg_wire ys) = ho_expected_wire h - {#dg_wire d#}"
      using remove_expectation_in_eq [OF d Cons.prems(2)] by blast
    let ?h = "ho_pop (h\<lparr>ho_expecting_to_receive := ys\<rparr>)"
    have e: "ho_check_received (d # ds) h = ho_check_received ds ?h"
      using ex True ys(1) by (simp add: ho_expecting_def ho_remove_expectation_def)
    have h: "ho_expecting_to_receive ?h = ys" "ho_received ?h = tl (ho_received h)" by simp_all
    have sub: "mset (map dg_wire (d # ds)) \<subseteq># ho_expected_wire h \<longleftrightarrow> mset (map dg_wire ds) \<subseteq># mset (map dg_wire ys)"
      unfolding ys(3) using True by (simp add: insert_subset_eq_iff)
    have "\<forall>x\<in>set (ho_expecting_to_receive ?h). dg_serializes x" using ys(2) Cons.prems(2) by (auto simp: h(1))
    from Cons.IH [OF _ this] Cons.prems(1) show ?thesis
      unfolding e sub h ys(3) by (auto simp: drop_Suc split: if_splits)
  next
    case False
    then have "\<not> mset (map dg_wire (d # ds)) \<subseteq># ho_expected_wire h" using mset_subset_eqD by fastforce
    moreover have "\<exists>e. ho_check_received (d # ds) h = Inl e" using ex False by (simp add: ho_expecting_def)
    ultimately show ?thesis by simp
  qed
qed simp

lemma ho_check_eq:
  assumes "\<forall>d\<in>set (ho_received h). dg_serializes d" "\<forall>x\<in>set (ho_expecting_to_receive h). dg_serializes x"
  shows "if mset (map dg_wire (ho_received h)) = ho_expected_wire h
    then \<exists>h'. ho_check h = Inr h' \<and> ho_received h' = [] \<and> ho_expecting_to_receive h' = []
    else \<exists>e. ho_check h = Inl e"
proof (cases "mset (map dg_wire (ho_received h)) \<subseteq># ho_expected_wire h")
  case True
  then obtain h' where h': "ho_check_received (ho_received h) h = Inr h'" "ho_received h' = []"
      "ho_expected_wire h' = ho_expected_wire h - mset (map dg_wire (ho_received h))"
    using ho_check_received_eq [OF assms] by auto
  have "ho_expecting_to_receive h' = [] \<longleftrightarrow> mset (map dg_wire (ho_received h)) = ho_expected_wire h"
    using h'(3) True by (metis Diff_eq_empty_iff_mset map_is_Nil_conv mset_zero_iff subset_mset.antisym subset_mset.order_refl)
  then show ?thesis using h'(1,2) by (auto simp: ho_check_def split: list.splits)
next
  case False
  then obtain e where "ho_check_received (ho_received h) h = Inl e" using ho_check_received_eq [OF assms] by auto
  then show ?thesis using False by (auto simp: ho_check_def)
qed

end
