(* ===== verification/Simulator_Safety.thy ===== *)
theory Simulator_Safety
  imports Network_Simulator
begin

text \<open>
  The simulated network as a composition of the router, the network interfaces and the codecs: from a well-formed network
  nothing throws, frames are exchanged exactly, and the verdict of the simulator is right.
\<close>

section \<open>Nothing in the network throws\<close>

lemma bl_to_buffer_string [simp]: "bl_to_buffer (bl_of_string s) = Inr (buf_of_string s)"
  by (simp add: bl_to_buffer_def bl_of_string_def)

lemma frame_summary_total: "\<exists>x. frame_summary (f\<lparr>ef_payload := bl_of_string s\<rparr>) = Inr x"
proof -
  obtain res d where "dg_parse (buf_of_string s) dg_new = Inr (res, d)" using dg_parse_total by blast
  moreover obtain res' a where "arp_parse (buf_of_string s) arp_new = Inr (res', a)" using arp_parse_total by blast
  ultimately show ?thesis by (simp add: frame_summary_def Let_def)
qed

text \<open>A frame of a well-behaved interface, put into one buffer, is received without an exception.\<close>

lemma dg_ok_received:
  assumes "dg_ok d" "dg_serialize d = Inr bl" "buf_str b = bl_concatenate bl"
  shows "\<exists>d'. dg_parse b dg_new = Inr (NoError, d') \<and> dg_ok d'"
proof -
  obtain c b' where p: "dg_parse b dg_new = Inr (NoError, dg_new\<lparr>dg_header := (dg_header d)\<lparr>ip_cksum := c\<rparr>, dg_payload := [b']\<rparr>)"
      "buf_str b' = bl_concatenate (dg_payload d)"
    using dg_roundtrip [OF assms(1)] assms(2,3) by (metis Inr_inject)
  have "bl_size [b'] = bl_size (dg_payload d)" using p(2) by (simp add: bl_size_eq)
  then show ?thesis using p(1) assms(1) by (auto simp: dg_ok_def ip_ok_def)
qed

lemma ni_recv_Some:
  assumes "ni_recv_frame f n = Inr (Some d, n')"
  shows "eh_type (ef_header f) = TYPE_IPv4" "\<exists>b. bl_to_buffer (ef_payload f) = Inr b \<and> dg_parse b dg_new = Inr (NoError, d)"
  using assms by (auto simp: ni_recv_frame_def Let_def bindE_eq_Inr_iff split: if_splits)

lemma ni_recv_appends:
  assumes inv: "ni_inv mac ip D n" and r: "ni_recv_frame f n = Inr (r, n')"
  shows "\<exists>new. ni_frames_out n' = ni_frames_out n @ new"
proof -
  have "\<exists>new. ni_frames_out n' = ni_frames_out n @ new" if "ni_recv_ARP arp n = Inr n'" for arp
    by (rule recv_ARP_facts [OF inv, of arp]) (use that in auto)
  then show ?thesis using r by (auto simp: ni_recv_frame_def Let_def bindE_eq_Inr_iff split: if_splits)
qed

lemma an_recv_ok:
  assumes a: "an_inv a" and f: "frame_of mac ip (Collect dg_ok) f"
  shows "\<exists>a' new. an_recv_frame (f\<lparr>ef_payload := bl_of_string (bl_concatenate (ef_payload f))\<rparr>) a = Inr a' \<and> an_inv a' \<and>
    an_frames_out a' = an_frames_out a @ new"
proof -
  let ?f = "f\<lparr>ef_payload := bl_of_string (bl_concatenate (ef_payload f))\<rparr>"
  obtain m i where inv: "ni_inv m i (Collect dg_ok) (an_base a)" using a by (auto simp: an_inv_def)
  have "length (ef_payload ?f) \<le> 1" by (simp add: bl_of_string_def)
  from ni_recv_inv [OF inv this] obtain r n where r: "ni_recv_frame ?f (an_base a) = Inr (r, n)" "ni_inv m i (Collect dg_ok) n" by blast
  obtain new where new: "ni_frames_out n = ni_frames_out (an_base a) @ new" using ni_recv_appends [OF inv r(1)] by blast
  have "dg_ok d" if "r = Some d" for d
  proof -
    note s = ni_recv_Some [OF r(1) [unfolded that]]
    obtain dmac e bl where e: "dg_ok e" "dg_serialize e = Inr bl" "f = eth_frame TYPE_IPv4 mac dmac bl"
      using f s(1) frame_types_differ [symmetric] by (auto simp: frame_of_def arp_frame_def)
    from dg_ok_received [OF e(1,2), of "buf_of_string (bl_concatenate bl)"] show ?thesis
      using s(2) by (auto simp: e(3))
  qed
  then have "an_recv_frame ?f a = Inr (a\<lparr>an_base := n, an_datagrams_out := an_datagrams_out a @ (case r of Some d \<Rightarrow> [d] | None \<Rightarrow> [])\<rparr>)"
      "\<forall>d\<in>set (case r of Some d \<Rightarrow> [d] | None \<Rightarrow> []). dg_ok d"
    using r(1) by (cases r; simp add: an_recv_frame_def)+
  then show ?thesis using r(2) a new by (auto simp: an_inv_def an_frames_out_def)
qed

lemma deliver_ok:
  assumes "an_inv a" "\<forall>f\<in>set fs. frame_of mac ip (Collect dg_ok) f"
  shows "\<exists>a' new. deliver fs a = Inr a' \<and> an_inv a' \<and> an_frames_out a' = an_frames_out a @ new"
  using assms
proof (induction fs arbitrary: a)
  case (Cons f fs)
  then obtain a1 new where a1: "an_recv_frame (f\<lparr>ef_payload := bl_of_string (bl_concatenate (ef_payload f))\<rparr>) a = Inr a1" "an_inv a1"
      "an_frames_out a1 = an_frames_out a @ new"
    using an_recv_ok [of a mac ip f] by auto
  obtain a' new' where "deliver fs a1 = Inr a'" "an_inv a'" "an_frames_out a' = an_frames_out a1 @ new'"
    using Cons.IH [OF a1(2)] Cons.prems(2) by auto
  moreover obtain x where "frame_summary (f\<lparr>ef_payload := bl_of_string (bl_concatenate (ef_payload f))\<rparr>) = Inr x"
    using frame_summary_total by blast
  ultimately show ?case using a1(1,3) by (simp add: Let_def)
qed simp

lemma an_inv_frames:
  assumes "an_inv a"
  obtains mac ip where "\<forall>f\<in>set (an_frames_out a). frame_of mac ip (Collect dg_ok) f"
  using assms by (auto simp: an_inv_def ni_inv_def an_frames_out_def)

text \<open>Clearing the frames that were there before leaves those that were added since.\<close>

definition an_with_frames :: "ethernet_frame list \<Rightarrow> async_network_interface \<Rightarrow> async_network_interface" where
  "an_with_frames fs a = a\<lparr>an_base := (an_base a)\<lparr>ni_frames_out := fs\<rparr>\<rparr>"

lemma clear_queues_append: "clear_queues xs (xs' @ ys) = Inr ys" if "length xs' = length xs"
  using that by (induction xs arbitrary: xs') (auto simp: length_Suc_conv)

lemma an_clear_new: "an_frames_out a = fs @ new \<Longrightarrow> an_clear fs a = Inr (an_with_frames new a)"
  by (simp add: an_clear_def an_with_frames_def clear_queues_append)

lemma an_inv_with_frames:
  assumes "an_inv a" "set new \<subseteq> set (an_frames_out a)"
  shows "an_inv (an_with_frames new a)"
proof -
  obtain mac ip where inv: "ni_inv mac ip (Collect dg_ok) (an_base a)" "\<forall>d\<in>set (an_datagrams_out a). dg_ok d"
    using assms(1) by (auto simp: an_inv_def)
  have "ni_inv mac ip (Collect dg_ok) ((an_base a)\<lparr>ni_frames_out := new\<rparr>)"
    using inv(1) assms(2) by (auto simp: ni_inv_def an_frames_out_def)
  then show ?thesis using inv(2) by (auto simp: an_inv_def an_with_frames_def)
qed

lemma exchange_ok:
  assumes "an_inv x" "an_inv y"
  shows "\<exists>x' y' nx ny. deliver (an_frames_out y) x = Inr x' \<and> deliver (an_frames_out x) y = Inr y' \<and>
    an_frames_out x' = an_frames_out x @ nx \<and> an_frames_out y' = an_frames_out y @ ny \<and>
    exchange_frames x y = Inr (an_with_frames nx x', an_with_frames ny y') \<and> an_inv (an_with_frames nx x') \<and> an_inv (an_with_frames ny y')"
proof -
  obtain m1 i1 m2 i2 where f: "\<forall>f\<in>set (an_frames_out x). frame_of m1 i1 (Collect dg_ok) f" "\<forall>f\<in>set (an_frames_out y). frame_of m2 i2 (Collect dg_ok) f"
    using an_inv_frames assms by metis
  obtain x' nx where x': "deliver (an_frames_out y) x = Inr x'" "an_inv x'" "an_frames_out x' = an_frames_out x @ nx"
    using deliver_ok [OF assms(1) f(2)] by blast
  obtain y' ny where y': "deliver (an_frames_out x) y = Inr y'" "an_inv y'" "an_frames_out y' = an_frames_out y @ ny"
    using deliver_ok [OF assms(2) f(1)] by blast
  show ?thesis
    using x' y' an_clear_new [OF x'(3)] an_clear_new [OF y'(3)] an_inv_with_frames [OF x'(2), of nx] an_inv_with_frames [OF y'(2), of ny]
    by (intro exI [of _ x'] exI [of _ y'] exI [of _ nx] exI [of _ ny]) (simp add: exchange_frames_def Let_def)
qed

lemma exchange3_ok:
  assumes "an_inv x" "an_inv y" "an_inv z"
  shows "\<exists>x' y' z'. exchange_frames3 x y z = Inr (x', y', z') \<and> an_inv x' \<and> an_inv y' \<and> an_inv z'"
proof -
  obtain m1 i1 where fx: "\<forall>f\<in>set (an_frames_out x). frame_of m1 i1 (Collect dg_ok) f" using an_inv_frames [OF assms(1)] .
  obtain m2 i2 where fy: "\<forall>f\<in>set (an_frames_out y). frame_of m2 i2 (Collect dg_ok) f" using an_inv_frames [OF assms(2)] .
  obtain m3 i3 where fz: "\<forall>f\<in>set (an_frames_out z). frame_of m3 i3 (Collect dg_ok) f" using an_inv_frames [OF assms(3)] .
  obtain y1 n1 where y1: "deliver (an_frames_out x) y = Inr y1" "an_inv y1" "an_frames_out y1 = an_frames_out y @ n1"
    using deliver_ok [OF assms(2) fx] by blast
  obtain z1 n2 where z1: "deliver (an_frames_out x) z = Inr z1" "an_inv z1" "an_frames_out z1 = an_frames_out z @ n2"
    using deliver_ok [OF assms(3) fx] by blast
  obtain x1 n3 where x1: "deliver (an_frames_out y) x = Inr x1" "an_inv x1" "an_frames_out x1 = an_frames_out x @ n3"
    using deliver_ok [OF assms(1) fy] by blast
  obtain z2 n4 where z2: "deliver (an_frames_out y) z1 = Inr z2" "an_inv z2" "an_frames_out z2 = an_frames_out z1 @ n4"
    using deliver_ok [OF z1(2) fy] by blast
  obtain x2 n5 where x2: "deliver (an_frames_out z) x1 = Inr x2" "an_inv x2" "an_frames_out x2 = an_frames_out x1 @ n5"
    using deliver_ok [OF x1(2) fz] by blast
  obtain y2 n6 where y2: "deliver (an_frames_out z) y1 = Inr y2" "an_inv y2" "an_frames_out y2 = an_frames_out y1 @ n6"
    using deliver_ok [OF y1(2) fz] by blast
  have c: "an_clear (an_frames_out x) x2 = Inr (an_with_frames (n3 @ n5) x2)" "an_clear (an_frames_out y) y2 = Inr (an_with_frames (n1 @ n6) y2)"
      "an_clear (an_frames_out z) z2 = Inr (an_with_frames (n2 @ n4) z2)"
    by (rule an_clear_new; simp add: x1 x2 y1 y2 z1 z2)+
  have "an_inv (an_with_frames (n3 @ n5) x2)" "an_inv (an_with_frames (n1 @ n6) y2)" "an_inv (an_with_frames (n2 @ n4) z2)"
    by (rule an_inv_with_frames; simp add: x1 x2 y1 y2 z1 z2)+
  then show ?thesis
    using x1(1) x2(1) y1(1) y2(1) z1(1) z2(1) c by (auto simp: exchange_frames3_def Let_def)
qed

section \<open>Well-formed networks\<close>

definition ho_ok :: "string \<Rightarrow> host \<Rightarrow> bool" where
  "ho_ok name h \<longleftrightarrow> ho_name h = name \<and> an_inv (ho_interface h) \<and> (\<forall>d\<in>set (ho_expecting_to_receive h). dg_ok d) \<and>
     (\<exists>ip. addr_ipv4_numeric (ho_my_address h) = Inr ip) \<and> (\<exists>ip. addr_ipv4_numeric (ho_next_hop h) = Inr ip)"

definition host_names :: "string list" where
  "host_names = [''applesauce'', ''default_router'', ''cherrypie'', ''hs_router'', ''dm42'', ''dm43'']"

definition nw_ids :: "network \<Rightarrow> nat list" where
  "nw_ids nw = [nw_default_id nw, nw_eth0_id nw, nw_eth1_id nw, nw_eth2_id nw, nw_uun3_id nw, nw_hs4_id nw, nw_mit5_id nw]"

definition nw_inv :: "network \<Rightarrow> bool" where
  "nw_inv nw \<longleftrightarrow> rt_inv (nw_router nw) \<and> (\<forall>k\<in>set (nw_ids nw). k < length (rt_interfaces (nw_router nw))) \<and>
     set host_names \<subseteq> fst ` set (nw_hosts nw) \<and> (\<forall>(name, h)\<in>set (nw_hosts nw). ho_ok name h)"

lemma nw_host_ok:
  assumes "nw_inv nw" "name \<in> set host_names"
  shows "\<exists>h. nw_host name nw = Inr h \<and> ho_ok name h"
proof -
  have "name \<in> fst ` set (nw_hosts nw)" using assms by (auto simp: nw_inv_def)
  then have "map_of (nw_hosts nw) name \<noteq> None" by (simp add: map_of_eq_None_iff)
  then obtain h where h: "map_of (nw_hosts nw) name = Some h" by blast
  then have "ho_ok name h" using assms(1) map_of_SomeD [OF h] by (auto simp: nw_inv_def)
  then show ?thesis using h by (simp add: nw_host_def ho_ok_def)
qed

lemma nw_inv_set_host:
  assumes "nw_inv nw" "ho_ok name h"
  shows "nw_inv (nw_set_host name h nw)"
proof -
  have "fst ` set (nw_hosts (nw_set_host name h nw)) = fst ` set (nw_hosts nw)" by (force simp: nw_set_host_def)
  moreover have "\<forall>(k, x)\<in>set (nw_hosts (nw_set_host name h nw)). ho_ok k x" using assms by (auto simp: nw_set_host_def nw_inv_def)
  ultimately show ?thesis using assms(1) by (simp add: nw_inv_def) (simp add: nw_set_host_def nw_ids_def)
qed

lemma nw_inv_set_interface: "nw_inv nw \<Longrightarrow> an_inv a \<Longrightarrow> nw_inv (nw_set_interface k a nw)"
  using rt_inv_update [of "nw_router nw" a k] by (simp add: nw_inv_def nw_set_interface_def nw_ids_def)

lemma nw_ids_set [simp]: "nw_ids (nw_set_host name h nw) = nw_ids nw" "nw_ids (nw_set_interface k a nw) = nw_ids nw"
  by (simp_all add: nw_ids_def nw_set_host_def nw_set_interface_def)

lemma rt_interface_ok:
  assumes "nw_inv nw" "k \<in> set (nw_ids nw)"
  shows "\<exists>a. rt_interface k (nw_router nw) = Inr a \<and> an_inv a"
  using assms by (auto simp: nw_inv_def rt_interface_def rt_inv_def)

lemma link_ok:
  assumes "nw_inv nw" "k \<in> set (nw_ids nw)" "name \<in> set host_names"
  shows "\<exists>nw'. link k name nw = Inr nw' \<and> nw_inv nw'"
proof -
  obtain x where x: "rt_interface k (nw_router nw) = Inr x" "an_inv x" using rt_interface_ok [OF assms(1,2)] by blast
  obtain h where h: "nw_host name nw = Inr h" "ho_ok name h" using nw_host_ok [OF assms(1,3)] by blast
  then have "an_inv (ho_interface h)" by (simp add: ho_ok_def)
  from exchange_ok [OF x(2) this] obtain x' y' where e: "exchange_frames x (ho_interface h) = Inr (x', y')" "an_inv x'" "an_inv y'" by blast
  have "ho_ok name (h\<lparr>ho_interface := y'\<rparr>)" using h(2) e(3) by (simp add: ho_ok_def)
  then show ?thesis
    using nw_inv_set_host [OF nw_inv_set_interface [OF assms(1) e(2), of k]] x(1) h(1) e(1) by (simp add: link_def)
qed

lemma link3_ok:
  assumes "nw_inv nw" "k \<in> set (nw_ids nw)" "name \<in> set host_names" "name' \<in> set host_names"
  shows "\<exists>nw'. link3 k name name' nw = Inr nw' \<and> nw_inv nw'"
proof -
  obtain x where x: "rt_interface k (nw_router nw) = Inr x" "an_inv x" using rt_interface_ok [OF assms(1,2)] by blast
  obtain h where h: "nw_host name nw = Inr h" "ho_ok name h" using nw_host_ok [OF assms(1,3)] by blast
  obtain g where g: "nw_host name' nw = Inr g" "ho_ok name' g" using nw_host_ok [OF assms(1,4)] by blast
  have "an_inv (ho_interface h)" "an_inv (ho_interface g)" using h g by (simp_all add: ho_ok_def)
  from exchange3_ok [OF x(2) this] obtain x' y' z' where
    e: "exchange_frames3 x (ho_interface h) (ho_interface g) = Inr (x', y', z')" "an_inv x'" "an_inv y'" "an_inv z'" by blast
  have "ho_ok name (h\<lparr>ho_interface := y'\<rparr>)" "ho_ok name' (g\<lparr>ho_interface := z'\<rparr>)" using h(2) g(2) e(3,4) by (simp_all add: ho_ok_def)
  then show ?thesis
    using nw_inv_set_host [OF nw_inv_set_host [OF nw_inv_set_interface [OF assms(1) e(2), of k]]] x(1) h(1) g(1) e(1) by (simp add: link3_def)
qed

lemma physical_ok:
  assumes "nw_inv nw"
  shows "\<exists>nw'. simulate_physical_connections nw = Inr nw' \<and> nw_inv nw'"
proof -
  have m: "nw_default_id nw \<in> set (nw_ids nw)" "nw_eth0_id nw \<in> set (nw_ids nw)" "nw_eth2_id nw \<in> set (nw_ids nw)"
      "nw_hs4_id nw \<in> set (nw_ids nw)" "nw_uun3_id nw \<in> set (nw_ids nw)" for nw by (simp_all add: nw_ids_def)
  have n: "name \<in> set host_names" if "name \<in> {''default_router'', ''applesauce'', ''cherrypie'', ''hs_router'', ''dm42'', ''dm43''}" for name
    using that by (auto simp: host_names_def)
  obtain nw1 where 1: "link (nw_default_id nw) ''default_router'' nw = Inr nw1" "nw_inv nw1" using link_ok [OF assms m(1) n] by blast
  obtain nw2 where 2: "link (nw_eth0_id nw1) ''applesauce'' nw1 = Inr nw2" "nw_inv nw2" using link_ok [OF 1(2) m(2) n] by blast
  obtain nw3 where 3: "link (nw_eth2_id nw2) ''cherrypie'' nw2 = Inr nw3" "nw_inv nw3" using link_ok [OF 2(2) m(3) n] by blast
  obtain nw4 where 4: "link (nw_hs4_id nw3) ''hs_router'' nw3 = Inr nw4" "nw_inv nw4" using link_ok [OF 3(2) m(4) n] by blast
  show ?thesis using link3_ok [OF 4(2) m(5) n n] 1(1) 2(1) 3(1) 4(1) by (simp add: simulate_physical_connections_def)
qed

lemma nw_round_ok:
  assumes "nw_inv nw"
  shows "\<exists>nw'. nw_round nw = Inr nw' \<and> nw_inv nw'"
proof -
  have "rt_inv (nw_router nw)" using assms by (simp add: nw_inv_def)
  from rt_route_from_inv [OF this, of "[0..<length (rt_interfaces (nw_router nw))]"]
  obtain r where r: "rt_route (nw_router nw) = Inr r" "rt_inv r" "length (rt_interfaces r) = length (rt_interfaces (nw_router nw))"
    by (auto simp: rt_route_def)
  then have "nw_inv (nw\<lparr>nw_router := r\<rparr>)" using assms by (simp add: nw_inv_def nw_ids_def)
  then show ?thesis using physical_ok r(1) by (simp add: nw_round_def)
qed

lemma nw_rounds_ok:
  assumes "nw_inv nw"
  shows "\<exists>nw'. nw_rounds n nw = Inr nw' \<and> nw_inv nw'"
  using assms
proof (induction n arbitrary: nw)
  case (Suc n)
  then obtain nw1 where "nw_round nw = Inr nw1" "nw_inv nw1" using nw_round_ok by blast
  then show ?case using Suc.IH [of nw1] by simp
qed simp

definition ho_satisfied :: "host \<Rightarrow> bool" where
  "ho_satisfied h \<longleftrightarrow> mset (map dg_wire (ho_received h)) = mset (map dg_wire (ho_expecting_to_receive h))"

lemma check_hosts_eq:
  assumes "\<forall>(name, h)\<in>set hosts. ho_ok name h"
  shows "(\<exists>hosts'. check_hosts hosts = Inr hosts') \<longleftrightarrow> (\<forall>(name, h)\<in>set hosts. ho_satisfied h)"
  using assms
proof (induction hosts)
  case (Cons p hosts)
  obtain name h where p: "p = (name, h)" by (cases p)
  have ok: "ho_ok name h" using Cons.prems by (simp add: p)
  have s: "dg_ok d \<Longrightarrow> dg_serializes d" for d using dg_ok_serializes [of d] by (auto simp: dg_serializes_def)
  have "\<forall>d\<in>set (ho_received h). dg_serializes d" "\<forall>d\<in>set (ho_expecting_to_receive h). dg_serializes d"
    using ok s by (auto simp: ho_ok_def ho_received_def an_inv_def)
  note c = ho_check_eq [OF this]
  show ?case
  proof (cases "ho_satisfied h")
    case True
    then obtain h' where "ho_check h = Inr h'" using c by (auto simp: ho_satisfied_def)
    then show ?thesis using Cons True by (cases "check_hosts hosts") (auto simp: p)
  next
    case False
    then obtain e where "ho_check h = Inl e" using c by (auto simp: ho_satisfied_def)
    then show ?thesis using False by (auto simp: p)
  qed
qed simp

section \<open>Setting up and running the test cases\<close>

text \<open>What \<open>getaddrinfo\<close> is documented to do with numeric addresses.\<close>

definition resolves :: "getaddrinfo \<Rightarrow> bool" where
  "resolves gai \<longleftrightarrow> (\<forall>s ip. inet_aton s = Some ip \<longrightarrow> addr_of_ip_port gai s 0 = Inr (inet_address ip 0))"

lemma dec_string_length: "n < 10 ^ k \<Longrightarrow> 0 < k \<Longrightarrow> length (dec_string n) \<le> k"
  unfolding dec_string_def
proof (induction k arbitrary: n)
  case (Suc k)
  show ?case
  proof (cases "n < 10")
    case True
    then show ?thesis by (simp add: show_base.simps)
  next
    case False
    with Suc.prems have "0 < k" by (cases k) auto
    moreover have "n div 10 < 10 ^ k" using Suc.prems(1) by (intro less_mult_imp_div_less) (simp add: mult.commute)
    ultimately have "0 < k" "n div 10 < 10 ^ k" .
    then show ?thesis using Suc.IH [of "n div 10"] False by (subst show_base.simps) simp
  qed
qed simp

lemma an_inv_new:
  assumes "addr_ipv4_numeric a = Inr ip"
  shows "an_inv (an_new (ni_new mac a))"
  using assms by (auto simp: an_inv_def an_new_def ni_inv_def ni_new_def)

lemma ho_ok_new:
  assumes "addr_ipv4_numeric my = Inr ip" "addr_ipv4_numeric hop = Inr ip'"
  shows "ho_ok name (ho_new random name my hop)"
  using assms an_inv_new [OF assms(1)] by (simp add: ho_ok_def ho_new_def)

lemma resolves_numeric:
  assumes "resolves gai" "inet_aton s \<noteq> None"
  obtains ip where "addr_of_ip_port gai s 0 = Inr (inet_address ip 0)"
  using assms by (auto simp: resolves_def)

lemma add_interfaces_ok:
  assumes gai: "resolves gai" and "\<forall>(random, s)\<in>set specs. inet_aton s \<noteq> None" "rt_inv r" "rt_routing_table r = []"
  shows "\<exists>r'. add_interfaces gai specs r = Inr ([length (rt_interfaces r)..<length (rt_interfaces r) + length specs], r') \<and> rt_inv r' \<and>
    rt_routing_table r' = [] \<and> length (rt_interfaces r') = length (rt_interfaces r) + length specs"
  using assms(2-)
proof (induction specs arbitrary: r)
  case (Cons p specs)
  obtain random s where p: "p = (random, s)" by (cases p)
  obtain ip where a: "addr_of_ip_port gai s 0 = Inr (inet_address ip 0)"
    using resolves_numeric [OF gai, of s] Cons.prems(1) by (auto simp: p)
  let ?a = "an_new (ni_new (random_router_ethernet_address random) (inet_address ip 0))"
  let ?r = "r\<lparr>rt_interfaces := rt_interfaces r @ [?a]\<rparr>"
  have "rt_inv ?r" using Cons.prems(2,3) an_inv_new [OF ipv4_numeric_inet [of ip 0]] by (simp add: rt_inv_def)
  then obtain r' where r': "add_interfaces gai specs ?r = Inr ([length (rt_interfaces ?r)..<length (rt_interfaces ?r) + length specs], r')" "rt_inv r'"
      "rt_routing_table r' = []" "length (rt_interfaces r') = length (rt_interfaces ?r) + length specs"
    using Cons.IH [of ?r] Cons.prems(1,3) by auto
  have "[length (rt_interfaces r)..<length (rt_interfaces r) + length (p # specs)] =
      length (rt_interfaces r) # [length (rt_interfaces ?r)..<length (rt_interfaces ?r) + length specs]"
    by (subst upt_conv_Cons) simp_all
  then show ?case using r' a by (simp add: p rt_add_interface_def Let_def)
qed simp

lemma insert_hosts_ok:
  assumes gai: "resolves gai" and "\<forall>(random, name, my, hop)\<in>set specs. inet_aton my \<noteq> None \<and> inet_aton hop \<noteq> None"
    and "\<forall>(name, h)\<in>set hosts. ho_ok name h"
  shows "\<exists>hosts'. insert_hosts gai specs hosts = Inr hosts' \<and> (\<forall>(name, h)\<in>set hosts'. ho_ok name h) \<and>
    fst ` set hosts' = fst ` set hosts \<union> (\<lambda>spec. fst (snd spec)) ` set specs"
  using assms(2-)
proof (induction specs arbitrary: hosts)
  case (Cons p specs)
  obtain random name my hop where p: "p = (random, name, my, hop)" by (cases p)
  obtain ip where a: "addr_of_ip_port gai my 0 = Inr (inet_address ip 0)"
    using resolves_numeric [OF gai, of my] Cons.prems(1) by (auto simp: p)
  obtain ip' where b: "addr_of_ip_port gai hop 0 = Inr (inet_address ip' 0)"
    using resolves_numeric [OF gai, of hop] Cons.prems(1) by (auto simp: p)
  let ?hs = "if name \<in> fst ` set hosts then hosts else hosts @ [(name, ho_new random name (inet_address ip 0) (inet_address ip' 0))]"
  have "\<forall>(name, h)\<in>set ?hs. ho_ok name h" using Cons.prems(2) ho_ok_new by auto
  with Cons.IH [of ?hs] Cons.prems(1) obtain hosts' where "insert_hosts gai specs ?hs = Inr hosts'" "\<forall>(name, h)\<in>set hosts'. ho_ok name h"
      "fst ` set hosts' = fst ` set ?hs \<union> (\<lambda>spec. fst (snd spec)) ` set specs"
    by (auto simp del: split_paired_All split_paired_Ex)
  then show ?case using a b by (auto simp: p)
qed simp

lemma add_routes_ok:
  assumes gai: "resolves gai" and "rt_inv r"
    and "\<forall>(prefix, len, hop, k)\<in>set specs. inet_aton prefix \<noteq> None \<and> unat len \<le> 32 \<and> k < length (rt_interfaces r) \<and>
      (case hop of Some a \<Rightarrow> \<exists>ip. addr_ipv4_numeric a = Inr ip | None \<Rightarrow> True)"
  shows "\<exists>r'. add_routes gai specs r = Inr r' \<and> rt_inv r' \<and> rt_interfaces r' = rt_interfaces r"
  using assms(2-)
proof (induction specs arbitrary: r)
  case (Cons p specs)
  obtain prefix len hop k where p: "p = (prefix, len, hop, k)" by (cases p)
  obtain ip where a: "addr_of_ip_port gai prefix 0 = Inr (inet_address ip 0)"
    using resolves_numeric [OF gai, of prefix] Cons.prems(2) by (auto simp: p)
  have "rt_inv (rt_add_route ip len hop k r)"
    using Cons.prems by (auto simp: p rt_inv_def rt_add_route_def re_ok_def plen_def split: option.splits)
  moreover have "rt_interfaces (rt_add_route q len hop k r) = rt_interfaces r" for q by (simp add: rt_add_route_def)
  ultimately show ?case using Cons.IH [of "rt_add_route ip len hop k r"] Cons.prems(2) a by (auto simp: p sim_ip_def)
qed simp

lemma network_new_ok:
  assumes gai: "resolves gai"
  shows "\<exists>nw. network_new gai random = Inr nw \<and> nw_inv nw"
proof -
  let ?specs = "[(random 0, ''171.67.76.46''), (random 1, ''10.0.0.1''), (random 2, ''172.16.0.1''),
       (random 3, ''192.168.0.1''), (random 4, ''198.178.229.1''), (random 5, ''143.195.0.2''), (random 6, ''128.30.76.255'')]"
  have "\<forall>(random, s)\<in>set ?specs. inet_aton s \<noteq> None" by (simp add: inet_aton_def)
  moreover have "rt_inv rt_new" "rt_routing_table rt_new = []" "rt_interfaces rt_new = []" by (simp_all add: rt_inv_def rt_new_def)
  ultimately obtain r where r: "add_interfaces gai ?specs rt_new = Inr ([0, 1, 2, 3, 4, 5, 6], r)" "rt_inv r" "rt_routing_table r = []" "length (rt_interfaces r) = 7"
    using add_interfaces_ok [OF gai, of ?specs rt_new] by (auto simp del: add_interfaces.simps)
  let ?hspecs = "[(random 7, ''applesauce'', ''10.0.0.2'', ''10.0.0.1''), (random 8, ''default_router'', ''171.67.76.1'', ''0''),
       (random 9, ''cherrypie'', ''192.168.0.2'', ''192.168.0.1''), (random 10, ''hs_router'', ''143.195.0.1'', ''0''),
       (random 11, ''dm42'', ''198.178.229.42'', ''198.178.229.1''), (random 12, ''dm43'', ''198.178.229.43'', ''198.178.229.1'')]"
  have "\<forall>(random, name, my, hop)\<in>set ?hspecs. inet_aton my \<noteq> None \<and> inet_aton hop \<noteq> None" by (simp add: inet_aton_def)
  with insert_hosts_ok [OF gai, of ?hspecs "[]"] obtain hosts where
    h: "insert_hosts gai ?hspecs [] = Inr hosts" "\<forall>(name, h)\<in>set hosts. ho_ok name h" "fst ` set hosts = (\<lambda>spec. fst (snd spec)) ` set ?hspecs"
    by (auto simp del: insert_hosts.simps split_paired_Ex)
  let ?nw = "\<lparr>nw_router = r, nw_default_id = 0, nw_eth0_id = 1, nw_eth1_id = 2, nw_eth2_id = 3,
                  nw_uun3_id = 4, nw_hs4_id = 5, nw_mit5_id = 6, nw_hosts = hosts\<rparr>"
  have "set host_names \<subseteq> fst ` set hosts" unfolding h(3) by (simp add: host_names_def)
  then have inv: "nw_inv ?nw" using r(2,4) h(2) by (simp add: nw_inv_def nw_ids_def)
  obtain dr where dr: "nw_host ''default_router'' ?nw = Inr dr" "ho_ok ''default_router'' dr"
    using nw_host_ok [OF inv, of "''default_router''"] by (auto simp: host_names_def)
  obtain hr where hr: "nw_host ''hs_router'' ?nw = Inr hr" "ho_ok ''hs_router'' hr"
    using nw_host_ok [OF inv, of "''hs_router''"] by (auto simp: host_names_def)
  obtain ip where mit: "addr_of_ip_port gai ''128.30.0.1'' 0 = Inr (inet_address ip 0)"
    by (rule resolves_numeric [OF gai, of "''128.30.0.1''"]) (simp add: inet_aton_def)
  let ?routes = "[(''0.0.0.0'', 0 :: u8, Some (ho_my_address dr), 0), (''10.0.0.0'', 8, None, 1),
            (''172.16.0.0'', 16, None, 2), (''192.168.0.0'', 24, None, 3), (''198.178.229.0'', 24, None, 4),
            (''143.195.0.0'', 17, Some (ho_my_address hr), 5), (''143.195.128.0'', 18, Some (ho_my_address hr), 5),
            (''143.195.192.0'', 19, Some (ho_my_address hr), 5), (''128.30.76.255'', 16, Some (inet_address ip 0), 6)]"
  have "\<forall>(prefix, len, hop, k)\<in>set ?routes. inet_aton prefix \<noteq> None \<and> unat len \<le> 32 \<and> k < length (rt_interfaces r) \<and>
      (case hop of Some a \<Rightarrow> \<exists>ip. addr_ipv4_numeric a = Inr ip | None \<Rightarrow> True)"
    using dr(2) hr(2) by (simp add: inet_aton_def r(4) ho_ok_def)
  from add_routes_ok [OF gai r(2) this] obtain r' where r': "add_routes gai ?routes r = Inr r'" "rt_inv r'" "rt_interfaces r' = rt_interfaces r" by blast
  have "network_new gai random = Inr (?nw\<lparr>nw_router := r'\<rparr>)"
    using r(1) h(1) dr(1) hr(1) mit r'(1) by (simp add: network_new_def Let_def del: add_interfaces.simps insert_hosts.simps add_routes.simps)
  moreover have "nw_inv (?nw\<lparr>nw_router := r'\<rparr>)" using inv r'(2,3) by (simp add: nw_inv_def nw_ids_def)
  ultimately show ?thesis by blast
qed

text \<open>What \<open>getnameinfo\<close> is relied on for: every IPv4 address has a name.\<close>

definition names :: "getnameinfo \<Rightarrow> bool" where
  "names gni \<longleftrightarrow> (\<forall>a ip. addr_ipv4_numeric a = Inr ip \<longrightarrow> (\<exists>s. addr_ip gni a = Inr s))"

lemma send_to_ok:
  assumes gni: "names gni" and h: "ho_ok name h" and dst: "addr_ipv4_numeric destination = Inr dst"
  shows "\<exists>d h'. ho_send_to gni random destination ttl h = Inr (d, h') \<and> dg_ok d \<and> ho_ok name h'"
proof -
  obtain src hop where a: "addr_ipv4_numeric (ho_my_address h) = Inr src" "addr_ipv4_numeric (ho_next_hop h) = Inr hop"
    using h by (auto simp: ho_ok_def)
  obtain str where str: "addr_ip gni (ho_next_hop h) = Inr str" using gni a(2) by (auto simp: names_def)
  define p where "p = bytes_of_string (''random payload: {'' @ dec_string (unat random) @ ''}'')"
  let ?d = "\<lparr>dg_header = ip_new\<lparr>ip_src := src, ip_dst := dst, ip_len := of_nat (20 + length p), ip_ttl := ttl\<rparr>, dg_payload = bl_of_string p\<rparr>"
  have "unat random < 10 ^ 10" by (rule less_trans [OF unat_lt32]) simp
  then have "length (dec_string (unat random)) \<le> 10" by (rule dec_string_length) simp
  then have "20 + length p < 2 ^ 16" by (simp add: p_def bytes_of_string_def)
  then have "unat (of_nat (20 + length p) :: u16) = 20 + length p" by (simp only: unat_of_nat) simp
  then have d: "dg_ok ?d" by (simp add: dg_ok_def ip_ok_def ip_new_def bl_size_eq)
  obtain mac own where inv: "ni_inv mac own (Collect dg_ok) (an_base (ho_interface h))" using h by (auto simp: ho_ok_def an_inv_def)
  obtain n where n: "ni_send_datagram ?d (ho_next_hop h) (an_base (ho_interface h)) = Inr n" "ni_inv mac own (Collect dg_ok) n"
    using ni_send_inv [OF inv _ a(2), of ?d] d by auto
  let ?h = "h\<lparr>ho_interface := (ho_interface h)\<lparr>an_base := n\<rparr>\<rparr>"
  have "ho_send_to gni random destination ttl h = Inr (?d, ?h)"
    using a(1) dst n(1) str by (simp add: ho_send_to_def Let_def an_send_datagram_def dg_new_def ip_new_def bl_size_eq p_def)
  moreover have "ho_ok name ?h" using h n(2) by (auto simp: ho_ok_def an_inv_def)
  ultimately show ?thesis using d by blast
qed

lemma sim_send_ok:
  assumes gni: "names gni" and nw: "nw_inv nw" and sender: "sender \<in> set host_names" and dst: "addr_ipv4_numeric destination = Inr dst"
    and receiver: "case receiver of Some name \<Rightarrow> name \<in> set host_names | None \<Rightarrow> True"
  shows "\<exists>nw'. sim_send gni random sender destination ttl receiver nw = Inr nw' \<and> nw_inv nw'"
proof -
  obtain h where h: "nw_host sender nw = Inr h" "ho_ok sender h" using nw_host_ok [OF nw sender] by blast
  obtain d h' where d: "ho_send_to gni random destination ttl h = Inr (d, h')" "dg_ok d" "ho_ok sender h'"
    using send_to_ok [OF gni h(2) dst] by blast
  let ?nw = "nw_set_host sender h' nw"
  have inv: "nw_inv ?nw" by (rule nw_inv_set_host [OF nw d(3)])
  show ?thesis
  proof (cases receiver)
    case None
    then show ?thesis using inv h(1) d(1) by (simp add: sim_send_def)
  next
    case (Some name)
    obtain g where g: "nw_host name ?nw = Inr g" "ho_ok name g" using nw_host_ok [OF inv] receiver Some by auto
    let ?e = "d\<lparr>dg_header := (dg_header d)\<lparr>ip_ttl := ip_ttl (dg_header d) - 1\<rparr>\<rparr>"
    have "ho_ok name (ho_expect ?e g)" using g(2) d(2) by (simp add: ho_ok_def ho_expect_def dg_ok_def ip_ok_def)
    then show ?thesis using nw_inv_set_host [OF inv] h(1) d(1) g(1) Some by (simp add: sim_send_def Let_def)
  qed
qed

text \<open>The exceptions a host throws when it is not satisfied.\<close>

definition verdict :: "exn \<Rightarrow> bool" where
  "verdict e \<longleftrightarrow> (\<exists>m. e = RuntimeError (''Host '' @ m))"

text \<open>A computation that succeeds in a well-formed network, or fails with the verdict of a host.\<close>

definition conclusive :: "exn + network \<Rightarrow> bool" where
  "conclusive r \<longleftrightarrow> (case r of Inr nw \<Rightarrow> nw_inv nw | Inl e \<Rightarrow> verdict e)"

lemma conclusive_bind:
  assumes "conclusive r" "\<And>nw. nw_inv nw \<Longrightarrow> conclusive (f nw)"
  shows "conclusive (bindE r f)"
  using assms by (cases r) (auto simp: conclusive_def)

lemma ho_check_received_verdict:
  assumes "\<forall>d\<in>set ds. dg_serializes d" "\<forall>x\<in>set (ho_expecting_to_receive h). dg_serializes x" "ho_check_received ds h = Inl e"
  shows "verdict e"
  using assms
proof (induction ds arbitrary: h)
  case (Cons d ds)
  have d: "dg_serializes d" using Cons.prems(1) by simp
  note ex = expecting_in_eq [OF d Cons.prems(2)]
  obtain ys where ys: "remove_expectation_in (ho_expecting_to_receive h) d = Inr ys" "set ys \<subseteq> set (ho_expecting_to_receive h)"
    using remove_expectation_in_eq [OF d Cons.prems(2)] by blast
  show ?case
  proof (cases "dg_wire d \<in># ho_expected_wire h")
    case True
    then have "ho_check_received ds (ho_pop (h\<lparr>ho_expecting_to_receive := ys\<rparr>)) = Inl e"
      using Cons.prems(3) ex ys(1) by (simp add: ho_expecting_def ho_remove_expectation_def)
    then show ?thesis using Cons.IH [of "ho_pop (h\<lparr>ho_expecting_to_receive := ys\<rparr>)"] Cons.prems(1,2) ys(2) by auto
  next
    case False
    then show ?thesis using Cons.prems(3) ex by (auto simp: ho_expecting_def verdict_def)
  qed
qed simp

lemma remove_expectation_in_subset: "remove_expectation_in xs d = Inr ys \<Longrightarrow> set ys \<subseteq> set xs"
  by (induction xs arbitrary: ys) (fastforce simp: bindE_eq_Inr_iff split: if_splits)+

lemma ho_check_received_ok:
  assumes "ho_check_received ds h = Inr h'" "ho_ok name h"
  shows "ho_ok name h'"
  using assms
proof (induction ds arbitrary: h)
  case (Cons d ds)
  obtain ys where ys: "remove_expectation_in (ho_expecting_to_receive h) d = Inr ys"
      "ho_check_received ds (ho_pop (h\<lparr>ho_expecting_to_receive := ys\<rparr>)) = Inr h'"
    using Cons.prems(1) by (auto simp: bindE_eq_Inr_iff ho_remove_expectation_def split: if_splits)
  have "set (tl (ho_received h)) \<subseteq> set (ho_received h)" by (cases "ho_received h") auto
  then have "ho_ok name (ho_pop (h\<lparr>ho_expecting_to_receive := ys\<rparr>))"
    using remove_expectation_in_subset [OF ys(1)] Cons.prems(2) by (auto simp: ho_ok_def ho_pop_def ho_received_def an_inv_def)
  then show ?case by (rule Cons.IH [OF ys(2)])
qed simp

lemma ho_check_ok:
  assumes "ho_ok name h"
  shows "case ho_check h of Inr h' \<Rightarrow> ho_ok name h' | Inl e \<Rightarrow> verdict e"
proof -
  have s: "dg_ok d \<Longrightarrow> dg_serializes d" for d using dg_ok_serializes [of d] by (auto simp: dg_serializes_def)
  have "\<forall>d\<in>set (ho_received h). dg_serializes d" "\<forall>d\<in>set (ho_expecting_to_receive h). dg_serializes d"
    using assms s by (auto simp: ho_ok_def ho_received_def an_inv_def)
  note v = ho_check_received_verdict [OF this]
  show ?thesis
    using v ho_check_received_ok [OF _ assms]
    by (cases "ho_check_received (ho_received h) h") (auto simp: ho_check_def verdict_def split: list.splits)
qed

lemma check_hosts_ok:
  assumes "\<forall>(name, h)\<in>set hosts. ho_ok name h"
  shows "case check_hosts hosts of Inr hosts' \<Rightarrow> (\<forall>(name, h)\<in>set hosts'. ho_ok name h) \<and> map fst hosts' = map fst hosts | Inl e \<Rightarrow> verdict e"
  using assms
proof (induction hosts)
  case (Cons p hosts)
  obtain name h where p: "p = (name, h)" by (cases p)
  from Cons.prems have "ho_ok name h" by (simp add: p)
  from ho_check_ok [OF this] show ?case
    using Cons by (cases "ho_check h"; cases "check_hosts hosts") (auto simp: p)
qed simp

lemma simulate_conclusive:
  assumes "nw_inv nw"
  shows "conclusive (simulate nw)"
proof -
  obtain nw' where r: "nw_rounds 256 nw = Inr nw'" "nw_inv nw'" using nw_rounds_ok [OF assms] by blast
  have "\<forall>(name, h)\<in>set (nw_hosts nw'). ho_ok name h" using r(2) by (simp add: nw_inv_def)
  note c = check_hosts_ok [OF this]
  show ?thesis
  proof (cases "check_hosts (nw_hosts nw')")
    case (Inr hosts)
    have "map fst hosts = map fst (nw_hosts nw')" using c by (simp add: Inr)
    then have "fst ` set hosts = fst ` set (nw_hosts nw')" by (metis list.set_map)
    then show ?thesis using c Inr r by (simp add: conclusive_def simulate_def nw_inv_def nw_ids_def)
  qed (use c r in \<open>simp add: conclusive_def simulate_def\<close>)
qed

lemma test_host_conclusive:
  assumes "names gni" "nw_inv nw" "sender \<in> set host_names" "receiver \<in> set host_names"
  shows "conclusive (test_host gni random sender receiver nw)"
proof -
  obtain h where h: "nw_host receiver nw = Inr h" "ho_ok receiver h" using nw_host_ok [OF assms(2,4)] by blast
  then obtain dst where "addr_ipv4_numeric (ho_my_address h) = Inr dst" by (auto simp: ho_ok_def)
  from sim_send_ok [OF assms(1-3) this, of "Some receiver" random 64] assms(4) obtain nw' where
    "sim_send gni random sender (ho_my_address h) 64 (Some receiver) nw = Inr nw'" "nw_inv nw'" by auto
  then show ?thesis using h(1) simulate_conclusive by (simp add: test_host_def)
qed

lemma test_address_conclusive:
  assumes "resolves gai" "names gni" "nw_inv nw" "sender \<in> set host_names" "inet_aton destination \<noteq> None"
    and "case receiver of Some name \<Rightarrow> name \<in> set host_names | None \<Rightarrow> True"
  shows "conclusive (test_address gai gni random sender destination ttl receiver nw)"
proof -
  obtain ip where a: "addr_of_ip_port gai destination 0 = Inr (inet_address ip 0)" by (rule resolves_numeric [OF assms(1,5)])
  from sim_send_ok [OF assms(2-4) ipv4_numeric_inet assms(6)] obtain nw' where
    "sim_send gni random sender (inet_address ip 0) ttl receiver nw = Inr nw'" "nw_inv nw'" by blast
  then show ?thesis using a simulate_conclusive by (simp add: test_address_def)
qed

section \<open>Properties\<close>

text \<open>
  \<open>exchange_frames\<close> is a faithful link: every frame that waits on one of the two interfaces is received once, in order, by the
  other one, no queue is popped when it is empty, and the frames that are left are exactly those that the interfaces
  produced in answer to what they received.
\<close>

theorem exchange_frames_exact:
  assumes "an_inv x" "an_inv y"
  shows "\<exists>x' y' nx ny. deliver (an_frames_out y) x = Inr x' \<and> deliver (an_frames_out x) y = Inr y' \<and>
    an_frames_out x' = an_frames_out x @ nx \<and> an_frames_out y' = an_frames_out y @ ny \<and>
    exchange_frames x y = Inr (an_with_frames nx x', an_with_frames ny y')"
  using exchange_ok [OF assms] by blast

text \<open>
  (C23) The verdict of the simulator is exact: from a well-formed network, the 256 rounds of routing and of exchanging frames
  never throw and lead to a well-formed network again, and \<open>simulate\<close> then succeeds if and only if every host has
  received what it expects, the datagrams being compared as multisets of their serializations.
\<close>

theorem simulation_verdict:
  assumes "nw_inv nw"
  shows "\<exists>nw'. nw_rounds 256 nw = Inr nw' \<and> nw_inv nw' \<and>
    ((\<exists>nw''. simulate nw = Inr nw'') \<longleftrightarrow> (\<forall>(name, h)\<in>set (nw_hosts nw').
      mset (map dg_wire (ho_received h)) = mset (map dg_wire (ho_expecting_to_receive h))))"
proof -
  obtain nw' where r: "nw_rounds 256 nw = Inr nw'" "nw_inv nw'" using nw_rounds_ok [OF assms] by blast
  then have "\<forall>(name, h)\<in>set (nw_hosts nw'). ho_ok name h" by (simp add: nw_inv_def)
  note c = check_hosts_eq [OF this, unfolded ho_satisfied_def]
  have "(\<exists>nw''. simulate nw = Inr nw'') \<longleftrightarrow> (\<exists>hosts. check_hosts (nw_hosts nw') = Inr hosts)"
    unfolding simulate_def r(1) by (cases "check_hosts (nw_hosts nw')") auto
  then show ?thesis using r c by blast
qed


lemma numeric_resolves: "resolves numeric_gai"
  by (simp add: resolves_def addr_of_ip_port_def addr_resolve_def numeric_gai_def read_dec_string addr_of_sockaddr_in)

lemma numeric_names: "names numeric_gni"
proof -
  have "stoi (dec_string (unat w)) = Inr (uint w)" for w :: u16
  proof -
    have "unat w < 2 ^ 31" by (rule less_trans [OF unat_lt16]) simp
    then show ?thesis by (simp add: stoi_dec_string)
  qed
  then show ?thesis by (simp add: names_def addr_ip_def addr_ip_port_def numeric_gni_def)
qed

definition demo_random :: "nat \<Rightarrow> random_bytes" where
  "demo_random n = (of_nat n, 1, 2, 3, 4, of_nat n)"


theorem simulation_verdict_witness:
  "\<exists>nw nw'. network_new numeric_gai demo_random = Inr nw \<and> nw_rounds 256 nw = Inr nw' \<and>
    ((\<exists>nw''. simulate nw = Inr nw'') \<longleftrightarrow> (\<forall>(name, h)\<in>set (nw_hosts nw').
      mset (map dg_wire (ho_received h)) = mset (map dg_wire (ho_expecting_to_receive h))))"
proof -
  obtain nw where nw: "network_new numeric_gai demo_random = Inr nw" "nw_inv nw" using network_new_ok [OF numeric_resolves] by blast
  from simulation_verdict [OF nw(2)] nw(1) show ?thesis by blast
qed

theorem exchange_frames_exact_witness:
  "\<exists>x y nx ny. exchange_frames (an_new (ni_new (demo_mac 1) (inet_address 1 0))) (an_new (ni_new (demo_mac 2) (inet_address 2 0))) =
    Inr (an_with_frames nx x, an_with_frames ny y)"
proof -
  have "an_inv (an_new (ni_new (demo_mac 1) (inet_address 1 0)))" "an_inv (an_new (ni_new (demo_mac 2) (inet_address 2 0)))"
    by (rule an_inv_new, simp)+
  from exchange_frames_exact [OF this] show ?thesis by blast
qed

end
