(* ===== verification/Adapters.thy ===== *)
theory Adapters
  imports Net_Interface
begin

text \<open>
  Model of \<open>tcp_helpers/tcp_over_ip\<close>, \<open>tcp_helpers/fd_adapter\<close>, \<open>tcp_helpers/lossy_fd_adapter\<close> and
  \<open>tcp_helpers/tuntap_adapter\<close>: the adapters that carry the segments of a TCP connection in UDP payloads, in
  IPv4 datagrams, and in IPv4 datagrams over Ethernet. What a device or socket delivers to a \<open>read\<close> is an
  argument, and what is written to it is a result; the resolver of the C library is the parameter pair
  \<open>gai\<close>, \<open>gni\<close>, and the random number generator of the lossy adapter the parameter \<open>rand\<close>.
\<close>

section \<open>Configuration and listening state\<close>

record fd_adapter_config =
  fc_source :: address
  fc_destination :: address
  fc_loss_rate_dn :: u16
  fc_loss_rate_up :: u16

definition fc_new :: "getaddrinfo \<Rightarrow> exn + fd_adapter_config" where
  "fc_new gai =
     bindE (addr_of_ip_port gai ''0'' 0) (\<lambda>source.
     bindE (addr_of_ip_port gai ''0'' 0) (\<lambda>destination.
       Inr \<lparr>fc_source = source, fc_destination = destination, fc_loss_rate_dn = 0, fc_loss_rate_up = 0\<rparr>))"

record fd_adapter_base =
  fb_cfg :: fd_adapter_config
  fb_listen :: bool

definition fb_new :: "getaddrinfo \<Rightarrow> exn + fd_adapter_base" where
  "fb_new gai = bindE (fc_new gai) (\<lambda>c. Inr \<lparr>fb_cfg = c, fb_listen = False\<rparr>)"

definition set_listening :: "bool \<Rightarrow> fd_adapter_base \<Rightarrow> fd_adapter_base" where
  "set_listening l b = b\<lparr>fb_listen := l\<rparr>"

section \<open>TCP over IPv4\<close>

text \<open>Is the datagram one between our peer and us? Both addresses are only looked at if not listening.\<close>

definition unwrap_related :: "ipv4_datagram \<Rightarrow> fd_adapter_base \<Rightarrow> exn + bool" where
  "unwrap_related ip_dgram b =
     (if fb_listen b then Inr True
      else bindE (addr_ipv4_numeric (fc_source (fb_cfg b))) (\<lambda>source.
        if ip_dst (dg_header ip_dgram) \<noteq> source then Inr False
        else bindE (addr_ipv4_numeric (fc_destination (fb_cfg b))) (\<lambda>destination.
          Inr (ip_src (dg_header ip_dgram) = destination))))"

definition unwrap_tcp_in_ip :: "getaddrinfo \<Rightarrow> getnameinfo \<Rightarrow> ipv4_datagram \<Rightarrow> fd_adapter_base \<Rightarrow>
    exn + tcp_segment option \<times> fd_adapter_base" where
  "unwrap_tcp_in_ip gai gni ip_dgram b =
     bindE (unwrap_related ip_dgram b) (\<lambda>related.
       if \<not> related then Inr (None, b)
       else if ip_proto (dg_header ip_dgram) \<noteq> PROTO_TCP then Inr (None, b)
       else
         bindE (bl_to_buffer (dg_payload ip_dgram)) (\<lambda>payload.
         bindE (seg_parse payload (ip_pseudo_cksum (dg_header ip_dgram)) seg_new) (\<lambda>(res, tcp_seg).
           if res \<noteq> NoError then Inr (None, b)
           else
             bindE (addr_port gni (fc_source (fb_cfg b))) (\<lambda>port.
               if th_dport (seg_header tcp_seg) \<noteq> port then Inr (None, b)
               else if fb_listen b \<and> \<not> (th_syn (seg_header tcp_seg) \<and> \<not> th_rst (seg_header tcp_seg)) then Inr (None, b)
               else
                 bindE (if fb_listen b
                        then bindE (addr_port gni (fc_source (fb_cfg b))) (\<lambda>port.
                             bindE (addr_of_ip_port gai (inet_ntoa (ip_dst (dg_header ip_dgram))) port) (\<lambda>source.
                             bindE (addr_of_ip_port gai (inet_ntoa (ip_src (dg_header ip_dgram))) (th_sport (seg_header tcp_seg))) (\<lambda>destination.
                               Inr (set_listening False
                                 (b\<lparr>fb_cfg := (fb_cfg b)\<lparr>fc_source := source, fc_destination := destination\<rparr>\<rparr>)))))
                        else Inr b) (\<lambda>b.
                 bindE (addr_port gni (fc_destination (fb_cfg b))) (\<lambda>port.
                   if th_sport (seg_header tcp_seg) \<noteq> port then Inr (None, b)
                   else Inr (Some tcp_seg, b)))))))"

definition set_ports :: "getnameinfo \<Rightarrow> fd_adapter_base \<Rightarrow> tcp_segment \<Rightarrow> exn + tcp_segment" where
  "set_ports gni b seg =
     bindE (addr_port gni (fc_source (fb_cfg b))) (\<lambda>sport.
     bindE (addr_port gni (fc_destination (fb_cfg b))) (\<lambda>dport.
       Inr (seg\<lparr>seg_header := (seg_header seg)\<lparr>th_sport := sport, th_dport := dport\<rparr>\<rparr>)))"

text \<open>The segment is passed by reference: its ports stay set.\<close>

definition wrap_tcp_in_ip :: "getnameinfo \<Rightarrow> tcp_segment \<Rightarrow> fd_adapter_base \<Rightarrow> exn + ipv4_datagram \<times> tcp_segment" where
  "wrap_tcp_in_ip gni seg b =
     bindE (set_ports gni b seg) (\<lambda>seg.
     bindE (addr_ipv4_numeric (fc_source (fb_cfg b))) (\<lambda>src.
     bindE (addr_ipv4_numeric (fc_destination (fb_cfg b))) (\<lambda>dst.
       let h = (dg_header dg_new)\<lparr>ip_src := src, ip_dst := dst\<rparr>;
           h = h\<lparr>ip_len := of_nat (unat (ip_hlen h) * 4 + unat (th_doff (seg_header seg)) * 4 + buf_size (seg_payload seg))\<rparr>
       in bindE (seg_serialize (ip_pseudo_cksum h) seg) (\<lambda>payload.
            Inr (dg_new\<lparr>dg_header := h, dg_payload := payload\<rparr>, seg)))))"

section \<open>TCP over UDP\<close>

text \<open>A datagram as \<open>UDPSocket::recv\<close> returns it.\<close>

record received_datagram =
  rd_source_address :: address
  rd_payload :: bytes

definition udp_read :: "received_datagram \<Rightarrow> fd_adapter_base \<Rightarrow> exn + tcp_segment option \<times> fd_adapter_base" where
  "udp_read datagram b =
     (if \<not> fb_listen b \<and> \<not> addr_eq (rd_source_address datagram) (fc_destination (fb_cfg b)) then Inr (None, b)
      else bindE (seg_parse (buf_of_string (rd_payload datagram)) 0 seg_new) (\<lambda>(res, seg).
        if res \<noteq> NoError then Inr (None, b)
        else if fb_listen b then
          if th_syn (seg_header seg) \<and> \<not> th_rst (seg_header seg)
          then Inr (Some seg, set_listening False (b\<lparr>fb_cfg := (fb_cfg b)\<lparr>fc_destination := rd_source_address datagram\<rparr>\<rparr>))
          else Inr (None, b)
        else Inr (Some seg, b)))"

text \<open>The result of \<open>write\<close>: where the datagram is sent, its payload, and the segment with its ports set.\<close>

definition udp_write :: "getnameinfo \<Rightarrow> tcp_segment \<Rightarrow> fd_adapter_base \<Rightarrow> exn + (address \<times> buffer_list) \<times> tcp_segment" where
  "udp_write gni seg b =
     bindE (set_ports gni b seg) (\<lambda>seg.
     bindE (seg_serialize 0 seg) (\<lambda>payload. Inr ((fc_destination (fb_cfg b), payload), seg)))"

section \<open>Random losses\<close>

definition should_drop :: "('g \<Rightarrow> u32 \<times> 'g) \<Rightarrow> bool \<Rightarrow> fd_adapter_config \<Rightarrow> 'g \<Rightarrow> bool \<times> 'g" where
  "should_drop rand uplink cfg g =
     (let loss = (if uplink then fc_loss_rate_up cfg else fc_loss_rate_dn cfg)
      in if loss \<noteq> 0 then let (x, g) = rand g in ((ucast x :: u16) < loss, g) else (False, g))"

definition lossy_read :: "('g \<Rightarrow> u32 \<times> 'g) \<Rightarrow> ('a \<Rightarrow> fd_adapter_config) \<Rightarrow> ('a \<Rightarrow> exn + tcp_segment option \<times> 'a) \<Rightarrow>
    'a \<times> 'g \<Rightarrow> exn + tcp_segment option \<times> 'a \<times> 'g" where
  "lossy_read rand config adapter_read ag =
     (let (adapter, g) = ag
      in bindE (adapter_read adapter) (\<lambda>(ret, adapter).
           let (drop, g) = should_drop rand False (config adapter) g
           in Inr (if drop then None else ret, adapter, g)))"

definition lossy_write :: "('g \<Rightarrow> u32 \<times> 'g) \<Rightarrow> ('a \<Rightarrow> fd_adapter_config) \<Rightarrow> (tcp_segment \<Rightarrow> 'a \<Rightarrow> exn + 'a) \<Rightarrow>
    tcp_segment \<Rightarrow> 'a \<times> 'g \<Rightarrow> exn + 'a \<times> 'g" where
  "lossy_write rand config adapter_write seg ag =
     (let (adapter, g) = ag; (drop, g) = should_drop rand True (config adapter) g
      in if drop then Inr (adapter, g)
         else bindE (adapter_write seg adapter) (\<lambda>adapter. Inr (adapter, g)))"

section \<open>TUN and TAP devices\<close>

definition tun_read :: "getaddrinfo \<Rightarrow> getnameinfo \<Rightarrow> bytes \<Rightarrow> fd_adapter_base \<Rightarrow> exn + tcp_segment option \<times> fd_adapter_base" where
  "tun_read gai gni s b =
     bindE (dg_parse (buf_of_string s) dg_new) (\<lambda>(res, ip_dgram).
       if res \<noteq> NoError then Inr (None, b) else unwrap_tcp_in_ip gai gni ip_dgram b)"

definition tun_write :: "getnameinfo \<Rightarrow> tcp_segment \<Rightarrow> fd_adapter_base \<Rightarrow> exn + bytes" where
  "tun_write gni seg b =
     bindE (wrap_tcp_in_ip gni seg b) (\<lambda>(ip_dgram, seg).
     bindE (dg_serialize ip_dgram) (\<lambda>bl. Inr (bl_concatenate bl)))"

text \<open>The frames written to the TAP device are collected in \<open>ea_tap\<close>.\<close>

record eth_adapter =
  ea_base :: fd_adapter_base
  ea_tap :: "bytes list"
  ea_interface :: network_interface
  ea_next_hop :: address

definition ea_tap_write :: "ethernet_frame \<Rightarrow> eth_adapter \<Rightarrow> eth_adapter" where
  "ea_tap_write frame a = a\<lparr>ea_tap := ea_tap a @ [bl_concatenate (ef_serialize frame)]\<rparr>"

definition ea_new :: "getaddrinfo \<Rightarrow> ethernet_address \<Rightarrow> address \<Rightarrow> address \<Rightarrow> exn + eth_adapter" where
  "ea_new gai eth_address ip_address next_hop =
     bindE (fb_new gai) (\<lambda>b.
       Inr (ea_tap_write ef_new \<lparr>ea_base = b, ea_tap = [], ea_interface = ni_new eth_address ip_address, ea_next_hop = next_hop\<rparr>))"

function send_pending :: "eth_adapter \<Rightarrow> eth_adapter" where
  "send_pending a =
     (case ni_frames_out (ea_interface a) of
        [] \<Rightarrow> a
      | frame # frames \<Rightarrow>
          send_pending (ea_tap_write frame (a\<lparr>ea_interface := (ea_interface a)\<lparr>ni_frames_out := frames\<rparr>\<rparr>)))"
  by pat_completeness auto

termination
  by (relation "measure (\<lambda>a. length (ni_frames_out (ea_interface a)))") (auto simp: ea_tap_write_def)

declare send_pending.simps [simp del]

definition ea_read :: "getaddrinfo \<Rightarrow> getnameinfo \<Rightarrow> bytes \<Rightarrow> eth_adapter \<Rightarrow> exn + tcp_segment option \<times> eth_adapter" where
  "ea_read gai gni s a =
     bindE (ef_parse (buf_of_string s) ef_new) (\<lambda>(res, frame).
       if res \<noteq> NoError then Inr (None, a)
       else
         bindE (ni_recv_frame frame (ea_interface a)) (\<lambda>(ip_dgram, n).
           let a = send_pending (a\<lparr>ea_interface := n\<rparr>)
           in case ip_dgram of
                Some ip_dgram \<Rightarrow> bindE (unwrap_tcp_in_ip gai gni ip_dgram (ea_base a)) (\<lambda>(seg, b). Inr (seg, a\<lparr>ea_base := b\<rparr>))
              | None \<Rightarrow> Inr (None, a)))"

definition ea_tick :: "u64 \<Rightarrow> eth_adapter \<Rightarrow> eth_adapter" where
  "ea_tick ms_since_last_tick a = send_pending (a\<lparr>ea_interface := ni_tick ms_since_last_tick (ea_interface a)\<rparr>)"

definition ea_write :: "getnameinfo \<Rightarrow> tcp_segment \<Rightarrow> eth_adapter \<Rightarrow> exn + eth_adapter" where
  "ea_write gni seg a =
     bindE (wrap_tcp_in_ip gni seg (ea_base a)) (\<lambda>(ip_dgram, seg).
     bindE (ni_send_datagram ip_dgram (ea_next_hop a) (ea_interface a)) (\<lambda>n.
       Inr (send_pending (a\<lparr>ea_interface := n\<rparr>))))"

lemma send_pending_eq:
  "send_pending a = a\<lparr>ea_tap := ea_tap a @ map (\<lambda>f. bl_concatenate (ef_serialize f)) (ni_frames_out (ea_interface a)),
     ea_interface := (ea_interface a)\<lparr>ni_frames_out := []\<rparr>\<rparr>"
proof (induction a rule: send_pending.induct)
  case (1 a)
  show ?case
  proof (cases "ni_frames_out (ea_interface a)")
    case Nil
    then show ?thesis by (subst send_pending.simps) (cases a; cases "ea_interface a"; simp)
  next
    case (Cons f fs)
    then show ?thesis using "1.IH" [OF Cons] by (subst send_pending.simps) (simp add: ea_tap_write_def)
  qed
qed

section \<open>A segment on its way\<close>

text \<open>The addresses an adapter is configured with, when both are IPv4 addresses.\<close>

definition between :: "u32 \<Rightarrow> u16 \<Rightarrow> u32 \<Rightarrow> u16 \<Rightarrow> fd_adapter_base \<Rightarrow> bool" where
  "between ip port ip' port' b \<longleftrightarrow> fc_source (fb_cfg b) = inet_address ip port \<and> fc_destination (fb_cfg b) = inet_address ip' port'"

text \<open>Segments that fit into an IPv4 datagram.\<close>

definition seg_fits :: "tcp_segment \<Rightarrow> bool" where
  "seg_fits seg \<longleftrightarrow> th_ok (seg_header seg) \<and> 20 + 4 * unat (th_doff (seg_header seg)) + length (buf_str (seg_payload seg)) < 2 ^ 16"

lemma pseudo_cksum_bound: "unat (ip_pseudo_cksum h) < 2 ^ 24"
proof -
  have hi: "unat (drop_bit 16 w) < 2 ^ 16" and lo: "unat (w AND 0xffff) < 2 ^ 16" for w :: u32
  proof -
    have "w AND 0xffff = take_bit 16 w" by (simp add: take_bit_eq_mask mask_eq_exp_minus_1)
    then show "unat (w AND 0xffff) < 2 ^ 16"
      using take_bit_nat_less_exp [of 16 "unat w"] by (simp add: unsigned_take_bit_eq)
    have "unat (drop_bit 16 w) = drop_bit 16 (take_bit 32 (unat w))" by (simp only: unsigned_drop_bit_eq) simp
    also have "\<dots> < 2 ^ 16" using take_bit_nat_less_exp [of 16 "drop_bit 16 (unat w)"] by (simp add: drop_bit_take_bit)
    finally show "unat (drop_bit 16 w) < 2 ^ 16" .
  qed
  have p: "unat (ucast (ip_proto h) :: u32) < 2 ^ 16" "unat (ucast (ip_payload_length h) :: u32) < 2 ^ 16"
    using unat_lt8 [of "ip_proto h"] by (auto simp: unat_ucast_16_32 unat_ucast_mod simp del: unat_lt8)
  have s: "unat (a + b) \<le> unat a + unat b" for a b :: u32 by (simp add: unat_word_ariths)
  define a where "a = drop_bit 16 (ip_src h)"
  define b where "b = ip_src h AND 0xffff"
  define c where "c = drop_bit 16 (ip_dst h)"
  define d where "d = ip_dst h AND 0xffff"
  have "unat (ip_pseudo_cksum h) \<le> unat a + unat b + (unat c + unat d) + unat (ucast (ip_proto h) :: u32) + unat (ucast (ip_payload_length h) :: u32)"
    unfolding ip_pseudo_cksum_def Let_def a_def [symmetric] b_def [symmetric] c_def [symmetric] d_def [symmetric]
    by (intro order_trans [OF s] add_mono order_refl)
  also have "\<dots> < 2 ^ 24"
    using p hi [of "ip_src h"] hi [of "ip_dst h"] lo [of "ip_src h"] lo [of "ip_dst h"]
    unfolding a_def [symmetric] b_def [symmetric] c_def [symmetric] d_def [symmetric] by simp
  finally show ?thesis .
qed

lemma pseudo_cksum_cong [simp]: "ip_pseudo_cksum (h\<lparr>ip_cksum := c\<rparr>) = ip_pseudo_cksum h"
  by (simp add: ip_pseudo_cksum_def ip_payload_length_def)

context resolver
begin

lemma set_ports_between:
  assumes "between ip port ip' port' b"
  shows "set_ports gni b seg = Inr (seg\<lparr>seg_header := (seg_header seg)\<lparr>th_sport := port, th_dport := port'\<rparr>\<rparr>)"
  using assms by (simp add: set_ports_def between_def port_inet)

lemma wrap_facts:
  assumes b: "between ip port ip' port' b" and fits: "seg_fits seg"
  obtains d seg' c where "wrap_tcp_in_ip gni seg b = Inr (d, seg')" "dg_ok d"
    "ip_src (dg_header d) = ip" "ip_dst (dg_header d) = ip'" "ip_proto (dg_header d) = PROTO_TCP"
    "\<forall>b seg0. buf_str b = bl_concatenate (dg_payload d) \<longrightarrow>
      (\<exists>s. seg_parse b (ip_pseudo_cksum (dg_header d)) seg0 = Inr (NoError, s) \<and>
        seg_header s = (seg_header seg)\<lparr>th_sport := port, th_dport := port', th_cksum := c\<rparr> \<and>
        buf_str (seg_payload s) = buf_str (seg_payload seg))"
proof -
  let ?seg = "seg\<lparr>seg_header := (seg_header seg)\<lparr>th_sport := port, th_dport := port'\<rparr>\<rparr>"
  define n where "n = 20 + 4 * unat (th_doff (seg_header seg)) + length (buf_str (seg_payload seg))"
  define h where "h = ip_new\<lparr>ip_src := ip, ip_dst := ip', ip_len := of_nat n\<rparr>"
  have "n < 2 ^ 16" using fits by (simp add: seg_fits_def n_def)
  then have len: "unat (ip_len h) = n" by (simp add: h_def unat_of_nat take_bit_nat_eq_self)
  have "th_ok (seg_header ?seg)" "4 * unat (th_doff (seg_header ?seg)) + length (buf_str (seg_payload ?seg)) < 2 ^ 16"
    using fits by (simp_all add: seg_fits_def th_ok_def)
  from seg_roundtrip [OF this(1) pseudo_cksum_bound [of h] this(2)] obtain bl c where
    bl: "seg_serialize (ip_pseudo_cksum h) ?seg = Inr bl"
      "bl_size bl = 4 * unat (th_doff (seg_header ?seg)) + length (buf_str (seg_payload ?seg))"
      "\<forall>b seg0. buf_str b = bl_concatenate bl \<longrightarrow> (\<exists>seg'. seg_parse b (ip_pseudo_cksum h) seg0 = Inr (NoError, seg') \<and>
        seg_header seg' = (seg_header ?seg)\<lparr>th_cksum := c\<rparr> \<and> buf_str (seg_payload seg') = buf_str (seg_payload ?seg))"
    by metis
  have "wrap_tcp_in_ip gni seg b = Inr (\<lparr>dg_header = h, dg_payload = bl\<rparr>, ?seg)"
    using b bl(1) unfolding wrap_tcp_in_ip_def set_ports_between [OF b]
    by (simp add: between_def Let_def dg_new_def h_def n_def ip_new_def buf_size_def mult.commute)
  moreover have "dg_ok \<lparr>dg_header = h, dg_payload = bl\<rparr>"
    using bl(2) len by (simp add: dg_ok_def ip_ok_def n_def) (simp add: h_def ip_new_def)
  moreover have "ip_src h = ip" "ip_dst h = ip'" "ip_proto h = PROTO_TCP" by (simp_all add: h_def ip_new_def)
  ultimately show thesis using bl(3) by (intro that) (assumption, assumption, simp_all)
qed

text \<open>
  The receiving side: an adapter configured for the connection, or one that listens on the port and
  gets a SYN.
\<close>

lemma unwrap_delivers:
  assumes d: "dg_payload d = [pl]" "ip_src (dg_header d) = ip" "ip_dst (dg_header d) = ip'" "ip_proto (dg_header d) = PROTO_TCP"
    and s: "seg_parse pl (ip_pseudo_cksum (dg_header d)) seg_new = Inr (NoError, s)"
      "th_sport (seg_header s) = port" "th_dport (seg_header s) = port'"
    and b: "\<not> fb_listen b \<and> between ip' port' ip port b \<or>
      fb_listen b \<and> fc_source (fb_cfg b) = inet_address any port' \<and> th_syn (seg_header s) \<and> \<not> th_rst (seg_header s)"
  shows "\<exists>b'. unwrap_tcp_in_ip gai gni d b = Inr (Some s, b') \<and> between ip' port' ip port b' \<and> \<not> fb_listen b'"
  using assms
  by (auto simp: unwrap_tcp_in_ip_def unwrap_related_def bl_to_buffer_def between_def port_inet of_ip_port_inet set_listening_def)

lemma tun_roundtrip:
  assumes a: "between ip port ip' port' a" and fits: "seg_fits seg"
    and b: "\<not> fb_listen b \<and> between ip' port' ip port b \<or>
      fb_listen b \<and> fc_source (fb_cfg b) = inet_address any port' \<and> th_syn (seg_header seg) \<and> \<not> th_rst (seg_header seg)"
  shows "\<exists>bs s c b'. tun_write gni seg a = Inr bs \<and> tun_read gai gni bs b = Inr (Some s, b') \<and>
    seg_header s = (seg_header seg)\<lparr>th_sport := port, th_dport := port', th_cksum := c\<rparr> \<and>
    buf_str (seg_payload s) = buf_str (seg_payload seg) \<and> between ip' port' ip port b' \<and> \<not> fb_listen b'"
proof -
  obtain d seg' c where w: "wrap_tcp_in_ip gni seg a = Inr (d, seg')" "dg_ok d"
    "ip_src (dg_header d) = ip" "ip_dst (dg_header d) = ip'" "ip_proto (dg_header d) = PROTO_TCP"
    and s: "\<forall>b seg0. buf_str b = bl_concatenate (dg_payload d) \<longrightarrow>
      (\<exists>s. seg_parse b (ip_pseudo_cksum (dg_header d)) seg0 = Inr (NoError, s) \<and>
        seg_header s = (seg_header seg)\<lparr>th_sport := port, th_dport := port', th_cksum := c\<rparr> \<and>
        buf_str (seg_payload s) = buf_str (seg_payload seg))"
    using wrap_facts [OF a fits] .
  obtain bl k pl where bl: "dg_serialize d = Inr bl"
    "dg_parse (buf_of_string (bl_concatenate bl)) dg_new =
      Inr (NoError, dg_new\<lparr>dg_header := (dg_header d)\<lparr>ip_cksum := k\<rparr>, dg_payload := [pl]\<rparr>)"
    "buf_str pl = bl_concatenate (dg_payload d)"
    using dg_roundtrip [OF w(2)] by (metis buf_str_of_string)
  let ?d = "dg_new\<lparr>dg_header := (dg_header d)\<lparr>ip_cksum := k\<rparr>, dg_payload := [pl]\<rparr>"
  from s bl(3) obtain s where s: "seg_parse pl (ip_pseudo_cksum (dg_header ?d)) seg_new = Inr (NoError, s)"
    "seg_header s = (seg_header seg)\<lparr>th_sport := port, th_dport := port', th_cksum := c\<rparr>"
    "buf_str (seg_payload s) = buf_str (seg_payload seg)" by auto
  have "\<exists>b'. unwrap_tcp_in_ip gai gni ?d b = Inr (Some s, b') \<and> between ip' port' ip port b' \<and> \<not> fb_listen b'"
    using unwrap_delivers [of ?d pl ip ip' s port port' b any] s b w(3-5) by simp
  then show ?thesis using w(1) bl s by (auto simp: tun_write_def tun_read_def)
qed

end

section \<open>Properties\<close>


definition demo_adapter :: "u32 \<Rightarrow> u16 \<Rightarrow> u32 \<Rightarrow> u16 \<Rightarrow> bool \<Rightarrow> fd_adapter_base" where
  "demo_adapter ip port ip' port' listen = \<lparr>fb_cfg = \<lparr>fc_source = inet_address ip port, fc_destination = inet_address ip' port',
     fc_loss_rate_dn = 0, fc_loss_rate_up = 0\<rparr>, fb_listen = listen\<rparr>"

definition demo_seg :: tcp_segment where
  "demo_seg = seg_new\<lparr>seg_header := th_new\<lparr>th_syn := True\<rparr>, seg_payload := buf_of_string [1, 2, 3]\<rparr>"


text \<open>
  An adapter only lets segments of its own connection through, and only a SYN changes whom it talks
  to: a segment that is returned came in a TCP datagram, addressed to the port of the adapter; unless the
  adapter was listening, the datagram was from and to the configured addresses, the segment from the
  configured port, and the configuration is unchanged.
\<close>

theorem adapter_filters_segments:
  assumes "unwrap_tcp_in_ip gai gni d b = Inr (r, b')"
  shows "(r = None \<and> \<not> fb_listen b \<longrightarrow> b' = b) \<and>
    (\<forall>s. r = Some s \<longrightarrow> ip_proto (dg_header d) = PROTO_TCP \<and>
      addr_port gni (fc_source (fb_cfg b)) = Inr (th_dport (seg_header s)) \<and>
      addr_port gni (fc_destination (fb_cfg b')) = Inr (th_sport (seg_header s)) \<and> \<not> fb_listen b' \<and>
      (if fb_listen b then th_syn (seg_header s) \<and> \<not> th_rst (seg_header s)
       else b' = b \<and> addr_ipv4_numeric (fc_source (fb_cfg b)) = Inr (ip_dst (dg_header d)) \<and>
         addr_ipv4_numeric (fc_destination (fb_cfg b)) = Inr (ip_src (dg_header d))))"
proof (cases "fb_listen b")
  case True
  then show ?thesis using assms unfolding unwrap_tcp_in_ip_def unwrap_related_def
    by (auto simp: bindE_eq_Inr_iff set_listening_def split: if_splits prod.splits)
next
  case False
  then show ?thesis using assms unfolding unwrap_tcp_in_ip_def unwrap_related_def
    by (auto simp: bindE_eq_Inr_iff split: if_splits prod.splits)
qed

theorem adapter_filters_segments_witness:
  "\<exists>d s. unwrap_tcp_in_ip numeric_gai numeric_gni d (demo_adapter 0x0a000002 80 0x0a000001 5000 False) =
      Inr (Some s, demo_adapter 0x0a000002 80 0x0a000001 5000 False) \<and> ip_proto (dg_header d) = PROTO_TCP \<and>
    addr_port numeric_gni (inet_address 0x0a000002 80) = Inr (th_dport (seg_header s))"
proof -
  let ?b = "demo_adapter 0x0a000002 80 0x0a000001 5000 False"
  have b: "\<not> fb_listen ?b \<and> between 0x0a000002 80 0x0a000001 5000 ?b" "fc_source (fb_cfg ?b) = inet_address 0x0a000002 80"
    by (simp_all add: between_def demo_adapter_def)
  have fits: "seg_fits demo_seg" by (simp add: seg_fits_def demo_seg_def seg_new_def th_new_def th_ok_def)
  have a: "between 0x0a000001 5000 0x0a000002 80 (demo_adapter 0x0a000001 5000 0x0a000002 80 False)"
    by (simp add: between_def demo_adapter_def)
  from numeric.tun_roundtrip [OF a fits disjI1 [OF b(1)]] obtain bs s b' where
    "tun_read numeric_gai numeric_gni bs ?b = Inr (Some s, b')" by blast
  then obtain d where d: "unwrap_tcp_in_ip numeric_gai numeric_gni d ?b = Inr (Some s, b')"
    by (auto simp: tun_read_def bindE_eq_Inr_iff split: if_splits)
  from adapter_filters_segments [OF d] b show ?thesis using d by (intro exI [of _ d] exI [of _ s]) auto
qed

end
