(* ===== verification/File_Descriptors.thy ===== *)
theory File_Descriptors
  imports Adapters
begin

text \<open>
  Model of \<open>util/file_descriptor\<close>, \<open>util/socket\<close> and the error checking of system calls in \<open>util/util\<close>.

  The operating system is a parameter: a record of the system calls the program makes, over an arbitrary
  type of kernel states. A call returns \<open>Inl errno\<close> or its result, and the new kernel state. What the
  program relies on is stated as a contract below.
\<close>

section \<open>System calls\<close>

record 'k kernel =
  k_read :: "int \<Rightarrow> nat \<Rightarrow> 'k \<Rightarrow> (int + bytes) \<times> 'k"
  k_writev :: "int \<Rightarrow> bytes list \<Rightarrow> 'k \<Rightarrow> (int + nat) \<times> 'k"
  k_close :: "int \<Rightarrow> 'k \<Rightarrow> (int + unit) \<times> 'k"
  k_fcntl_getfl :: "int \<Rightarrow> 'k \<Rightarrow> (int + u32) \<times> 'k"
  k_fcntl_setfl :: "int \<Rightarrow> u32 \<Rightarrow> 'k \<Rightarrow> (int + unit) \<times> 'k"
  k_poll :: "(int \<times> u16) list \<Rightarrow> int \<Rightarrow> 'k \<Rightarrow> (int + nat \<times> u16 list) \<times> 'k"
  k_getsockopt :: "int \<Rightarrow> nat \<Rightarrow> 'k \<Rightarrow> (int + int \<times> nat) \<times> 'k"
  k_bind :: "int \<Rightarrow> bytes \<Rightarrow> nat \<Rightarrow> 'k \<Rightarrow> (int + unit) \<times> 'k"
  k_connect :: "int \<Rightarrow> bytes \<Rightarrow> nat \<Rightarrow> 'k \<Rightarrow> (int + unit) \<times> 'k"
  k_shutdown :: "int \<Rightarrow> int \<Rightarrow> 'k \<Rightarrow> (int + unit) \<times> 'k"
  k_recvfrom :: "int \<Rightarrow> nat \<Rightarrow> 'k \<Rightarrow> (int + nat \<times> bytes \<times> bytes \<times> nat) \<times> 'k"
  k_sendmsg :: "int \<Rightarrow> (bytes \<times> nat) option \<Rightarrow> bytes list \<Rightarrow> 'k \<Rightarrow> (int + nat) \<times> 'k"
  k_clock :: "'k \<Rightarrow> u64 \<times> 'k"

text \<open>
  \<open>FileDescriptor\<close> objects share an \<open>FDWrapper\<close> with their duplicates: a descriptor is a reference into a
  store of wrappers.
\<close>

record fd_wrapper =
  fw_fd :: int
  fw_eof :: bool
  fw_closed :: bool
  fw_read_count :: u32
  fw_write_count :: u32

type_synonym fd = nat

record 'k sys =
  sy_wrappers :: "fd \<Rightarrow> fd_wrapper"
  sy_kernel :: 'k

text \<open>
  \<open>SystemCall\<close> with the default \<open>errno_mask\<close> of 0, which is not the value of \<open>errno\<close> after a failed call: every
  failure is thrown.
\<close>

definition SystemCall :: "string \<Rightarrow> ('k \<Rightarrow> (int + 'a) \<times> 'k) \<Rightarrow> 'k sys \<Rightarrow> exn + 'a \<times> 'k sys" where
  "SystemCall attempt call s =
     (case call (sy_kernel s) of
        (Inl errno, k) \<Rightarrow> Inl (RuntimeError attempt)
      | (Inr return_value, k) \<Rightarrow> Inr (return_value, s\<lparr>sy_kernel := k\<rparr>))"

lemma SystemCall_Inr_iff:
  "SystemCall attempt call s = Inr (x, s') \<longleftrightarrow> (\<exists>k. call (sy_kernel s) = (Inr x, k) \<and> s' = s\<lparr>sy_kernel := k\<rparr>)"
  by (auto simp: SystemCall_def split: prod.splits sum.splits)

section \<open>File descriptors\<close>

definition int_to_string :: "int \<Rightarrow> string" where
  "int_to_string n = (if n < 0 then ''-'' @ dec_string (nat (- n)) else dec_string (nat n))"

definition fw_new :: "int \<Rightarrow> exn + fd_wrapper" where
  "fw_new n =
     (if n < 0 then Inl (RuntimeError (''invalid fd number:'' @ int_to_string n))
      else Inr \<lparr>fw_fd = n, fw_eof = False, fw_closed = False, fw_read_count = 0, fw_write_count = 0\<rparr>)"

definition fd_num :: "fd \<Rightarrow> 'k sys \<Rightarrow> int" where "fd_num fd s = fw_fd (sy_wrappers s fd)"
definition fd_eof :: "fd \<Rightarrow> 'k sys \<Rightarrow> bool" where "fd_eof fd s = fw_eof (sy_wrappers s fd)"
definition fd_closed :: "fd \<Rightarrow> 'k sys \<Rightarrow> bool" where "fd_closed fd s = fw_closed (sy_wrappers s fd)"
definition fd_read_count :: "fd \<Rightarrow> 'k sys \<Rightarrow> u32" where "fd_read_count fd s = fw_read_count (sy_wrappers s fd)"
definition fd_write_count :: "fd \<Rightarrow> 'k sys \<Rightarrow> u32" where "fd_write_count fd s = fw_write_count (sy_wrappers s fd)"

definition fd_update :: "fd \<Rightarrow> (fd_wrapper \<Rightarrow> fd_wrapper) \<Rightarrow> 'k sys \<Rightarrow> 'k sys" where
  "fd_update fd f s = s\<lparr>sy_wrappers := (sy_wrappers s)(fd := f (sy_wrappers s fd))\<rparr>"

definition register_read :: "fd \<Rightarrow> 'k sys \<Rightarrow> 'k sys" where
  "register_read fd = fd_update fd (\<lambda>w. w\<lparr>fw_read_count := fw_read_count w + 1\<rparr>)"

definition register_write :: "fd \<Rightarrow> 'k sys \<Rightarrow> 'k sys" where
  "register_write fd = fd_update fd (\<lambda>w. w\<lparr>fw_write_count := fw_write_count w + 1\<rparr>)"

definition fd_close :: "'k kernel \<Rightarrow> fd \<Rightarrow> 'k sys \<Rightarrow> exn + 'k sys" where
  "fd_close K fd s =
     bindE (SystemCall ''close'' (k_close K (fd_num fd s)) s) (\<lambda>(_, s).
       Inr (fd_update fd (\<lambda>w. w\<lparr>fw_eof := True, fw_closed := True\<rparr>) s))"

definition BUFFER_SIZE :: nat where "BUFFER_SIZE = 1024 * 1024"

definition fd_read :: "'k kernel \<Rightarrow> fd \<Rightarrow> nat \<Rightarrow> 'k sys \<Rightarrow> exn + bytes \<times> 'k sys" where
  "fd_read K fd limit s =
     (let size_to_read = min BUFFER_SIZE limit
      in bindE (SystemCall ''read'' (k_read K (fd_num fd s) size_to_read) s) (\<lambda>(str, s).
           let s = (if limit > 0 \<and> length str = 0 then fd_update fd (\<lambda>w. w\<lparr>fw_eof := True\<rparr>) s else s)
           in if length str > size_to_read then Inl (RuntimeError ''read() read more than requested'')
              else Inr (str, register_read fd s)))"

lemma bvl_remove_prefix_size:
  "bvl_remove_prefix n vs = Inr vs' \<Longrightarrow> bvl_size vs' = bvl_size vs - n"
  using bvl_remove_prefix_fits [of n vs] bvl_remove_prefix_throws [of vs n]
  by (cases "n \<le> length (concat vs)") (auto simp: bvl_size_eq)

text \<open>
  The loop of \<open>write\<close>. It ends: an iteration that is followed by another one has written something.
\<close>

function fd_write_loop :: "'k kernel \<Rightarrow> fd \<Rightarrow> bool \<Rightarrow> buffer_view_list \<Rightarrow> nat \<Rightarrow> 'k sys \<Rightarrow> exn + nat \<times> 'k sys" where
  "fd_write_loop K fd write_all buffer total_bytes_written s =
     (case SystemCall ''writev'' (k_writev K (fd_num fd s) (bvl_as_iovecs buffer)) s of
        Inl e \<Rightarrow> Inl e
      | Inr (bytes_written, s) \<Rightarrow>
          if bytes_written = 0 \<and> bvl_size buffer \<noteq> 0
          then Inl (RuntimeError ''write returned 0 given non-empty input buffer'')
          else if bytes_written > bvl_size buffer
          then Inl (RuntimeError ''write wrote more than length of input buffer'')
          else
            (case bvl_remove_prefix bytes_written buffer of
               Inl e \<Rightarrow> Inl e
             | Inr buffer' \<Rightarrow>
                 (let s = register_write fd s; total_bytes_written = total_bytes_written + bytes_written
                  in if write_all \<and> bvl_size buffer' \<noteq> 0
                     then fd_write_loop K fd write_all buffer' total_bytes_written s
                     else Inr (total_bytes_written, s))))"
  by pat_completeness auto

termination
  by (relation "measure (\<lambda>(K, fd, write_all, buffer, total, s). bvl_size buffer)") (auto dest: bvl_remove_prefix_size)

declare fd_write_loop.simps [simp del]

definition fd_write :: "'k kernel \<Rightarrow> fd \<Rightarrow> buffer_view_list \<Rightarrow> bool \<Rightarrow> 'k sys \<Rightarrow> exn + nat \<times> 'k sys" where
  "fd_write K fd buffer write_all s = fd_write_loop K fd write_all buffer 0 s"

definition O_NONBLOCK :: u32 where "O_NONBLOCK = 0x800"

definition set_blocking :: "'k kernel \<Rightarrow> fd \<Rightarrow> bool \<Rightarrow> 'k sys \<Rightarrow> exn + 'k sys" where
  "set_blocking K fd blocking_state s =
     bindE (SystemCall ''fcntl'' (k_fcntl_getfl K (fd_num fd s)) s) (\<lambda>(flags, s).
       let flags = (if blocking_state then flags XOR (flags AND O_NONBLOCK) else flags OR O_NONBLOCK)
       in bindE (SystemCall ''fcntl'' (k_fcntl_setfl K (fd_num fd s) flags) s) (\<lambda>(_, s). Inr s))"

section \<open>Sockets\<close>

definition SO_TYPE :: nat where "SO_TYPE = 3"
definition SO_DOMAIN :: nat where "SO_DOMAIN = 39"

text \<open>The checks of the constructor of \<open>Socket\<close>; \<open>getsockopt\<close> gives a value and its size.\<close>

definition socket_check :: "'k kernel \<Rightarrow> fd \<Rightarrow> int \<Rightarrow> int \<Rightarrow> 'k sys \<Rightarrow> exn + 'k sys" where
  "socket_check K fd domain ty s =
     bindE (SystemCall ''getsockopt'' (k_getsockopt K (fd_num fd s) SO_DOMAIN) s) (\<lambda>((actual_value, len), s).
       if len \<noteq> 4 \<or> actual_value \<noteq> domain then Inl (RuntimeError ''socket domain mismatch'')
       else bindE (SystemCall ''getsockopt'' (k_getsockopt K (fd_num fd s) SO_TYPE) s) (\<lambda>((actual_value, len), s).
         if len \<noteq> 4 \<or> actual_value \<noteq> ty then Inl (RuntimeError ''socket type mismatch'')
         else Inr s))"

definition sock_bind :: "'k kernel \<Rightarrow> fd \<Rightarrow> address \<Rightarrow> 'k sys \<Rightarrow> exn + 'k sys" where
  "sock_bind K fd a s = bindE (SystemCall ''bind'' (k_bind K (fd_num fd s) (addr_storage a) (addr_size a)) s) (\<lambda>(_, s). Inr s)"

definition sock_connect :: "'k kernel \<Rightarrow> fd \<Rightarrow> address \<Rightarrow> 'k sys \<Rightarrow> exn + 'k sys" where
  "sock_connect K fd a s = bindE (SystemCall ''connect'' (k_connect K (fd_num fd s) (addr_storage a) (addr_size a)) s) (\<lambda>(_, s). Inr s)"

definition SHUT_RD :: int where "SHUT_RD = 0"
definition SHUT_WR :: int where "SHUT_WR = 1"
definition SHUT_RDWR :: int where "SHUT_RDWR = 2"

definition sock_shutdown :: "'k kernel \<Rightarrow> fd \<Rightarrow> int \<Rightarrow> 'k sys \<Rightarrow> exn + 'k sys" where
  "sock_shutdown K fd how s =
     bindE (SystemCall ''shutdown'' (k_shutdown K (fd_num fd s) how) s) (\<lambda>(_, s).
       if how = SHUT_RD then Inr (register_read fd s)
       else if how = SHUT_WR then Inr (register_write fd s)
       else if how = SHUT_RDWR then Inr (register_write fd (register_read fd s))
       else Inl (RuntimeError ''Socket::shutdown() called with invalid `how`''))"

text \<open>
  \<open>recvfrom\<close> with \<open>MSG_TRUNC\<close> gives the real length of the datagram, the bytes that fit, and the address of the
  sender with its size.
\<close>

definition udp_recv :: "'k kernel \<Rightarrow> fd \<Rightarrow> nat \<Rightarrow> 'k sys \<Rightarrow> exn + received_datagram \<times> 'k sys" where
  "udp_recv K fd mtu s =
     bindE (SystemCall ''recvfrom'' (k_recvfrom K (fd_num fd s) mtu) s) (\<lambda>((recv_len, payload, datagram_source_address, fromlen), s).
       if recv_len > mtu then Inl (RuntimeError ''recvfrom (oversized datagram)'')
       else
         let s = register_read fd s
         in bindE (addr_of_sockaddr datagram_source_address fromlen) (\<lambda>a.
              Inr (\<lparr>rd_source_address = a, rd_payload = str_resize recv_len payload\<rparr>, s)))"

definition sendmsg_helper :: "'k kernel \<Rightarrow> int \<Rightarrow> (bytes \<times> nat) option \<Rightarrow> buffer_view_list \<Rightarrow> 'k sys \<Rightarrow> exn + 'k sys" where
  "sendmsg_helper K n destination payload s =
     bindE (SystemCall ''sendmsg'' (k_sendmsg K n destination (bvl_as_iovecs payload)) s) (\<lambda>(bytes_sent, s).
       if bytes_sent \<noteq> bvl_size payload then Inl (RuntimeError ''datagram payload too big for sendmsg()'')
       else Inr s)"

definition udp_sendto :: "'k kernel \<Rightarrow> fd \<Rightarrow> address \<Rightarrow> buffer_view_list \<Rightarrow> 'k sys \<Rightarrow> exn + 'k sys" where
  "udp_sendto K fd destination payload s =
     bindE (sendmsg_helper K (fd_num fd s) (Some (addr_storage destination, addr_size destination)) payload s) (\<lambda>s.
       Inr (register_write fd s))"

definition udp_send :: "'k kernel \<Rightarrow> fd \<Rightarrow> buffer_view_list \<Rightarrow> 'k sys \<Rightarrow> exn + 'k sys" where
  "udp_send K fd payload s =
     bindE (sendmsg_helper K (fd_num fd s) None payload s) (\<lambda>s. Inr (register_write fd s))"

section \<open>What the program relies on\<close>

text \<open>
  The kernel as a carrier of streams: \<open>writev\<close> takes over a prefix of the bytes it is given, \<open>read\<close> returns
  at most as many bytes as asked for, and \<open>shutdown\<close> takes nothing back. \<open>sent fd k\<close> are the bytes taken over on \<open>fd\<close> so far.
\<close>

locale stream_kernel =
  fixes K :: "'k kernel" and sent :: "int \<Rightarrow> 'k \<Rightarrow> bytes"
  assumes writev_takes: "k_writev K n iov k = (Inr m, k') \<Longrightarrow>
      m \<le> length (concat iov) \<and> sent n k' = sent n k @ take m (concat iov)"
    and read_limited: "k_read K n limit k = (Inr bs, k') \<Longrightarrow> length bs \<le> limit \<and> sent n k' = sent n k"
    and shutdown_keeps: "k_shutdown K n how k = (Inr u, k') \<Longrightarrow> sent n k' = sent n k"
begin

lemma fd_write_loop_sends:
  assumes "fd_write_loop K fd all buf tot s = Inr (n, s')"
  shows "\<exists>m. n = tot + m \<and> m \<le> length (concat buf) \<and> (all \<longrightarrow> m = length (concat buf)) \<and> (concat buf \<noteq> [] \<longrightarrow> 0 < m) \<and>
    fd_num fd s' = fd_num fd s \<and> sent (fd_num fd s) (sy_kernel s') = sent (fd_num fd s) (sy_kernel s) @ take m (concat buf)"
  using assms
proof (induction "bvl_size buf" arbitrary: buf tot s n s' rule: less_induct)
  case less
  let ?fd = "fd_num fd s"
  obtain m s1 where call: "SystemCall ''writev'' (k_writev K ?fd buf) s = Inr (m, s1)"
    using less.prems by (cases "SystemCall ''writev'' (k_writev K ?fd buf) s")
      (auto simp: fd_write_loop.simps [of K fd all buf] bvl_as_iovecs_def)
  then obtain k where k: "k_writev K ?fd buf (sy_kernel s) = (Inr m, k)" "s1 = s\<lparr>sy_kernel := k\<rparr>"
    by (auto simp: SystemCall_Inr_iff)
  from writev_takes [OF k(1)] have m: "m \<le> length (concat buf)" "sent ?fd k = sent ?fd (sy_kernel s) @ take m (concat buf)"
    by simp_all
  obtain buf' where buf': "bvl_remove_prefix m buf = Inr buf'" "concat buf' = drop m (concat buf)"
    using bvl_remove_prefix_fits [OF m(1)] by blast
  have s2: "fd_num fd (register_write fd s1) = ?fd" "sy_kernel (register_write fd s1) = k"
    by (simp_all add: k(2) register_write_def fd_update_def fd_num_def)
  have pos: "\<not> (m = 0 \<and> bvl_size buf \<noteq> 0)" using less.prems call
    by (auto simp: fd_write_loop.simps [of K fd all buf] bvl_as_iovecs_def split: if_splits)
  then have step: "fd_write_loop K fd all buf tot s =
      (if all \<and> bvl_size buf' \<noteq> 0 then fd_write_loop K fd all buf' (tot + m) (register_write fd s1)
       else Inr (tot + m, register_write fd s1))"
    using m(1) by (subst fd_write_loop.simps) (auto simp: bvl_as_iovecs_def call buf'(1) Let_def bvl_size_eq)
  show ?case
  proof (cases "all \<and> bvl_size buf' \<noteq> 0")
    case True
    then have "bvl_size buf' < bvl_size buf" using pos bvl_remove_prefix_size [OF buf'(1)] by linarith
    moreover have "fd_write_loop K fd all buf' (tot + m) (register_write fd s1) = Inr (n, s')"
      using less.prems True step by simp
    ultimately have "n = tot + m + length (concat buf')" "fd_num fd s' = ?fd"
      "sent ?fd (sy_kernel s') = sent ?fd k @ concat buf'"
      using less.hyps True unfolding s2 [symmetric] by fastforce+
    then show ?thesis
      using m True pos by (intro exI [of _ "length (concat buf)"]) (auto simp: buf'(2) bvl_size_eq)
  next
    case False
    then show ?thesis
      using less.prems m pos s2 unfolding step if_not_P [OF False]
      by (intro exI [of _ m]) (auto simp: bvl_size_eq buf'(2))
  qed
qed

end

text \<open>
  A kernel that takes over at most \<open>chunk\<close> bytes at a time, delivers input in order, and remembers what it
  took over and delivered.
\<close>

record pipe_state =
  ps_sent :: "int \<Rightarrow> bytes"
  ps_input :: "int \<Rightarrow> bytes"
  ps_got :: "int \<Rightarrow> bytes"

definition pipe_kernel :: "nat \<Rightarrow> pipe_state kernel" where
  "pipe_kernel chunk =
     \<lparr>k_read = (\<lambda>n limit k. (Inr (take limit (ps_input k n)), k\<lparr>ps_input := (ps_input k)(n := drop limit (ps_input k n)),
        ps_got := (ps_got k)(n := ps_got k n @ take limit (ps_input k n))\<rparr>)),
      k_writev = (\<lambda>n iov k. (Inr (min chunk (length (concat iov))),
        k\<lparr>ps_sent := (ps_sent k)(n := ps_sent k n @ take chunk (concat iov))\<rparr>)),
      k_close = (\<lambda>n k. (Inr (), k)), k_fcntl_getfl = (\<lambda>n k. (Inr 0, k)), k_fcntl_setfl = (\<lambda>n f k. (Inr (), k)),
      k_poll = (\<lambda>ps t k. (Inr (length ps, map snd ps), k)),
      k_getsockopt = (\<lambda>n opt k. (Inl 95, k)), k_bind = (\<lambda>n a l k. (Inl 95, k)), k_connect = (\<lambda>n a l k. (Inl 95, k)),
      k_shutdown = (\<lambda>n how k. (Inr (), k)), k_recvfrom = (\<lambda>n mtu k. (Inl 95, k)), k_sendmsg = (\<lambda>n a iov k. (Inl 95, k)),
      k_clock = (\<lambda>k. (0, k))\<rparr>"

interpretation pipe: stream_kernel "pipe_kernel chunk" "\<lambda>n k. ps_sent k n" for chunk
proof
  fix n iov k m k'
  assume "k_writev (pipe_kernel chunk) n iov k = (Inr m, k')"
  then show "m \<le> length (concat iov) \<and> ps_sent k' n = ps_sent k n @ take m (concat iov)"
    by (auto simp: pipe_kernel_def min_def)
qed (auto simp: pipe_kernel_def)

section \<open>Properties\<close>

text \<open>
  \<open>FileDescriptor::write\<close> writes what it is given, in order and without gaps, however little the kernel
  accepts at a time: if it returns, then the number it returns counts the bytes the kernel took over,
  which are a prefix of the buffer, and all of it if \<open>write_all\<close> is set; it does not return without having
  written something, unless there was nothing to write.
\<close>

theorem fd_write_sends_prefix:
  assumes "stream_kernel K sent" "fd_write K fd buf all s = Inr (n, s')"
  shows "n \<le> length (concat buf) \<and> (all \<longrightarrow> n = length (concat buf)) \<and> (concat buf \<noteq> [] \<longrightarrow> 0 < n) \<and>
    sent (fd_num fd s) (sy_kernel s') = sent (fd_num fd s) (sy_kernel s) @ take n (concat buf)"
  using stream_kernel.fd_write_loop_sends [OF assms(1), of fd all buf 0 s n s'] assms(2)
  by (auto simp: fd_write_def)

definition demo_sys :: "bytes \<Rightarrow> pipe_state sys" where
  "demo_sys input = \<lparr>sy_wrappers = (\<lambda>fd. \<lparr>fw_fd = int fd, fw_eof = False, fw_closed = False, fw_read_count = 0, fw_write_count = 0\<rparr>),
     sy_kernel = \<lparr>ps_sent = (\<lambda>n. []), ps_input = (\<lambda>n. input), ps_got = (\<lambda>n. [])\<rparr>\<rparr>"

theorem fd_write_sends_prefix_witness:
  "\<exists>s'. fd_write (pipe_kernel 2) 4 [[1, 2, 3], [4, 5]] True (demo_sys []) = Inr (5, s') \<and> ps_sent (sy_kernel s') 4 = [1, 2, 3, 4, 5]"
proof -
  have "case fd_write (pipe_kernel 2) 4 [[1, 2, 3], [4, 5]] True (demo_sys []) of Inr (n, s') \<Rightarrow> n = 5 | Inl e \<Rightarrow> False"
    by code_simp
  then obtain s' where s': "fd_write (pipe_kernel 2) 4 [[1, 2, 3], [4, 5]] True (demo_sys []) = Inr (5, s')"
    by (auto split: sum.splits prod.splits)
  from fd_write_sends_prefix [OF pipe.stream_kernel_axioms s'] s' show ?thesis
    by (auto simp: demo_sys_def fd_num_def)
qed

end
