(* ===== verification/Event_Loop.thy ===== *)
theory Event_Loop
  imports File_Descriptors "HOL-Library.Sublist"
begin

text \<open>
  Model of \<open>util/eventloop\<close>: a loop that polls file descriptors and calls the callbacks of rules. A callback
  acts on the store of file descriptors and on the state \<open>'u\<close> of the program that set up the rules.
\<close>

section \<open>Rules\<close>

definition POLLIN :: u16 where "POLLIN = 1"
definition POLLOUT :: u16 where "POLLOUT = 4"
definition POLLERR :: u16 where "POLLERR = 8"
definition POLLHUP :: u16 where "POLLHUP = 16"
definition POLLNVAL :: u16 where "POLLNVAL = 32"
definition EINTR :: int where "EINTR = 4"

datatype direction = In | Out

fun direction_bits :: "direction \<Rightarrow> u16" where
  "direction_bits In = POLLIN"
| "direction_bits Out = POLLOUT"

type_synonym ('k, 'u) world = "'k sys \<times> 'u"

record ('k, 'u) rule =
  ru_fd :: fd
  ru_direction :: direction
  ru_callback :: "('k, 'u) world \<Rightarrow> exn + ('k, 'u) world"
  ru_interest :: "('k, 'u) world \<Rightarrow> bool"
  ru_cancel :: "('k, 'u) world \<Rightarrow> exn + ('k, 'u) world"

definition service_count :: "('k, 'u) rule \<Rightarrow> ('k, 'u) world \<Rightarrow> u32" where
  "service_count r w = (if ru_direction r = In then fd_read_count (ru_fd r) (fst w) else fd_write_count (ru_fd r) (fst w))"

definition add_rule :: "fd \<Rightarrow> direction \<Rightarrow> (('k, 'u) world \<Rightarrow> exn + ('k, 'u) world) \<Rightarrow> (('k, 'u) world \<Rightarrow> bool) \<Rightarrow>
    (('k, 'u) world \<Rightarrow> exn + ('k, 'u) world) \<Rightarrow> ('k, 'u) rule list \<Rightarrow> ('k, 'u) rule list" where
  "add_rule fd dir callback interest cancel rules =
     rules @ [\<lparr>ru_fd = fd, ru_direction = dir, ru_callback = callback, ru_interest = interest, ru_cancel = cancel\<rparr>]"

section \<open>Waiting for an event\<close>

text \<open>
  The first loop: drop the rules whose descriptor is at its end or closed, and collect what to poll for.
  The result: the remaining rules, one \<open>pollfd\<close> (number and events) for each, and whether any rule is
  interested.
\<close>

fun el_setup :: "('k, 'u) rule list \<Rightarrow> ('k, 'u) world \<Rightarrow>
    exn + ('k, 'u) rule list \<times> (int \<times> u16) list \<times> bool \<times> ('k, 'u) world" where
  "el_setup [] w = Inr ([], [], False, w)"
| "el_setup (this_rule # rules) w =
     (if ru_direction this_rule = In \<and> fd_eof (ru_fd this_rule) (fst w)
      then bindE (ru_cancel this_rule w) (el_setup rules)
      else if fd_closed (ru_fd this_rule) (fst w)
      then bindE (ru_cancel this_rule w) (el_setup rules)
      else
        let interested = ru_interest this_rule w;
            this_pollfd = (fd_num (ru_fd this_rule) (fst w), if interested then direction_bits (ru_direction this_rule) else 0)
        in bindE (el_setup rules w) (\<lambda>(rules, pollfds, something_to_poll, w).
             Inr (this_rule # rules, this_pollfd # pollfds, interested \<or> something_to_poll, w)))"

text \<open>The second loop: handle what \<open>poll\<close> reported.\<close>

fun el_dispatch :: "('k, 'u) rule list \<Rightarrow> (u16 \<times> u16) list \<Rightarrow> ('k, 'u) world \<Rightarrow> exn + ('k, 'u) rule list \<times> ('k, 'u) world" where
  "el_dispatch [] pollfds w = Inr ([], w)"
| "el_dispatch (this_rule # rules) [] w = Inl (Undefined ''vector index out of range'')"
| "el_dispatch (this_rule # rules) ((events, revents) # pollfds) w =
     (if revents AND (POLLERR OR POLLNVAL) \<noteq> 0
      then Inl (RuntimeError ''EventLoop: error on polled file descriptor'')
      else
        let poll_ready = (revents AND events \<noteq> 0);
            poll_hup = (revents AND POLLHUP \<noteq> 0)
        in if poll_hup \<and> events \<noteq> 0 \<and> \<not> poll_ready
           then bindE (ru_cancel this_rule w) (el_dispatch rules pollfds)
           else
             bindE (if poll_ready
                    then let count_before = service_count this_rule w
                         in bindE (ru_callback this_rule w) (\<lambda>w.
                              if count_before = service_count this_rule w \<and> ru_interest this_rule w
                              then Inl (RuntimeError ''EventLoop: busy wait detected: callback did not read/write fd and is still interested'')
                              else Inr w)
                    else Inr w) (\<lambda>w.
             bindE (el_dispatch rules pollfds w) (\<lambda>(rules, w). Inr (this_rule # rules, w))))"

datatype el_result = Success | Timeout | Exit

text \<open>
  An error of \<open>poll\<close> is caught; unless it is \<open>EINTR\<close>, the loop goes on with the \<open>revents\<close> it had initialized to 0.
\<close>

definition wait_next_event :: "'k kernel \<Rightarrow> int \<Rightarrow> ('k, 'u) rule list \<Rightarrow> ('k, 'u) world \<Rightarrow>
    exn + el_result \<times> ('k, 'u) rule list \<times> ('k, 'u) world" where
  "wait_next_event K timeout_ms rules w =
     bindE (el_setup rules w) (\<lambda>(rules, pollfds, something_to_poll, w).
       if \<not> something_to_poll then Inr (Exit, rules, w)
       else
         case k_poll K pollfds timeout_ms (sy_kernel (fst w)) of
           (Inr (ready, revents), k) \<Rightarrow>
             let w = ((fst w)\<lparr>sy_kernel := k\<rparr>, snd w)
             in if ready = 0 then Inr (Timeout, rules, w)
                else bindE (el_dispatch rules (zip (map snd pollfds) revents) w) (\<lambda>(rules, w). Inr (Success, rules, w))
         | (Inl errno, k) \<Rightarrow>
             let w = ((fst w)\<lparr>sy_kernel := k\<rparr>, snd w)
             in if errno = EINTR then Inr (Exit, rules, w)
                else bindE (el_dispatch rules (zip (map snd pollfds) (replicate (length pollfds) 0)) w) (\<lambda>(rules, w).
                       Inr (Success, rules, w)))"

section \<open>Rules are only ever dropped\<close>

lemma el_setup_facts:
  assumes "el_setup rules w = Inr (rules', pollfds, something, w')"
  shows "subseq rules' rules" "length pollfds = length rules'" "something \<longleftrightarrow> (\<exists>p\<in>set pollfds. snd p \<noteq> 0)"
proof -
  have "subseq rules' rules \<and> length pollfds = length rules' \<and> (something \<longleftrightarrow> (\<exists>p\<in>set pollfds. snd p \<noteq> 0))"
    using assms
  proof (induction rules arbitrary: w rules' pollfds something)
    case (Cons r rules)
    let ?gone = "ru_direction r = In \<and> fd_eof (ru_fd r) (fst w) \<or> fd_closed (ru_fd r) (fst w)"
    show ?case
    proof (cases ?gone)
      case True
      then have "bindE (ru_cancel r w) (el_setup rules) = Inr (rules', pollfds, something, w')"
        using Cons.prems by (auto split: if_splits)
      then obtain w1 where "el_setup rules w1 = Inr (rules', pollfds, something, w')" unfolding bindE_eq_Inr_iff by blast
      from Cons.IH [OF this] show ?thesis by auto
    next
      case False
      have d: "direction_bits d \<noteq> 0" for d by (cases d) (simp_all add: POLLIN_def POLLOUT_def)
      from False Cons.prems obtain rs ps st where s: "el_setup rules w = Inr (rs, ps, st, w')" "rules' = r # rs"
        "something = (ru_interest r w \<or> st)"
        "pollfds = (fd_num (ru_fd r) (fst w), if ru_interest r w then direction_bits (ru_direction r) else 0) # ps"
        by (cases "el_setup rules w") (auto simp: Let_def)
      from Cons.IH [OF s(1)] show ?thesis using d by (simp add: s(2-4))
    qed
  qed simp
  then show "subseq rules' rules" "length pollfds = length rules'" "something \<longleftrightarrow> (\<exists>p\<in>set pollfds. snd p \<noteq> 0)" by simp_all
qed

lemma el_dispatch_subseq:
  assumes "el_dispatch rules pollfds w = Inr (rules', w')"
  shows "subseq rules' rules"
  using assms
proof (induction rules pollfds w arbitrary: rules' rule: el_dispatch.induct)
  case (3 r rules events revents pollfds w)
  then show ?case by (fastforce simp: bindE_eq_Inr_iff Let_def split: if_splits)
qed simp_all

lemma el_dispatch_idle: "el_dispatch rules (zip es (replicate (length es) 0)) w = Inr (rules, w)" if "length es = length rules"
  using that
proof (induction rules arbitrary: es)
  case (Cons r rules)
  then show ?case by (cases es) (auto simp: Let_def)
qed simp

section \<open>Properties\<close>

text \<open>
  The event loop never adds, repeats or reorders rules; it gives up (\<open>Exit\<close>) before polling exactly when
  none of the remaining rules is interested; and it calls no callback unless \<open>poll\<close> succeeded: when \<open>poll\<close>
  fails with an error other than \<open>EINTR\<close>, the error is swallowed, the result is \<open>Success\<close>, and nothing has
  happened.
\<close>

theorem event_loop_rules:
  assumes "el_setup rules w = Inr (rules1, pollfds, something, w1)"
  shows "(wait_next_event K t rules w = Inr (res, rules2, w2) \<longrightarrow> subseq rules2 rules1 \<and> subseq rules1 rules) \<and>
    (something \<longleftrightarrow> (\<exists>p\<in>set pollfds. snd p \<noteq> 0)) \<and>
    (\<not> something \<longrightarrow> wait_next_event K t rules w = Inr (Exit, rules1, w1)) \<and>
    (something \<and> k_poll K pollfds t (sy_kernel (fst w1)) = (Inl errno, k) \<longrightarrow>
      wait_next_event K t rules w = Inr (if errno = EINTR then Exit else Success, rules1, ((fst w1)\<lparr>sy_kernel := k\<rparr>, snd w1)))"
proof -
  note f = el_setup_facts [OF assms]
  have idle: "el_dispatch rules1 (zip (map snd pollfds) (replicate (length pollfds) 0)) w = Inr (rules1, w)" for w
    using el_dispatch_idle [of "map snd pollfds" rules1] f(2) by simp
  have "subseq rules2 rules1" if "wait_next_event K t rules w = Inr (res, rules2, w2)"
    using that unfolding wait_next_event_def assms
    by (auto simp: Let_def bindE_eq_Inr_iff idle split: if_splits prod.splits sum.splits dest: el_dispatch_subseq)
  moreover have "wait_next_event K t rules w = Inr (Exit, rules1, w1)" if "\<not> something"
    using that by (simp add: wait_next_event_def assms)
  moreover have "wait_next_event K t rules w = Inr (if errno = EINTR then Exit else Success, rules1, ((fst w1)\<lparr>sy_kernel := k\<rparr>, snd w1))"
    if "something" "k_poll K pollfds t (sy_kernel (fst w1)) = (Inl errno, k)"
    using that by (simp add: wait_next_event_def assms idle)
  ultimately show ?thesis using f(1,3) by blast
qed

text \<open>
  A rule that is ready is served: its callback is called; and if it has neither read nor written its
  descriptor and is still interested, the loop stops with an error instead of spinning.
\<close>

theorem event_loop_busy_wait:
  assumes "revents AND (POLLERR OR POLLNVAL) = 0" "revents AND events \<noteq> 0" "ru_callback r w = Inr w1"
  shows "el_dispatch (r # rules) ((events, revents) # pollfds) w =
    (if service_count r w1 = service_count r w \<and> ru_interest r w1
     then Inl (RuntimeError ''EventLoop: busy wait detected: callback did not read/write fd and is still interested'')
     else bindE (el_dispatch rules pollfds w1) (\<lambda>(rules, w). Inr (r # rules, w)))"
  using assms by (auto simp: Let_def)

definition demo_rule :: "bool \<Rightarrow> (pipe_state, nat) rule" where
  "demo_rule lazy = \<lparr>ru_fd = 3, ru_direction = In,
     ru_callback = (\<lambda>(s, n). if lazy then Inr (s, n) else bindE (fd_read (pipe_kernel 2) 3 10 s) (\<lambda>(bs, s). Inr (s, n + length bs))),
     ru_interest = (\<lambda>w. True), ru_cancel = Inr\<rparr>"

theorem event_loop_rules_witness:
  "\<exists>w. wait_next_event (pipe_kernel 2) 10 [demo_rule False] (demo_sys [7, 8, 9], 0) = Inr (Success, [demo_rule False], w)"
proof -
  have "el_setup [demo_rule False] (demo_sys [7, 8, 9], 0) = Inr ([demo_rule False], [(3, POLLIN)], True, (demo_sys [7, 8, 9], 0))"
    by (simp add: demo_rule_def demo_sys_def fd_eof_def fd_closed_def fd_num_def)
  note e = event_loop_rules [OF this, of "pipe_kernel 2" 10]
  have "case wait_next_event (pipe_kernel 2) 10 [demo_rule False] (demo_sys [7, 8, 9], 0) of
      Inr (res, rs, w) \<Rightarrow> res = Success \<and> length rs = 1 | Inl e \<Rightarrow> False"
    by (simp add: wait_next_event_def demo_rule_def demo_sys_def pipe_kernel_def fd_read_def fd_eof_def fd_closed_def fd_num_def
        SystemCall_def service_count_def fd_read_count_def register_read_def fd_update_def BUFFER_SIZE_def
        POLLIN_def POLLERR_def POLLNVAL_def POLLHUP_def)
  then obtain rs w where w: "wait_next_event (pipe_kernel 2) 10 [demo_rule False] (demo_sys [7, 8, 9], 0) = Inr (Success, rs, w)" "length rs = 1"
    by (auto split: sum.splits prod.splits)
  then have "subseq rs [demo_rule False]" using e by blast
  then show ?thesis using w subseq_same_length [of rs "[demo_rule False]"] by auto
qed

theorem event_loop_busy_wait_witness:
  "el_dispatch [demo_rule True] [(POLLIN, POLLIN)] (demo_sys [7], 0) =
   Inl (RuntimeError ''EventLoop: busy wait detected: callback did not read/write fd and is still interested'')"
proof -
  have "ru_callback (demo_rule True) (demo_sys [7], 0) = Inr (demo_sys [7], 0)" "ru_interest (demo_rule True) (demo_sys [7], 0)"
    by (simp_all add: demo_rule_def)
  then show ?thesis
    using event_loop_busy_wait [of POLLIN POLLIN "demo_rule True" "(demo_sys [7], 0)" "(demo_sys [7], 0)" "[]" "[]"]
    by (simp add: POLLIN_def POLLERR_def POLLNVAL_def)
qed

end
