(* ===== verification/Byte_Streams.thy ===== *)
theory Byte_Streams
  imports Buffers
begin

text \<open>
  Model of \<open>byte_stream.hh\<close> and \<open>byte_stream.cc\<close>: a flow-controlled in-memory byte stream of bounded
  capacity. Its contract, on which the reassembler, the TCP sender and the TCP connection rely, is
  the locale \<open>flow_stream\<close>.
\<close>

section \<open>State and operations\<close>

record byte_stream =
  bs_error :: bool
  bs_input_end :: bool
  bs_capacity :: nat
  bs_write_bytes :: nat
  bs_read_bytes :: nat
  bs_buffer :: buffer_list

definition bs_new :: "nat \<Rightarrow> byte_stream" where
  "bs_new capacity = \<lparr>bs_error = False, bs_input_end = False, bs_capacity = capacity,
     bs_write_bytes = 0, bs_read_bytes = 0, bs_buffer = []\<rparr>"

definition bs_write :: "bytes \<Rightarrow> byte_stream \<Rightarrow> nat \<times> byte_stream" where
  "bs_write data s =
     (let write_len = (if length data > bs_capacity s - bl_size (bs_buffer s)
                       then bs_capacity s - bl_size (bs_buffer s) else length data)
      in (write_len,
          s\<lparr>bs_buffer := bl_append (bs_buffer s) (bl_of_string (take write_len data)),
            bs_write_bytes := bs_write_bytes s + write_len\<rparr>))"

definition bs_peek_output :: "nat \<Rightarrow> byte_stream \<Rightarrow> bytes" where
  "bs_peek_output len s =
     (let peek_len = (if len > bl_size (bs_buffer s) then bl_size (bs_buffer s) else len)
      in take peek_len (bl_concatenate (bs_buffer s)))"

definition bs_pop_output :: "nat \<Rightarrow> byte_stream \<Rightarrow> exn + byte_stream" where
  "bs_pop_output len s =
     (let pop_len = (if len > bl_size (bs_buffer s) then bl_size (bs_buffer s) else len);
          s' = s\<lparr>bs_read_bytes := bs_read_bytes s + pop_len\<rparr>
      in bindE (bl_remove_prefix pop_len (bs_buffer s')) (\<lambda>b. Inr (s'\<lparr>bs_buffer := b\<rparr>)))"

definition bs_read :: "nat \<Rightarrow> byte_stream \<Rightarrow> exn + bytes \<times> byte_stream" where
  "bs_read len s =
     (let read_len = (if len > bl_size (bs_buffer s) then bl_size (bs_buffer s) else len);
          res = bs_peek_output read_len s
      in bindE (bs_pop_output read_len s) (\<lambda>s'. Inr (res, s')))"

definition bs_end_input :: "byte_stream \<Rightarrow> byte_stream" where
  "bs_end_input s = s\<lparr>bs_input_end := True\<rparr>"

definition bs_set_error :: "byte_stream \<Rightarrow> byte_stream" where
  "bs_set_error s = s\<lparr>bs_error := True\<rparr>"

definition bs_input_ended :: "byte_stream \<Rightarrow> bool" where
  "bs_input_ended s = bs_input_end s"

definition bs_buffer_size :: "byte_stream \<Rightarrow> nat" where
  "bs_buffer_size s = bl_size (bs_buffer s)"

definition bs_buffer_empty :: "byte_stream \<Rightarrow> bool" where
  "bs_buffer_empty s \<longleftrightarrow> bl_size (bs_buffer s) = 0"

definition bs_eof :: "byte_stream \<Rightarrow> bool" where
  "bs_eof s \<longleftrightarrow> bs_buffer_empty s \<and> bs_input_ended s"

definition bs_bytes_written :: "byte_stream \<Rightarrow> nat" where
  "bs_bytes_written s = bs_write_bytes s"

definition bs_bytes_read :: "byte_stream \<Rightarrow> nat" where
  "bs_bytes_read s = bs_read_bytes s"

definition bs_remaining_capacity :: "byte_stream \<Rightarrow> nat" where
  "bs_remaining_capacity s = bs_capacity s - bs_buffer_size s"

section \<open>Abstraction and invariant\<close>

definition bs_contents :: "byte_stream \<Rightarrow> bytes" where
  "bs_contents s = bl_concatenate (bs_buffer s)"

definition bs_inv :: "byte_stream \<Rightarrow> bool" where
  "bs_inv s \<longleftrightarrow> length (bs_contents s) \<le> bs_capacity s \<and>
     bs_write_bytes s = bs_read_bytes s + length (bs_contents s)"

lemma bs_sizes [simp]:
  "bl_size (bs_buffer s) = length (bs_contents s)"
  "bs_buffer_size s = length (bs_contents s)"
  "bs_buffer_empty s \<longleftrightarrow> bs_contents s = []"
  by (simp_all add: bl_size_eq bs_contents_def bs_buffer_size_def bs_buffer_empty_def)

lemma bs_contents_update [simp]:
  "bs_contents (s\<lparr>bs_error := e\<rparr>) = bs_contents s"
  "bs_contents (s\<lparr>bs_input_end := i\<rparr>) = bs_contents s"
  "bs_contents (s\<lparr>bs_capacity := c\<rparr>) = bs_contents s"
  "bs_contents (s\<lparr>bs_write_bytes := w\<rparr>) = bs_contents s"
  "bs_contents (s\<lparr>bs_read_bytes := r\<rparr>) = bs_contents s"
  "bs_contents (s\<lparr>bs_buffer := b\<rparr>) = bl_concatenate b"
  by (simp_all add: bs_contents_def)

lemma bs_write_accepted: "fst (bs_write d s) = min (length d) (bs_capacity s - length (bs_contents s))"
  by (simp add: bs_write_def Let_def min_def)

lemma bs_write_frame [simp]:
  "bs_contents (snd (bs_write d s)) = bs_contents s @ take (fst (bs_write d s)) d"
  "bs_capacity (snd (bs_write d s)) = bs_capacity s"
  "bs_error (snd (bs_write d s)) = bs_error s"
  "bs_input_end (snd (bs_write d s)) = bs_input_end s"
  "bs_read_bytes (snd (bs_write d s)) = bs_read_bytes s"
  "bs_write_bytes (snd (bs_write d s)) = bs_write_bytes s + fst (bs_write d s)"
  by (simp_all add: bs_write_def Let_def bs_contents_def)

lemma bs_inv_write: "bs_inv s \<Longrightarrow> bs_inv (snd (bs_write d s))"
  by (auto simp: bs_inv_def bs_write_accepted)

lemma bs_peek_output_eq: "bs_peek_output n s = take n (bs_contents s)"
  by (simp add: bs_peek_output_def bs_contents_def)

text \<open>\<open>pop_output\<close> and \<open>read\<close> clip their argument to the buffered bytes, so they never throw.\<close>

lemma bs_pop_output_total:
  "\<exists>b. bs_pop_output n s = Inr (s\<lparr>bs_read_bytes := bs_read_bytes s + min n (length (bs_contents s)),
     bs_buffer := b\<rparr>) \<and> bl_concatenate b = drop n (bs_contents s)"
proof -
  let ?k = "min n (length (bs_contents s))"
  obtain b where "bl_remove_prefix ?k (bs_buffer s) = Inr b"
      "bl_concatenate b = drop ?k (bs_contents s)"
    using bl_remove_prefix_fits [of ?k "bs_buffer s"] by (auto simp: bs_contents_def)
  then show ?thesis by (auto simp: bs_pop_output_def Let_def min_def)
qed

lemma bs_pop_output_cases:
  obtains s' where "bs_pop_output n s = Inr s'" "bs_contents s' = drop n (bs_contents s)"
    "bs_capacity s' = bs_capacity s" "bs_error s' = bs_error s" "bs_input_end s' = bs_input_end s"
    "bs_write_bytes s' = bs_write_bytes s"
    "bs_read_bytes s' = bs_read_bytes s + min n (length (bs_contents s))"
  using bs_pop_output_total [of n s] by auto

lemma bs_read_cases:
  obtains s' where "bs_read n s = Inr (take n (bs_contents s), s')"
    "bs_contents s' = drop n (bs_contents s)"
    "bs_capacity s' = bs_capacity s" "bs_error s' = bs_error s" "bs_input_end s' = bs_input_end s"
    "bs_write_bytes s' = bs_write_bytes s"
    "bs_read_bytes s' = bs_read_bytes s + min n (length (bs_contents s))"
proof -
  let ?k = "if length (bs_contents s) < n then length (bs_contents s) else n"
  have "bs_read n s = bindE (bs_pop_output ?k s) (\<lambda>s'. Inr (take n (bs_contents s), s'))"
    by (simp add: bs_read_def Let_def bs_peek_output_eq)
  then show thesis
    by (rule_tac bs_pop_output_cases [of ?k s]) (rule that; auto split: if_splits)
qed

lemma bs_read_Inr:
  assumes "bs_read n s = Inr (d, s')"
  shows "d = take n (bs_contents s)" "bs_contents s' = drop n (bs_contents s)"
    "bs_capacity s' = bs_capacity s" "bs_error s' = bs_error s" "bs_input_end s' = bs_input_end s"
    "bs_write_bytes s' = bs_write_bytes s"
    "bs_read_bytes s' = bs_read_bytes s + min n (length (bs_contents s))"
  by (rule bs_read_cases [of n s], use assms in simp)+

lemma bs_inv_new [simp]: "bs_inv (bs_new c)"
  by (simp add: bs_inv_def bs_new_def bs_contents_def)

lemma bs_inv_pop: "bs_pop_output n s = Inr s' \<Longrightarrow> bs_inv s \<Longrightarrow> bs_inv s'"
  by (rule bs_pop_output_cases [of n s]) (auto simp: bs_inv_def)

lemma bs_inv_read: "bs_read n s = Inr (d, s') \<Longrightarrow> bs_inv s \<Longrightarrow> bs_inv s'"
  by (rule bs_read_cases [of n s]) (auto simp: bs_inv_def)

lemma bs_inv_flags [simp]:
  "bs_inv (bs_end_input s) = bs_inv s"
  "bs_inv (bs_set_error s) = bs_inv s"
  by (simp_all add: bs_inv_def bs_end_input_def bs_set_error_def)

section \<open>The contract of a flow-controlled stream\<close>

datatype stream_op = Write bytes | Read nat | EndInput

text \<open>
  Running a sequence of operations; the result holds the bytes accepted by the writes and the bytes
  returned by the reads, in order.
\<close>

fun stream_run ::
  "(bytes \<Rightarrow> 's \<Rightarrow> nat \<times> 's) \<Rightarrow> (nat \<Rightarrow> 's \<Rightarrow> exn + bytes \<times> 's) \<Rightarrow> ('s \<Rightarrow> 's) \<Rightarrow>
   stream_op list \<Rightarrow> 's \<Rightarrow> exn + bytes \<times> bytes \<times> 's"
where
  "stream_run wr rd fin [] s = Inr ([], [], s)"
| "stream_run wr rd fin (Write d # ops) s =
     (case wr d s of (k, s') \<Rightarrow>
        bindE (stream_run wr rd fin ops s') (\<lambda>(acc, out, t). Inr (take k d @ acc, out, t)))"
| "stream_run wr rd fin (Read n # ops) s =
     bindE (rd n s) (\<lambda>(d, s').
       bindE (stream_run wr rd fin ops s') (\<lambda>(acc, out, t). Inr (acc, d @ out, t)))"
| "stream_run wr rd fin (EndInput # ops) s = stream_run wr rd fin ops (fin s)"

locale flow_stream =
  fixes stream_contents :: "'s \<Rightarrow> bytes"
    and stream_capacity :: "'s \<Rightarrow> nat"
    and stream_write :: "bytes \<Rightarrow> 's \<Rightarrow> nat \<times> 's"
    and stream_read :: "nat \<Rightarrow> 's \<Rightarrow> exn + bytes \<times> 's"
    and stream_end :: "'s \<Rightarrow> 's"
    and stream_ok :: "'s \<Rightarrow> bool"
  assumes bounded: "stream_ok s \<Longrightarrow> length (stream_contents s) \<le> stream_capacity s"
    and write_law: "stream_ok s \<Longrightarrow> \<exists>s'.
      stream_write d s = (min (length d) (stream_capacity s - length (stream_contents s)), s') \<and>
      stream_ok s' \<and> stream_capacity s' = stream_capacity s \<and>
      stream_contents s' =
        stream_contents s @ take (stream_capacity s - length (stream_contents s)) d"
    and read_law: "stream_ok s \<Longrightarrow> \<exists>s'.
      stream_read n s = Inr (take n (stream_contents s), s') \<and>
      stream_ok s' \<and> stream_capacity s' = stream_capacity s \<and>
      stream_contents s' = drop n (stream_contents s)"
    and end_law: "stream_ok s \<Longrightarrow> stream_ok (stream_end s) \<and>
      stream_capacity (stream_end s) = stream_capacity s \<and>
      stream_contents (stream_end s) = stream_contents s"
begin

lemma run_fifo:
  assumes "stream_ok s"
  shows "\<exists>acc out t. stream_run stream_write stream_read stream_end ops s = Inr (acc, out, t) \<and>
    stream_ok t \<and> stream_capacity t = stream_capacity s \<and>
    stream_contents s @ acc = out @ stream_contents t"
  using assms
proof (induction ops arbitrary: s)
  case Nil
  then show ?case by simp
next
  case (Cons op ops)
  show ?case
  proof (cases op)
    case (Write d)
    from write_law [OF Cons.prems, of d] obtain s' where
      s': "stream_write d s = (min (length d) (stream_capacity s - length (stream_contents s)), s')"
        "stream_ok s'" "stream_capacity s' = stream_capacity s"
        "stream_contents s' =
          stream_contents s @ take (stream_capacity s - length (stream_contents s)) d"
      by blast
    from Cons.IH [OF s'(2)] s' Write show ?thesis by (auto simp: min_def)
  next
    case (Read n)
    from read_law [OF Cons.prems, of n] obtain s' where
      s': "stream_read n s = Inr (take n (stream_contents s), s')" "stream_ok s'"
        "stream_capacity s' = stream_capacity s" "stream_contents s' = drop n (stream_contents s)"
      by blast
    have eq: "stream_contents s = take n (stream_contents s) @ stream_contents s'"
      using s'(4) by simp
    from Cons.IH [OF s'(2)] obtain acc out t where
        "stream_run stream_write stream_read stream_end ops s' = Inr (acc, out, t)" "stream_ok t"
        "stream_capacity t = stream_capacity s'" "stream_contents s' @ acc = out @ stream_contents t"
      by blast
    moreover from this(4) eq have
        "stream_contents s @ acc = (take n (stream_contents s) @ out) @ stream_contents t"
      by (metis append.assoc)
    ultimately show ?thesis using s' Read by simp
  next
    case EndInput
    with end_law [OF Cons.prems] Cons.IH [of "stream_end s"] show ?thesis by auto
  qed
qed

end

interpretation bs: flow_stream bs_contents bs_capacity bs_write bs_read bs_end_input bs_inv
proof unfold_locales
  fix s :: byte_stream and d :: bytes and n :: nat
  assume ok: "bs_inv s"
  show "length (bs_contents s) \<le> bs_capacity s" using ok by (simp add: bs_inv_def)
  show "\<exists>s'. bs_write d s = (min (length d) (bs_capacity s - length (bs_contents s)), s') \<and>
      bs_inv s' \<and> bs_capacity s' = bs_capacity s \<and>
      bs_contents s' = bs_contents s @ take (bs_capacity s - length (bs_contents s)) d"
    using bs_inv_write [OF ok, of d]
    by (intro exI [of _ "snd (bs_write d s)"]) (auto simp: bs_write_accepted prod_eq_iff min_def)
  show "\<exists>s'. bs_read n s = Inr (take n (bs_contents s), s') \<and>
      bs_inv s' \<and> bs_capacity s' = bs_capacity s \<and> bs_contents s' = drop n (bs_contents s)"
    by (rule bs_read_cases [of n s]) (use bs_inv_read ok in blast)
  show "bs_inv (bs_end_input s) \<and> bs_capacity (bs_end_input s) = bs_capacity s \<and>
      bs_contents (bs_end_input s) = bs_contents s"
    using ok by (simp add: bs_end_input_def bs_inv_def)
qed

lemma bs_run_counts:
  assumes "stream_run bs_write bs_read bs_end_input ops s = Inr (acc, out, t)"
  shows "bs_read_bytes t = bs_read_bytes s + length out"
  using assms
proof (induction ops arbitrary: s acc out)
  case Nil
  then show ?case by simp
next
  case (Cons op ops)
  show ?case
  proof (cases op)
    case (Write d)
    then show ?thesis using Cons.prems Cons.IH [of "snd (bs_write d s)"]
      by (auto simp: bindE_eq_Inr_iff split_beta)
  next
    case (Read n)
    then obtain d s' acc' out' where rd: "bs_read n s = Inr (d, s')"
        and tl: "stream_run bs_write bs_read bs_end_input ops s' = Inr (acc', out', t)" "out = d @ out'"
      using Cons.prems by (auto simp: bindE_eq_Inr_iff)
    show ?thesis using bs_read_Inr(1,7) [OF rd] Cons.IH [OF tl(1)] tl(2) by simp
  next
    case EndInput
    then show ?thesis using Cons.prems Cons.IH [of "bs_end_input s"] by (simp add: bs_end_input_def)
  qed
qed

section \<open>Properties\<close>

text \<open>
  (C30) A byte stream is a bounded first-in first-out channel: for every sequence of writes, reads and
  \<open>end_input\<close> on a fresh stream no operation throws, the bytes read followed by the bytes still
  buffered are the bytes the writes accepted, in order, the buffer never exceeds the capacity, and
  \<open>bytes_written\<close>, \<open>bytes_read\<close> and \<open>remaining_capacity\<close> count exactly that.
\<close>

theorem byte_stream_fifo:
  "\<exists>acc out s. stream_run bs_write bs_read bs_end_input ops (bs_new cap) = Inr (acc, out, s) \<and>
     acc = out @ bs_contents s \<and> bs_bytes_written s = length acc \<and> bs_bytes_read s = length out \<and>
     bs_buffer_size s + bs_remaining_capacity s = cap"
proof -
  obtain acc out s where run: "stream_run bs_write bs_read bs_end_input ops (bs_new cap) = Inr (acc, out, s)"
      and s: "bs_inv s" "bs_capacity s = bs_capacity (bs_new cap)"
        "bs_contents (bs_new cap) @ acc = out @ bs_contents s"
    using bs.run_fifo [OF bs_inv_new] by blast
  have "bs_read_bytes s = length out" using bs_run_counts [OF run] by (simp add: bs_new_def)
  then show ?thesis using run s
    by (auto simp: bs_new_def bs_inv_def bs_bytes_written_def bs_bytes_read_def
        bs_remaining_capacity_def bs_contents_def bl_concatenate_eq)
qed

text \<open>
  \<open>end_input\<close> does not stop later writes: a write after it accepts the same bytes as before it and
  appends them, so a reader that has seen \<open>eof()\<close> may see it become false again.
\<close>

theorem write_after_end_input:
  "fst (bs_write d (bs_end_input s)) = min (length d) (bs_remaining_capacity s) \<and>
   bs_contents (snd (bs_write d (bs_end_input s))) =
     bs_contents s @ take (bs_remaining_capacity s) d \<and>
   (bs_eof (snd (bs_write d (bs_end_input s))) \<longleftrightarrow>
     bs_contents s = [] \<and> (d = [] \<or> bs_remaining_capacity s = 0))"
  by (auto simp: bs_write_accepted bs_end_input_def bs_remaining_capacity_def bs_eof_def
      bs_input_ended_def min_def)

end
