(* ===== verification/Reassembler.thy ===== *)
theory Reassembler
  imports Byte_Streams
begin

text \<open>
  Model of \<open>stream_reassembler.hh\<close> and \<open>stream_reassembler.cc\<close>. Stream indices are 64-bit words: the
  TCP receiver passes \<open>abs_seqno - 1\<close>, which wraps. \<open>std::set<node>\<close>, ordered by index, is the list
  of its elements in ascending order, and an iterator is a position in it (\<open>end()\<close> is the length).
\<close>

section \<open>State and operations\<close>

record node =
  node_idx :: u64
  node_len :: u64
  node_data :: bytes

definition mk_node :: "u64 \<Rightarrow> bytes \<Rightarrow> node" where
  "mk_node i d = \<lparr>node_idx = i, node_len = of_nat (length d), node_data = d\<rparr>"

definition node_less :: "node \<Rightarrow> node \<Rightarrow> bool" where
  "node_less a b \<longleftrightarrow> node_idx a < node_idx b"

type_synonym node_set = "node list"

definition set_lower_bound :: "node \<Rightarrow> node_set \<Rightarrow> nat" where
  "set_lower_bound b ns = length (takeWhile (\<lambda>n. node_less n b) ns)"

definition set_erase_at :: "nat \<Rightarrow> node_set \<Rightarrow> node_set" where
  "set_erase_at it ns = take it ns @ drop (Suc it) ns"

definition set_erase :: "node \<Rightarrow> node_set \<Rightarrow> node_set" where
  "set_erase b ns = filter (\<lambda>n. node_less n b \<or> node_less b n) ns"

definition set_insert :: "node \<Rightarrow> node_set \<Rightarrow> node_set" where
  "set_insert b ns =
     (let it = set_lower_bound b ns
      in if it < length ns \<and> \<not> node_less b (ns ! it) then ns
         else take it ns @ [b] @ drop it ns)"

record stream_reassembler =
  ra_data_buffer :: node_set
  ra_input_end_idx :: u64
  ra_unassembled_bytes :: u64
  ra_cur_idx :: u64
  ra_output :: byte_stream
  ra_capacity :: u64

definition ra_new :: "u64 \<Rightarrow> stream_reassembler" where
  "ra_new capacity = \<lparr>ra_data_buffer = [], ra_input_end_idx = 2147483647, ra_unassembled_bytes = 0,
     ra_cur_idx = 0, ra_output = bs_new (unat capacity), ra_capacity = capacity\<rparr>"

text \<open>
  \<open>merge_to\<close> returns the length of the overlap and the merged node, or \<open>-1\<close> and the node unchanged.
\<close>

definition merge_to :: "node \<Rightarrow> node \<Rightarrow> int \<times> node" where
  "merge_to a b =
     (let (dst1, dst2) = (if node_idx a \<le> node_idx b then (a, b) else (b, a));
          end1 = node_idx dst1 + node_len dst1;
          end2 = node_idx dst2 + node_len dst2
      in if end1 \<ge> end2 then (sint (node_len dst2), dst1)
         else if end1 < node_idx dst2 then (-1, a)
         else let d = node_data dst1 @ drop (unat (end1 - node_idx dst2)) (node_data dst2)
              in (sint (end1 - node_idx dst2),
                  \<lparr>node_idx = node_idx dst1, node_len = of_nat (length d), node_data = d\<rparr>))"

text \<open>The first loop of the merge: the nodes at or after the block.\<close>

function merge_succ :: "node \<Rightarrow> u64 \<Rightarrow> node_set \<Rightarrow> node \<times> u64 \<times> node_set" where
  "merge_succ block unassembled ns =
     (let it = set_lower_bound block ns
      in if it < length ns then
           let (merge_bytes, block') = merge_to block (ns ! it)
           in if merge_bytes \<ge> 0
              then merge_succ block' (unassembled - of_int merge_bytes) (set_erase_at it ns)
              else (block', unassembled, ns)
         else (block, unassembled, ns))"
  by pat_completeness auto
termination
  by (relation "measure (\<lambda>(b, u, ns). length ns)") (auto simp: set_erase_at_def)

text \<open>
  The second loop: the nodes before the block, nearest first. Before the loop and after every round
  the code moves to \<open>lower_bound(block)\<close>, stops at \<open>begin()\<close> and otherwise steps back one position.
\<close>

function merge_prev :: "node \<Rightarrow> u64 \<Rightarrow> node_set \<Rightarrow> node \<times> u64 \<times> node_set" where
  "merge_prev block unassembled ns =
     (let it = set_lower_bound block ns
      in if it = 0 then (block, unassembled, ns)
         else let (merge_bytes, block') = merge_to block (ns ! (it - 1))
              in if merge_bytes \<ge> 0
                 then merge_prev block' (unassembled - of_int merge_bytes) (set_erase_at (it - 1) ns)
                 else (block', unassembled, ns))"
  by pat_completeness auto
termination
proof (relation "measure (\<lambda>(b, u, ns). length ns)", goal_cases)
  case 1
  show ?case by simp
next
  case (2 block unassembled ns it x merge_bytes block')
  have "it \<le> length ns" using 2(1) by (simp add: set_lower_bound_def length_takeWhile_le)
  with 2(2) show ?case by (simp add: set_erase_at_def)
qed

declare merge_succ.simps [simp del] merge_prev.simps [simp del]

definition ra_empty :: "stream_reassembler \<Rightarrow> bool" where
  "ra_empty r \<longleftrightarrow> ra_unassembled_bytes r = 0"

definition ra_unassembled :: "stream_reassembler \<Rightarrow> u64" where
  "ra_unassembled r = ra_unassembled_bytes r"

definition ra_input_ended :: "stream_reassembler \<Rightarrow> bool" where
  "ra_input_ended r = bs_input_ended (ra_output r)"

definition ra_end_input_if :: "bool \<Rightarrow> stream_reassembler \<Rightarrow> stream_reassembler" where
  "ra_end_input_if c r = (if c then r\<lparr>ra_output := bs_end_input (ra_output r)\<rparr> else r)"

text \<open>Removal of the part of a block outside the window, on the right and then on the left.\<close>

definition clip_right :: "u64 \<Rightarrow> node \<Rightarrow> node" where
  "clip_right max_idx block =
     (if node_idx block + node_len block > max_idx
      then let d = take (unat (max_idx - node_idx block)) (node_data block)
           in block\<lparr>node_data := d, node_len := of_nat (length d)\<rparr>
      else block)"

definition clip_left :: "u64 \<Rightarrow> u64 \<Rightarrow> node \<Rightarrow> exn + node" where
  "clip_left cur_idx index block =
     (if node_idx block < cur_idx
      then let offset = cur_idx - node_idx block;
               d = drop (unat offset) (node_data block)
           in if unat offset > length (node_data block)
              then Inl (Undefined ''push_substring: begin() + offset'')
              else Inr (block\<lparr>node_idx := index + offset, node_data := d,
                              node_len := of_nat (length d)\<rparr>)
      else Inr block)"

text \<open>Insertion of a clipped block into the set, merging it with every node it touches.\<close>

definition store_block :: "node \<Rightarrow> stream_reassembler \<Rightarrow> stream_reassembler" where
  "store_block block r =
     (let u = ra_unassembled_bytes r + node_len block;
          (block1, u1, ns1) = merge_succ block u (ra_data_buffer r);
          (block2, u2, ns2) = merge_prev block1 u1 ns1
      in r\<lparr>ra_data_buffer := set_insert block2 ns2, ra_unassembled_bytes := u2\<rparr>)"

text \<open>The first node goes to the output stream when it starts at the next index to be written.\<close>

definition write_ready :: "stream_reassembler \<Rightarrow> stream_reassembler" where
  "write_ready r =
     (case ra_data_buffer r of
        [] \<Rightarrow> r
      | to_write # _ \<Rightarrow>
          if node_idx to_write = ra_cur_idx r then
            let (written_bytes, out) = bs_write (node_data to_write) (ra_output r)
            in r\<lparr>ra_output := out,
                 ra_unassembled_bytes := ra_unassembled_bytes r - of_nat written_bytes,
                 ra_cur_idx := ra_cur_idx r + of_nat written_bytes,
                 ra_data_buffer := set_erase to_write (ra_data_buffer r)\<rparr>
          else r)"

definition push_substring ::
  "bytes \<Rightarrow> u64 \<Rightarrow> bool \<Rightarrow> stream_reassembler \<Rightarrow> exn + stream_reassembler" where
  "push_substring data index eof r0 =
     (let r = (if eof then r0\<lparr>ra_input_end_idx := index + of_nat (length data)\<rparr> else r0);
          max_idx = ra_cur_idx r - of_nat (bs_buffer_size (ra_output r)) + ra_capacity r
      in if index > max_idx then Inr r
         else if index + of_nat (length data) \<le> ra_cur_idx r
         then Inr (ra_end_input_if (ra_cur_idx r \<ge> ra_input_end_idx r \<and> ra_empty r) r)
         else bindE (clip_left (ra_cur_idx r) index (clip_right max_idx (mk_node index data)))
                (\<lambda>block.
                   let r1 = write_ready (store_block block r);
                       r2 = ra_end_input_if (ra_cur_idx r1 \<ge> ra_input_end_idx r1 \<and> ra_empty r1) r1
                   in Inr (ra_end_input_if (eof \<and> ra_empty r2) r2)))"

section \<open>Stored blocks\<close>

definition node_lo :: "node \<Rightarrow> nat" where "node_lo n = unat (node_idx n)"
definition node_hi :: "node \<Rightarrow> nat" where "node_hi n = node_lo n + length (node_data n)"

definition node_ok :: "(nat \<Rightarrow> u8) \<Rightarrow> node \<Rightarrow> bool" where
  "node_ok S n \<longleftrightarrow> node_len n = of_nat (length (node_data n)) \<and> node_hi n < 2 ^ 63 \<and>
     node_data n = map S [node_lo n..<node_hi n]"

lemma lo_le_hi [simp]: "node_lo n \<le> node_hi n" by (simp add: node_hi_def)

lemma node_ok_nat:
  assumes "node_ok S n"
  shows "unat (node_len n) = node_hi n - node_lo n" "unat (node_idx n + node_len n) = node_hi n"
    "node_data n = map S [node_lo n..<node_hi n]"
proof -
  have l: "unat (node_len n) = length (node_data n)"
    using assms by (auto simp: node_ok_def node_hi_def intro: unat_of_nat64)
  then show "unat (node_len n) = node_hi n - node_lo n" by (simp add: node_hi_def)
  show "unat (node_idx n + node_len n) = node_hi n"
    using assms l by (subst unat_add64) (auto simp: node_ok_def node_hi_def node_lo_def)
  show "node_data n = map S [node_lo n..<node_hi n]" using assms by (simp add: node_ok_def)
qed

definition iv_node :: "(nat \<Rightarrow> u8) \<Rightarrow> u64 \<Rightarrow> nat \<Rightarrow> node" where
  "iv_node S i b = \<lparr>node_idx = i, node_len = of_nat (b - unat i), node_data = map S [unat i..<b]\<rparr>"

definition node_touch :: "node \<Rightarrow> node \<Rightarrow> bool" where
  "node_touch a b \<longleftrightarrow> node_lo a \<le> node_hi b \<and> node_lo b \<le> node_hi a"

lemma sint_small: "unat (w::u64) < 2 ^ 63 \<Longrightarrow> sint w = int (unat w)"
proof -
  assume "unat w < 2 ^ 63"
  then have "int (unat w) < int (2 ^ 63)" by (simp only: of_nat_less_iff)
  then show ?thesis by (simp add: sint_u64)
qed

lemma map_upt_glue:
  assumes "a \<le> c" "c \<le> b" "b \<le> d"
  shows "map S [a..<b] @ drop (b - c) (map S [c..<d]) = map S [a..<d]"
proof -
  have "drop (b - c) [c..<d] = [b..<d]" using assms by (simp add: drop_upt)
  moreover have "[a..<d] = [a..<b] @ [b..<d]"
    using assms upt_add_eq_append [of a b "d - b"] by simp
  ultimately show ?thesis by (simp add: drop_map)
qed

lemma merge_to_ordered:
  assumes a: "node_ok S a" and b: "node_ok S b" and le: "node_lo a \<le> node_lo b"
  shows "(if node_idx a + node_len a \<ge> node_idx b + node_len b then (sint (node_len b), a)
     else if node_idx a + node_len a < node_idx b then (-1, x)
     else let d = node_data a @ drop (unat (node_idx a + node_len a - node_idx b)) (node_data b)
              in (sint (node_idx a + node_len a - node_idx b),
                  \<lparr>node_idx = node_idx a, node_len = of_nat (length d), node_data = d\<rparr>))
   = (if node_hi b \<le> node_hi a then (int (node_hi b - node_lo b), a) else if node_hi a < node_lo b then (-1, x)
      else (int (node_hi a - node_lo b), iv_node S (node_idx a) (node_hi b)))"
proof -
  have h: "node_hi a < 2 ^ 63" "node_hi b < 2 ^ 63" using a b by (auto simp: node_ok_def)
  have e: "unat (node_idx a + node_len a) = node_hi a" "unat (node_idx b + node_len b) = node_hi b"
    using a b node_ok_nat by auto
  have l: "sint (node_len b) = int (node_hi b - node_lo b)"
    using node_ok_nat(1) [OF b] h by (subst sint_small) auto
  show ?thesis
  proof (cases "node_hi b \<le> node_hi a \<or> node_hi a < node_lo b")
    case True
    then show ?thesis using e l by (auto simp: word_nat node_lo_def)
  next
    case False
    then have "unat (node_idx a + node_len a - node_idx b) = node_hi a - node_lo b"
      using e by (subst unat_sub64) (auto simp: node_lo_def)
    moreover from this h have "sint (node_idx a + node_len a - node_idx b) = int (node_hi a - node_lo b)"
      by (subst sint_small) auto
    moreover have "map S [node_lo a..<node_hi a] @ drop (node_hi a - node_lo b) (map S [node_lo b..<node_hi b]) = map S [node_lo a..<node_hi b]"
      using False le by (intro map_upt_glue) auto
    ultimately show ?thesis
      using False e node_ok_nat(3) [OF a] node_ok_nat(3) [OF b]
      by (auto simp: word_nat node_lo_def [symmetric] Let_def iv_node_def)
  qed
qed

lemma node_ok_iv:
  assumes "unat i \<le> b" "b < 2 ^ 63"
  shows "node_ok S (iv_node S i b)" "node_lo (iv_node S i b) = unat i" "node_hi (iv_node S i b) = b"
  using assms by (auto simp: node_ok_def node_lo_def node_hi_def iv_node_def)

lemma merge_to_spec:
  assumes a: "node_ok S a" and b: "node_ok S b"
  shows "if node_touch a b
    then \<exists>m. merge_to a b = (int (node_hi a - node_lo a) + int (node_hi b - node_lo b) - int (node_hi m - node_lo m), m) \<and>
      node_ok S m \<and> node_lo m = min (node_lo a) (node_lo b) \<and> node_hi m = max (node_hi a) (node_hi b) \<and> 0 \<le> fst (merge_to a b)
    else merge_to a b = (-1, a)"
proof (cases "node_idx a \<le> node_idx b")
  case True
  then have le: "node_lo a \<le> node_lo b" by (simp add: node_lo_def word_nat)
  have "merge_to a b = (if node_hi b \<le> node_hi a then (int (node_hi b - node_lo b), a) else if node_hi a < node_lo b then (-1, a)
      else (int (node_hi a - node_lo b), iv_node S (node_idx a) (node_hi b)))"
    using merge_to_ordered [OF a b le, of a] True by (simp add: merge_to_def Let_def)
  moreover have "node_hi b < 2 ^ 63" using b by (simp add: node_ok_def)
  ultimately show ?thesis using le a node_ok_iv [of "node_idx a" "node_hi b" S] lo_le_hi [of b] lo_le_hi [of a]
    by (auto simp: node_touch_def node_lo_def [symmetric] simp del: lo_le_hi)
next
  case False
  then have le: "node_lo b \<le> node_lo a" by (simp add: node_lo_def word_nat)
  have "merge_to a b = (if node_hi a \<le> node_hi b then (int (node_hi a - node_lo a), b) else if node_hi b < node_lo a then (-1, a)
      else (int (node_hi b - node_lo a), iv_node S (node_idx b) (node_hi a)))"
    using merge_to_ordered [OF b a le, of a] False by (simp add: merge_to_def Let_def)
  moreover have "node_hi a < 2 ^ 63" using a by (simp add: node_ok_def)
  ultimately show ?thesis using le b node_ok_iv [of "node_idx b" "node_hi a" S] lo_le_hi [of b] lo_le_hi [of a]
    by (auto simp: node_touch_def node_lo_def [symmetric] simp del: lo_le_hi)
qed

definition node_cover :: "node \<Rightarrow> nat set" where "node_cover n = {node_lo n..<node_hi n}"
definition covered :: "node_set \<Rightarrow> nat set" where "covered ns = (\<Union>n\<in>set ns. node_cover n)"
definition node_span :: "node \<Rightarrow> nat" where "node_span n = node_hi n - node_lo n"
definition node_total :: "node_set \<Rightarrow> nat" where "node_total ns = sum_list (map node_span ns)"
definition node_sep :: "node_set \<Rightarrow> bool" where "node_sep ns = sorted_wrt (\<lambda>x y. node_hi x < node_lo y) ns"

lemma cover_Un_touch:
  assumes "node_touch a b" "node_lo m = min (node_lo a) (node_lo b)" "node_hi m = max (node_hi a) (node_hi b)"
  shows "node_cover m = node_cover a \<union> node_cover b"
  using assms by (auto simp: node_cover_def node_touch_def)

lemma lower_bound_split:
  fixes b :: node
  assumes "node_sep ns"
  defines "it \<equiv> set_lower_bound b ns"
  shows "it \<le> length ns" "\<And>n. n \<in> set (take it ns) \<Longrightarrow> node_lo n < node_lo b"
    "\<And>n. n \<in> set (drop it ns) \<Longrightarrow> node_lo b \<le> node_lo n"
proof -
  let ?P = "\<lambda>n. node_less n b"
  have tk: "take it ns = takeWhile ?P ns" and dr: "drop it ns = dropWhile ?P ns"
    by (simp_all add: it_def set_lower_bound_def takeWhile_eq_take [symmetric] dropWhile_eq_drop [symmetric])
  show "it \<le> length ns" by (simp add: it_def set_lower_bound_def length_takeWhile_le)
  show "node_lo n < node_lo b" if "n \<in> set (take it ns)" for n
    using that unfolding tk by (auto dest: set_takeWhileD simp: node_less_def node_lo_def word_nat)
  show "node_lo b \<le> node_lo n" if "n \<in> set (drop it ns)" for n
  proof (cases "drop it ns")
    case Nil
    then show ?thesis using that by simp
  next
    case (Cons m ms)
    then have m: "node_lo b \<le> node_lo m" unfolding dr
      by (metis hd_dropWhile list.sel(1) list.distinct(1) node_less_def node_lo_def word_less_nat_alt not_less)
    have "node_sep (m # ms)" using assms(1) unfolding node_sep_def Cons [symmetric] by (rule sorted_wrt_drop)
    then have "\<forall>y\<in>set ms. node_hi m < node_lo y" by (simp add: node_sep_def)
    then have "n = m \<or> node_hi m < node_lo n" using that unfolding Cons by auto
    then show ?thesis using m by (metis lo_le_hi le_trans less_imp_le_nat)
  qed
qed

definition absorbs :: "(nat \<Rightarrow> u8) \<Rightarrow> node \<times> u64 \<times> node_set \<Rightarrow> node \<times> u64 \<times> node_set \<Rightarrow> bool" where
  "absorbs S s t \<longleftrightarrow> (case (s, t) of ((b, u, ns), (b', u', ns')) \<Rightarrow>
     node_ok S b' \<and> (\<forall>n\<in>set ns'. node_ok S n) \<and> node_sep ns' \<and> set ns' \<subseteq> set ns \<and>
     node_cover b' \<union> covered ns' = node_cover b \<union> covered ns \<and>
     u' + of_nat (node_span b + node_total ns) = u + of_nat (node_span b' + node_total ns') \<and>
     (\<forall>L H. L \<le> node_lo b \<and> node_hi b \<le> H \<and> (\<forall>n\<in>set ns. L \<le> node_lo n \<and> node_hi n \<le> H) \<longrightarrow> L \<le> node_lo b' \<and> node_hi b' \<le> H))"

lemma absorbs_refl:
  "node_ok S b \<Longrightarrow> (\<forall>n\<in>set ns. node_ok S n) \<Longrightarrow> node_sep ns \<Longrightarrow> absorbs S (b, u, ns) (b, u, ns)"
  by (simp add: absorbs_def)

lemma word_balance_trans:
  fixes a :: u64
  assumes "a' + x = a + y" "a'' + y = a' + z"
  shows "a'' + x = a + z"
proof -
  have "a' = a + y - x" "a'' = a' + z - y" using assms by (simp_all add: eq_diff_eq)
  then show ?thesis by simp
qed

lemma absorbs_trans: "absorbs S s t \<Longrightarrow> absorbs S t v \<Longrightarrow> absorbs S s v"
proof -
  assume st: "absorbs S s t" and tv: "absorbs S t v"
  obtain b u ns b' u' ns' b'' u'' ns'' where e: "s = (b, u, ns)" "t = (b', u', ns')" "v = (b'', u'', ns'')"
    by (metis prod_cases3)
  have "u'' + of_nat (node_span b + node_total ns) = u + of_nat (node_span b'' + node_total ns'')"
  proof -
    have 1: "u' + of_nat (node_span b + node_total ns) = u + of_nat (node_span b' + node_total ns')"
      and 2: "u'' + of_nat (node_span b' + node_total ns') = u' + of_nat (node_span b'' + node_total ns'')"
      using st tv by (auto simp: absorbs_def e)
    show ?thesis using word_balance_trans [OF 1 2] .
  qed
  moreover have "set ns'' \<subseteq> set ns" "node_cover b'' \<union> covered ns'' = node_cover b \<union> covered ns"
    using st tv by (auto simp: absorbs_def e)
  moreover have "L \<le> node_lo b'' \<and> node_hi b'' \<le> H"
    if "L \<le> node_lo b \<and> node_hi b \<le> H \<and> (\<forall>n\<in>set ns. L \<le> node_lo n \<and> node_hi n \<le> H)" for L H
  proof -
    have "L \<le> node_lo b' \<and> node_hi b' \<le> H" "\<forall>n\<in>set ns'. L \<le> node_lo n \<and> node_hi n \<le> H"
      using st that by (auto simp: absorbs_def e)
    then show ?thesis using tv by (auto simp: absorbs_def e)
  qed
  ultimately show ?thesis using tv unfolding absorbs_def e prod.case by blast
qed

lemma set_erase_at_split: "i < length ns \<Longrightarrow> ns = take i ns @ ns ! i # drop (Suc i) ns"
  by (rule id_take_nth_drop)

lemma erase_at_facts:
  assumes "i < length ns" "node_sep ns"
  shows "node_sep (set_erase_at i ns)" "set (set_erase_at i ns) \<subseteq> set ns"
    "set ns = insert (ns ! i) (set (set_erase_at i ns))"
    "node_total ns = node_span (ns ! i) + node_total (set_erase_at i ns)"
    "covered ns = node_cover (ns ! i) \<union> covered (set_erase_at i ns)"
proof -
  have s: "ns = take i ns @ ns ! i # drop (Suc i) ns" using assms(1) by (rule set_erase_at_split)
  have e: "set_erase_at i ns = take i ns @ drop (Suc i) ns" by (simp add: set_erase_at_def)
  show "node_sep (set_erase_at i ns)" using assms(2) unfolding node_sep_def e
    by (subst (asm) s) (auto simp: sorted_wrt_append)
  show st: "set ns = insert (ns ! i) (set (set_erase_at i ns))"
    unfolding e by (subst s) auto
  then show "set (set_erase_at i ns) \<subseteq> set ns" by auto
  show "node_total ns = node_span (ns ! i) + node_total (set_erase_at i ns)"
    unfolding e by (subst s) (simp add: node_total_def)
  show "covered ns = node_cover (ns ! i) \<union> covered (set_erase_at i ns)"
    using st by (auto simp: covered_def)
qed

lemma absorbs_merge:
  assumes ok: "node_ok S b" "\<forall>n\<in>set ns. node_ok S n" "node_sep ns" and i: "i < length ns"
    and m: "merge_to b (ns ! i) = (k, b')" "0 \<le> k"
  shows "absorbs S (b, u, ns) (b', u - of_int k, set_erase_at i ns)" "node_touch b (ns ! i)"
proof -
  note e = erase_at_facts [OF i ok(3)]
  have n: "node_ok S (ns ! i)" using ok(2) i by simp
  show t: "node_touch b (ns ! i)" using merge_to_spec [OF ok(1) n] m by (auto split: if_splits)
  with merge_to_spec [OF ok(1) n] m have b': "node_ok S b'" "node_lo b' = min (node_lo b) (node_lo (ns ! i))"
      "node_hi b' = max (node_hi b) (node_hi (ns ! i))" and k: "k = int (node_span b + node_span (ns ! i)) - int (node_span b')"
    by (auto simp: node_span_def)
  have "(of_int k :: u64) + of_nat (node_span b') = of_nat (node_span b + node_span (ns ! i))" unfolding k by simp
  then have "u - of_int k + of_nat (node_span b + node_total ns) = u + of_nat (node_span b' + node_total (set_erase_at i ns))"
    unfolding e(4) by (simp add: algebra_simps)
  moreover have "node_cover b' = node_cover b \<union> node_cover (ns ! i)" using cover_Un_touch [OF t b'(2,3)] .
  moreover have "ns ! i \<in> set ns" using i by simp
  ultimately show "absorbs S (b, u, ns) (b', u - of_int k, set_erase_at i ns)"
    using b' ok e by (auto simp: absorbs_def)
qed

text \<open>After the first loop no node at or after the block touches it.\<close>

lemma merge_succ_absorbs:
  assumes "node_ok S b" "\<forall>n\<in>set ns. node_ok S n" "node_sep ns"
  shows "absorbs S (b, u, ns) (merge_succ b u ns) \<and>
    (case merge_succ b u ns of (b', u', ns') \<Rightarrow> \<forall>n\<in>set ns'. node_lo b' \<le> node_lo n \<longrightarrow> node_hi b' < node_lo n)"
  using assms
proof (induction b u ns rule: merge_succ.induct)
  case (1 b u ns)
  define it where "it = set_lower_bound b ns"
  note lb = lower_bound_split [OF "1.prems"(3), where b = b, folded it_def]
  show ?case
  proof (cases "it < length ns")
    case False
    then have "merge_succ b u ns = (b, u, ns)" by (simp add: merge_succ.simps it_def Let_def)
    moreover have "\<forall>n\<in>set ns. node_lo n < node_lo b" using lb(1,2) False by simp
    ultimately show ?thesis using absorbs_refl [OF "1.prems"] by auto
  next
    case it: True
    obtain k b' where m: "merge_to b (ns ! it) = (k, b')" by force
    show ?thesis
    proof (cases "0 \<le> k")
      case True
      have eq: "merge_succ b u ns = merge_succ b' (u - of_int k) (set_erase_at it ns)"
        using it m True by (subst merge_succ.simps) (simp add: it_def Let_def)
      have a: "absorbs S (b, u, ns) (b', u - of_int k, set_erase_at it ns)"
        using absorbs_merge [OF "1.prems" it m True] by blast
      then show ?thesis unfolding eq
        using "1.IH" [OF it_def it m [symmetric] refl True] absorbs_trans [OF a]
        by (auto simp: absorbs_def)
    next
      case False
      then have nt: "\<not> node_touch b (ns ! it)" and b': "b' = b"
        using merge_to_spec [of S b "ns ! it"] "1.prems" it m by (auto split: if_splits)
      have eq: "merge_succ b u ns = (b, u, ns)"
        using it m False b' by (simp add: merge_succ.simps it_def Let_def)
      have d: "drop it ns = ns ! it # drop (Suc it) ns" using it by (rule Cons_nth_drop_Suc [symmetric])
      have s: "node_sep (drop it ns)" using "1.prems"(3) unfolding node_sep_def by (rule sorted_wrt_drop)
      have "node_lo b \<le> node_lo (ns ! it)" using lb(3) d by simp
      then have h: "node_hi b < node_lo (ns ! it)"
        using nt le_trans [OF _ lo_le_hi [of "ns ! it"]] by (auto simp: node_touch_def not_le)
      have "\<forall>n\<in>set (drop (Suc it) ns). node_hi (ns ! it) < node_lo n" using s d by (simp add: node_sep_def)
      then have far: "\<forall>n\<in>set (drop it ns). node_hi b < node_lo n"
        using h d by (metis (no_types) less_trans le_less_trans lo_le_hi set_ConsD)
      have "set ns = set (take it ns) \<union> set (drop it ns)"
        by (metis append_take_drop_id set_append)
      then show ?thesis unfolding eq using far lb(2) absorbs_refl [OF "1.prems"] by fastforce
    qed
  qed
qed

text \<open>The second loop keeps that property and establishes its mirror image.\<close>

lemma merge_prev_absorbs:
  assumes "node_ok S b" "\<forall>n\<in>set ns. node_ok S n" "node_sep ns"
    and "\<forall>n\<in>set ns. node_lo b \<le> node_lo n \<longrightarrow> node_hi b < node_lo n"
  shows "absorbs S (b, u, ns) (merge_prev b u ns) \<and>
    (case merge_prev b u ns of (b', u', ns') \<Rightarrow>
       \<forall>n\<in>set ns'. (node_lo b' \<le> node_lo n \<longrightarrow> node_hi b' < node_lo n) \<and> (node_lo n < node_lo b' \<longrightarrow> node_hi n < node_lo b'))"
  using assms
proof (induction b u ns rule: merge_prev.induct)
  case (1 b u ns)
  define it where "it = set_lower_bound b ns"
  note lb = lower_bound_split [OF "1.prems"(3), where b = b, folded it_def]
  have tds: "set ns = set (take it ns) \<union> set (drop it ns)"
    by (metis append_take_drop_id set_append)
  show ?case
  proof (cases "it = 0")
    case True
    then have "merge_prev b u ns = (b, u, ns)" by (simp add: merge_prev.simps it_def Let_def)
    moreover have "\<forall>n\<in>set ns. node_lo b \<le> node_lo n" using lb(3) True by simp
    ultimately show ?thesis using absorbs_refl [OF "1.prems"(1-3)] "1.prems"(4) by auto
  next
    case it: False
    then have i: "it - 1 < length ns" using lb(1) by simp
    obtain k b' where m: "merge_to b (ns ! (it - 1)) = (k, b')" by force
    define p where "p = ns ! (it - 1)"
    have tk: "take it ns = take (it - 1) ns @ [p]"
      using it i by (metis Suc_diff_1 neq0_conv p_def take_Suc_conv_app_nth)
    have "node_sep (take it ns)" using "1.prems"(3) unfolding node_sep_def by (rule sorted_wrt_take)
    then have before: "\<forall>n\<in>set (take (it - 1) ns). node_hi n < node_lo p"
      unfolding tk by (auto simp: node_sep_def sorted_wrt_append)
    have p: "node_lo p < node_lo b" using lb(2) tk by auto
    show ?thesis
    proof (cases "0 \<le> k")
      case True
      have eq: "merge_prev b u ns = merge_prev b' (u - of_int k) (set_erase_at (it - 1) ns)"
        using it m True by (subst merge_prev.simps) (simp add: it_def Let_def)
      note am = absorbs_merge [OF "1.prems"(1-3) i m True]
      then have b': "node_lo b' = node_lo p" "node_hi b' = max (node_hi b) (node_hi p)"
        using merge_to_spec [of S b p] "1.prems" i m p by (auto simp: p_def)
      have after: "\<forall>n\<in>set (drop it ns). node_hi p < node_lo n"
        using "1.prems"(3) append_take_drop_id [of it ns] unfolding tk node_sep_def
        by (metis (no_types, lifting) sorted_wrt_append in_set_conv_decomp)
      have "set (set_erase_at (it - 1) ns) = set (take (it - 1) ns) \<union> set (drop it ns)"
        using it by (simp add: set_erase_at_def)
      moreover have "node_lo n < node_lo p" if "n \<in> set (take (it - 1) ns)" for n
        using before that lo_le_hi [of n] by (metis le_less_trans)
      moreover have "node_hi b < node_lo n" if "n \<in> set (drop it ns)" for n
        using that lb(3) "1.prems"(4) tds by auto
      ultimately have q: "\<forall>n\<in>set (set_erase_at (it - 1) ns). node_lo b' \<le> node_lo n \<longrightarrow> node_hi b' < node_lo n"
        using after b' by fastforce
      then show ?thesis unfolding eq
        using "1.IH" [OF it_def it m [symmetric] refl True] absorbs_trans [OF am(1)] am(1)
        by (auto simp: absorbs_def)
    next
      case False
      then have nt: "\<not> node_touch b p" and b': "b' = b"
        using merge_to_spec [of S b p] "1.prems" i m by (auto simp: p_def split: if_splits)
      have eq: "merge_prev b u ns = (b, u, ns)"
        using it m False b' by (simp add: merge_prev.simps it_def Let_def)
      have hp: "node_hi p < node_lo b" using nt p lo_le_hi [of b] by (auto simp: node_touch_def)
      have "node_hi n < node_lo b" if n: "n \<in> set ns" "node_lo n < node_lo b" for n
      proof -
        have "n \<in> set (take it ns)" using n lb(3) tds by force
        then have "n = p \<or> node_hi n < node_lo p" using before tk by auto
        then show ?thesis using hp p by auto
      qed
      then show ?thesis unfolding eq using absorbs_refl [OF "1.prems"(1-3)] "1.prems"(4) by auto
    qed
  qed
qed

lemma set_insert_facts:
  assumes "node_sep ns" and q: "\<forall>n\<in>set ns. (node_lo b \<le> node_lo n \<longrightarrow> node_hi b < node_lo n) \<and> (node_lo n < node_lo b \<longrightarrow> node_hi n < node_lo b)"
  shows "node_sep (set_insert b ns)" "set (set_insert b ns) = insert b (set ns)"
    "node_total (set_insert b ns) = node_span b + node_total ns"
proof -
  define it where "it = set_lower_bound b ns"
  note lb = lower_bound_split [OF assms(1), where b = b, folded it_def]
  have tds: "set (take it ns) \<subseteq> set ns" "set (drop it ns) \<subseteq> set ns"
    by (simp_all add: set_take_subset set_drop_subset)
  have "node_less b (ns ! it)" if "it < length ns"
  proof -
    have "ns ! it \<in> set (drop it ns)" using that by (metis Cons_nth_drop_Suc list.set_intros(1))
    then have "node_hi b < node_lo (ns ! it)" using lb(3) q tds by auto
    then show ?thesis using le_less_trans [OF lo_le_hi [of b]] by (simp add: node_less_def word_nat node_lo_def)
  qed
  then have eq: "set_insert b ns = take it ns @ [b] @ drop it ns"
    by (auto simp: set_insert_def it_def Let_def)
  have "sorted_wrt (\<lambda>x y. node_hi x < node_lo y) (take it ns)" "sorted_wrt (\<lambda>x y. node_hi x < node_lo y) (drop it ns)"
      "\<forall>x\<in>set (take it ns). \<forall>y\<in>set (drop it ns). node_hi x < node_lo y"
    using assms(1) unfolding node_sep_def by (metis append_take_drop_id sorted_wrt_append)+
  moreover have "\<forall>n\<in>set (take it ns). node_hi n < node_lo b" "\<forall>n\<in>set (drop it ns). node_hi b < node_lo n"
    using lb(2,3) q tds by blast+
  ultimately show "node_sep (set_insert b ns)" unfolding eq node_sep_def by (auto simp: sorted_wrt_append)
  have "set ns = set (take it ns) \<union> set (drop it ns)" by (metis append_take_drop_id set_append)
  then show "set (set_insert b ns) = insert b (set ns)" unfolding eq by auto
  have "node_total ns = node_total (take it ns) + node_total (drop it ns)"
    unfolding node_total_def by (metis append_take_drop_id map_append sum_list_append)
  then show "node_total (set_insert b ns) = node_span b + node_total ns" unfolding eq by (simp add: node_total_def)
qed

lemma store_block_facts:
  assumes b: "node_ok S b" and ns: "\<forall>n\<in>set (ra_data_buffer r). node_ok S n" "node_sep (ra_data_buffer r)"
    and u: "ra_unassembled_bytes r = of_nat (node_total (ra_data_buffer r))"
    and bd: "L \<le> node_lo b" "node_hi b \<le> H" "\<forall>n\<in>set (ra_data_buffer r). L \<le> node_lo n \<and> node_hi n \<le> H"
  obtains ns' where "store_block b r = r\<lparr>ra_data_buffer := ns', ra_unassembled_bytes := of_nat (node_total ns')\<rparr>"
    "\<forall>n\<in>set ns'. node_ok S n \<and> L \<le> node_lo n \<and> node_hi n \<le> H" "node_sep ns'"
    "covered ns' = node_cover b \<union> covered (ra_data_buffer r)"
proof -
  let ?ns = "ra_data_buffer r" and ?u = "ra_unassembled_bytes r + node_len b"
  obtain b1 u1 ns1 where 1: "merge_succ b ?u ?ns = (b1, u1, ns1)" by (metis prod_cases3)
  obtain b2 u2 ns2 where 2: "merge_prev b1 u1 ns1 = (b2, u2, ns2)" by (metis prod_cases3)
  have m1: "absorbs S (b, ?u, ?ns) (b1, u1, ns1)" "\<forall>n\<in>set ns1. node_lo b1 \<le> node_lo n \<longrightarrow> node_hi b1 < node_lo n"
    using merge_succ_absorbs [OF b ns, of ?u] unfolding 1 by auto
  then have ok1: "node_ok S b1" "\<forall>n\<in>set ns1. node_ok S n" "node_sep ns1" by (auto simp: absorbs_def)
  have m2: "absorbs S (b1, u1, ns1) (b2, u2, ns2)"
      "\<forall>n\<in>set ns2. (node_lo b2 \<le> node_lo n \<longrightarrow> node_hi b2 < node_lo n) \<and> (node_lo n < node_lo b2 \<longrightarrow> node_hi n < node_lo b2)"
    using merge_prev_absorbs [OF ok1 m1(2), of u1] unfolding 2 by auto
  have m: "absorbs S (b, ?u, ?ns) (b2, u2, ns2)" using absorbs_trans [OF m1(1) m2(1)] .
  then have ok2: "node_ok S b2" "\<forall>n\<in>set ns2. node_ok S n" "node_sep ns2" "set ns2 \<subseteq> set ?ns"
      "node_cover b2 \<union> covered ns2 = node_cover b \<union> covered ?ns"
      "u2 + of_nat (node_span b + node_total ?ns) = ?u + of_nat (node_span b2 + node_total ns2)"
      "L \<le> node_lo b2 \<and> node_hi b2 \<le> H"
    using bd by (auto simp: absorbs_def)
  note ins = set_insert_facts [OF ok2(3) m2(2)]
  have "node_len b = of_nat (node_span b)" using b by (simp add: node_ok_def node_span_def node_hi_def)
  then have "u2 = of_nat (node_total (set_insert b2 ns2))"
    using ok2(6) unfolding ins(3) u by (simp add: algebra_simps)
  moreover have "\<forall>n\<in>set (set_insert b2 ns2). node_ok S n \<and> L \<le> node_lo n \<and> node_hi n \<le> H"
    unfolding ins(2) using ok2 bd by auto
  moreover have "covered (set_insert b2 ns2) = node_cover b \<union> covered ?ns"
    using ok2(5) ins(2) by (simp add: covered_def)
  ultimately show thesis using ins(1) that [of "set_insert b2 ns2"]
    by (simp add: store_block_def 1 2)
qed

definition out_ok :: "(nat \<Rightarrow> u8) \<Rightarrow> stream_reassembler \<Rightarrow> bool" where
  "out_ok S r \<longleftrightarrow> bs_inv (ra_output r) \<and> bs_capacity (ra_output r) = unat (ra_capacity r) \<and>
     bs_write_bytes (ra_output r) = unat (ra_cur_idx r) \<and>
     bs_contents (ra_output r) = map S [bs_read_bytes (ra_output r)..<unat (ra_cur_idx r)]"

definition ra_max :: "stream_reassembler \<Rightarrow> nat" where
  "ra_max r = bs_read_bytes (ra_output r) + unat (ra_capacity r)"

definition stored_ok :: "(nat \<Rightarrow> u8) \<Rightarrow> nat \<Rightarrow> stream_reassembler \<Rightarrow> bool" where
  "stored_ok S c r \<longleftrightarrow> node_sep (ra_data_buffer r) \<and>
     (\<forall>n\<in>set (ra_data_buffer r). node_ok S n \<and> c \<le> node_lo n \<and> node_hi n \<le> ra_max r) \<and>
     ra_unassembled_bytes r = of_nat (node_total (ra_data_buffer r))"

definition ra_inv :: "(nat \<Rightarrow> u8) \<Rightarrow> stream_reassembler \<Rightarrow> bool" where
  "ra_inv S r \<longleftrightarrow> out_ok S r \<and> stored_ok S (Suc (unat (ra_cur_idx r))) r"

definition received :: "stream_reassembler \<Rightarrow> nat set" where
  "received r = {..<unat (ra_cur_idx r)} \<union> covered (ra_data_buffer r)"

lemma write_ready_facts:
  assumes out: "out_ok S r" and st: "stored_ok S (unat (ra_cur_idx r)) r" and small: "ra_max r < 2 ^ 62"
  obtains r' where "write_ready r = r'" "ra_inv S r'" "received r' = received r"
    "ra_capacity r' = ra_capacity r" "bs_read_bytes (ra_output r') = bs_read_bytes (ra_output r)"
    "ra_input_end_idx r' = ra_input_end_idx r" "bs_input_end (ra_output r') = bs_input_end (ra_output r)"
    "bs_error (ra_output r') = bs_error (ra_output r)"
proof (cases "ra_data_buffer r = [] \<or> node_idx (hd (ra_data_buffer r)) \<noteq> ra_cur_idx r")
  case True
  then have w: "write_ready r = r" by (auto simp: write_ready_def split: list.splits)
  have "Suc (unat (ra_cur_idx r)) \<le> node_lo n" if n: "n \<in> set (ra_data_buffer r)" for n
  proof -
    obtain m ms where ns: "ra_data_buffer r = m # ms" using n by (cases "ra_data_buffer r") auto
    have "node_lo m \<noteq> unat (ra_cur_idx r)" using True ns by (simp add: node_lo_def word_unat_eq_iff)
    then have m: "unat (ra_cur_idx r) < node_lo m" using st ns by (auto simp: stored_ok_def)
    have "n = m \<or> node_hi m < node_lo n" using st n ns by (auto simp: stored_ok_def node_sep_def)
    then show ?thesis using m le_less_trans [OF lo_le_hi [of m], of "node_lo n"] by auto
  qed
  then have "ra_inv S r" using out st by (simp add: ra_inv_def stored_ok_def)
  then show thesis using w that by blast
next
  case False
  then obtain t ts where ns: "ra_data_buffer r = t # ts" and t: "node_lo t = unat (ra_cur_idx r)"
      and ti: "node_idx t = ra_cur_idx r"
    by (cases "ra_data_buffer r") (auto simp: node_lo_def)
  let ?out = "ra_output r" and ?cur = "unat (ra_cur_idx r)"
  have ok: "node_ok S t" "node_hi t \<le> ra_max r" "\<forall>n\<in>set ts. node_hi t < node_lo n" "node_sep ts"
    using st ns by (auto simp: stored_ok_def node_sep_def)
  have rd: "?cur = bs_read_bytes ?out + length (bs_contents ?out)"
    and len: "length (bs_contents ?out) \<le> unat (ra_capacity r)"
    using out by (auto simp: out_ok_def bs_inv_def)
  have k: "fst (bs_write (node_data t) ?out) = node_hi t - ?cur"
    using ok(1,2) rd out t by (auto simp: bs_write_accepted out_ok_def node_ok_def node_hi_def ra_max_def)
  have er: "set_erase t (t # ts) = ts"
  proof -
    have "node_less t n" if "n \<in> set ts" for n
      using ok(3) that le_less_trans [OF lo_le_hi [of t], of "node_lo n"] by (auto simp: node_less_def node_lo_def word_nat)
    then show ?thesis by (auto simp: set_erase_def node_less_def intro!: filter_True)
  qed
  define r' where "r' = r\<lparr>ra_output := snd (bs_write (node_data t) ?out),
     ra_unassembled_bytes := of_nat (node_total ts), ra_cur_idx := of_nat (node_hi t), ra_data_buffer := ts\<rparr>"
  have hb: "node_hi t < 2 ^ 63" using ok(1) by (simp add: node_ok_def)
  have "ra_cur_idx r + of_nat (node_hi t - ?cur) = of_nat (node_hi t)"
  proof -
    have "?cur \<le> node_hi t" using t lo_le_hi [of t] by simp
    then show ?thesis by (simp add: of_nat_diff)
  qed
  moreover have "ra_unassembled_bytes r - of_nat (node_hi t - ?cur) = of_nat (node_total ts)"
    using st ns t by (simp add: stored_ok_def node_total_def node_span_def)
  ultimately have w: "write_ready r = r'"
    using ns ti k er by (simp add: write_ready_def r'_def split_beta Let_def)
  have c': "unat (ra_cur_idx r') = node_hi t" using hb by (simp add: r'_def unat_of_nat64)
  have out': "out_ok S r'"
  proof -
    have "bs_inv (ra_output r')" using out by (simp add: r'_def out_ok_def bs_inv_write)
    moreover have "bs_contents (ra_output r') = map S [bs_read_bytes ?out..<node_hi t]"
      using out ok(1) rd t k lo_le_hi [of t] map_upt_glue [of "bs_read_bytes ?out" ?cur ?cur "node_hi t" S]
      by (auto simp: r'_def out_ok_def node_ok_def)
    ultimately show ?thesis using out c' k t lo_le_hi [of t] by (simp add: out_ok_def r'_def)
  qed
  have "stored_ok S (Suc (node_hi t)) r'"
    using st ns ok by (auto simp: stored_ok_def r'_def ra_max_def Suc_le_eq)
  then have "ra_inv S r'" using out' c' by (simp add: ra_inv_def)
  moreover have "received r' = received r"
    using c' t ns lo_le_hi [of t] by (auto simp: received_def r'_def covered_def node_cover_def)
  ultimately show thesis using that [OF w] by (simp add: r'_def)
qed

section \<open>Insertion of a substring\<close>

lemma ra_inv_bounds:
  assumes "ra_inv S r"
  shows "unat (ra_cur_idx r) = bs_read_bytes (ra_output r) + length (bs_contents (ra_output r))"
    "length (bs_contents (ra_output r)) \<le> unat (ra_capacity r)" "unat (ra_cur_idx r) \<le> ra_max r"
  using assms by (auto simp: ra_inv_def out_ok_def bs_inv_def ra_max_def)

lemma ra_max_idx:
  assumes "ra_inv S r" "ra_max r < 2 ^ 62"
  shows "unat (ra_cur_idx r - of_nat (bs_buffer_size (ra_output r)) + ra_capacity r) = ra_max r"
proof -
  note b = ra_inv_bounds [OF assms(1)]
  have l: "unat (of_nat (length (bs_contents (ra_output r))) :: u64) = length (bs_contents (ra_output r))"
    using b assms(2) by (intro unat_of_nat64) auto
  then have "unat (ra_cur_idx r - of_nat (length (bs_contents (ra_output r)))) = bs_read_bytes (ra_output r)"
    using b by (subst unat_sub64) auto
  then show ?thesis using assms(2) by (simp add: unat_add64 ra_max_def)
qed

lemma clip_facts:
  assumes i: "unat i \<le> M" "unat c \<le> M" "unat (m::u64) = M" "M < 2 ^ 62" "length d < 2 ^ 62"
    and d: "d = map S [unat i..<unat i + length d]" and c: "unat c < unat i + length d"
  obtains b where "clip_left c i (clip_right m (mk_node i d)) = Inr b" "node_ok S b"
    "node_lo b = max (unat i) (unat c)" "node_hi b = min (unat i + length d) M"
proof -
  let ?e = "min (unat i + length d) M"
  have e: "unat i \<le> ?e" "?e < 2 ^ 63" "unat c \<le> ?e" using i c by auto
  have len: "unat (of_nat (length d) :: u64) = length d" using i by (intro unat_of_nat64) auto
  have su: "unat (i + of_nat (length d)) = unat i + length d"
    using i len by (subst unat_add64) auto
  have "clip_right m (mk_node i d) = iv_node S i ?e"
  proof (cases "unat i + length d > M")
    case True
    have "unat (m - i) = M - unat i" using i by (simp add: unat_sub64)
    moreover have "take (M - unat i) d = map S [unat i..<M]"
      using True i(1) by (subst d) (simp add: take_map)
    ultimately show ?thesis using True i su
      by (simp add: clip_right_def mk_node_def iv_node_def word_nat min_def)
  next
    case False
    then show ?thesis using i su d
      by (simp add: clip_right_def mk_node_def iv_node_def word_nat min_def)
  qed
  note cr = this
  show thesis
  proof (cases "unat i < unat c")
    case True
    have o: "unat (c - i) = unat c - unat i" using True by (simp add: unat_sub64)
    have "clip_left c i (iv_node S i ?e) = Inr (iv_node S c ?e)"
      using True e o diff_le_mono [OF e(3), of "unat i"]
      by (simp add: clip_left_def iv_node_def word_nat Let_def drop_map drop_upt not_less
          del: diff_le_mono min_less_iff_conj)
    then show thesis using cr that node_ok_iv [of c ?e S] e True by auto
  next
    case False
    then have "clip_left c i (iv_node S i ?e) = Inr (iv_node S i ?e)"
      by (simp add: clip_left_def iv_node_def word_nat)
    then show thesis using cr that node_ok_iv [of i ?e S] e False by auto
  qed
qed

lemma ra_inv_update [simp]:
  "ra_inv S (r\<lparr>ra_input_end_idx := e\<rparr>) = ra_inv S r"
  "received (r\<lparr>ra_input_end_idx := e\<rparr>) = received r"
  "ra_max (r\<lparr>ra_input_end_idx := e\<rparr>) = ra_max r"
  by (simp_all add: ra_inv_def out_ok_def stored_ok_def received_def ra_max_def)

lemma ra_end_input_frame [simp]:
  "ra_inv S (ra_end_input_if c r) = ra_inv S r"
  "received (ra_end_input_if c r) = received r"
  "ra_max (ra_end_input_if c r) = ra_max r"
  "ra_capacity (ra_end_input_if c r) = ra_capacity r"
  "ra_cur_idx (ra_end_input_if c r) = ra_cur_idx r"
  "ra_input_end_idx (ra_end_input_if c r) = ra_input_end_idx r"
  "ra_unassembled_bytes (ra_end_input_if c r) = ra_unassembled_bytes r"
  "ra_empty (ra_end_input_if c r) = ra_empty r"
  "bs_read_bytes (ra_output (ra_end_input_if c r)) = bs_read_bytes (ra_output r)"
  "bs_error (ra_output (ra_end_input_if c r)) = bs_error (ra_output r)"
  "bs_input_end (ra_output (ra_end_input_if c r)) = (c \<or> bs_input_end (ra_output r))"
  by (auto simp: ra_end_input_if_def ra_inv_def out_ok_def stored_ok_def received_def ra_max_def
      bs_end_input_def bs_inv_def ra_empty_def)

text \<open>
  Storing a clipped block and writing what is ready keeps the invariant and adds exactly the
  block to the received indices.
\<close>

lemma store_write_facts:
  assumes inv: "ra_inv S r" and small: "ra_max r < 2 ^ 62"
    and b: "node_ok S b" "unat (ra_cur_idx r) \<le> node_lo b" "node_hi b \<le> ra_max r"
  obtains r' where "write_ready (store_block b r) = r'" "ra_inv S r'"
    "received r' = received r \<union> node_cover b" "ra_capacity r' = ra_capacity r"
    "bs_read_bytes (ra_output r') = bs_read_bytes (ra_output r)"
    "ra_input_end_idx r' = ra_input_end_idx r"
    "bs_input_end (ra_output r') = bs_input_end (ra_output r)"
    "bs_error (ra_output r') = bs_error (ra_output r)"
proof -
  let ?c = "unat (ra_cur_idx r)"
  have st: "out_ok S r" "stored_ok S (Suc ?c) r" using inv by (auto simp: ra_inv_def)
  then have ns: "\<forall>n\<in>set (ra_data_buffer r). node_ok S n" "node_sep (ra_data_buffer r)"
      "ra_unassembled_bytes r = of_nat (node_total (ra_data_buffer r))"
      "\<forall>n\<in>set (ra_data_buffer r). ?c \<le> node_lo n \<and> node_hi n \<le> ra_max r"
    by (auto simp: stored_ok_def dest: Suc_leD)
  obtain ns' where s: "store_block b r =
        r\<lparr>ra_data_buffer := ns', ra_unassembled_bytes := of_nat (node_total ns')\<rparr>"
      "\<forall>n\<in>set ns'. node_ok S n \<and> ?c \<le> node_lo n \<and> node_hi n \<le> ra_max r" "node_sep ns'"
      "covered ns' = node_cover b \<union> covered (ra_data_buffer r)"
    using store_block_facts [OF b(1) ns(1-3) b(2,3) ns(4)] by metis
  let ?r = "store_block b r"
  have o: "out_ok S ?r" using st(1) by (simp add: s(1) out_ok_def)
  have so: "stored_ok S (unat (ra_cur_idx ?r)) ?r"
    using s(2,3) by (simp add: s(1) stored_ok_def ra_max_def)
  have sm: "ra_max ?r < 2 ^ 62" using small by (simp add: s(1) ra_max_def)
  show thesis
  proof (rule write_ready_facts [OF o so sm])
    fix r'
    assume "write_ready ?r = r'" "ra_inv S r'" "received r' = received ?r"
      "ra_capacity r' = ra_capacity ?r" "bs_read_bytes (ra_output r') = bs_read_bytes (ra_output ?r)"
      "ra_input_end_idx r' = ra_input_end_idx ?r"
      "bs_input_end (ra_output r') = bs_input_end (ra_output ?r)"
      "bs_error (ra_output r') = bs_error (ra_output ?r)"
    then show thesis by (intro that [of r']) (auto simp: s(1) received_def s(4))
  qed
qed

lemma received_Un:
  assumes "{..<unat (ra_cur_idx r)} \<union> A = {..<unat (ra_cur_idx r)} \<union> B"
  shows "received r \<union> A = received r \<union> B"
  using assms unfolding received_def by (metis Un_assoc Un_commute)

text \<open>A substring that reaches past the assembled part is clipped, stored and written out.\<close>

lemma push_far_facts:
  assumes inv: "ra_inv S r" and small: "ra_max r < 2 ^ 62" "length data < 2 ^ 62"
    and le: "unat index \<le> ra_max r" and far: "unat (ra_cur_idx r) < unat index + length data"
    and data: "data = map S [unat index..<unat index + length data]" and m: "unat m = ra_max r"
  obtains b r' where "clip_left (ra_cur_idx r) index (clip_right m (mk_node index data)) = Inr b"
    "write_ready (store_block b r) = r'" "ra_inv S r'"
    "received r' = received r \<union> ({unat index..<unat index + length data} \<inter> {..<ra_max r})"
    "ra_capacity r' = ra_capacity r"
    "bs_read_bytes (ra_output r') = bs_read_bytes (ra_output r)"
    "ra_input_end_idx r' = ra_input_end_idx r"
    "bs_input_end (ra_output r') = bs_input_end (ra_output r)"
    "bs_error (ra_output r') = bs_error (ra_output r)"
proof -
  obtain b where b: "clip_left (ra_cur_idx r) index (clip_right m (mk_node index data)) = Inr b"
      "node_ok S b" "node_lo b = max (unat index) (unat (ra_cur_idx r))"
      "node_hi b = min (unat index + length data) (ra_max r)"
    by (rule clip_facts [OF le ra_inv_bounds(3) [OF inv] m small data far]) (rule that)
  have "{..<unat (ra_cur_idx r)} \<union> node_cover b =
      {..<unat (ra_cur_idx r)} \<union> ({unat index..<unat index + length data} \<inter> {..<ra_max r})"
    unfolding node_cover_def b(3,4) by auto
  note cov = received_Un [OF this]
  have "unat (ra_cur_idx r) \<le> node_lo b" "node_hi b \<le> ra_max r" using b by auto
  from store_write_facts [OF inv small(1) b(2) this] show thesis
    using that [OF b(1)] unfolding cov by blast
qed

text \<open>
  The effect of \<open>push_substring\<close> on a stream of which \<open>S\<close> is the true content: it never runs into
  undefined behaviour, keeps the invariant, and adds to the received indices exactly those of the
  substring that lie inside the window.
\<close>

definition pushed :: "bytes \<Rightarrow> u64 \<Rightarrow> bool \<Rightarrow> stream_reassembler \<Rightarrow> stream_reassembler \<Rightarrow> bool" where
  "pushed data index eof r r' \<longleftrightarrow>
     received r' = received r \<union> ({unat index..<unat index + length data} \<inter> {..<ra_max r}) \<and>
     ra_capacity r' = ra_capacity r \<and>
     bs_read_bytes (ra_output r') = bs_read_bytes (ra_output r) \<and>
     ra_input_end_idx r' = (if eof then index + of_nat (length data) else ra_input_end_idx r) \<and>
     bs_error (ra_output r') = bs_error (ra_output r) \<and>
     (bs_input_end (ra_output r') \<longleftrightarrow> bs_input_end (ra_output r) \<or>
        unat index \<le> ra_max r \<and> ra_unassembled_bytes r' = 0 \<and>
        (ra_input_end_idx r' \<le> ra_cur_idx r' \<or>
         eof \<and> unat (ra_cur_idx r) < unat index + length data))"

lemma push_facts:
  assumes inv: "ra_inv S r" and small: "ra_max r < 2 ^ 62" "length data < 2 ^ 62"
    and data: "unat index \<le> ra_max r \<longrightarrow> data = map S [unat index..<unat index + length data]"
  obtains r' where "push_substring data index eof r = Inr r'" "ra_inv S r'" "pushed data index eof r r'"
proof -
  define r1 where "r1 = (if eof then r\<lparr>ra_input_end_idx := index + of_nat (length data)\<rparr> else r)"
  define m where "m = ra_cur_idx r1 - of_nat (bs_buffer_size (ra_output r1)) + ra_capacity r1"
  have r1: "ra_inv S r1" "received r1 = received r" "ra_max r1 = ra_max r" "ra_capacity r1 = ra_capacity r"
      "ra_cur_idx r1 = ra_cur_idx r" "ra_output r1 = ra_output r"
      "ra_unassembled_bytes r1 = ra_unassembled_bytes r"
      "ra_input_end_idx r1 = (if eof then index + of_nat (length data) else ra_input_end_idx r)"
    using inv by (simp_all add: r1_def)
  have m: "unat m = ra_max r1" unfolding m_def using ra_max_idx [OF r1(1)] small r1(3) by simp
  have p: "push_substring data index eof r = (if index > m then Inr r1
      else if index + of_nat (length data) \<le> ra_cur_idx r1
      then Inr (ra_end_input_if (ra_cur_idx r1 \<ge> ra_input_end_idx r1 \<and> ra_empty r1) r1)
      else bindE (clip_left (ra_cur_idx r1) index (clip_right m (mk_node index data)))
             (\<lambda>block. let r1 = write_ready (store_block block r1);
                       r2 = ra_end_input_if (ra_cur_idx r1 \<ge> ra_input_end_idx r1 \<and> ra_empty r1) r1
                   in Inr (ra_end_input_if (eof \<and> ra_empty r2) r2)))"
    unfolding push_substring_def m_def r1_def Let_def ..
  have su: "unat (index + of_nat (length data)) = unat index + length data" if "unat index \<le> ra_max r1"
    using small that r1(3) by (subst unat_add64) (auto simp: unat_of_nat64)
  consider "ra_max r1 < unat index"
    | "unat index \<le> ra_max r1" "unat index + length data \<le> unat (ra_cur_idx r1)"
    | "unat index \<le> ra_max r1" "unat (ra_cur_idx r1) < unat index + length data" by linarith
  then show thesis
  proof cases
    case 1
    then have "push_substring data index eof r = Inr r1" using p m by (simp add: word_nat)
    then show thesis using 1 r1 by (intro that [of r1]) (auto simp: pushed_def)
  next
    case 2
    let ?r' = "ra_end_input_if (ra_cur_idx r1 \<ge> ra_input_end_idx r1 \<and> ra_empty r1) r1"
    have "push_substring data index eof r = Inr ?r'" using p m su 2 by (simp add: word_nat)
    moreover have "received r = received r \<union> ({unat index..<unat index + length data} \<inter> {..<ra_max r})"
      using 2 r1(5) by (auto simp: received_def)
    ultimately show thesis using 2 r1 by (intro that [of ?r']) (auto simp: pushed_def ra_empty_def)
  next
    case 3
    have d: "data = map S [unat index..<unat index + length data]" using data 3 r1(3) by metis
    have sm: "ra_max r1 < 2 ^ 62" using small r1(3) by simp
    obtain b r2 where w: "clip_left (ra_cur_idx r1) index (clip_right m (mk_node index data)) = Inr b"
        "write_ready (store_block b r1) = r2" "ra_inv S r2"
        "received r2 = received r1 \<union> ({unat index..<unat index + length data} \<inter> {..<ra_max r1})"
        "ra_capacity r2 = ra_capacity r1"
        "bs_read_bytes (ra_output r2) = bs_read_bytes (ra_output r1)"
        "ra_input_end_idx r2 = ra_input_end_idx r1"
        "bs_input_end (ra_output r2) = bs_input_end (ra_output r1)"
        "bs_error (ra_output r2) = bs_error (ra_output r1)"
      by (rule push_far_facts [OF r1(1) sm small(2) 3 d m]) (rule that)
    define r3 where "r3 = ra_end_input_if (ra_cur_idx r2 \<ge> ra_input_end_idx r2 \<and> ra_empty r2) r2"
    have "push_substring data index eof r = Inr (ra_end_input_if (eof \<and> ra_empty r3) r3)"
      using p m su 3 w(1,2) by (simp add: word_nat Let_def r3_def)
    then show thesis
      using w(3-) r1(2-) 3 by (intro that [of "ra_end_input_if (eof \<and> ra_empty r3) r3"])
        (auto simp: pushed_def r3_def ra_empty_def)
  qed
qed

section \<open>Accounting and reads\<close>

lemma finite_covered [simp]: "finite (covered ns)"
  by (simp add: covered_def node_cover_def)

lemma card_covered:
  assumes "node_sep ns"
  shows "card (covered ns) = node_total ns"
  using assms
proof (induction ns)
  case Nil
  then show ?case by (simp add: covered_def node_total_def)
next
  case (Cons n ns)
  have "node_cover n \<inter> covered ns = {}"
    using Cons.prems by (fastforce simp: node_sep_def covered_def node_cover_def)
  then have "card (node_cover n \<union> covered ns) = card (node_cover n) + card (covered ns)"
    by (simp add: card_Un_disjoint node_cover_def)
  with Cons show ?case
    by (simp add: covered_def node_total_def node_sep_def node_cover_def node_span_def)
qed

lemma ra_inv_stored:
  assumes "ra_inv S r" "ra_max r < 2 ^ 62"
  shows "covered (ra_data_buffer r) = received r - {..<unat (ra_cur_idx r)}"
    "unat (ra_cur_idx r) \<notin> received r" "received r \<subseteq> {..<ra_max r}"
    "unat (ra_unassembled_bytes r) = card (received r - {..<unat (ra_cur_idx r)})"
proof -
  have st: "stored_ok S (Suc (unat (ra_cur_idx r))) r" using assms(1) by (simp add: ra_inv_def)
  then have gt: "\<forall>i\<in>covered (ra_data_buffer r). unat (ra_cur_idx r) < i \<and> i < ra_max r"
    by (fastforce simp: stored_ok_def covered_def node_cover_def)
  then show c: "covered (ra_data_buffer r) = received r - {..<unat (ra_cur_idx r)}"
    by (force simp: received_def)
  show "unat (ra_cur_idx r) \<notin> received r" using gt by (auto simp: received_def)
  show "received r \<subseteq> {..<ra_max r}"
    using gt ra_inv_bounds(3) [OF assms(1)] by (auto simp: received_def)
  have t: "node_total (ra_data_buffer r) = card (covered (ra_data_buffer r))"
    using st card_covered by (simp add: stored_ok_def)
  also have "\<dots> \<le> card {..<ra_max r}" using gt by (intro card_mono) auto
  finally have "node_total (ra_data_buffer r) < 2 ^ 64" using assms(2) by simp
  then show "unat (ra_unassembled_bytes r) = card (received r - {..<unat (ra_cur_idx r)})"
    using st t c by (simp add: stored_ok_def unat_of_nat64)
qed

lemma ra_unassembled_zero:
  assumes "ra_inv S r" "ra_max r < 2 ^ 62"
  shows "ra_unassembled_bytes r = 0 \<longleftrightarrow> received r = {..<unat (ra_cur_idx r)}"
proof -
  have "ra_unassembled_bytes r = 0 \<longleftrightarrow> received r - {..<unat (ra_cur_idx r)} = {}"
    using ra_inv_stored(1,4) [OF assms] finite_covered [of "ra_data_buffer r"]
    by (metis card_eq_0_iff unat_eq_zero)
  also have "\<dots> \<longleftrightarrow> received r = {..<unat (ra_cur_idx r)}" by (auto simp: received_def)
  finally show ?thesis .
qed

text \<open>The first index not yet received is the next one to be written.\<close>

lemma ra_cur_idx_mex:
  assumes "ra_inv S r" "ra_max r < 2 ^ 62"
  shows "unat (ra_cur_idx r) = (LEAST i. i \<notin> received r)"
  using ra_inv_stored(2) [OF assms]
  by (intro Least_equality [symmetric]) (auto simp: received_def not_less [symmetric])

lemma ra_inv_new [simp]: "ra_inv S (ra_new c)" "received (ra_new c) = {}" "ra_max (ra_new c) = unat c"
  by (simp_all add: ra_inv_def out_ok_def stored_ok_def ra_new_def received_def covered_def
      node_sep_def node_total_def ra_max_def) (simp_all add: bs_new_def bs_contents_def)

lemma ra_inv_read:
  assumes "ra_inv S r" "bs_read n (ra_output r) = Inr (d, s)"
  shows "ra_inv S (r\<lparr>ra_output := s\<rparr>)" "received (r\<lparr>ra_output := s\<rparr>) = received r"
    "d = map S [bs_read_bytes (ra_output r)..<bs_read_bytes s]"
proof -
  note rd = bs_read_Inr [OF assms(2)]
  have out: "bs_contents (ra_output r) = map S [bs_read_bytes (ra_output r)..<unat (ra_cur_idx r)]"
    using assms(1) by (simp add: ra_inv_def out_ok_def)
  have len: "bs_read_bytes (ra_output r) \<le> unat (ra_cur_idx r)"
    using ra_inv_bounds(1) [OF assms(1)] by simp
  show "d = map S [bs_read_bytes (ra_output r)..<bs_read_bytes s]"
    using len unfolding rd(1,7) out by (simp add: take_map min_def)
  have "bs_contents s = map S [bs_read_bytes s..<unat (ra_cur_idx r)]"
    using len unfolding rd(2,7) out by (simp add: drop_map drop_upt min_def)
  then have "out_ok S (r\<lparr>ra_output := s\<rparr>)"
    using assms(1) rd bs_inv_read [OF assms(2)] by (simp add: ra_inv_def out_ok_def)
  moreover have "ra_max r \<le> ra_max (r\<lparr>ra_output := s\<rparr>)" using rd(7) by (simp add: ra_max_def)
  ultimately show "ra_inv S (r\<lparr>ra_output := s\<rparr>)"
    using assms(1) by (auto simp: ra_inv_def stored_ok_def)
  show "received (r\<lparr>ra_output := s\<rparr>) = received r" by (simp add: received_def)
qed

section \<open>End of input\<close>

text \<open>
  \<open>ra_end_ok N r\<close>: the stream has \<open>N\<close> bytes, and the output is closed exactly when the end is known
  and everything before it has been written.
\<close>

definition ra_end_ok :: "nat \<Rightarrow> stream_reassembler \<Rightarrow> bool" where
  "ra_end_ok N r \<longleftrightarrow> received r \<subseteq> {..<N} \<and>
     (ra_input_end_idx r = of_nat N \<or> ra_input_end_idx r = 2147483647) \<and>
     (bs_input_end (ra_output r) \<longleftrightarrow>
        ra_input_end_idx r = of_nat N \<and> unat (ra_cur_idx r) = N)"

lemma ra_end_ok_new: "ra_end_ok N (ra_new c)" if "N < 2147483647"
proof -
  have "(2147483647::u64) \<noteq> of_nat N"
  proof
    assume "(2147483647::u64) = of_nat N"
    then have "unat (2147483647::u64) = unat (of_nat N :: u64)" by (rule arg_cong)
    then show False using that by (simp add: unat_of_nat64)
  qed
  then show ?thesis
    by (auto simp: ra_end_ok_def received_def covered_def ra_new_def bs_new_def)
qed

lemma received_prefix:
  assumes "ra_inv S r'" "ra_max r' < 2 ^ 62" "received r \<subseteq> received r'"
  shows "unat (ra_cur_idx r) \<le> unat (ra_cur_idx r')"
proof (rule ccontr)
  assume "\<not> ?thesis"
  then have "unat (ra_cur_idx r') \<in> received r" by (auto simp: received_def)
  then show False using assms ra_inv_stored(2) [OF assms(1,2)] by blast
qed

lemma end_reached:
  assumes "ra_inv S r" "ra_max r < 2 ^ 62" "received r \<subseteq> {..<N}" "N < 2147483647"
  shows "unat (ra_cur_idx r) \<le> N" "unat (ra_cur_idx r) = N \<longrightarrow> ra_unassembled_bytes r = 0"
    "of_nat N \<le> ra_cur_idx r \<longleftrightarrow> unat (ra_cur_idx r) = N"
    "\<not> (2147483647 :: u64) \<le> ra_cur_idx r"
proof -
  show le: "unat (ra_cur_idx r) \<le> N" using assms(3) by (auto simp: received_def)
  show "unat (ra_cur_idx r) = N \<longrightarrow> ra_unassembled_bytes r = 0"
    using ra_unassembled_zero [OF assms(1,2)] assms(3) by (auto simp: received_def)
  have "unat (of_nat N :: u64) = N" using assms(4) by (simp add: unat_of_nat64)
  then show "of_nat N \<le> ra_cur_idx r \<longleftrightarrow> unat (ra_cur_idx r) = N"
    using le by (auto simp: word_le_nat_alt)
  show "\<not> (2147483647 :: u64) \<le> ra_cur_idx r" using le assms(4) by (simp add: word_le_nat_alt)
qed

lemma end_detected_eof:
  assumes inv: "ra_inv S r'" "ra_max r' < 2 ^ 62" and ok: "ra_end_ok N r" and N: "N < 2147483647"
    and push: "pushed data index True r r'"
    and eof: "unat index + length data = N" "data \<noteq> []" "N \<le> ra_max r"
  shows "ra_end_ok N r'"
proof -
  let ?c' = "unat (ra_cur_idx r')"
  have rec: "received r' = received r \<union> ({unat index..<N} \<inter> {..<ra_max r})"
    using push eof(1) by (simp add: pushed_def)
  then have sub: "received r' \<subseteq> {..<N}" using ok by (auto simp: ra_end_ok_def)
  note e = end_reached [OF inv sub N]
  have "index + of_nat (length data) = of_nat (unat index + length data)" by simp
  then have end': "ra_input_end_idx r' = of_nat N" using push eof(1) by (simp add: pushed_def)
  have all: "?c' = N" if "ra_unassembled_bytes r' = 0"
  proof -
    have "0 < length data" using eof(2) by simp
    then have "unat index \<le> N - 1" "N - 1 < N" using eof(1) by linarith+
    then have "N - 1 \<in> received r'" unfolding rec using eof(3) by simp
    then show ?thesis using ra_unassembled_zero [OF inv] that e(1) by auto
  qed
  have "?c' = N" if "bs_input_end (ra_output r)"
    using ok that e(1) received_prefix [OF inv, of r] rec by (simp add: ra_end_ok_def)
  moreover have "bs_input_end (ra_output r') \<longleftrightarrow> bs_input_end (ra_output r) \<or>
      ra_unassembled_bytes r' = 0 \<and> (of_nat N \<le> ra_cur_idx r' \<or> unat (ra_cur_idx r) < N)"
    using push eof(1,3) end' by (simp add: pushed_def)
  ultimately have "bs_input_end (ra_output r') \<longleftrightarrow> ?c' = N" using all e(2,3) by metis
  then show ?thesis using sub end' unfolding ra_end_ok_def by blast
qed

lemma end_detected_more:
  assumes inv: "ra_inv S r" "ra_max r < 2 ^ 62" "ra_inv S r'" "ra_max r' < 2 ^ 62"
    and ok: "ra_end_ok N r" and N: "N < 2147483647"
    and push: "pushed data index False r r'" and data: "unat index + length data \<le> N"
  shows "ra_end_ok N r'"
proof -
  let ?c = "unat (ra_cur_idx r)" and ?c' = "unat (ra_cur_idx r')"
  have sub: "received r' \<subseteq> {..<N}" using ok data push by (auto simp: ra_end_ok_def pushed_def)
  note e = end_reached [OF inv(3,4) sub N]
  have cc': "?c \<le> ?c'" using received_prefix [OF inv(3,4), of r] push by (simp add: pushed_def)
  have end': "ra_input_end_idx r' = ra_input_end_idx r" using push by (simp add: pushed_def)
  have idx_le: "unat index \<le> ra_max r" if "?c' = N" "?c \<noteq> N"
  proof (rule ccontr)
    assume "\<not> unat index \<le> ra_max r"
    then have "received r' \<subseteq> received r" using push by (auto simp: pushed_def)
    then show False using received_prefix [OF inv(1,2), of r'] that cc' by simp
  qed
  have p: "bs_input_end (ra_output r') \<longleftrightarrow> bs_input_end (ra_output r) \<or>
      unat index \<le> ra_max r \<and> ra_unassembled_bytes r' = 0 \<and> ra_input_end_idx r \<le> ra_cur_idx r'"
    using push by (simp add: pushed_def)
  have "bs_input_end (ra_output r') \<longleftrightarrow> ra_input_end_idx r = of_nat N \<and> ?c' = N"
  proof (cases "ra_input_end_idx r = of_nat N")
    case True
    have "bs_input_end (ra_output r) \<longleftrightarrow> ?c = N" using ok True by (simp add: ra_end_ok_def)
    moreover have "?c' = N" if "?c = N" using that cc' e(1) by simp
    ultimately show ?thesis using p True e(2,3) idx_le by metis
  next
    case False
    then have "ra_input_end_idx r = 2147483647" "\<not> bs_input_end (ra_output r)"
      using ok by (auto simp: ra_end_ok_def)
    then show ?thesis using p False e(4) by metis
  qed
  then show ?thesis using sub end' ok unfolding ra_end_ok_def by metis
qed

section \<open>Runs of a reassembler\<close>

text \<open>Any interleaving of pushes with reads of the reassembled stream; the bytes read are collected.\<close>

datatype ra_op = Push bytes u64 bool | Fetch nat

fun ra_run :: "ra_op list \<Rightarrow> stream_reassembler \<Rightarrow> exn + bytes \<times> stream_reassembler" where
  "ra_run [] r = Inr ([], r)"
| "ra_run (Push data index eof # ops) r = bindE (push_substring data index eof r) (ra_run ops)"
| "ra_run (Fetch n # ops) r =
     bindE (bs_read n (ra_output r)) (\<lambda>(d, s).
       bindE (ra_run ops (r\<lparr>ra_output := s\<rparr>)) (\<lambda>(out, r'). Inr (d @ out, r')))"

text \<open>A push carries the bytes of the stream \<open>S\<close> at its index.\<close>

fun op_of :: "(nat \<Rightarrow> u8) \<Rightarrow> ra_op \<Rightarrow> bool" where
  "op_of S (Push data index eof) \<longleftrightarrow>
     length data < 2 ^ 62 \<and> data = map S [unat index..<unat index + length data]"
| "op_of S (Fetch n) \<longleftrightarrow> True"

fun op_fetch :: "ra_op \<Rightarrow> nat" where
  "op_fetch (Push data index eof) = 0"
| "op_fetch (Fetch n) = n"

lemma ra_run_facts:
  assumes "ra_inv S r" "\<forall>op\<in>set ops. op_of S op"
    and "ra_max r + sum_list (map op_fetch ops) < 2 ^ 62"
  shows "\<exists>r'. ra_run ops r = Inr (map S [bs_read_bytes (ra_output r)..<bs_read_bytes (ra_output r')], r') \<and>
    ra_inv S r' \<and> bs_read_bytes (ra_output r) \<le> bs_read_bytes (ra_output r') \<and>
    received r \<subseteq> received r' \<and> ra_capacity r' = ra_capacity r \<and> ra_max r' < 2 ^ 62"
  using assms
proof (induction ops arbitrary: r)
  case Nil
  then show ?case by simp
next
  case (Cons op ops)
  show ?case
  proof (cases op)
    case (Push data index eof)
    have small: "ra_max r < 2 ^ 62" "length data < 2 ^ 62" using Cons.prems Push by auto
    obtain r1 where r1: "push_substring data index eof r = Inr r1" "ra_inv S r1"
        "pushed data index eof r r1"
      by (rule push_facts [OF Cons.prems(1) small, of index eof]) (use Cons.prems(2) Push in simp, rule that)
    have m: "ra_max r1 + sum_list (map op_fetch ops) < 2 ^ 62"
      using r1 Cons.prems(3) Push by (simp add: ra_max_def pushed_def)
    have "\<forall>op\<in>set ops. op_of S op" using Cons.prems(2) by simp
    from Cons.IH [OF r1(2) this m] r1 Push show ?thesis by (auto simp: pushed_def)
  next
    case (Fetch n)
    obtain d s where rd: "bs_read n (ra_output r) = Inr (d, s)"
      by (rule bs_read_cases [of n "ra_output r"]) auto
    note i = ra_inv_read [OF Cons.prems(1) rd]
    have mono: "bs_read_bytes (ra_output r) \<le> bs_read_bytes s" "bs_read_bytes s \<le> bs_read_bytes (ra_output r) + n"
      using bs_read_Inr(7) [OF rd] by auto
    then have "ra_max (r\<lparr>ra_output := s\<rparr>) + sum_list (map op_fetch ops) < 2 ^ 62"
      using Cons.prems(3) Fetch by (simp add: ra_max_def)
    from Cons.IH [OF i(1) _ this] Cons.prems(2) obtain r' where
      r': "ra_run ops (r\<lparr>ra_output := s\<rparr>) = Inr (map S [bs_read_bytes s..<bs_read_bytes (ra_output r')], r')"
        "ra_inv S r'" "bs_read_bytes s \<le> bs_read_bytes (ra_output r')" "received r \<subseteq> received r'"
        "ra_capacity r' = ra_capacity r" "ra_max r' < 2 ^ 62"
      using i(2) by auto
    have "map S [bs_read_bytes (ra_output r)..<bs_read_bytes (ra_output r')] =
        d @ map S [bs_read_bytes s..<bs_read_bytes (ra_output r')]"
      using map_upt_glue [of "bs_read_bytes (ra_output r)" "bs_read_bytes s" "bs_read_bytes s"
          "bs_read_bytes (ra_output r')" S] mono r'(3) i(3) by simp
    then show ?thesis using r' rd mono Fetch by auto
  qed
qed

section \<open>Properties\<close>

text \<open>
  (C11) Whatever substrings of a stream \<open>S\<close> arrive, in whatever order, with whatever overlaps and
  repetitions, and however the reads are interleaved with the arrivals, the reassembler runs without
  error and the bytes the reader has obtained are exactly the first bytes of \<open>S\<close>.
\<close>

theorem reassembler_delivers_prefix:
  assumes "\<forall>op\<in>set ops. op_of S op" "unat capacity + sum_list (map op_fetch ops) < 2 ^ 62"
  shows "\<exists>r. ra_run ops (ra_new capacity) = Inr (map S [0..<bs_bytes_read (ra_output r)], r) \<and>
    bs_contents (ra_output r) = map S [bs_bytes_read (ra_output r)..<unat (ra_cur_idx r)]"
  using ra_run_facts [OF ra_inv_new(1) assms(1), of capacity] assms(2)
  by (auto simp: ra_new_def bs_new_def bs_bytes_read_def ra_inv_def out_ok_def ra_max_def)

theorem reassembler_delivers_prefix_witness:
  "\<exists>r. ra_run [Push [12, 13] 2 False, Push [11, 12] 1 False, Push [10] 0 True, Fetch 3] (ra_new 4) =
     Inr (map (\<lambda>i. of_nat (10 + i)) [0..<bs_bytes_read (ra_output r)], r)"
proof -
  let ?ops = "[Push [12, 13] 2 False, Push [11, 12] 1 False, Push [10] 0 True, Fetch 3]"
  have ok: "\<forall>op\<in>set ?ops. op_of (\<lambda>i. of_nat (10 + i)) op" by simp
  have small: "unat (4::u64) + sum_list (map op_fetch ?ops) < 2 ^ 62" by simp
  show ?thesis using reassembler_delivers_prefix [OF ok small] by blast
qed

text \<open>
  (C24) Refinement of one insertion: seen as the set of stream indices received so far,
  \<open>push_substring\<close> adds the indices of the substring that lie in the window and nothing else, without
  undefined behaviour; it keeps the class invariant, the capacity and the reader's position.
\<close>

theorem push_substring_refines:
  assumes "ra_inv S r" "ra_max r < 2 ^ 62" "length data < 2 ^ 62"
    and "unat index \<le> ra_max r \<longrightarrow> data = map S [unat index..<unat index + length data]"
  shows "\<exists>r'. push_substring data index eof r = Inr r' \<and> ra_inv S r' \<and>
    received r' = received r \<union> ({unat index..<unat index + length data} \<inter> {..<ra_max r}) \<and>
    ra_capacity r' = ra_capacity r \<and> bs_read_bytes (ra_output r') = bs_read_bytes (ra_output r)"
  by (rule push_facts [OF assms, of eof]) (auto simp: pushed_def)

theorem push_substring_refines_witness:
  "\<exists>r'. push_substring [7, 7, 7] 2 False (ra_new 4) = Inr r' \<and> received r' = {2..<5} \<inter> {..<4}"
  using push_substring_refines [of "\<lambda>i. 7" "ra_new 4" "[7, 7, 7]" 2 False]
  by auto

text \<open>
  After any such run, \<open>unassembled_bytes\<close> is the number of received bytes beyond the assembled
  part (overlaps counted once), \<open>cur_idx\<close> is the least index not received, and nothing is stored at or
  beyond the right edge of the window.
\<close>

theorem reassembler_accounting:
  assumes "\<forall>op\<in>set ops. op_of S op" "unat capacity + sum_list (map op_fetch ops) < 2 ^ 62"
    and "ra_run ops (ra_new capacity) = Inr (out, r)"
  shows "unat (ra_unassembled r) = card (received r - {..<unat (ra_cur_idx r)}) \<and>
    unat (ra_cur_idx r) = (LEAST i. i \<notin> received r) \<and>
    received r \<subseteq> {..<bs_bytes_read (ra_output r) + unat capacity}"
proof -
  have "ra_capacity (ra_new capacity) = capacity" by (simp add: ra_new_def)
  then have inv: "ra_inv S r" "ra_max r < 2 ^ 62" "ra_capacity r = capacity"
    using ra_run_facts [OF ra_inv_new(1) assms(1), of capacity] assms(2,3) by auto
  then show ?thesis
    using ra_inv_stored(3,4) [OF inv(1,2)] ra_cur_idx_mex [OF inv(1,2)]
    by (simp add: ra_unassembled_def ra_max_def bs_bytes_read_def)
qed

theorem reassembler_accounting_witness:
  "\<exists>r. ra_run [Push [7, 7] 2 False, Push [7, 7] 1 False] (ra_new 8) = Inr ([], r) \<and>
     ra_unassembled r = 3 \<and> card (received r - {..<unat (ra_cur_idx r)}) = 3"
proof -
  define r where "r = snd (projr (ra_run [Push [7, 7] 2 False, Push [7, 7] 1 False] (ra_new 8)))"
  have run: "ra_run [Push [7, 7] 2 False, Push [7, 7] 1 False] (ra_new 8) = Inr ([], r)"
    and u: "ra_unassembled r = 3" unfolding r_def by code_simp+
  have "unat (ra_unassembled r) = card (received r - {..<unat (ra_cur_idx r)})"
    using reassembler_accounting [OF _ _ run, of "\<lambda>i. 7"] by simp
  with run u show ?thesis by auto
qed

text \<open>
  The end of the stream is detected exactly: for a stream of \<open>N\<close> bytes, if the substring that
  carries the end marker is not empty and lies in the window, the output stream is closed when and
  only when the marker has been seen and all \<open>N\<close> bytes have been written to it.
\<close>

theorem reassembler_end_exact:
  assumes "ra_inv S r" "ra_max r < 2 ^ 62" "ra_end_ok N r" "N < 2147483647"
    and "data = map S [unat index..<unat index + length data]" "unat index + length data \<le> N"
    and "eof \<longrightarrow> unat index + length data = N \<and> data \<noteq> [] \<and> N \<le> ra_max r"
    and "push_substring data index eof r = Inr r'"
  shows "ra_end_ok N r'"
proof -
  have len: "length data < 2 ^ 62" using assms(4,6) by simp
  have p: "ra_inv S r'" "pushed data index eof r r'"
    by (rule push_facts [OF assms(1,2) len, of index eof]; use assms(5,8) in simp)+
  then have m: "ra_max r' < 2 ^ 62" using assms(2) by (simp add: pushed_def ra_max_def)
  show ?thesis
  proof (cases eof)
    case True
    then show ?thesis using end_detected_eof [OF p(1) m assms(3,4)] p(2) assms(7) by simp
  next
    case False
    then show ?thesis using end_detected_more [OF assms(1,2) p(1) m assms(3,4)] p(2) assms(6) by simp
  qed
qed

theorem reassembler_end_exact_witness:
  "\<exists>r. push_substring [7, 7] 0 True (ra_new 4) = Inr r \<and> ra_end_ok 2 r"
proof -
  define r where "r = projr (push_substring [7, 7] 0 True (ra_new 4))"
  have "push_substring [7, 7] 0 True (ra_new 4) = Inr r" unfolding r_def by code_simp
  then show ?thesis
    using reassembler_end_exact [of "\<lambda>i. 7" "ra_new 4" 2 "[7, 7]" 0 True r] ra_end_ok_new [of 2 4]
    by auto
qed

lemmas push_eval = push_substring_def ra_new_def bs_new_def bs_contents_def bl_size_def
  clip_right_def clip_left_def mk_node_def store_block_def merge_succ.simps merge_prev.simps
  set_lower_bound_def set_insert_def set_erase_def node_less_def write_ready_def bs_write_def
  ra_end_input_if_def ra_empty_def bs_eof_def bs_input_ended_def bs_end_input_def ra_input_ended_def


end
