(* ===== verification/Receiver.thy ===== *)
theory Receiver
  imports Reassembler Tcp_Segments
begin

text \<open>
  Model of \<open>tcp_receiver.hh\<close> and \<open>tcp_receiver.cc\<close>: the receiver turns the sequence number of an
  inbound segment into a stream index, hands the payload to the reassembler and computes the
  acknowledgment number and the window.
\<close>

section \<open>State and operations\<close>

record tcp_receiver =
  rc_reassembler :: stream_reassembler
  rc_syn :: bool
  rc_fin :: bool
  rc_isn :: u64
  rc_rcv_base :: u64
  rc_capacity :: u64

definition rc_new :: "u64 \<Rightarrow> tcp_receiver" where
  "rc_new capacity = \<lparr>rc_reassembler = ra_new capacity, rc_syn = False, rc_fin = False, rc_isn = 0,
     rc_rcv_base = 0, rc_capacity = capacity\<rparr>"

definition rc_stream_out :: "tcp_receiver \<Rightarrow> byte_stream" where
  "rc_stream_out r = ra_output (rc_reassembler r)"

definition rc_unassembled_bytes :: "tcp_receiver \<Rightarrow> u64" where
  "rc_unassembled_bytes r = ra_unassembled (rc_reassembler r)"

text \<open>The part of \<open>segment_received\<close> after the early returns.\<close>

definition rc_push :: "tcp_segment \<Rightarrow> tcp_receiver \<Rightarrow> exn + tcp_receiver" where
  "rc_push seg r =
     (let abs_seqno = (if th_syn (seg_header seg) then 1
                       else unwrap (th_seqno (seg_header seg)) (ucast (rc_isn r))
                              (ra_cur_idx (rc_reassembler r)));
          stream_index = abs_seqno - 1;
          data = buf_copy (seg_payload seg)
      in bindE (push_substring data stream_index (th_fin (seg_header seg)) (rc_reassembler r)) (\<lambda>ra.
           let rcv_base = ra_cur_idx ra + 1
           in Inr (r\<lparr>rc_reassembler := ra,
                rc_rcv_base := (if ra_input_ended ra \<and> rc_fin r then rcv_base + 1 else rcv_base)\<rparr>)))"

definition rc_segment_received :: "tcp_segment \<Rightarrow> tcp_receiver \<Rightarrow> exn + tcp_receiver" where
  "rc_segment_received seg r =
     (if \<not> th_syn (seg_header seg) \<and> \<not> rc_syn r then Inr r
      else if th_syn (seg_header seg) \<and> rc_syn r then Inr r
      else
        let r = (if th_syn (seg_header seg)
                 then r\<lparr>rc_syn := True, rc_isn := ucast (th_seqno (seg_header seg))\<rparr> else r)
        in if th_fin (seg_header seg) \<and> rc_fin r then Inr r
           else rc_push seg (if th_fin (seg_header seg) then r\<lparr>rc_fin := True\<rparr> else r))"

definition rc_ackno :: "tcp_receiver \<Rightarrow> wrapping_int32 option" where
  "rc_ackno r = (if \<not> rc_syn r then None else Some (wrap (rc_rcv_base r) (ucast (rc_isn r))))"

definition rc_window_size :: "tcp_receiver \<Rightarrow> u64" where
  "rc_window_size r = rc_capacity r - of_nat (bs_buffer_size (rc_stream_out r))"

section \<open>Genuine segments and the invariant\<close>

text \<open>
  \<open>carries S isn a seg\<close>: the segment stands at absolute sequence number \<open>a\<close> of the peer whose initial
  sequence number is \<open>isn\<close> and whose byte stream is \<open>S\<close>. The SYN occupies number 0, byte \<open>i\<close> of the
  stream number \<open>i + 1\<close>.
\<close>

definition seg_data :: "tcp_segment \<Rightarrow> bytes" where
  "seg_data seg = buf_str (seg_payload seg)"

definition data_index :: "nat \<Rightarrow> tcp_segment \<Rightarrow> nat" where
  "data_index a seg = (if th_syn (seg_header seg) then 0 else a - 1)"

definition carries :: "(nat \<Rightarrow> u8) \<Rightarrow> wrapping_int32 \<Rightarrow> nat \<Rightarrow> tcp_segment \<Rightarrow> bool" where
  "carries S isn a seg \<longleftrightarrow> th_seqno (seg_header seg) = wrap (of_nat a) isn \<and>
     (th_syn (seg_header seg) \<longrightarrow> a = 0) \<and>
     (seg_data seg \<noteq> [] \<longrightarrow> th_syn (seg_header seg) \<or> 0 < a) \<and>
     seg_data seg = map S [data_index a seg..<data_index a seg + length (seg_data seg)]"

definition rc_inv :: "(nat \<Rightarrow> u8) \<Rightarrow> wrapping_int32 \<Rightarrow> tcp_receiver \<Rightarrow> bool" where
  "rc_inv S isn r \<longleftrightarrow> ra_inv S (rc_reassembler r) \<and> rc_capacity r = ra_capacity (rc_reassembler r) \<and>
     (if rc_syn r
      then rc_isn r = ucast isn \<and>
        rc_rcv_base r = ra_cur_idx (rc_reassembler r) + 1 +
          (if ra_input_ended (rc_reassembler r) \<and> rc_fin r then 1 else 0)
      else received (rc_reassembler r) = {} \<and> \<not> rc_fin r)"

lemma rc_inv_new: "rc_inv S isn (rc_new c)"
  by (simp add: rc_inv_def rc_new_def) (simp add: ra_new_def)

lemma ucast_isn [simp]: "(ucast (ucast (isn :: u32) :: u64) :: u32) = isn"
  by (rule bit_word_eqI) (auto simp: bit_simps)

lemma carries_index:
  assumes seg: "carries S isn a seg" and small: "a < 2 ^ 31" "unat c < 2 ^ 31" "M < 2 ^ 62"
  defines "idx \<equiv> (if th_syn (seg_header seg) then 1 else unwrap (th_seqno (seg_header seg)) isn c) - 1"
  shows "idx = (if th_syn (seg_header seg) then 0 else of_nat a - 1)"
    and "unat idx \<le> M \<longrightarrow> unat idx = data_index a seg"
    and "unat idx \<noteq> data_index a seg \<longrightarrow> seg_data seg = []"
proof -
  have ua: "unat (of_nat a :: u64) = a" using small by (intro unat_of_nat64) simp
  have un: "unwrap (th_seqno (seg_header seg)) isn c = of_nat a"
    using seg small ua by (auto simp: carries_def intro!: unwrap_wrap_nat)
  then show i: "idx = (if th_syn (seg_header seg) then 0 else of_nat a - 1)" by (simp add: idx_def)
  have pos: "unat (of_nat a - 1 :: u64) = a - 1" if "0 < a"
    using that ua by (subst unat_sub64) auto
  have zero: "\<not> unat (of_nat a - 1 :: u64) \<le> M" if "a = 0"
    using that small by (simp add: unsigned_minus_1_eq_mask mask_eq_exp_minus_1)
  show "unat idx \<le> M \<longrightarrow> unat idx = data_index a seg"
    using i pos zero by (cases "a = 0") (auto simp: data_index_def)
  show "unat idx \<noteq> data_index a seg \<longrightarrow> seg_data seg = []"
    using i pos seg by (cases "a = 0") (auto simp: data_index_def carries_def)
qed

text \<open>The effect of an accepted segment on the reassembler.\<close>

lemma rc_push_facts:
  assumes inv: "ra_inv S (rc_reassembler r)" "rc_isn r = ucast isn"
    and cap: "rc_capacity r = ra_capacity (rc_reassembler r)" "rc_syn r"
    and small: "ra_max (rc_reassembler r) < 2 ^ 62" "unat (ra_cur_idx (rc_reassembler r)) < 2 ^ 31" "a < 2 ^ 31"
    and seg: "carries S isn a seg" "length (seg_data seg) < 2 ^ 62"
  obtains r' where "rc_push seg r = Inr r'" "rc_inv S isn r'" "rc_syn r'" "rc_fin r' = rc_fin r"
    "rc_capacity r' = rc_capacity r"
    "pushed (seg_data seg) (if th_syn (seg_header seg) then 0 else of_nat a - 1)
       (th_fin (seg_header seg)) (rc_reassembler r) (rc_reassembler r')"
proof -
  let ?ra = "rc_reassembler r" and ?fin = "th_fin (seg_header seg)"
  define idx where "idx = (if th_syn (seg_header seg) then 1
    else unwrap (th_seqno (seg_header seg)) isn (ra_cur_idx ?ra)) - 1"
  note i = carries_index [OF seg(1) small(3,2,1), folded idx_def]
  have "unat idx \<le> ra_max ?ra \<longrightarrow> seg_data seg = map S [unat idx..<unat idx + length (seg_data seg)]"
    using i(2) seg(1) unfolding carries_def by metis
  from push_facts [OF inv(1) small(1) seg(2) this, of ?fin] obtain ra where
    ra: "push_substring (seg_data seg) idx ?fin ?ra = Inr ra" "ra_inv S ra" "pushed (seg_data seg) idx ?fin ?ra ra"
    by blast
  define b where "b = ra_cur_idx ra + 1 + (if ra_input_ended ra \<and> rc_fin r then 1 else 0)"
  have "rc_push seg r = bindE (push_substring (seg_data seg) idx ?fin ?ra) (\<lambda>ra.
      Inr (r\<lparr>rc_reassembler := ra, rc_rcv_base := ra_cur_idx ra + 1 +
        (if ra_input_ended ra \<and> rc_fin r then 1 else 0)\<rparr>))"
    by (auto simp: rc_push_def Let_def buf_copy_def seg_data_def idx_def inv(2) intro!: arg_cong2 [of _ _ _ _ bindE])
  then have p: "rc_push seg r = Inr (r\<lparr>rc_reassembler := ra, rc_rcv_base := b\<rparr>)"
    using ra(1) by (simp add: b_def)
  moreover have "ra_capacity ra = ra_capacity ?ra" using ra(3) by (simp add: pushed_def)
  ultimately show thesis
    by (intro that [OF p]) (use ra inv cap i(1) in \<open>simp_all add: rc_inv_def b_def\<close>)
qed

definition rc_accepts :: "tcp_segment \<Rightarrow> tcp_receiver \<Rightarrow> bool" where
  "rc_accepts seg r \<longleftrightarrow> th_syn (seg_header seg) \<noteq> rc_syn r \<and> \<not> (th_fin (seg_header seg) \<and> rc_fin r)"

definition seg_cover :: "nat \<Rightarrow> tcp_segment \<Rightarrow> nat set" where
  "seg_cover a seg = {data_index a seg..<data_index a seg + length (seg_data seg)}"

abbreviation rc_received :: "tcp_receiver \<Rightarrow> nat set" where
  "rc_received r \<equiv> received (rc_reassembler r)"

abbreviation rc_max :: "tcp_receiver \<Rightarrow> nat" where
  "rc_max r \<equiv> ra_max (rc_reassembler r)"

lemma rc_segment_facts:
  assumes inv: "rc_inv S isn r" and seg: "carries S isn a seg" "length (seg_data seg) < 2 ^ 62"
    and small: "rc_max r < 2 ^ 62" "unat (ra_cur_idx (rc_reassembler r)) < 2 ^ 31" "a < 2 ^ 31"
  obtains r' where "rc_segment_received seg r = Inr r'" "rc_inv S isn r'"
    "rc_capacity r' = rc_capacity r" "bs_read_bytes (rc_stream_out r') = bs_read_bytes (rc_stream_out r)"
    "rc_syn r' = (rc_syn r \<or> th_syn (seg_header seg))"
    "rc_fin r' = (rc_fin r \<or> rc_accepts seg r \<and> th_fin (seg_header seg))"
    "rc_received r' = rc_received r \<union> (if rc_accepts seg r then seg_cover a seg \<inter> {..<rc_max r} else {})"
proof (cases "rc_accepts seg r")
  case False
  then have "rc_segment_received seg r = Inr r"
    using inv by (auto simp: rc_segment_received_def rc_accepts_def rc_inv_def)
  then show thesis using inv False
    by (intro that [of r]) (auto simp: rc_accepts_def rc_inv_def split: if_splits)
next
  case True
  let ?h = "seg_header seg"
  define r1 where "r1 = r\<lparr>rc_syn := True, rc_isn := ucast isn, rc_fin := rc_fin r \<or> th_fin ?h\<rparr>"
  have isn: "th_syn ?h \<Longrightarrow> th_seqno ?h = isn" using seg by (auto simp: carries_def wrap_def)
  have eq: "rc_segment_received seg r = rc_push seg r1"
  proof (cases "rc_syn r")
    case syn: True
    then have "r1 = (if th_fin ?h then r\<lparr>rc_fin := True\<rparr> else r)"
      using inv by (simp add: r1_def rc_inv_def)
    then show ?thesis using True syn by (auto simp: rc_segment_received_def rc_accepts_def)
  next
    case syn: False
    then have "th_syn ?h" "\<not> rc_fin r" using True inv by (auto simp: rc_accepts_def rc_inv_def)
    moreover have "r1 = (let r = r\<lparr>rc_syn := True, rc_isn := ucast isn\<rparr>
        in if th_fin ?h then r\<lparr>rc_fin := True\<rparr> else r)"
      using \<open>\<not> rc_fin r\<close> by (cases r) (simp add: r1_def Let_def)
    ultimately show ?thesis using syn isn by (simp add: rc_segment_received_def Let_def)
  qed
  have r1: "rc_reassembler r1 = rc_reassembler r" "rc_capacity r1 = rc_capacity r" by (simp_all add: r1_def)
  obtain r' where r': "rc_push seg r1 = Inr r'" "rc_inv S isn r'" "rc_syn r'" "rc_fin r' = rc_fin r1"
      "rc_capacity r' = rc_capacity r1"
      "pushed (seg_data seg) (if th_syn ?h then 0 else of_nat a - 1) (th_fin ?h)
        (rc_reassembler r1) (rc_reassembler r')"
    by (rule rc_push_facts [of S r1 isn a seg])
      (use inv small seg r1 in \<open>simp_all add: rc_inv_def r1_def\<close>)
  define idx :: u64 where "idx = (if th_syn ?h then 0 else of_nat a - 1)"
  note i = carries_index [OF seg(1) small(3,2,1)]
  have cov: "{unat idx..<unat idx + length (seg_data seg)} = seg_cover a seg"
    using i(1,3) unfolding idx_def [symmetric] by (cases "seg_data seg = []") (auto simp: seg_cover_def)
  show thesis
    using r' r1 True cov inv
    by (intro that [of r']) (auto simp: eq pushed_def idx_def [symmetric] rc_stream_out_def r1_def
        rc_accepts_def rc_inv_def split: if_splits)
qed

section \<open>Runs of a receiver\<close>

text \<open>Segments arrive in any order while the application reads from the inbound stream.\<close>

datatype rc_op = Arrive tcp_segment | Consume nat

fun rc_run :: "rc_op list \<Rightarrow> tcp_receiver \<Rightarrow> exn + bytes \<times> tcp_receiver" where
  "rc_run [] r = Inr ([], r)"
| "rc_run (Arrive seg # ops) r = bindE (rc_segment_received seg r) (rc_run ops)"
| "rc_run (Consume n # ops) r =
     bindE (bs_read n (rc_stream_out r)) (\<lambda>(d, s).
       bindE (rc_run ops (r\<lparr>rc_reassembler := (rc_reassembler r)\<lparr>ra_output := s\<rparr>\<rparr>))
         (\<lambda>(out, r'). Inr (d @ out, r')))"

text \<open>Arrivals are segments of a peer whose stream has at most \<open>N\<close> bytes.\<close>

fun rc_op_of :: "(nat \<Rightarrow> u8) \<Rightarrow> nat \<Rightarrow> wrapping_int32 \<Rightarrow> rc_op \<Rightarrow> bool" where
  "rc_op_of S N isn (Arrive seg) \<longleftrightarrow>
     (\<exists>a \<le> N + 2. carries S isn a seg \<and>
        (seg_data seg = [] \<or> data_index a seg + length (seg_data seg) \<le> N))"
| "rc_op_of S N isn (Consume n) \<longleftrightarrow> True"

lemma rc_inv_read:
  assumes "rc_inv S isn r" "bs_read n (rc_stream_out r) = Inr (d, s)"
  shows "rc_inv S isn (r\<lparr>rc_reassembler := (rc_reassembler r)\<lparr>ra_output := s\<rparr>\<rparr>)"
    "d = map S [bs_read_bytes (rc_stream_out r)..<bs_read_bytes s]"
proof -
  have ra: "ra_inv S (rc_reassembler r)" using assms(1) by (simp add: rc_inv_def)
  note i = ra_inv_read [OF ra assms(2) [unfolded rc_stream_out_def]]
  have "bs_input_end s = bs_input_end (rc_stream_out r)" using bs_read_Inr(5) [OF assms(2)] .
  then show "rc_inv S isn (r\<lparr>rc_reassembler := (rc_reassembler r)\<lparr>ra_output := s\<rparr>\<rparr>)"
    using assms(1) i(1,2)
    by (simp add: rc_inv_def ra_input_ended_def bs_input_ended_def rc_stream_out_def)
  show "d = map S [bs_read_bytes (rc_stream_out r)..<bs_read_bytes s]"
    using i(3) by (simp add: rc_stream_out_def)
qed

lemma rc_cur_bound: "rc_received r \<subseteq> {..<N} \<Longrightarrow> unat (ra_cur_idx (rc_reassembler r)) \<le> N"
  by (auto simp: received_def)

lemma rc_run_facts:
  assumes "rc_inv S isn r" "\<forall>op\<in>set ops. rc_op_of S N isn op" "N + 2 < 2 ^ 31"
    and "rc_received r \<subseteq> {..<N}" "unat (rc_capacity r) < 2 ^ 61"
  shows "\<exists>r'. rc_run ops r = Inr (map S [bs_read_bytes (rc_stream_out r)..<bs_read_bytes (rc_stream_out r')], r') \<and>
    rc_inv S isn r' \<and> bs_read_bytes (rc_stream_out r) \<le> bs_read_bytes (rc_stream_out r') \<and>
    rc_received r' \<subseteq> {..<N} \<and> rc_capacity r' = rc_capacity r"
  using assms(1,2,4,5)
proof (induction ops arbitrary: r)
  case Nil
  then show ?case by simp
next
  case (Cons op ops)
  have ra: "ra_inv S (rc_reassembler r)" "rc_capacity r = ra_capacity (rc_reassembler r)"
    using Cons.prems(1) by (auto simp: rc_inv_def)
  have cur: "unat (ra_cur_idx (rc_reassembler r)) \<le> N" using rc_cur_bound Cons.prems(3) by blast
  then have max: "rc_max r < 2 ^ 62"
    using ra_inv_bounds(1) [OF ra(1)] ra(2) Cons.prems(4) assms(3) by (simp add: ra_max_def)
  have ops: "\<forall>op\<in>set ops. rc_op_of S N isn op" using Cons.prems(2) by simp
  show ?case
  proof (cases op)
    case (Arrive seg)
    then obtain a where a: "a \<le> N + 2" "carries S isn a seg"
        "seg_data seg = [] \<or> data_index a seg + length (seg_data seg) \<le> N"
      using Cons.prems(2) by auto
    have len: "length (seg_data seg) < 2 ^ 62" using a(3) assms(3) by auto
    have sm: "unat (ra_cur_idx (rc_reassembler r)) < 2 ^ 31" "a < 2 ^ 31" using cur a(1) assms(3) by auto
    obtain r1 where r1: "rc_segment_received seg r = Inr r1" "rc_inv S isn r1"
        "rc_capacity r1 = rc_capacity r" "bs_read_bytes (rc_stream_out r1) = bs_read_bytes (rc_stream_out r)"
        "rc_received r1 = rc_received r \<union> (if rc_accepts seg r then seg_cover a seg \<inter> {..<rc_max r} else {})"
      by (rule rc_segment_facts [OF Cons.prems(1) a(2) len max sm]) (rule that)
    have "rc_received r1 \<subseteq> {..<N}"
      unfolding r1(5) using Cons.prems(3) a(3) by (auto simp: seg_cover_def)
    with Cons.IH [OF r1(2) ops] r1 Cons.prems(4) Arrive show ?thesis by auto
  next
    case (Consume n)
    obtain d s where rd: "bs_read n (rc_stream_out r) = Inr (d, s)"
      by (rule bs_read_cases [of n "rc_stream_out r"]) auto
    let ?r = "r\<lparr>rc_reassembler := (rc_reassembler r)\<lparr>ra_output := s\<rparr>\<rparr>"
    note i = rc_inv_read [OF Cons.prems(1) rd]
    have mono: "bs_read_bytes (rc_stream_out r) \<le> bs_read_bytes s" using bs_read_Inr(7) [OF rd] by simp
    have "rc_received ?r \<subseteq> {..<N}" using Cons.prems(3) by (simp add: received_def)
    with Cons.IH [OF i(1) ops] Cons.prems(4) obtain r' where
      r': "rc_run ops ?r = Inr (map S [bs_read_bytes s..<bs_read_bytes (rc_stream_out r')], r')"
        "rc_inv S isn r'" "bs_read_bytes s \<le> bs_read_bytes (rc_stream_out r')"
        "rc_received r' \<subseteq> {..<N}" "rc_capacity r' = rc_capacity r"
      by (auto simp: rc_stream_out_def)
    have "map S [bs_read_bytes (rc_stream_out r)..<bs_read_bytes (rc_stream_out r')] =
        d @ map S [bs_read_bytes s..<bs_read_bytes (rc_stream_out r')]"
      using map_upt_glue [of "bs_read_bytes (rc_stream_out r)" "bs_read_bytes s" "bs_read_bytes s"
          "bs_read_bytes (rc_stream_out r')" S] mono r'(3) i(2) by simp
    then show ?thesis using r' rd mono Consume by auto
  qed
qed

lemma rc_run_new:
  assumes "\<forall>op\<in>set ops. rc_op_of S N isn op" "N + 2 < 2 ^ 31" "unat capacity < 2 ^ 61"
  obtains r where "rc_run ops (rc_new capacity) = Inr (map S [0..<bs_read_bytes (rc_stream_out r)], r)"
    "rc_inv S isn r" "rc_received r \<subseteq> {..<N}" "rc_capacity r = capacity" "rc_max r < 2 ^ 62"
proof -
  have n: "rc_received (rc_new capacity) \<subseteq> {..<N}" "rc_capacity (rc_new capacity) = capacity"
      "bs_read_bytes (rc_stream_out (rc_new capacity)) = 0"
    by (simp_all add: rc_new_def rc_stream_out_def) (simp add: ra_new_def bs_new_def)
  obtain r where r: "rc_run ops (rc_new capacity) = Inr (map S [0..<bs_read_bytes (rc_stream_out r)], r)"
      "rc_inv S isn r" "rc_received r \<subseteq> {..<N}" "rc_capacity r = capacity"
    using rc_run_facts [OF rc_inv_new assms(1,2) n(1)] assms(3) n(2,3) by auto
  have "unat (ra_cur_idx (rc_reassembler r)) \<le> N" using rc_cur_bound r(3) by blast
  then have "rc_max r < 2 ^ 62"
    using ra_inv_bounds(1) [of S "rc_reassembler r"] r(2,4) assms(2,3) by (simp add: ra_max_def rc_inv_def)
  then show thesis using that r by blast
qed

section \<open>Properties\<close>

text \<open>
  (C12) Safety of reception: whatever genuine segments of a peer arrive, in whatever order, repeated or
  missing, for any initial sequence number, the receiver never fails and the bytes it has delivered
  and holds ready are a prefix of the peer's byte stream.
\<close>

theorem receiver_delivers_prefix:
  assumes "\<forall>op\<in>set ops. rc_op_of S N isn op" "N + 2 < 2 ^ 31" "unat capacity < 2 ^ 61"
  shows "\<exists>out r. rc_run ops (rc_new capacity) = Inr (out, r) \<and>
    out @ bs_contents (rc_stream_out r) = map S [0..<bs_bytes_written (rc_stream_out r)] \<and>
    bs_bytes_written (rc_stream_out r) \<le> N"
proof (rule rc_run_new [OF assms])
  fix r
  assume r: "rc_run ops (rc_new capacity) = Inr (map S [0..<bs_read_bytes (rc_stream_out r)], r)"
    "rc_inv S isn r" "rc_received r \<subseteq> {..<N}"
  let ?o = "rc_stream_out r"
  have o: "bs_write_bytes ?o = unat (ra_cur_idx (rc_reassembler r))" "bs_read_bytes ?o \<le> bs_write_bytes ?o"
      "bs_contents ?o = map S [bs_read_bytes ?o..<bs_write_bytes ?o]"
    using r(2) by (auto simp: rc_inv_def ra_inv_def out_ok_def rc_stream_out_def bs_inv_def)
  have "map S [0..<bs_read_bytes ?o] @ bs_contents ?o = map S [0..<bs_write_bytes ?o]"
    using map_upt_glue [of 0 "bs_read_bytes ?o" "bs_read_bytes ?o" "bs_write_bytes ?o" S] o by simp
  then show ?thesis using r(1) rc_cur_bound [OF r(3)] o(1) by (auto simp: bs_bytes_written_def)
qed

theorem receiver_delivers_prefix_witness:
  "\<exists>out r. rc_run [Arrive (seg_new\<lparr>seg_header := th_new\<lparr>th_syn := True, th_seqno := 4294967295\<rparr>\<rparr>),
       Arrive (seg_new\<lparr>seg_header := th_new\<lparr>th_seqno := 1\<rparr>, seg_payload := buf_of_string [7, 7]\<rparr>),
       Consume 1, Arrive (seg_new\<lparr>seg_header := th_new\<lparr>th_seqno := 0\<rparr>, seg_payload := buf_of_string [7]\<rparr>)]
       (rc_new 8) = Inr (out, r) \<and>
     out @ bs_contents (rc_stream_out r) = map (\<lambda>_. 7) [0..<bs_bytes_written (rc_stream_out r)]"
proof -
  let ?syn = "seg_new\<lparr>seg_header := th_new\<lparr>th_syn := True, th_seqno := 4294967295\<rparr>\<rparr>"
  let ?b = "seg_new\<lparr>seg_header := th_new\<lparr>th_seqno := 1\<rparr>, seg_payload := buf_of_string [7, 7]\<rparr>"
  let ?a = "seg_new\<lparr>seg_header := th_new\<lparr>th_seqno := 0\<rparr>, seg_payload := buf_of_string [7]\<rparr>"
  have "carries (\<lambda>_. 7) 4294967295 0 ?syn" "carries (\<lambda>_. 7) 4294967295 2 ?b" "carries (\<lambda>_. 7) 4294967295 1 ?a"
    by (simp_all add: carries_def seg_data_def data_index_def seg_new_def th_new_def wrap_def)
  then have "\<forall>op\<in>set [Arrive ?syn, Arrive ?b, Consume 1, Arrive ?a]. rc_op_of (\<lambda>_. 7) 3 4294967295 op"
    by (auto simp: seg_data_def data_index_def seg_new_def th_new_def intro: exI [of _ 0] exI [of _ 1] exI [of _ 2])
  from receiver_delivers_prefix [OF this, of 8] show ?thesis by auto
qed



text \<open>
  A FIN without payload that overtakes a lost byte makes the receiver acknowledge that byte: with
  one byte missing before the FIN the acknowledgment number covers the byte and the inbound stream
  reports end of file, so the byte will never be retransmitted or delivered.
\<close>

theorem receiver_acks_missing_byte:
  "case rc_run [Arrive (seg_new\<lparr>seg_header := th_new\<lparr>th_syn := True, th_seqno := 100\<rparr>\<rparr>),
       Arrive (seg_new\<lparr>seg_header := th_new\<lparr>th_fin := True, th_seqno := 102\<rparr>\<rparr>)] (rc_new 8) of
     Inr (out, r) \<Rightarrow> rc_ackno r = Some 102 \<and> bs_eof (rc_stream_out r) \<and>
       bs_bytes_written (rc_stream_out r) = 0
   | Inl e \<Rightarrow> False"
  by code_simp

end
