(* ===== verification/Sender.thy ===== *)
theory Sender
  imports Receiver
begin

text \<open>
  Model of \<open>tcp_sender.hh\<close> and \<open>tcp_sender.cc\<close> (with the constants of \<open>tcp_helpers/tcp_config.hh\<close>): the
  sender cuts the outbound stream into segments, keeps the unacknowledged ones and retransmits the
  oldest when the timer expires. The \<open>unsigned int\<close> members are 32-bit words, the \<open>uint64_t\<close> ones
  64-bit words, with the conversions of the code. The random initial sequence number comes from
  \<open>std::random_device\<close> and is a parameter of the constructor.
\<close>

section \<open>State and operations\<close>

definition DEFAULT_CAPACITY :: nat where "DEFAULT_CAPACITY = 64000"
definition MAX_PAYLOAD_SIZE :: u64 where "MAX_PAYLOAD_SIZE = 1452"
definition TIMEOUT_DFLT :: u16 where "TIMEOUT_DFLT = 1000"
definition MAX_RETX_ATTEMPTS :: u32 where "MAX_RETX_ATTEMPTS = 8"

record tcp_sender =
  snd_isn :: wrapping_int32
  snd_segments_out :: "tcp_segment list"
  snd_initial_retransmission_timeout :: u32
  snd_stream :: byte_stream
  snd_next_seqno :: u64
  snd_outstanding_segments :: "tcp_segment list"
  snd_RTO :: u32
  snd_bytes_in_flight :: u64
  snd_consecutive_retransmission :: u32
  snd_timer_running :: bool
  snd_back_off :: bool
  snd_time_elipsed :: u32
  snd_receiver_window_size :: u32
  snd_rcv_base :: u32
  snd_free_bytes :: u32
  snd_syn_sent :: bool
  snd_fin_sent :: bool

definition snd_new :: "nat \<Rightarrow> u16 \<Rightarrow> wrapping_int32 option \<Rightarrow> u32 \<Rightarrow> tcp_sender" where
  "snd_new capacity retx_timeout fixed_isn random =
     \<lparr>snd_isn = (case fixed_isn of Some i \<Rightarrow> i | None \<Rightarrow> random), snd_segments_out = [],
      snd_initial_retransmission_timeout = ucast retx_timeout, snd_stream = bs_new capacity,
      snd_next_seqno = 0, snd_outstanding_segments = [], snd_RTO = ucast retx_timeout,
      snd_bytes_in_flight = 0, snd_consecutive_retransmission = 0, snd_timer_running = False,
      snd_back_off = True, snd_time_elipsed = 0, snd_receiver_window_size = 1, snd_rcv_base = 0,
      snd_free_bytes = 0, snd_syn_sent = False, snd_fin_sent = False\<rparr>"

definition next_seqno :: "tcp_sender \<Rightarrow> wrapping_int32" where
  "next_seqno s = wrap (snd_next_seqno s) (snd_isn s)"

definition segment_handler :: "tcp_segment \<Rightarrow> tcp_sender \<Rightarrow> tcp_sender" where
  "segment_handler seg0 s =
     (let seg = seg0\<lparr>seg_header := (seg_header seg0)\<lparr>th_seqno := wrap (snd_next_seqno s) (snd_isn s)\<rparr>\<rparr>;
          len = of_nat (length_in_sequence_space seg);
          s = s\<lparr>snd_bytes_in_flight := snd_bytes_in_flight s + len,
                snd_next_seqno := snd_next_seqno s + len,
                snd_outstanding_segments := snd_outstanding_segments s @ [seg],
                snd_segments_out := snd_segments_out s @ [seg]\<rparr>
      in if \<not> snd_timer_running s then s\<lparr>snd_timer_running := True, snd_time_elipsed := 0\<rparr> else s)"

text \<open>The segment of one round of the loop in \<open>fill_window\<close>.\<close>

definition data_segment :: "tcp_sender \<Rightarrow> bytes \<Rightarrow> byte_stream \<Rightarrow> tcp_segment \<times> bool" where
  "data_segment s data stream =
     (let seg = seg_new\<lparr>seg_payload := buf_of_string data\<rparr>
      in if bs_eof stream \<and>
            of_nat (length_in_sequence_space seg) < (ucast (snd_receiver_window_size s) :: u64)
         then (seg\<lparr>seg_header := (seg_header seg)\<lparr>th_fin := True\<rparr>\<rparr>, True)
         else (seg, False))"

lemma bindE_cong [fundef_cong]:
  "m = m' \<Longrightarrow> (\<And>x. m' = Inr x \<Longrightarrow> f x = g x) \<Longrightarrow> bindE m f = bindE m' g"
  by (cases m') simp_all

lemma bs_read_shrinks:
  assumes "bs_read n st = Inr (d, st')" "0 < n" "\<not> bs_buffer_empty st"
  shows "length (bs_contents st') < length (bs_contents st)"
  using bs_read_Inr(2) [OF assms(1)] assms(2,3) by (cases "bs_contents st") auto

lemma segment_handler_stream [simp]: "snd_stream (segment_handler seg s) = snd_stream s"
  by (simp add: segment_handler_def Let_def)

function fill_loop :: "u32 \<Rightarrow> tcp_sender \<Rightarrow> exn + tcp_sender" where
  "fill_loop win_right_edge s0 =
     (let s = s0\<lparr>snd_free_bytes := ucast (ucast win_right_edge - snd_next_seqno s0)\<rparr>
      in if snd_free_bytes s \<noteq> 0 \<and> \<not> snd_fin_sent s \<and> \<not> bs_buffer_empty (snd_stream s) then
           let payload_size = (if (ucast (snd_free_bytes s) :: u64) > MAX_PAYLOAD_SIZE
                               then ucast MAX_PAYLOAD_SIZE else snd_free_bytes s)
           in bindE (bs_read (unat payload_size) (snd_stream s)) (\<lambda>(data, stream).
                let (seg, fin) = data_segment s data stream
                in fill_loop win_right_edge
                     (segment_handler seg (s\<lparr>snd_stream := stream, snd_fin_sent := snd_fin_sent s \<or> fin\<rparr>)))
         else Inr s)"
  by pat_completeness auto
termination
proof (relation "measure (\<lambda>(w, s). length (bs_contents (snd_stream s)))", goal_cases)
  case 1
  show ?case by simp
next
  case (2 w s0 s payload_size x data stream seg fin)
  have "payload_size \<noteq> 0"
    using 2(2,3) by (auto simp: MAX_PAYLOAD_SIZE_def split: if_splits)
  then have "0 < unat payload_size" by (simp add: unat_gt_0)
  then show ?case
    using bs_read_shrinks [of "unat payload_size" "snd_stream s" data stream] 2 by simp
qed

declare fill_loop.simps [simp del]

definition fill_window :: "tcp_sender \<Rightarrow> exn + tcp_sender" where
  "fill_window s =
     (if \<not> snd_syn_sent s then
        Inr (segment_handler (seg_new\<lparr>seg_header := (seg_header seg_new)\<lparr>th_syn := True\<rparr>\<rparr>)
               (s\<lparr>snd_syn_sent := True\<rparr>))
      else if snd_outstanding_segments s \<noteq> [] \<and> th_syn (seg_header (hd (snd_outstanding_segments s)))
      then Inr s
      else if snd_fin_sent s then Inr s
      else
        let s = s\<lparr>snd_receiver_window_size :=
                    (if snd_receiver_window_size s = 0 then 1 else snd_receiver_window_size s)\<rparr>;
            win_right_edge = snd_rcv_base s + snd_receiver_window_size s;
            s = (if bs_eof (snd_stream s) \<and> ucast win_right_edge > snd_next_seqno s
                 then segment_handler (seg_new\<lparr>seg_header := (seg_header seg_new)\<lparr>th_fin := True\<rparr>\<rparr>)
                        (s\<lparr>snd_fin_sent := True\<rparr>)
                 else s)
        in fill_loop win_right_edge s)"

text \<open>The loop of \<open>ack_received\<close>; the flag tells that a segment was popped.\<close>

fun pop_acked :: "wrapping_int32 \<Rightarrow> u32 \<Rightarrow> u64 \<Rightarrow> tcp_segment list \<Rightarrow> u64 \<Rightarrow> bool \<Rightarrow>
    tcp_segment list \<times> u64 \<times> bool" where
  "pop_acked isn rcv_base seqno_abs [] flight new_data = ([], flight, new_data)"
| "pop_acked isn rcv_base seqno_abs (front # segs) flight new_data =
     (let end_of_front = (ucast (unwrap (th_seqno (seg_header front)) isn (ucast rcv_base) +
                            of_nat (length_in_sequence_space front)) :: u32)
      in if seqno_abs \<ge> ucast end_of_front
         then pop_acked isn rcv_base seqno_abs segs
                (flight - of_nat (length_in_sequence_space front)) True
         else (front # segs, flight, new_data))"

definition ack_received :: "wrapping_int32 \<Rightarrow> u16 \<Rightarrow> tcp_sender \<Rightarrow> exn + tcp_sender" where
  "ack_received ackno window_size s =
     (let seqno_abs = unwrap ackno (snd_isn s) (ucast (snd_rcv_base s))
      in if seqno_abs > snd_next_seqno s then Inr s
         else
           let s = s\<lparr>snd_receiver_window_size := ucast window_size\<rparr>;
               s = s\<lparr>snd_back_off := (snd_receiver_window_size s \<noteq> 0)\<rparr>
           in if seqno_abs \<le> ucast (snd_rcv_base s) then Inr s
              else
                let s = s\<lparr>snd_rcv_base := ucast seqno_abs\<rparr>;
                    (segs, flight, new_data_rcv) =
                      pop_acked (snd_isn s) (snd_rcv_base s) seqno_abs
                        (snd_outstanding_segments s) (snd_bytes_in_flight s) False;
                    s = s\<lparr>snd_outstanding_segments := segs, snd_bytes_in_flight := flight\<rparr>;
                    s = (if new_data_rcv then
                           s\<lparr>snd_RTO := snd_initial_retransmission_timeout s,
                             snd_time_elipsed := (if snd_outstanding_segments s \<noteq> [] then 0
                                                  else snd_time_elipsed s),
                             snd_consecutive_retransmission := 0\<rparr>
                         else s);
                    s = (if snd_outstanding_segments s = []
                         then s\<lparr>snd_timer_running := False, snd_time_elipsed := 0\<rparr> else s)
                in fill_window s)"

definition snd_tick :: "u64 \<Rightarrow> tcp_sender \<Rightarrow> exn + tcp_sender" where
  "snd_tick ms_since_last_tick s =
     (if snd_timer_running s then
        let s = s\<lparr>snd_time_elipsed := snd_time_elipsed s + ucast ms_since_last_tick\<rparr>
        in if snd_time_elipsed s \<ge> snd_RTO s then
             case snd_outstanding_segments s of
               [] \<Rightarrow> Inl (Undefined ''TCPSender::tick: front() of an empty queue'')
             | front # _ \<Rightarrow>
                 let s = s\<lparr>snd_segments_out := snd_segments_out s @ [front]\<rparr>;
                     s = (if snd_back_off s
                          then s\<lparr>snd_RTO := snd_RTO s * 2,
                                 snd_consecutive_retransmission := snd_consecutive_retransmission s + 1\<rparr>
                          else s)
                 in Inr (s\<lparr>snd_time_elipsed := 0\<rparr>)
           else Inr s
      else Inr s)"

definition send_empty_segment :: "tcp_sender \<Rightarrow> tcp_sender" where
  "send_empty_segment s =
     (let seg = seg_new\<lparr>seg_header := (seg_header seg_new)\<lparr>th_seqno := wrap (snd_next_seqno s) (snd_isn s)\<rparr>\<rparr>
      in s\<lparr>snd_segments_out := snd_segments_out s @ [seg]\<rparr>)"

section \<open>Invariant\<close>

abbreviation seg_len :: "tcp_segment \<Rightarrow> nat" where
  "seg_len seg \<equiv> length_in_sequence_space seg"

text \<open>Segments that follow each other without gap from absolute sequence number \<open>a\<close> to \<open>e\<close>.\<close>

fun sent_chain :: "(nat \<Rightarrow> u8) \<Rightarrow> wrapping_int32 \<Rightarrow> nat \<Rightarrow> tcp_segment list \<Rightarrow> nat \<Rightarrow> bool" where
  "sent_chain S isn a [] e \<longleftrightarrow> a = e"
| "sent_chain S isn a (seg # segs) e \<longleftrightarrow>
     carries S isn a seg \<and> (th_syn (seg_header seg) \<longleftrightarrow> a = 0) \<and> 0 < seg_len seg \<and>
     sent_chain S isn (a + seg_len seg) segs e"

definition flight :: "tcp_segment list \<Rightarrow> nat" where
  "flight segs = sum_list (map length_in_sequence_space segs)"

lemma flight_simps [simp]:
  "flight [] = 0" "flight (seg # segs) = seg_len seg + flight segs"
  "flight (xs @ ys) = flight xs + flight ys"
  by (simp_all add: flight_def)

lemma sent_chain_end: "sent_chain S isn a segs e \<Longrightarrow> a + flight segs = e"
proof (induction segs arbitrary: a)
  case (Cons x segs)
  then have "a + seg_len x + flight segs = e" by simp
  then show ?case by simp
qed simp

lemma sent_chain_snoc:
  "sent_chain S isn a (segs @ [seg]) e \<longleftrightarrow>
   (\<exists>m. sent_chain S isn a segs m \<and> carries S isn m seg \<and> (th_syn (seg_header seg) \<longleftrightarrow> m = 0) \<and>
      0 < seg_len seg \<and> e = m + seg_len seg)"
  by (induction segs arbitrary: a) auto

text \<open>What every segment the sender has handed out satisfies.\<close>

definition snd_log_ok :: "(nat \<Rightarrow> u8) \<Rightarrow> tcp_sender \<Rightarrow> tcp_segment \<Rightarrow> bool" where
  "snd_log_ok S s seg \<longleftrightarrow> (\<exists>a. carries S (snd_isn s) a seg \<and> a + seg_len seg \<le> unat (snd_next_seqno s) \<and>
     (seg_data seg = [] \<or> data_index a seg + length (seg_data seg) \<le> bs_read_bytes (snd_stream s)) \<and>
     (th_fin (seg_header seg) \<longrightarrow> snd_fin_sent s \<and> a + seg_len seg = unat (snd_next_seqno s)))"

definition snd_base :: "tcp_sender \<Rightarrow> nat" where
  "snd_base s = unat (snd_next_seqno s) - flight (snd_outstanding_segments s)"

definition stream_of :: "(nat \<Rightarrow> u8) \<Rightarrow> byte_stream \<Rightarrow> bool" where
  "stream_of S st \<longleftrightarrow> bs_inv st \<and> bs_contents st = map S [bs_read_bytes st..<bs_write_bytes st]"

definition snd_pos_ok :: "tcp_sender \<Rightarrow> bool" where
  "snd_pos_ok s \<longleftrightarrow>
     (if snd_syn_sent s
      then unat (snd_next_seqno s) = 1 + bs_read_bytes (snd_stream s) + (if snd_fin_sent s then 1 else 0)
      else snd_next_seqno s = 0 \<and> bs_read_bytes (snd_stream s) = 0 \<and> \<not> snd_fin_sent s)"

definition snd_queue_ok :: "(nat \<Rightarrow> u8) \<Rightarrow> tcp_sender \<Rightarrow> bool" where
  "snd_queue_ok S s \<longleftrightarrow> flight (snd_outstanding_segments s) \<le> unat (snd_next_seqno s) \<and>
     sent_chain S (snd_isn s) (snd_base s) (snd_outstanding_segments s) (unat (snd_next_seqno s)) \<and>
     snd_base s \<le> unat (snd_rcv_base s) \<and> unat (snd_rcv_base s) \<le> unat (snd_next_seqno s) \<and>
     (snd_outstanding_segments s \<noteq> [] \<longrightarrow>
        unat (snd_rcv_base s) < snd_base s + seg_len (hd (snd_outstanding_segments s))) \<and>
     snd_bytes_in_flight s = of_nat (flight (snd_outstanding_segments s)) \<and>
     (snd_timer_running s \<longleftrightarrow> snd_outstanding_segments s \<noteq> [])"

definition snd_inv :: "(nat \<Rightarrow> u8) \<Rightarrow> tcp_sender \<Rightarrow> bool" where
  "snd_inv S s \<longleftrightarrow> stream_of S (snd_stream s) \<and> snd_pos_ok s \<and> snd_queue_ok S s \<and>
     unat (snd_receiver_window_size s) < 65536 \<and>
     (\<forall>seg\<in>set (snd_segments_out s) \<union> set (snd_outstanding_segments s). snd_log_ok S s seg)"

lemmas snd_parts = snd_pos_ok_def snd_queue_ok_def snd_base_def snd_log_ok_def

lemma snd_inv_new: "snd_inv S (snd_new c t i x)"
  by (simp add: snd_inv_def snd_parts snd_new_def stream_of_def) (simp add: bs_new_def bs_contents_def)

lemma snd_inv_frame [simp]:
  "snd_inv S (s\<lparr>snd_free_bytes := x\<rparr>) = snd_inv S s"
  "snd_inv S (s\<lparr>snd_RTO := y\<rparr>) = snd_inv S s"
  "snd_inv S (s\<lparr>snd_time_elipsed := y\<rparr>) = snd_inv S s"
  "snd_inv S (s\<lparr>snd_consecutive_retransmission := y\<rparr>) = snd_inv S s"
  "snd_inv S (s\<lparr>snd_back_off := z\<rparr>) = snd_inv S s"
  by (simp_all add: snd_inv_def snd_parts)

lemma snd_inv_window: "snd_inv S s \<Longrightarrow> unat w < 65536 \<Longrightarrow> snd_inv S (s\<lparr>snd_receiver_window_size := w\<rparr>)"
proof -
  let ?s = "s\<lparr>snd_receiver_window_size := w\<rparr>"
  have "snd_pos_ok ?s = snd_pos_ok s" "snd_queue_ok S ?s = snd_queue_ok S s" "snd_log_ok S ?s = snd_log_ok S s"
    by (simp_all add: snd_parts fun_eq_iff)
  then show "snd_inv S s \<Longrightarrow> unat w < 65536 \<Longrightarrow> snd_inv S ?s" by (simp add: snd_inv_def)
qed

text \<open>Later states: nothing already sent changes meaning.\<close>

lemma snd_log_ok_mono:
  assumes "snd_log_ok S s seg" "snd_isn s' = snd_isn s"
    and "unat (snd_next_seqno s) \<le> unat (snd_next_seqno s')"
    and "bs_read_bytes (snd_stream s) \<le> bs_read_bytes (snd_stream s')"
    and "snd_fin_sent s \<Longrightarrow> snd_fin_sent s' \<and> snd_next_seqno s' = snd_next_seqno s"
  shows "snd_log_ok S s' seg"
proof -
  obtain a where "carries S (snd_isn s) a seg" "a + seg_len seg \<le> unat (snd_next_seqno s)"
      "seg_data seg = [] \<or> data_index a seg + length (seg_data seg) \<le> bs_read_bytes (snd_stream s)"
      "th_fin (seg_header seg) \<longrightarrow> snd_fin_sent s \<and> a + seg_len seg = unat (snd_next_seqno s)"
    using assms(1) by (auto simp: snd_log_ok_def)
  then show ?thesis unfolding snd_log_ok_def using assms(2-) by (intro exI [of _ a]) auto
qed

section \<open>Sending\<close>

text \<open>The segment a call of \<open>_segment_handler\<close> puts on the queues.\<close>

definition stamped :: "tcp_sender \<Rightarrow> tcp_segment \<Rightarrow> tcp_segment" where
  "stamped s seg = seg\<lparr>seg_header := (seg_header seg)\<lparr>th_seqno := wrap (snd_next_seqno s) (snd_isn s)\<rparr>\<rparr>"

lemma stamped_len [simp]: "seg_len (stamped s seg) = seg_len seg" "seg_data (stamped s seg) = seg_data seg"
    "th_fin (seg_header (stamped s seg)) = th_fin (seg_header seg)"
    "th_syn (seg_header (stamped s seg)) = th_syn (seg_header seg)"
    "data_index a (stamped s seg) = data_index a seg"
    "th_seqno (seg_header (stamped s seg)) = wrap (snd_next_seqno s) (snd_isn s)"
  by (simp_all add: stamped_def length_in_sequence_space_def seg_data_def data_index_def)

lemma carries_stamped:
  "carries S (snd_isn s) (unat (snd_next_seqno s)) (stamped s seg) \<longleftrightarrow>
     (th_syn (seg_header seg) \<longrightarrow> unat (snd_next_seqno s) = 0) \<and>
     (seg_data seg \<noteq> [] \<longrightarrow> th_syn (seg_header seg) \<or> 0 < unat (snd_next_seqno s)) \<and>
     seg_data seg = map S [data_index (unat (snd_next_seqno s)) seg..<
       data_index (unat (snd_next_seqno s)) seg + length (seg_data seg)]"
  unfolding carries_def by simp

lemma segment_handler_frame [simp]:
  "snd_isn (segment_handler seg s) = snd_isn s"
  "snd_next_seqno (segment_handler seg s) = snd_next_seqno s + of_nat (seg_len seg)"
  "snd_bytes_in_flight (segment_handler seg s) = snd_bytes_in_flight s + of_nat (seg_len seg)"
  "snd_outstanding_segments (segment_handler seg s) = snd_outstanding_segments s @ [stamped s seg]"
  "snd_segments_out (segment_handler seg s) = snd_segments_out s @ [stamped s seg]"
  "snd_timer_running (segment_handler seg s)"
  "snd_receiver_window_size (segment_handler seg s) = snd_receiver_window_size s"
  "snd_rcv_base (segment_handler seg s) = snd_rcv_base s"
  "snd_syn_sent (segment_handler seg s) = snd_syn_sent s"
  "snd_fin_sent (segment_handler seg s) = snd_fin_sent s"
  "snd_RTO (segment_handler seg s) = snd_RTO s"
  "snd_initial_retransmission_timeout (segment_handler seg s) = snd_initial_retransmission_timeout s"
  by (simp_all add: segment_handler_def Let_def stamped_def length_in_sequence_space_def)

lemma snd_inv_send:
  fixes s seg st fin
  defines "s1 \<equiv> s\<lparr>snd_stream := st, snd_fin_sent := fin, snd_syn_sent := True\<rparr>"
  assumes inv: "snd_inv S s" and nofin: "\<not> snd_fin_sent s"
    and st: "stream_of S st" "bs_read_bytes (snd_stream s) \<le> bs_read_bytes st"
    and seg: "carries S (snd_isn s) (unat (snd_next_seqno s)) (stamped s seg)" "0 < seg_len seg"
      "th_syn (seg_header seg) \<longleftrightarrow> \<not> snd_syn_sent s" "th_fin (seg_header seg) \<longleftrightarrow> fin"
    and len: "unat (snd_next_seqno s) + seg_len seg = 1 + bs_read_bytes st + (if fin then 1 else 0)"
      "unat (snd_next_seqno s) + seg_len seg < 2 ^ 31"
    and data: "seg_data seg = [] \<or>
      data_index (unat (snd_next_seqno s)) seg + length (seg_data seg) \<le> bs_read_bytes st"
  shows "snd_inv S (segment_handler seg s1)"
proof -
  let ?s = "segment_handler seg s1" and ?n = "unat (snd_next_seqno s)" and ?o = "snd_outstanding_segments s"
  have n': "unat (snd_next_seqno ?s) = ?n + seg_len seg"
    using len(2) by (simp add: s1_def unat_add64 unat_of_nat64)
  have sm: "stamped s1 seg = stamped s seg" by (simp add: stamped_def s1_def)
  have o': "snd_outstanding_segments ?s = ?o @ [stamped s seg]" by (simp add: sm) (simp add: s1_def)
  have q: "snd_queue_ok S s" and syn: "snd_syn_sent s \<longleftrightarrow> ?n \<noteq> 0"
    and log: "\<forall>x\<in>set (snd_segments_out s) \<union> set ?o. snd_log_ok S s x"
    using inv by (auto simp: snd_inv_def snd_pos_ok_def split: if_splits)
  have base: "snd_base ?s = snd_base s"
    using q n' unfolding snd_base_def o' by (simp add: snd_queue_ok_def)
  have ch: "sent_chain S (snd_isn s) (snd_base s) ?o ?n" using q by (simp add: snd_queue_ok_def)
  have "unat (snd_rcv_base s) < snd_base s + seg_len (hd (?o @ [stamped s seg]))"
    using q seg(2) sent_chain_end [OF ch] by (cases ?o) (auto simp: snd_queue_ok_def)
  moreover have "sent_chain S (snd_isn s) (snd_base s) (?o @ [stamped s seg]) (?n + seg_len seg)"
    using ch seg syn by (auto simp: sent_chain_snoc)
  ultimately have "snd_queue_ok S ?s"
    using q unfolding snd_queue_ok_def n' base o' by (simp add: s1_def)
  moreover have "snd_pos_ok ?s" unfolding snd_pos_ok_def n' using len by (simp add: s1_def)
  moreover have "snd_log_ok S ?s (stamped s seg)"
    unfolding snd_log_ok_def n' using seg data by (intro exI [of _ ?n]) (simp add: s1_def)
  moreover have "snd_log_ok S ?s x" if "x \<in> set (snd_segments_out s) \<union> set ?o" for x
    using log that st(2) nofin n' by (intro snd_log_ok_mono [of S s x ?s]) (auto simp: s1_def)
  moreover have "set (snd_segments_out ?s) = insert (stamped s seg) (set (snd_segments_out s))"
    by (simp add: sm) (simp add: s1_def)
  ultimately show ?thesis
    using st inv unfolding snd_inv_def o' by (auto simp: s1_def)
qed

text \<open>The three kinds of segments \<open>fill_window\<close> sends.\<close>

lemma stream_of_written: "stream_of S st \<Longrightarrow> bs_read_bytes st \<le> bs_write_bytes st"
  unfolding stream_of_def bs_inv_def by linarith

lemma stream_of_read:
  assumes "stream_of S st" "bs_read n st = Inr (d, st')"
  shows "stream_of S st'" "d = map S [bs_read_bytes st..<bs_read_bytes st']"
    "bs_read_bytes st' = bs_read_bytes st + length d" "bs_write_bytes st' = bs_write_bytes st"
    "bs_input_end st' = bs_input_end st"
proof -
  note rd = bs_read_Inr [OF assms(2)]
  have c: "bs_contents st = map S [bs_read_bytes st..<bs_write_bytes st]"
    and i: "bs_inv st" and le: "bs_read_bytes st \<le> bs_write_bytes st"
    using assms(1) stream_of_written by (auto simp: stream_of_def)
  have m: "bs_read_bytes st' = bs_read_bytes st + min n (bs_write_bytes st - bs_read_bytes st)"
    using rd(7) unfolding c by simp
  have d: "take n (map S [bs_read_bytes st..<bs_write_bytes st]) =
      map S [bs_read_bytes st..<bs_read_bytes st + min n (bs_write_bytes st - bs_read_bytes st)]"
    using le by (simp add: take_map min_def)
  then show "d = map S [bs_read_bytes st..<bs_read_bytes st']" unfolding rd(1) m c .
  then have "length d = bs_read_bytes st' - bs_read_bytes st" by simp
  then show "bs_read_bytes st' = bs_read_bytes st + length d" using m by simp
  show "bs_write_bytes st' = bs_write_bytes st" "bs_input_end st' = bs_input_end st" using rd by simp_all
  have "drop n (map S [bs_read_bytes st..<bs_write_bytes st]) =
      map S [bs_read_bytes st + min n (bs_write_bytes st - bs_read_bytes st)..<bs_write_bytes st]"
    using le by (simp add: drop_map drop_upt min_def)
  then have "bs_contents st' = map S [bs_read_bytes st'..<bs_write_bytes st']" unfolding rd(2,6) m c .
  then show "stream_of S st'" using bs_inv_read [OF assms(2) i] by (simp add: stream_of_def)
qed

lemma snd_inv_syn:
  assumes inv: "snd_inv S s" and "\<not> snd_syn_sent s"
  shows "snd_inv S (segment_handler (seg_new\<lparr>seg_header := (seg_header seg_new)\<lparr>th_syn := True\<rparr>\<rparr>)
    (s\<lparr>snd_syn_sent := True\<rparr>))"
proof -
  let ?seg = "seg_new\<lparr>seg_header := (seg_header seg_new)\<lparr>th_syn := True\<rparr>\<rparr>"
  have z: "snd_next_seqno s = 0" "bs_read_bytes (snd_stream s) = 0" "\<not> snd_fin_sent s"
    "stream_of S (snd_stream s)"
    using assms by (auto simp: snd_inv_def snd_pos_ok_def)
  have len: "seg_len ?seg = 1" "seg_data ?seg = []"
    by (simp_all add: length_in_sequence_space_def seg_new_def th_new_def seg_data_def)
  have "snd_inv S (segment_handler ?seg
      (s\<lparr>snd_stream := snd_stream s, snd_fin_sent := False, snd_syn_sent := True\<rparr>))"
  proof (rule snd_inv_send [OF inv z(3,4)])
    show "carries S (snd_isn s) (unat (snd_next_seqno s)) (stamped s ?seg)"
      unfolding carries_stamped using z len by simp
  qed (use assms(2) z len in \<open>simp_all\<close>, simp_all add: seg_new_def th_new_def)
  moreover have "s\<lparr>snd_stream := snd_stream s, snd_fin_sent := False, snd_syn_sent := True\<rparr> = s\<lparr>snd_syn_sent := True\<rparr>"
    using z(3) by (cases s) simp
  ultimately show ?thesis by simp
qed

lemma snd_inv_fin:
  assumes inv: "snd_inv S s" and s: "snd_syn_sent s" "\<not> snd_fin_sent s"
    and small: "bs_write_bytes (snd_stream s) + 2 < 2 ^ 31"
  shows "snd_inv S (segment_handler (seg_new\<lparr>seg_header := (seg_header seg_new)\<lparr>th_fin := True\<rparr>\<rparr>)
    (s\<lparr>snd_fin_sent := True\<rparr>))"
proof -
  let ?seg = "seg_new\<lparr>seg_header := (seg_header seg_new)\<lparr>th_fin := True\<rparr>\<rparr>"
  have z: "unat (snd_next_seqno s) = 1 + bs_read_bytes (snd_stream s)" "stream_of S (snd_stream s)"
    using assms by (auto simp: snd_inv_def snd_pos_ok_def)
  have len: "seg_len ?seg = 1" "seg_data ?seg = []"
    by (simp_all add: length_in_sequence_space_def seg_new_def th_new_def seg_data_def)
  have "snd_inv S (segment_handler ?seg
      (s\<lparr>snd_stream := snd_stream s, snd_fin_sent := True, snd_syn_sent := True\<rparr>))"
  proof (rule snd_inv_send [OF inv s(2) z(2)])
    show "carries S (snd_isn s) (unat (snd_next_seqno s)) (stamped s ?seg)"
      unfolding carries_stamped using len by (simp add: seg_new_def th_new_def)
  qed (use s z len small stream_of_written [OF z(2)] in simp_all, simp_all add: seg_new_def th_new_def)
  moreover have "s\<lparr>snd_stream := snd_stream s, snd_fin_sent := True, snd_syn_sent := True\<rparr> = s\<lparr>snd_fin_sent := True\<rparr>"
    using s by (cases s) simp
  ultimately show ?thesis by simp
qed

lemma snd_inv_data:
  assumes inv: "snd_inv S s" and s: "snd_syn_sent s" "\<not> snd_fin_sent s"
    and small: "bs_write_bytes (snd_stream s) + 2 < 2 ^ 31"
    and rd: "bs_read n (snd_stream s) = Inr (data, st)" and data: "data \<noteq> []"
    and seg: "data_segment s data st = (seg, fin)"
  shows "snd_inv S (segment_handler seg (s\<lparr>snd_stream := st, snd_fin_sent := fin\<rparr>))"
proof -
  have z: "unat (snd_next_seqno s) = 1 + bs_read_bytes (snd_stream s)" "stream_of S (snd_stream s)"
    using assms by (auto simp: snd_inv_def snd_pos_ok_def)
  note r = stream_of_read [OF z(2) rd]
  have sg: "seg_data seg = data" "th_syn (seg_header seg) = False" "th_fin (seg_header seg) = fin"
      "seg_len seg = length data + (if fin then 1 else 0)"
    using seg by (auto simp: data_segment_def Let_def seg_data_def seg_new_def th_new_def
        length_in_sequence_space_def split: if_splits)
  have "snd_inv S (segment_handler seg (s\<lparr>snd_stream := st, snd_fin_sent := fin, snd_syn_sent := True\<rparr>))"
  proof (rule snd_inv_send [OF inv s(2) r(1)])
    have "data_index (unat (snd_next_seqno s)) seg = bs_read_bytes (snd_stream s)"
      using z(1) sg by (simp add: data_index_def)
    then show "carries S (snd_isn s) (unat (snd_next_seqno s)) (stamped s seg)"
      "seg_data seg = [] \<or>
        data_index (unat (snd_next_seqno s)) seg + length (seg_data seg) \<le> bs_read_bytes st"
      unfolding carries_stamped sg using r(2,3) z(1) by simp_all
  qed (use s z(1) sg r(3,4) data small stream_of_written [OF r(1)] in auto)
  moreover have "s\<lparr>snd_stream := st, snd_fin_sent := fin, snd_syn_sent := True\<rparr> = s\<lparr>snd_stream := st, snd_fin_sent := fin\<rparr>"
    using s by (cases s) simp
  ultimately show ?thesis by simp
qed

section \<open>Filling the window\<close>

text \<open>\<open>sends s segs s'\<close>: from \<open>s\<close> to \<open>s'\<close> the segments \<open>segs\<close> were sent and nothing else changed but counters.\<close>

definition sends :: "tcp_sender \<Rightarrow> tcp_segment list \<Rightarrow> tcp_sender \<Rightarrow> bool" where
  "sends s segs s' \<longleftrightarrow> snd_isn s' = snd_isn s \<and> snd_rcv_base s' = snd_rcv_base s \<and>
     (snd_syn_sent s \<longrightarrow> snd_syn_sent s') \<and> (snd_fin_sent s \<longrightarrow> snd_fin_sent s') \<and>
     bs_write_bytes (snd_stream s') = bs_write_bytes (snd_stream s) \<and>
     bs_input_end (snd_stream s') = bs_input_end (snd_stream s) \<and>
     bs_capacity (snd_stream s') = bs_capacity (snd_stream s) \<and>
     snd_segments_out s' = snd_segments_out s @ segs \<and>
     snd_outstanding_segments s' = snd_outstanding_segments s @ segs"

lemma sends_trans: "sends s xs t \<Longrightarrow> sends t ys u \<Longrightarrow> sends s (xs @ ys) u"
  by (auto simp: sends_def)

lemma sends_free: "sends s [] (s\<lparr>snd_free_bytes := x\<rparr>)"
  by (simp add: sends_def)

definition filled :: "u32 \<Rightarrow> tcp_sender \<Rightarrow> bool" where
  "filled w s \<longleftrightarrow> unat (snd_next_seqno s) \<le> unat w + (if snd_fin_sent s then 1 else 0) \<and>
     (snd_fin_sent s \<or> bs_contents (snd_stream s) = [] \<or> unat (snd_next_seqno s) = unat w)"

lemma filled_free [simp]: "filled w (s\<lparr>snd_free_bytes := x\<rparr>) = filled w s"
  by (simp add: filled_def)

lemma fill_loop_stop:
  "snd_fin_sent s \<or> bs_contents (snd_stream s) = [] \<or> ucast (ucast w - snd_next_seqno s) = (0 :: u32) \<Longrightarrow>
   fill_loop w s = Inr (s\<lparr>snd_free_bytes := ucast (ucast w - snd_next_seqno s)\<rparr>)"
  by (auto simp: fill_loop.simps Let_def)

lemma free_bytes_nat:
  assumes "unat n \<le> unat w"
  shows "unat (ucast (ucast (w :: u32) - (n :: u64)) :: u32) = unat w - unat n"
proof -
  have u: "unat (ucast w :: u64) = unat w" by (rule unat_ucast_32_64)
  have "unat (ucast w - n) = unat w - unat n" using assms u by (subst unat_sub64) auto
  moreover have "unat w - unat n < 2 ^ 32" using unat_lt32 [of w] by (simp add: less_imp_diff_less)
  ultimately show ?thesis by (simp add: unat_ucast_mod)
qed

lemma payload_size_pos:
  fixes f :: u32
  assumes "f \<noteq> 0"
  defines "p \<equiv> (if (ucast f :: u64) > MAX_PAYLOAD_SIZE then ucast MAX_PAYLOAD_SIZE else f)"
  shows "0 < unat p" "unat p \<le> unat f" "unat p \<le> 1452"
proof -
  have u: "unat (ucast f :: u64) = unat f" by (rule unat_ucast_32_64)
  show "0 < unat p" "unat p \<le> unat f" "unat p \<le> 1452"
    using assms(1) u by (auto simp: p_def MAX_PAYLOAD_SIZE_def word_less_nat_alt unat_gt_0)
qed

text \<open>One round of the loop.\<close>

lemma fill_loop_round:
  assumes inv: "snd_inv S s" and syn: "snd_syn_sent s" "\<not> snd_fin_sent s"
    and small: "bs_write_bytes (snd_stream s) + 2 < 2 ^ 31"
    and more: "bs_contents (snd_stream s) \<noteq> []" "ucast (ucast w - snd_next_seqno s) \<noteq> (0 :: u32)"
  obtains s1 seg where "fill_loop w s = fill_loop w s1" "snd_inv S s1" "sends s [seg] s1"
    "length (bs_contents (snd_stream s1)) < length (bs_contents (snd_stream s))"
    "length (seg_data seg) \<le> 1452"
    "unat (snd_next_seqno s) \<le> unat w \<Longrightarrow>
       unat (snd_next_seqno s1) \<le> unat w + (if snd_fin_sent s1 then 1 else 0)"
proof -
  define f :: u32 where "f = ucast (ucast w - snd_next_seqno s)"
  define p where "p = (if (ucast f :: u64) > MAX_PAYLOAD_SIZE then ucast MAX_PAYLOAD_SIZE else f)"
  define s0 where "s0 = s\<lparr>snd_free_bytes := f\<rparr>"
  have p: "0 < unat p" "unat p \<le> unat f" "unat p \<le> 1452" using payload_size_pos [of f] more(2) by (auto simp: p_def f_def)
  obtain data st where rd: "bs_read (unat p) (snd_stream s) = Inr (data, st)"
    by (rule bs_read_cases [of "unat p" "snd_stream s"]) auto
  obtain seg fin where sg: "data_segment s0 data st = (seg, fin)" by force
  define s1 where "s1 = segment_handler seg (s0\<lparr>snd_stream := st, snd_fin_sent := fin\<rparr>)"
  have "fill_loop w s = fill_loop w s1"
    using more syn rd sg
    by (subst fill_loop.simps)
      (cases "MAX_PAYLOAD_SIZE < ucast f"; simp add: Let_def s1_def s0_def f_def [symmetric] p_def)
  moreover have data: "data \<noteq> []" "length data \<le> unat p" using bs_read_Inr(1) [OF rd] p(1) more(1) by auto
  moreover have inv1: "snd_inv S s1"
    unfolding s1_def by (rule snd_inv_data [where n = "unat p"]) (use inv syn small rd data sg in \<open>simp_all add: s0_def\<close>)
  moreover have sd: "seg_data seg = data" "seg_len seg = length data + (if fin then 1 else 0)"
    using sg by (auto simp: data_segment_def Let_def seg_data_def seg_new_def th_new_def
        length_in_sequence_space_def split: if_splits)
  moreover have "sends s [stamped s seg] s1"
    using bs_read_Inr(3,5,6) [OF rd] syn
    by (simp add: sends_def s1_def s0_def) (simp add: stamped_def)
  moreover have "length (bs_contents (snd_stream s1)) < length (bs_contents (snd_stream s))"
    using bs_read_shrinks [OF rd p(1)] more(1) by (simp add: s1_def)
  moreover have "unat (snd_next_seqno s1) \<le> unat w + (if snd_fin_sent s1 then 1 else 0)"
    if le: "unat (snd_next_seqno s) \<le> unat w"
  proof -
    have "unat f = unat w - unat (snd_next_seqno s)" using free_bytes_nat [OF le] by (simp add: f_def)
    moreover have "unat (snd_next_seqno s1) = unat (snd_next_seqno s) + seg_len seg"
    proof -
      have "unat (snd_next_seqno s) + seg_len seg \<le> unat w + 1"
        using le sd(2) data(2) p(2) calculation by auto
      then have "unat (snd_next_seqno s) + seg_len seg < 2 ^ 64" using unat_lt32 [of w] by (simp del: unat_lt32)
      then show ?thesis by (simp add: s1_def s0_def unat_add64 unat_of_nat64)
    qed
    ultimately show ?thesis using le sd(2) data(2) p(2) by (simp add: s1_def)
  qed
  ultimately show thesis using that [of s1 "stamped s seg"] p(3) by simp
qed

lemma fill_loop_facts:
  assumes "snd_inv S s" "snd_syn_sent s" "bs_write_bytes (snd_stream s) + 2 < 2 ^ 31"
  shows "\<exists>s' segs. fill_loop w s = Inr s' \<and> snd_inv S s' \<and> sends s segs s' \<and>
    (\<forall>seg\<in>set segs. length (seg_data seg) \<le> 1452) \<and>
    (unat (snd_next_seqno s) \<le> unat w + (if snd_fin_sent s then 1 else 0) \<longrightarrow> filled w s')"
  using assms
proof (induction "length (bs_contents (snd_stream s))" arbitrary: s rule: less_induct)
  case less
  show ?case
  proof (cases "snd_fin_sent s \<or> bs_contents (snd_stream s) = [] \<or> ucast (ucast w - snd_next_seqno s) = (0 :: u32)")
    case True
    have "filled w s" if le: "unat (snd_next_seqno s) \<le> unat w + (if snd_fin_sent s then 1 else 0)"
    proof (cases "snd_fin_sent s \<or> bs_contents (snd_stream s) = []")
      case False
      then have "unat (snd_next_seqno s) = unat w"
        using free_bytes_nat [of "snd_next_seqno s" w] le True by (simp add: unat_eq_0)
      then show ?thesis by (simp add: filled_def)
    qed (use le in \<open>auto simp: filled_def\<close>)
    then show ?thesis
      using fill_loop_stop [OF True] less.prems(1) sends_free [of s] by fastforce
  next
    case False
    then obtain s1 seg where s1: "fill_loop w s = fill_loop w s1" "snd_inv S s1" "sends s [seg] s1"
        "length (bs_contents (snd_stream s1)) < length (bs_contents (snd_stream s))"
        "length (seg_data seg) \<le> 1452"
        "unat (snd_next_seqno s) \<le> unat w \<Longrightarrow>
           unat (snd_next_seqno s1) \<le> unat w + (if snd_fin_sent s1 then 1 else 0)"
      using fill_loop_round [OF less.prems(1,2) _ less.prems(3), of w] by blast
    have "snd_syn_sent s1" "bs_write_bytes (snd_stream s1) + 2 < 2 ^ 31"
      using s1(3) less.prems by (auto simp: sends_def)
    from less.hyps [OF s1(4,2) this] obtain s' segs where
      s': "fill_loop w s1 = Inr s'" "snd_inv S s'" "sends s1 segs s'"
        "\<forall>seg\<in>set segs. length (seg_data seg) \<le> 1452"
        "unat (snd_next_seqno s1) \<le> unat w + (if snd_fin_sent s1 then 1 else 0) \<longrightarrow> filled w s'"
      by blast
    show ?thesis
      using s1 s' sends_trans [OF s1(3) s'(3)] False by (intro exI [of _ s'] exI [of _ "[seg] @ segs"]) auto
  qed
qed

lemma sends_handler:
  "snd_isn t = snd_isn s \<Longrightarrow> snd_rcv_base t = snd_rcv_base s \<Longrightarrow> snd_stream t = snd_stream s \<Longrightarrow>
   (snd_syn_sent s \<longrightarrow> snd_syn_sent t) \<Longrightarrow> (snd_fin_sent s \<longrightarrow> snd_fin_sent t) \<Longrightarrow>
   snd_segments_out t = snd_segments_out s \<Longrightarrow> snd_outstanding_segments t = snd_outstanding_segments s \<Longrightarrow>
   sends s [stamped t seg] (segment_handler seg t)"
  by (simp add: sends_def)

text \<open>The right edge of the window: the last acknowledged number plus the window, at least one.\<close>

definition right_edge :: "tcp_sender \<Rightarrow> nat" where
  "right_edge s = unat (snd_rcv_base s) + max 1 (unat (snd_receiver_window_size s))"

definition may_fill :: "tcp_sender \<Rightarrow> bool" where
  "may_fill s \<longleftrightarrow> snd_syn_sent s \<and> \<not> snd_fin_sent s \<and>
     (snd_outstanding_segments s \<noteq> [] \<longrightarrow> \<not> th_syn (seg_header (hd (snd_outstanding_segments s))))"

lemma snd_next_bound:
  assumes "snd_inv S s" "bs_write_bytes (snd_stream s) + 2 < 2 ^ 31"
  shows "unat (snd_next_seqno s) < 2 ^ 31" "unat (snd_rcv_base s) < 2 ^ 31"
proof -
  have "bs_read_bytes (snd_stream s) \<le> bs_write_bytes (snd_stream s)"
    using assms(1) stream_of_written by (auto simp: snd_inv_def)
  moreover have "unat (snd_next_seqno s) \<le> bs_read_bytes (snd_stream s) + 2"
    using assms(1) by (auto simp: snd_inv_def snd_pos_ok_def split: if_splits)
  ultimately show n: "unat (snd_next_seqno s) < 2 ^ 31" using assms(2) by simp
  have "unat (snd_rcv_base s) \<le> unat (snd_next_seqno s)"
    using assms(1) by (auto simp: snd_inv_def snd_queue_ok_def)
  then show "unat (snd_rcv_base s) < 2 ^ 31" using n by simp
qed

lemma fill_window_facts:
  assumes inv: "snd_inv S s" and small: "bs_write_bytes (snd_stream s) + 2 < 2 ^ 31"
  obtains s' segs where "fill_window s = Inr s'" "snd_inv S s'" "sends s segs s'"
    "snd_syn_sent s'" "\<forall>seg\<in>set segs. length (seg_data seg) \<le> 1452"
    "may_fill s \<longrightarrow> unat (snd_next_seqno s) \<le> right_edge s \<longrightarrow>
       (\<exists>w. unat w = right_edge s \<and> filled w s') \<and>
       (bs_eof (snd_stream s) \<longrightarrow> unat (snd_next_seqno s) < right_edge s \<longrightarrow> snd_fin_sent s')"
proof (cases "snd_syn_sent s")
  case False
  let ?t = "s\<lparr>snd_syn_sent := True\<rparr>"
  let ?seg = "seg_new\<lparr>seg_header := (seg_header seg_new)\<lparr>th_syn := True\<rparr>\<rparr>"
  show thesis
    by (rule that [of "segment_handler ?seg ?t" "[stamped ?t ?seg]"])
      (use False snd_inv_syn [OF inv] sends_handler [of ?t s ?seg] in
        \<open>simp_all add: fill_window_def may_fill_def, simp add: seg_new_def seg_data_def\<close>)
next
  case syn: True
  show thesis
  proof (cases "may_fill s")
    case False
    then have "fill_window s = Inr s" using syn by (auto simp: fill_window_def may_fill_def)
    then show thesis using that [of s "[]"] inv syn False by (simp add: sends_def)
  next
    case True
    let ?seg = "seg_new\<lparr>seg_header := (seg_header seg_new)\<lparr>th_fin := True\<rparr>\<rparr>"
    define win where "win = (if snd_receiver_window_size s = 0 then 1 else snd_receiver_window_size s)"
    define s1 where "s1 = s\<lparr>snd_receiver_window_size := win\<rparr>"
    define w where "w = snd_rcv_base s + win"
    define fin where "fin \<longleftrightarrow> bs_eof (snd_stream s) \<and> unat (snd_next_seqno s) < unat w"
    define s2 where "s2 = (if fin then segment_handler ?seg (s1\<lparr>snd_fin_sent := True\<rparr>) else s1)"
    have wn: "unat win = max 1 (unat (snd_receiver_window_size s))"
      by (simp add: win_def max_def unat_eq_0 Suc_le_eq unat_gt_0)
    have w65: "unat win < 65536" using inv by (auto simp: win_def snd_inv_def)
    have w: "unat w = right_edge s"
      unfolding w_def right_edge_def wn [symmetric] using w65 snd_next_bound(2) [OF inv small]
      by (intro unat_add32) simp
    have fw: "fill_window s = fill_loop w s2"
      using True by (auto simp: fill_window_def may_fill_def Let_def s2_def s1_def w_def win_def fin_def
          word_less_nat_alt unat_ucast_32_64)
    have inv1: "snd_inv S s1" using snd_inv_window [OF inv w65] by (simp add: s1_def)
    have nf: "\<not> snd_fin_sent s1" "snd_syn_sent s1" using True by (simp_all add: may_fill_def s1_def)
    have inv2: "snd_inv S s2"
      using snd_inv_fin [OF inv1 nf(2,1)] inv1 small by (simp add: s2_def) (simp add: s1_def)
    obtain segs0 where sd0: "sends s segs0 s2" "\<forall>seg\<in>set segs0. length (seg_data seg) \<le> 1452"
    proof (cases fin)
      case True
      have "seg_data (stamped (s1\<lparr>snd_fin_sent := True\<rparr>) ?seg) = []"
        by (simp add: seg_data_def seg_new_def stamped_def)
      then show thesis
        using that [of "[stamped (s1\<lparr>snd_fin_sent := True\<rparr>) ?seg]"] True
          sends_handler [of "s1\<lparr>snd_fin_sent := True\<rparr>" s ?seg] by (simp add: s2_def) (simp add: s1_def)
    next
      case False
      then show thesis using that [of "[]"] by (simp add: s2_def s1_def sends_def)
    qed
    have s2: "snd_syn_sent s2" "bs_write_bytes (snd_stream s2) + 2 < 2 ^ 31" "snd_fin_sent s2 = fin"
      using nf small by (simp_all add: s2_def) (simp_all add: s1_def)
    have n2: "unat (snd_next_seqno s2) \<le> unat w + (if fin then 1 else 0)"
      if "unat (snd_next_seqno s) \<le> right_edge s"
    proof -
      have "seg_len ?seg = 1" by (simp add: length_in_sequence_space_def seg_new_def th_new_def)
      moreover have "unat (snd_next_seqno s + 1) \<le> unat (snd_next_seqno s) + 1"
        using unat_word_ariths(1) [of "snd_next_seqno s" 1] by simp
      ultimately show ?thesis using that w by (simp add: s2_def) (simp add: s1_def)
    qed
    obtain s' segs where f: "fill_loop w s2 = Inr s'" "snd_inv S s'" "sends s2 segs s'"
        "\<forall>seg\<in>set segs. length (seg_data seg) \<le> 1452"
        "unat (snd_next_seqno s2) \<le> unat w + (if snd_fin_sent s2 then 1 else 0) \<longrightarrow> filled w s'"
      using fill_loop_facts [OF inv2 s2(1,2), of w] by blast
    show thesis
    proof (rule that [of s' "segs0 @ segs"])
      show "may_fill s \<longrightarrow> unat (snd_next_seqno s) \<le> right_edge s \<longrightarrow>
       (\<exists>w. unat w = right_edge s \<and> filled w s') \<and>
       (bs_eof (snd_stream s) \<longrightarrow> unat (snd_next_seqno s) < right_edge s \<longrightarrow> snd_fin_sent s')"
        using f(3,5) n2 s2(3) w by (auto simp: fin_def sends_def)
    qed (use f sd0 fw s2 sends_trans [OF sd0(1) f(3)] in \<open>auto simp: sends_def\<close>)
  qed
qed

section \<open>Acknowledgments\<close>

lemma unwrap_seqno:
  assumes "carries S isn a seg" "a < 2 ^ 31" "unat rb < 2 ^ 31"
  shows "unwrap (th_seqno (seg_header seg)) isn (ucast (rb :: u32)) = of_nat a"
proof -
  have "unat (of_nat a :: u64) = a" using assms(2) by (intro unat_of_nat64) simp
  then show ?thesis
    using assms by (auto simp: carries_def unat_ucast_32_64 intro!: unwrap_wrap_nat)
qed

text \<open>
  The loop of \<open>ack_received\<close> pops the longest prefix of the queue that lies below the acknowledged
  number and subtracts exactly its length from the bytes in flight.
\<close>

lemma pop_acked_facts:
  assumes "sent_chain S isn b segs e" "e < 2 ^ 31" "unat q < 2 ^ 31" "unat rb < 2 ^ 31"
    and "fl = of_nat (flight segs)"
  shows "\<exists>k. k \<le> length segs \<and>
    pop_acked isn rb q segs fl nd = (drop k segs, of_nat (flight (drop k segs)), nd \<or> 0 < k) \<and>
    sent_chain S isn (b + flight (take k segs)) (drop k segs) e \<and>
    (0 < k \<longrightarrow> b + flight (take k segs) \<le> unat q) \<and>
    (drop k segs \<noteq> [] \<longrightarrow> unat q < b + flight (take k segs) + seg_len (hd (drop k segs)))"
  using assms(1,5)
proof (induction segs arbitrary: b fl nd)
  case Nil
  then show ?case by simp
next
  case (Cons x segs)
  have be: "b + flight (x # segs) = e" using sent_chain_end [OF Cons.prems(1)] .
  then have sm: "b < 2 ^ 31" "b + seg_len x < 2 ^ 31" using assms(2) by auto
  have un: "unwrap (th_seqno (seg_header x)) isn (ucast rb) = of_nat b"
    using Cons.prems(1) sm(1) assms(4) by (intro unwrap_seqno) auto
  define en :: u32 where "en = ucast (unwrap (th_seqno (seg_header x)) isn (ucast rb) +
                            of_nat (seg_len x))"
  have "unat (of_nat (b + seg_len x) :: u64) = b + seg_len x" using sm(2) by (intro unat_of_nat64) simp
  then have en: "unat en = b + seg_len x"
    unfolding en_def un of_nat_add [symmetric] unat_ucast_mod using sm(2) by simp
  show ?case
  proof (cases "b + seg_len x \<le> unat q")
    case True
    have "fl - of_nat (seg_len x) = of_nat (flight segs)" using Cons.prems(2) by simp
    from Cons.IH [OF _ this, of "b + seg_len x" True] Cons.prems(1) obtain k where
      k: "k \<le> length segs"
        "pop_acked isn rb q segs (fl - of_nat (seg_len x)) True = (drop k segs, of_nat (flight (drop k segs)), True)"
        "sent_chain S isn (b + seg_len x + flight (take k segs)) (drop k segs) e"
        "0 < k \<longrightarrow> b + seg_len x + flight (take k segs) \<le> unat q"
        "drop k segs \<noteq> [] \<longrightarrow> unat q < b + seg_len x + flight (take k segs) + seg_len (hd (drop k segs))"
      by auto
    have "pop_acked isn rb q (x # segs) fl nd = pop_acked isn rb q segs (fl - of_nat (seg_len x)) True"
      using True en by (simp add: Let_def en_def [symmetric] word_le_nat_alt unat_ucast_32_64)
    then show ?thesis using k True by (intro exI [of _ "Suc k"]) (cases k; auto simp: add.assoc)
  next
    case False
    then have "pop_acked isn rb q (x # segs) fl nd = (x # segs, fl, nd)"
      using en by (simp add: Let_def en_def [symmetric] word_le_nat_alt unat_ucast_32_64)
    then show ?thesis using False Cons.prems by (intro exI [of _ 0]) auto
  qed
qed

text \<open>The state between the loop and \<open>fill_window\<close>.\<close>

definition acked_state :: "u64 \<Rightarrow> nat \<Rightarrow> tcp_sender \<Rightarrow> tcp_sender \<Rightarrow> bool" where
  "acked_state q k s t \<longleftrightarrow> snd_isn t = snd_isn s \<and> snd_segments_out t = snd_segments_out s \<and>
     snd_stream t = snd_stream s \<and> snd_next_seqno t = snd_next_seqno s \<and>
     snd_syn_sent t = snd_syn_sent s \<and> snd_fin_sent t = snd_fin_sent s \<and>
     snd_initial_retransmission_timeout t = snd_initial_retransmission_timeout s \<and>
     snd_rcv_base t = ucast q \<and>
     snd_outstanding_segments t = drop k (snd_outstanding_segments s) \<and>
     snd_bytes_in_flight t = of_nat (flight (drop k (snd_outstanding_segments s))) \<and>
     (snd_timer_running t \<longleftrightarrow> drop k (snd_outstanding_segments s) \<noteq> []) \<and>
     (0 < k \<longrightarrow> snd_RTO t = snd_initial_retransmission_timeout s \<and>
        snd_consecutive_retransmission t = 0 \<and> snd_time_elipsed t = 0) \<and>
     (k = 0 \<longrightarrow> snd_consecutive_retransmission t = snd_consecutive_retransmission s)"

lemma snd_inv_acked:
  assumes inv: "snd_inv S s" and t: "acked_state q k s t" "unat (snd_receiver_window_size t) < 65536"
    and q: "unat (snd_rcv_base s) < unat q" "unat q \<le> unat (snd_next_seqno s)" "unat q < 2 ^ 31"
    and k: "sent_chain S (snd_isn s) (snd_base s + flight (take k (snd_outstanding_segments s)))
        (drop k (snd_outstanding_segments s)) (unat (snd_next_seqno s))"
      "0 < k \<longrightarrow> snd_base s + flight (take k (snd_outstanding_segments s)) \<le> unat q"
      "drop k (snd_outstanding_segments s) \<noteq> [] \<longrightarrow>
        unat q < snd_base s + flight (take k (snd_outstanding_segments s)) +
          seg_len (hd (drop k (snd_outstanding_segments s)))"
  shows "snd_inv S t"
proof -
  let ?o = "snd_outstanding_segments s"
  have "flight (take k ?o) + flight (drop k ?o) = flight ?o"
    by (metis append_take_drop_id flight_simps(3))
  then have base: "snd_base t = snd_base s + flight (take k ?o)"
    using inv t(1) by (simp add: snd_inv_def snd_queue_ok_def snd_base_def acked_state_def)
  have rb: "unat (snd_rcv_base t) = unat q" using t(1) q(3) by (simp add: acked_state_def unat_ucast_mod)
  have le: "snd_base s + flight (take k ?o) \<le> unat q"
    using k(2) inv q(1) by (cases "k = 0") (auto simp: snd_inv_def snd_queue_ok_def)
  have "snd_queue_ok S t"
    unfolding snd_queue_ok_def base rb using t(1) k q(2) le sent_chain_end [OF k(1)]
    by (auto simp: acked_state_def)
  moreover have "snd_log_ok S t = snd_log_ok S s" "snd_pos_ok t = snd_pos_ok s"
    using t(1) by (simp_all add: acked_state_def snd_log_ok_def snd_pos_ok_def fun_eq_iff)
  moreover have "set (drop k ?o) \<subseteq> set ?o" by (rule set_drop_subset)
  ultimately show ?thesis using inv t unfolding snd_inv_def acked_state_def by auto
qed

text \<open>The three outcomes of \<open>ack_received\<close>.\<close>

lemma ack_received_cases:
  fixes s ackno
  defines "q \<equiv> unwrap ackno (snd_isn s) (ucast (snd_rcv_base s))"
  assumes inv: "snd_inv S s" and small: "bs_write_bytes (snd_stream s) + 2 < 2 ^ 31"
  obtains (beyond) "unat (snd_next_seqno s) < unat q" "ack_received ackno win s = Inr s"
    | (stale) s' where "unat q \<le> unat (snd_rcv_base s)" "ack_received ackno win s = Inr s'"
      "s' = s\<lparr>snd_receiver_window_size := ucast win, snd_back_off := (win \<noteq> 0)\<rparr>" "snd_inv S s'"
    | (fresh) k t where "unat (snd_rcv_base s) < unat q" "unat q \<le> unat (snd_next_seqno s)"
      "ack_received ackno win s = fill_window t" "snd_inv S t" "acked_state q k s t"
      "snd_receiver_window_size t = ucast win"
      "k \<le> length (snd_outstanding_segments s)"
      "0 < k \<longrightarrow> snd_base s + flight (take k (snd_outstanding_segments s)) \<le> unat q"
      "drop k (snd_outstanding_segments s) \<noteq> [] \<longrightarrow>
        unat q < snd_base s + flight (take k (snd_outstanding_segments s)) +
          seg_len (hd (drop k (snd_outstanding_segments s)))"
proof -
  note nb = snd_next_bound [OF inv small]
  have w: "(ucast win :: u32) \<noteq> 0 \<longleftrightarrow> win \<noteq> 0" "unat (ucast win :: u32) < 65536"
    by (simp_all add: unat_ucast_16_32 word_unat_eq_iff)
  define s1 where "s1 = s\<lparr>snd_receiver_window_size := ucast win, snd_back_off := (win \<noteq> 0)\<rparr>"
  have inv1: "snd_inv S s1" using snd_inv_window [OF inv w(2)] by (simp add: s1_def)
  consider "unat (snd_next_seqno s) < unat q" | "unat q \<le> unat (snd_rcv_base s)" "unat q \<le> unat (snd_next_seqno s)"
    | "unat (snd_rcv_base s) < unat q" "unat q \<le> unat (snd_next_seqno s)" by linarith
  then show thesis
  proof cases
    case 1
    then show thesis using beyond by (simp add: ack_received_def q_def [symmetric] word_less_nat_alt)
  next
    case 2
    then have "ack_received ackno win s = Inr s1"
      by (simp add: ack_received_def q_def [symmetric] word_less_nat_alt word_le_nat_alt unat_ucast_32_64
          s1_def Let_def w)
    then show thesis using stale [of s1] 2 inv1 by (simp add: s1_def)
  next
    case 3
    have q31: "unat q < 2 ^ 31" using 3 nb by simp
    have rb: "unat (ucast q :: u32) < 2 ^ 31" using q31 by (simp add: unat_ucast_mod)
    have ch: "sent_chain S (snd_isn s) (snd_base s) (snd_outstanding_segments s) (unat (snd_next_seqno s))"
      and fl: "snd_bytes_in_flight s = of_nat (flight (snd_outstanding_segments s))"
      and tm: "snd_timer_running s \<longleftrightarrow> snd_outstanding_segments s \<noteq> []"
      using inv by (auto simp: snd_inv_def snd_queue_ok_def)
    obtain k where k: "k \<le> length (snd_outstanding_segments s)"
      "pop_acked (snd_isn s) (ucast q) q (snd_outstanding_segments s) (snd_bytes_in_flight s) False =
        (drop k (snd_outstanding_segments s), of_nat (flight (drop k (snd_outstanding_segments s))), 0 < k)"
      "sent_chain S (snd_isn s) (snd_base s + flight (take k (snd_outstanding_segments s)))
        (drop k (snd_outstanding_segments s)) (unat (snd_next_seqno s))"
      "0 < k \<longrightarrow> snd_base s + flight (take k (snd_outstanding_segments s)) \<le> unat q"
      "drop k (snd_outstanding_segments s) \<noteq> [] \<longrightarrow>
        unat q < snd_base s + flight (take k (snd_outstanding_segments s)) +
          seg_len (hd (drop k (snd_outstanding_segments s)))"
      using pop_acked_facts [OF ch nb(1) q31 rb fl, of False] by auto
    define s2 where "s2 = s1\<lparr>snd_rcv_base := ucast q,
        snd_outstanding_segments := drop k (snd_outstanding_segments s),
        snd_bytes_in_flight := of_nat (flight (drop k (snd_outstanding_segments s)))\<rparr>"
    define s3 where "s3 = (if 0 < k then
        s2\<lparr>snd_RTO := snd_initial_retransmission_timeout s2,
           snd_time_elipsed := (if snd_outstanding_segments s2 \<noteq> [] then 0 else snd_time_elipsed s2),
           snd_consecutive_retransmission := 0\<rparr> else s2)"
    define t where "t = (if snd_outstanding_segments s3 = []
        then s3\<lparr>snd_timer_running := False, snd_time_elipsed := 0\<rparr> else s3)"
    have t: "ack_received ackno win s = fill_window t"
      using 3 k(2) w(1)
      by (simp add: ack_received_def q_def [symmetric] word_less_nat_alt word_le_nat_alt unat_ucast_32_64
          not_le t_def s3_def s2_def s1_def)
    have "acked_state q k s t" "snd_receiver_window_size t = ucast win"
      using tm by (auto simp: acked_state_def t_def s3_def s2_def s1_def)
    note t = t this
    have "snd_inv S t"
      by (rule snd_inv_acked [OF inv t(2) _ 3 q31 k(3-5)]) (use t(3) w in simp)
    then show thesis using fresh [OF 3 t(1) _ t(2,3) k(1,4,5)] by blast
  qed
qed

section \<open>Timer\<close>

lemma snd_tick_facts:
  assumes inv: "snd_inv S s"
  obtains s' segs where "snd_tick ms s = Inr s'" "snd_inv S s'" "snd_stream s' = snd_stream s"
    "snd_outstanding_segments s' = snd_outstanding_segments s"
    "snd_segments_out s' = snd_segments_out s @ segs"
    "segs = (if snd_timer_running s \<and> snd_time_elipsed s + ucast ms \<ge> snd_RTO s
             then [hd (snd_outstanding_segments s)] else [])"
    "snd_RTO s' = (if segs \<noteq> [] \<and> snd_back_off s then snd_RTO s * 2 else snd_RTO s)"
    "snd_consecutive_retransmission s' =
       (if segs \<noteq> [] \<and> snd_back_off s then snd_consecutive_retransmission s + 1
        else snd_consecutive_retransmission s)"
    "snd_time_elipsed s' = (if segs \<noteq> [] then 0
       else if snd_timer_running s then snd_time_elipsed s + ucast ms else snd_time_elipsed s)"
proof (cases "snd_timer_running s \<and> snd_time_elipsed s + ucast ms \<ge> snd_RTO s")
  case True
  then obtain front rest where o: "snd_outstanding_segments s = front # rest"
    using inv by (cases "snd_outstanding_segments s") (auto simp: snd_inv_def snd_queue_ok_def)
  define s1 where "s1 = s\<lparr>snd_segments_out := snd_segments_out s @ [front]\<rparr>"
  have "snd_inv S s1"
  proof -
    have "snd_pos_ok s1 = snd_pos_ok s" "snd_queue_ok S s1 = snd_queue_ok S s" "snd_log_ok S s1 = snd_log_ok S s"
      by (simp_all add: s1_def snd_parts fun_eq_iff)
    then show ?thesis using inv o by (auto simp: snd_inv_def s1_def)
  qed
  then show thesis using True o
    by (intro that [of "if snd_back_off s
        then s1\<lparr>snd_time_elipsed := 0, snd_RTO := snd_RTO s * 2,
             snd_consecutive_retransmission := snd_consecutive_retransmission s + 1\<rparr>
        else s1\<lparr>snd_time_elipsed := 0\<rparr>" "[front]"])
      (simp_all add: snd_tick_def s1_def)
next
  case False
  then show thesis using inv
    by (intro that [of "if snd_timer_running s then s\<lparr>snd_time_elipsed := snd_time_elipsed s + ucast ms\<rparr> else s" "[]"])
      (auto simp: snd_tick_def)
qed

lemma snd_inv_empty_segment:
  assumes "snd_inv S s"
  shows "snd_inv S (send_empty_segment s)"
proof -
  let ?s = "send_empty_segment s"
  let ?seg = "seg_new\<lparr>seg_header := (seg_header seg_new)\<lparr>th_seqno := wrap (snd_next_seqno s) (snd_isn s)\<rparr>\<rparr>"
  have "snd_pos_ok ?s = snd_pos_ok s" "snd_queue_ok S ?s = snd_queue_ok S s" "snd_log_ok S ?s = snd_log_ok S s"
    by (simp_all add: send_empty_segment_def snd_parts fun_eq_iff)
  moreover have "snd_log_ok S s ?seg"
    unfolding snd_log_ok_def
    by (intro exI [of _ "unat (snd_next_seqno s)"])
      (simp add: carries_def seg_data_def length_in_sequence_space_def seg_new_def th_new_def)
  ultimately show ?thesis using assms by (auto simp: snd_inv_def send_empty_segment_def)
qed

section \<open>Runs of a sender\<close>

text \<open>
  The application writes an \<open>N\<close>-byte stream \<open>S\<close> in pieces and ends the input when it likes; the
  acknowledgments, windows and ticks are arbitrary.
\<close>

datatype snd_op = SWrite nat | SEndInput | SFill | SAck wrapping_int32 u16 | STick u64 | SEmpty

fun snd_step :: "(nat \<Rightarrow> u8) \<Rightarrow> nat \<Rightarrow> snd_op \<Rightarrow> tcp_sender \<Rightarrow> exn + tcp_sender" where
  "snd_step S N (SWrite n) s =
     (let w = bs_bytes_written (snd_stream s)
      in Inr (s\<lparr>snd_stream := snd (bs_write (map S [w..<min N (w + n)]) (snd_stream s))\<rparr>))"
| "snd_step S N SEndInput s = Inr (s\<lparr>snd_stream := bs_end_input (snd_stream s)\<rparr>)"
| "snd_step S N SFill s = fill_window s"
| "snd_step S N (SAck ackno win) s = ack_received ackno win s"
| "snd_step S N (STick ms) s = snd_tick ms s"
| "snd_step S N SEmpty s = Inr (send_empty_segment s)"

definition snd_run_inv :: "(nat \<Rightarrow> u8) \<Rightarrow> nat \<Rightarrow> wrapping_int32 \<Rightarrow> tcp_sender \<Rightarrow> bool" where
  "snd_run_inv S N isn s \<longleftrightarrow> N + 2 < 2 ^ 31 \<and> snd_inv S s \<and> bs_write_bytes (snd_stream s) \<le> N \<and>
     snd_isn s = isn"

lemma snd_inv_stream:
  assumes "snd_inv S s" "stream_of S st" "bs_read_bytes st = bs_read_bytes (snd_stream s)"
  shows "snd_inv S (s\<lparr>snd_stream := st\<rparr>)"
proof -
  let ?s = "s\<lparr>snd_stream := st\<rparr>"
  have "snd_pos_ok ?s = snd_pos_ok s" "snd_queue_ok S ?s = snd_queue_ok S s" "snd_log_ok S ?s = snd_log_ok S s"
    using assms(3) by (simp_all add: snd_parts fun_eq_iff)
  then show ?thesis using assms by (simp add: snd_inv_def)
qed

lemma stream_of_write:
  assumes "stream_of S st" and d: "d = map S [bs_write_bytes st..<bs_write_bytes st + length d]"
  shows "stream_of S (snd (bs_write d st))"
proof -
  define k where "k = fst (bs_write d st)"
  have c: "bs_contents st = map S [bs_read_bytes st..<bs_write_bytes st]" and i: "bs_inv st"
    and le: "bs_read_bytes st \<le> bs_write_bytes st"
    using assms(1) stream_of_written by (auto simp: stream_of_def)
  have "k \<le> length d" by (simp add: k_def bs_write_accepted)
  then have "take k d = map S [bs_write_bytes st..<bs_write_bytes st + k]"
    by (subst d) (simp add: take_map)
  then have "bs_contents (snd (bs_write d st)) = map S [bs_read_bytes st..<bs_write_bytes st + k]"
    using map_upt_glue [of "bs_read_bytes st" "bs_write_bytes st" "bs_write_bytes st" "bs_write_bytes st + k" S] le
    unfolding bs_write_frame(1) k_def [symmetric] c by simp
  then show ?thesis using bs_inv_write [OF i, of d] by (simp add: stream_of_def k_def)
qed

lemma snd_step_ok:
  assumes "snd_run_inv S N isn s"
  shows "\<exists>s'. snd_step S N op s = Inr s' \<and> snd_run_inv S N isn s'"
proof -
  have inv: "snd_inv S s" and small: "bs_write_bytes (snd_stream s) + 2 < 2 ^ 31"
    and N: "N + 2 < 2 ^ 31" "bs_write_bytes (snd_stream s) \<le> N" "snd_isn s = isn"
    using assms by (auto simp: snd_run_inv_def)
  have st: "stream_of S (snd_stream s)" using inv by (simp add: snd_inv_def)
  have fill: "\<exists>s'. fill_window t = Inr s' \<and> snd_run_inv S N isn s'"
    if "snd_inv S t" "snd_stream t = snd_stream s" "snd_isn t = isn" for t
    by (rule fill_window_facts [OF that(1)]) (use that small N in \<open>auto simp: snd_run_inv_def sends_def\<close>)
  show ?thesis
  proof (cases op)
    case (SWrite n)
    let ?w = "bs_write_bytes (snd_stream s)"
    let ?d = "map S [?w..<min N (?w + n)]"
    have "stream_of S (snd (bs_write ?d (snd_stream s)))"
      by (rule stream_of_write [OF st]) (use N(2) in \<open>simp add: min_def\<close>)
    moreover have "fst (bs_write ?d (snd_stream s)) \<le> N - ?w" by (simp add: bs_write_accepted)
    ultimately show ?thesis
      using SWrite snd_inv_stream [OF inv] N
      by (simp add: snd_run_inv_def bs_bytes_written_def Let_def)
  next
    case SEndInput
    have "stream_of S (bs_end_input (snd_stream s))" using st by (simp add: stream_of_def) (simp add: bs_end_input_def)
    then show ?thesis using SEndInput snd_inv_stream [OF inv] N
      by (simp add: snd_run_inv_def) (simp add: bs_end_input_def)
  next
    case SFill
    then show ?thesis using fill [OF inv] N by simp
  next
    case (SAck ackno win)
    show ?thesis
    proof (cases rule: ack_received_cases [OF inv small, of ackno win])
      case 1
      then show ?thesis using SAck assms by simp
    next
      case (2 s')
      then show ?thesis using SAck N by (simp add: snd_run_inv_def)
    next
      case (3 k t)
      then show ?thesis using SAck fill [of t] N by (simp add: acked_state_def)
    qed
  next
    case (STick ms)
    show ?thesis
      by (rule snd_tick_facts [OF inv, of ms])
        (use STick N in \<open>auto simp: snd_run_inv_def snd_tick_def Let_def split: if_splits list.splits\<close>)
  next
    case SEmpty
    then show ?thesis using snd_inv_empty_segment [OF inv] N
      by (simp add: snd_run_inv_def) (simp add: send_empty_segment_def)
  qed
qed

interpretation snd: step_system "snd_step S N" "\<lambda>_. True" "snd_run_inv S N isn" for S N isn
  by unfold_locales (rule snd_step_ok)

lemma snd_run_new:
  assumes "N + 2 < 2 ^ 31"
  obtains s where "run_ops (snd_step S N) ops (snd_new cap rto fixed rnd) = Inr s"
    "snd_inv S s" "bs_write_bytes (snd_stream s) \<le> N" "snd_isn s = snd_isn (snd_new cap rto fixed rnd)"
proof -
  have "snd_run_inv S N (snd_isn (snd_new cap rto fixed rnd)) (snd_new cap rto fixed rnd)"
    using assms snd_inv_new by (simp add: snd_run_inv_def) (simp add: snd_new_def bs_new_def)
  from snd.run_inv [OF _ this, of ops] show thesis using that by (auto simp: snd_run_inv_def)
qed

section \<open>Properties\<close>

text \<open>
  (C14) Invariant of the sender, for every sequence of operations with arbitrary acknowledgment numbers,
  windows and ticks: no operation runs into undefined behaviour (in particular \<open>tick\<close> never takes the
  front of an empty queue); the timer runs exactly when segments are outstanding; these follow each
  other without gap up to \<open>next_seqno\<close> and carry the bytes of the stream; \<open>bytes_in_flight\<close> is their
  total length.
\<close>

theorem sender_invariant:
  assumes "N + 2 < 2 ^ 31"
  shows "\<exists>s. run_ops (snd_step S N) ops (snd_new cap rto (Some isn) rnd) = Inr s \<and>
    (snd_timer_running s \<longleftrightarrow> snd_outstanding_segments s \<noteq> []) \<and>
    unat (snd_bytes_in_flight s) = flight (snd_outstanding_segments s) \<and>
    unat (snd_rcv_base s) \<le> unat (snd_next_seqno s) \<and>
    sent_chain S isn (unat (snd_next_seqno s) - flight (snd_outstanding_segments s))
      (snd_outstanding_segments s) (unat (snd_next_seqno s))"
proof (rule snd_run_new [OF assms])
  fix s
  assume s: "run_ops (snd_step S N) ops (snd_new cap rto (Some isn) rnd) = Inr s" "snd_inv S s"
    "snd_isn s = snd_isn (snd_new cap rto (Some isn) rnd)"
  have q: "snd_queue_ok S s" using s(2) by (simp add: snd_inv_def)
  have "flight (snd_outstanding_segments s) < 2 ^ 64"
    using q unat_lt64 [of "snd_next_seqno s"] by (simp add: snd_queue_ok_def del: unat_lt64)
  then have "unat (snd_bytes_in_flight s) = flight (snd_outstanding_segments s)"
    using q by (simp add: snd_queue_ok_def unat_of_nat64)
  then show ?thesis using s q by (auto simp: snd_queue_ok_def snd_base_def snd_new_def)
qed

theorem sender_invariant_witness:
  "\<exists>s. run_ops (snd_step (\<lambda>_. 7) 5) [SWrite 5, SFill, SAck 1 3, STick 1000] (snd_new 8 1000 (Some 0) 0) = Inr s \<and>
    unat (snd_bytes_in_flight s) = flight (snd_outstanding_segments s)"
  using sender_invariant [of 5 "\<lambda>_. 7" "[SWrite 5, SFill, SAck 1 3, STick 1000]" 8 1000 0 0] by auto

text \<open>
  (C26) Flow control: when nothing beyond the window has been sent, \<open>fill_window\<close> sends up to the right
  edge of the window and at most one sequence number (a FIN) beyond it, and stops before the edge only
  when the outbound stream is drained; a stream at its end is closed by a FIN if there is room.
\<close>

theorem fill_window_bounds:
  assumes "snd_inv S s" "bs_write_bytes (snd_stream s) + 2 < 2 ^ 31" "may_fill s"
    and "unat (snd_next_seqno s) \<le> right_edge s"
  shows "\<exists>s'. fill_window s = Inr s' \<and>
    unat (snd_next_seqno s') \<le> right_edge s + (if snd_fin_sent s' then 1 else 0) \<and>
    (snd_fin_sent s' \<or> bs_buffer_empty (snd_stream s') \<or> unat (snd_next_seqno s') = right_edge s) \<and>
    (bs_eof (snd_stream s) \<and> unat (snd_next_seqno s) < right_edge s \<longrightarrow> snd_fin_sent s')"
  by (rule fill_window_facts [OF assms(1,2)]) (use assms(3,4) in \<open>fastforce simp: filled_def\<close>)

lemma sender_example:
  obtains s where "run_ops (snd_step (\<lambda>_. 7) 4) [SFill, SAck 1 3, SWrite 4] (snd_new 8 1000 (Some 0) 0) = Inr s"
    "snd_inv (\<lambda>_. 7) s" "bs_write_bytes (snd_stream s) + 2 < 2 ^ 31" "may_fill s"
    "unat (snd_next_seqno s) \<le> right_edge s"
proof -
  obtain s where s: "run_ops (snd_step (\<lambda>_. 7) 4) [SFill, SAck 1 3, SWrite 4] (snd_new 8 1000 (Some 0) 0) = Inr s"
      "snd_inv (\<lambda>_. 7) s" "bs_write_bytes (snd_stream s) \<le> 4"
    by (rule snd_run_new [of 4 "\<lambda>_. 7" "[SFill, SAck 1 3, SWrite 4]" 8 1000 "Some 0" 0]) (simp, rule that)
  have "case run_ops (snd_step (\<lambda>_. 7) 4) [SFill, SAck 1 3, SWrite 4] (snd_new 8 1000 (Some 0) 0) of
      Inr s \<Rightarrow> may_fill s \<and> unat (snd_next_seqno s) \<le> right_edge s | Inl e \<Rightarrow> False" by code_simp
  then show thesis using that s by simp
qed

theorem fill_window_bounds_witness:
  "\<exists>s s'. run_ops (snd_step (\<lambda>_. 7) 4) [SFill, SAck 1 3, SWrite 4] (snd_new 8 1000 (Some 0) 0) = Inr s \<and>
     fill_window s = Inr s' \<and> unat (snd_next_seqno s') \<le> right_edge s + 1"
proof (rule sender_example)
  fix s
  assume "run_ops (snd_step (\<lambda>_. 7) 4) [SFill, SAck 1 3, SWrite 4] (snd_new 8 1000 (Some 0) 0) = Inr s"
    and s: "snd_inv (\<lambda>_. 7) s" "bs_write_bytes (snd_stream s) + 2 < 2 ^ 31" "may_fill s"
      "unat (snd_next_seqno s) \<le> right_edge s"
  with fill_window_bounds [OF s] show ?thesis by (fastforce split: if_splits)
qed

text \<open>
  (C27) Handling of an acknowledgment number \<open>q\<close> (unwrapped): one beyond \<open>next_seqno\<close> changes nothing; one
  that acknowledges nothing new changes only the window and the back-off flag; a new one pops exactly
  the segments that lie entirely below \<open>q\<close>, restarts the timer with the initial timeout if it popped
  any, and then fills the window.
\<close>

theorem ack_received_spec:
  assumes "snd_inv S s" "bs_write_bytes (snd_stream s) + 2 < 2 ^ 31"
    and "q = unwrap ackno (snd_isn s) (ucast (snd_rcv_base s))"
  shows "if unat (snd_next_seqno s) < unat q then ack_received ackno win s = Inr s
    else if unat q \<le> unat (snd_rcv_base s) then ack_received ackno win s =
      Inr (s\<lparr>snd_receiver_window_size := ucast win, snd_back_off := (win \<noteq> 0)\<rparr>)
    else \<exists>k t s' new. ack_received ackno win s = Inr s' \<and> fill_window t = Inr s' \<and>
      snd_outstanding_segments t = drop k (snd_outstanding_segments s) \<and>
      snd_outstanding_segments s' = drop k (snd_outstanding_segments s) @ new \<and>
      (0 < k \<longrightarrow> snd_base s + flight (take k (snd_outstanding_segments s)) \<le> unat q \<and>
         snd_RTO t = snd_initial_retransmission_timeout s \<and> snd_time_elipsed t = 0 \<and>
         snd_consecutive_retransmission t = 0) \<and>
      (drop k (snd_outstanding_segments s) \<noteq> [] \<longrightarrow>
         unat q < snd_base s + flight (take (Suc k) (snd_outstanding_segments s)))"
proof (cases rule: ack_received_cases [OF assms(1,2), of ackno win, folded assms(3)])
  case 1
  then show ?thesis by simp
next
  case (2 s')
  moreover have "unat (snd_rcv_base s) \<le> unat (snd_next_seqno s)"
    using assms(1) by (simp add: snd_inv_def snd_queue_ok_def)
  ultimately show ?thesis by simp
next
  case (3 k t)
  note fresh = 3
  have small: "bs_write_bytes (snd_stream t) + 2 < 2 ^ 31" using fresh(5) assms(2) by (simp add: acked_state_def)
  obtain s' new where f: "fill_window t = Inr s'" "sends t new s'"
    by (rule fill_window_facts [OF fresh(4) small]) (rule that)
  have "flight (take (Suc k) os) = flight (take k os) + seg_len (hd (drop k os))" if "drop k os \<noteq> []" for os
    using that by (simp add: take_Suc_conv_app_nth hd_drop_conv_nth)
  then show ?thesis using fresh f
    by (auto simp: acked_state_def sends_def intro!: exI [of _ k] exI [of _ t])
qed

theorem ack_received_spec_witness:
  "ack_received 5 100 (snd_new 8 1000 (Some 0) 0) = Inr (snd_new 8 1000 (Some 0) 0)"
proof -
  let ?s = "snd_new 8 1000 (Some 0) 0"
  have "bs_write_bytes (snd_stream ?s) + 2 < 2 ^ 31" by (simp add: snd_new_def bs_new_def)
  from ack_received_spec [where ackno = 5 and win = 100, OF snd_inv_new this refl] show ?thesis
    by (simp add: snd_new_def unwrap_def wrap_def wi_minus_def)
qed

text \<open>
  (C28) The retransmission timer: \<open>tick\<close> never fails; when the elapsed time reaches the timeout it
  retransmits the oldest outstanding segment, restarts the timer, and, if the window is not zero,
  doubles the timeout and counts the retransmission; otherwise it sends nothing.
\<close>

theorem tick_retransmits:
  assumes "snd_inv S s"
  shows "\<exists>s'. snd_tick ms s = Inr s' \<and>
    snd_outstanding_segments s' = snd_outstanding_segments s \<and>
    (if snd_outstanding_segments s \<noteq> [] \<and> snd_RTO s \<le> snd_time_elipsed s + ucast ms
     then snd_segments_out s' = snd_segments_out s @ [hd (snd_outstanding_segments s)] \<and>
       snd_time_elipsed s' = 0 \<and>
       snd_RTO s' = (if snd_back_off s then snd_RTO s * 2 else snd_RTO s) \<and>
       snd_consecutive_retransmission s' =
         snd_consecutive_retransmission s + (if snd_back_off s then 1 else 0)
     else snd_segments_out s' = snd_segments_out s \<and> snd_RTO s' = snd_RTO s)"
  by (rule snd_tick_facts [OF assms, of ms])
    (use assms in \<open>auto simp: snd_inv_def snd_queue_ok_def split: if_splits\<close>)

theorem tick_retransmits_witness:
  "\<exists>s s'. run_ops (snd_step (\<lambda>_. 7) 4) [SFill, SAck 1 3, SWrite 4] (snd_new 8 1000 (Some 0) 0) = Inr s \<and>
     snd_tick 10 s = Inr s' \<and> snd_outstanding_segments s' = snd_outstanding_segments s"
proof (rule sender_example)
  fix s
  assume "run_ops (snd_step (\<lambda>_. 7) 4) [SFill, SAck 1 3, SWrite 4] (snd_new 8 1000 (Some 0) 0) = Inr s"
    and s: "snd_inv (\<lambda>_. 7) s"
  with tick_retransmits [OF s, of 10] show ?thesis by blast
qed


end
