(* ===== verification/Tcp_State.thy ===== *)
theory Tcp_State
  imports Sender
begin

text \<open>
  Model of \<open>tcp_helpers/tcp_state\<close>: the summary of a connection that the test suite compares with the
  official TCP states. The summaries of the two halves are the strings of the source.
\<close>

section \<open>Summaries\<close>

definition RECEIVER_ERROR :: string where "RECEIVER_ERROR = ''error (connection was reset)''"
definition RECEIVER_LISTEN :: string where "RECEIVER_LISTEN = ''waiting for SYN: ackno is empty''"
definition RECEIVER_SYN_RECV :: string where
  "RECEIVER_SYN_RECV = ''SYN received (ackno exists), and input to stream hasn't ended''"
definition RECEIVER_FIN_RECV :: string where "RECEIVER_FIN_RECV = ''input to stream has ended''"

definition SENDER_ERROR :: string where "SENDER_ERROR = ''error (connection was reset)''"
definition SENDER_CLOSED :: string where "SENDER_CLOSED = ''waiting for stream to begin (no SYN sent)''"
definition SENDER_SYN_SENT :: string where "SENDER_SYN_SENT = ''stream started but nothing acknowledged''"
definition SENDER_SYN_ACKED :: string where "SENDER_SYN_ACKED = ''stream ongoing''"
definition SENDER_FIN_SENT :: string where
  "SENDER_FIN_SENT = ''stream finished (FIN sent) but not fully acknowledged''"
definition SENDER_FIN_ACKED :: string where
  "SENDER_FIN_ACKED = ''stream finished and fully acknowledged''"

datatype official_state = LISTEN | SYN_RCVD | SYN_SENT | ESTABLISHED | CLOSE_WAIT | LAST_ACK
  | FIN_WAIT_1 | FIN_WAIT_2 | CLOSING | TIME_WAIT | CLOSED | RESET

record tcp_state =
  ts_sender :: string
  ts_receiver :: string
  ts_active :: bool
  ts_linger :: bool

definition ts_eq :: "tcp_state \<Rightarrow> tcp_state \<Rightarrow> bool" where
  "ts_eq a b \<longleftrightarrow> ts_active a = ts_active b \<and> ts_linger a = ts_linger b \<and>
     ts_sender a = ts_sender b \<and> ts_receiver a = ts_receiver b"

definition bool_to_string :: "bool \<Rightarrow> string" where
  "bool_to_string b = (if b then ''1'' else ''0'')"

definition ts_name :: "tcp_state \<Rightarrow> string" where
  "ts_name s = ''sender=`'' @ ts_sender s @ ''`, receiver=`'' @ ts_receiver s @ ''`, active='' @
     bool_to_string (ts_active s) @ '', linger_after_streams_finish='' @ bool_to_string (ts_linger s)"

fun ts_official :: "official_state \<Rightarrow> tcp_state" where
  "ts_official LISTEN = \<lparr>ts_sender = SENDER_CLOSED, ts_receiver = RECEIVER_LISTEN, ts_active = True, ts_linger = True\<rparr>"
| "ts_official SYN_RCVD = \<lparr>ts_sender = SENDER_SYN_SENT, ts_receiver = RECEIVER_SYN_RECV, ts_active = True, ts_linger = True\<rparr>"
| "ts_official SYN_SENT = \<lparr>ts_sender = SENDER_SYN_SENT, ts_receiver = RECEIVER_LISTEN, ts_active = True, ts_linger = True\<rparr>"
| "ts_official ESTABLISHED = \<lparr>ts_sender = SENDER_SYN_ACKED, ts_receiver = RECEIVER_SYN_RECV, ts_active = True, ts_linger = True\<rparr>"
| "ts_official CLOSE_WAIT = \<lparr>ts_sender = SENDER_SYN_ACKED, ts_receiver = RECEIVER_FIN_RECV, ts_active = True, ts_linger = False\<rparr>"
| "ts_official LAST_ACK = \<lparr>ts_sender = SENDER_FIN_SENT, ts_receiver = RECEIVER_FIN_RECV, ts_active = True, ts_linger = False\<rparr>"
| "ts_official CLOSING = \<lparr>ts_sender = SENDER_FIN_SENT, ts_receiver = RECEIVER_FIN_RECV, ts_active = True, ts_linger = True\<rparr>"
| "ts_official FIN_WAIT_1 = \<lparr>ts_sender = SENDER_FIN_SENT, ts_receiver = RECEIVER_SYN_RECV, ts_active = True, ts_linger = True\<rparr>"
| "ts_official FIN_WAIT_2 = \<lparr>ts_sender = SENDER_FIN_ACKED, ts_receiver = RECEIVER_SYN_RECV, ts_active = True, ts_linger = True\<rparr>"
| "ts_official TIME_WAIT = \<lparr>ts_sender = SENDER_FIN_ACKED, ts_receiver = RECEIVER_FIN_RECV, ts_active = True, ts_linger = True\<rparr>"
| "ts_official RESET = \<lparr>ts_sender = SENDER_ERROR, ts_receiver = RECEIVER_ERROR, ts_active = False, ts_linger = False\<rparr>"
| "ts_official CLOSED = \<lparr>ts_sender = SENDER_FIN_ACKED, ts_receiver = RECEIVER_FIN_RECV, ts_active = False, ts_linger = False\<rparr>"

definition receiver_summary :: "tcp_receiver \<Rightarrow> string" where
  "receiver_summary receiver =
     (if bs_error (rc_stream_out receiver) then RECEIVER_ERROR
      else if rc_ackno receiver = None then RECEIVER_LISTEN
      else if bs_input_ended (rc_stream_out receiver) then RECEIVER_FIN_RECV
      else RECEIVER_SYN_RECV)"

definition sender_summary :: "tcp_sender \<Rightarrow> string" where
  "sender_summary sender =
     (if bs_error (snd_stream sender) then SENDER_ERROR
      else if snd_next_seqno sender = 0 then SENDER_CLOSED
      else if snd_next_seqno sender = snd_bytes_in_flight sender then SENDER_SYN_SENT
      else if \<not> bs_eof (snd_stream sender) then SENDER_SYN_ACKED
      else if snd_next_seqno sender < of_nat (bs_bytes_written (snd_stream sender)) + 2 then SENDER_SYN_ACKED
      else if snd_bytes_in_flight sender \<noteq> 0 then SENDER_FIN_SENT
      else SENDER_FIN_ACKED)"

definition ts_of :: "tcp_sender \<Rightarrow> tcp_receiver \<Rightarrow> bool \<Rightarrow> bool \<Rightarrow> tcp_state" where
  "ts_of sender receiver active linger =
     \<lparr>ts_sender = sender_summary sender, ts_receiver = receiver_summary receiver, ts_active = active,
      ts_linger = (if active then linger else False)\<rparr>"

lemmas summary_strings = RECEIVER_ERROR_def RECEIVER_LISTEN_def RECEIVER_SYN_RECV_def RECEIVER_FIN_RECV_def
  SENDER_ERROR_def SENDER_CLOSED_def SENDER_SYN_SENT_def SENDER_SYN_ACKED_def SENDER_FIN_SENT_def
  SENDER_FIN_ACKED_def

section \<open>Properties\<close>


lemma snd_nothing_acked:
  assumes inv: "snd_inv S s" and small: "bs_write_bytes (snd_stream s) + 2 < 2 ^ 31"
  shows "snd_next_seqno s = snd_bytes_in_flight s \<longleftrightarrow> snd_base s = 0"
proof -
  have q: "snd_bytes_in_flight s = of_nat (flight (snd_outstanding_segments s))"
      "flight (snd_outstanding_segments s) \<le> unat (snd_next_seqno s)"
    using inv by (auto simp: snd_inv_def snd_queue_ok_def)
  have "unat (snd_bytes_in_flight s) = flight (snd_outstanding_segments s)"
    using q snd_next_bound(1) [OF inv small] by (simp add: unat_of_nat64)
  then have "snd_next_seqno s = snd_bytes_in_flight s \<longleftrightarrow>
      unat (snd_next_seqno s) = flight (snd_outstanding_segments s)" by (simp add: word_unat_eq_iff)
  then show ?thesis using q(2) by (auto simp: snd_base_def)
qed

lemma sent_chain_flight_0: "sent_chain S isn a segs e \<Longrightarrow> flight segs = 0 \<longleftrightarrow> segs = []"
  by (cases segs) auto

lemma snd_eof_fin:
  assumes inv: "snd_inv S s" and small: "bs_write_bytes (snd_stream s) + 2 < 2 ^ 31"
    and "snd_syn_sent s" "bs_eof (snd_stream s)"
  shows "snd_next_seqno s < of_nat (bs_bytes_written (snd_stream s)) + 2 \<longleftrightarrow> \<not> snd_fin_sent s"
proof -
  have e: "bs_contents (snd_stream s) = []" using assms(4) by (simp add: bs_eof_def)
  have "bs_inv (snd_stream s)" using inv by (simp add: snd_inv_def stream_of_def)
  then have rw: "bs_read_bytes (snd_stream s) = bs_write_bytes (snd_stream s)" using e by (simp add: bs_inv_def)
  have "unat (of_nat (bs_write_bytes (snd_stream s)) + 2 :: u64) = bs_write_bytes (snd_stream s) + 2"
    using small by (simp add: unat_add64 unat_of_nat64)
  moreover have "unat (snd_next_seqno s) = 1 + bs_read_bytes (snd_stream s) + (if snd_fin_sent s then 1 else 0)"
    using inv assms(3) by (simp add: snd_inv_def snd_pos_ok_def)
  ultimately show ?thesis using rw by (simp add: word_less_nat_alt bs_bytes_written_def)
qed

text \<open>
  The summary of a sender means what its name says: no SYN sent; nothing acknowledged (the SYN is
  still outstanding); FIN sent and something outstanding; FIN sent and everything acknowledged.
\<close>

theorem sender_summary_correct:
  assumes "snd_inv S s" "bs_write_bytes (snd_stream s) + 2 < 2 ^ 31" "\<not> bs_error (snd_stream s)"
  shows "(sender_summary s = SENDER_CLOSED \<longleftrightarrow> \<not> snd_syn_sent s) \<and>
    (sender_summary s = SENDER_SYN_SENT \<longleftrightarrow> snd_syn_sent s \<and> snd_base s = 0) \<and>
    (bs_eof (snd_stream s) \<and> snd_base s \<noteq> 0 \<longrightarrow>
       (sender_summary s = SENDER_FIN_SENT \<longleftrightarrow> snd_fin_sent s \<and> snd_outstanding_segments s \<noteq> []) \<and>
       (sender_summary s = SENDER_FIN_ACKED \<longleftrightarrow> snd_fin_sent s \<and> snd_outstanding_segments s = []))"
proof -
  have q: "snd_queue_ok S s" and p: "snd_pos_ok s" using assms(1) by (auto simp: snd_inv_def)
  have z: "snd_next_seqno s = 0 \<longleftrightarrow> \<not> snd_syn_sent s"
    using p by (auto simp: snd_pos_ok_def unat_eq_0 [symmetric] split: if_splits)
  have b: "snd_base s \<noteq> 0 \<Longrightarrow> snd_syn_sent s" using z by (auto simp: snd_base_def)
  have o: "snd_bytes_in_flight s = 0 \<longleftrightarrow> snd_outstanding_segments s = []"
  proof -
    have "unat (snd_bytes_in_flight s) = flight (snd_outstanding_segments s)"
      using q snd_next_bound(1) [OF assms(1,2)] by (simp add: snd_queue_ok_def unat_of_nat64)
    then show ?thesis using q sent_chain_flight_0 by (auto simp: snd_queue_ok_def unat_eq_0 [symmetric])
  qed
  note n = snd_nothing_acked [OF assms(1,2)] and f = snd_eof_fin [OF assms(1,2)]
  show ?thesis
    using assms(3) z b o n f by (cases "snd_syn_sent s") (auto simp: sender_summary_def summary_strings)
qed

theorem sender_summary_correct_witness:
  "sender_summary (snd_new 8 1000 (Some 0) 0) = SENDER_CLOSED"
proof -
  let ?s = "snd_new 8 1000 (Some 0) 0"
  have "bs_write_bytes (snd_stream ?s) + 2 < 2 ^ 31" "\<not> bs_error (snd_stream ?s)" "\<not> snd_syn_sent ?s"
    by (simp_all add: snd_new_def bs_new_def)
  then show ?thesis using sender_summary_correct [OF snd_inv_new] by blast
qed

end
