(* ===== verification/Reassembler_Safety.thy ===== *)
theory Reassembler_Safety
  imports Reassembler
begin

text \<open>
  The reassembler never looks at the bytes it moves: it commutes with every map \<open>f\<close> on byte values.
  Blanking all bytes turns any state into one that assembles the constant stream, so the class
  invariant without any assumption on the data, and with it the absence of failures on arbitrary
  input, follows from the results of \<open>Reassembler\<close>.
\<close>

section \<open>Mapping byte values\<close>

definition buf_map :: "(u8 \<Rightarrow> u8) \<Rightarrow> buffer \<Rightarrow> buffer" where
  "buf_map f b = b\<lparr>buf_storage := map_option (map f) (buf_storage b)\<rparr>"

definition bs_map :: "(u8 \<Rightarrow> u8) \<Rightarrow> byte_stream \<Rightarrow> byte_stream" where
  "bs_map f s = s\<lparr>bs_buffer := map (buf_map f) (bs_buffer s)\<rparr>"

definition node_map :: "(u8 \<Rightarrow> u8) \<Rightarrow> node \<Rightarrow> node" where
  "node_map f n = n\<lparr>node_data := map f (node_data n)\<rparr>"

definition ra_map :: "(u8 \<Rightarrow> u8) \<Rightarrow> stream_reassembler \<Rightarrow> stream_reassembler" where
  "ra_map f r = r\<lparr>ra_data_buffer := map (node_map f) (ra_data_buffer r), ra_output := bs_map f (ra_output r)\<rparr>"

lemma node_map_simps [simp]:
  "node_idx (node_map f n) = node_idx n" "node_len (node_map f n) = node_len n"
  "node_data (node_map f n) = map f (node_data n)"
  "node_less (node_map f a) b = node_less a b" "node_less a (node_map f b) = node_less a b"
  "node_map f (mk_node i d) = mk_node i (map f d)"
  by (simp_all add: node_map_def node_less_def mk_node_def)

lemma ra_map_simps [simp]:
  "ra_data_buffer (ra_map f r) = map (node_map f) (ra_data_buffer r)"
  "ra_output (ra_map f r) = bs_map f (ra_output r)"
  "ra_cur_idx (ra_map f r) = ra_cur_idx r" "ra_capacity (ra_map f r) = ra_capacity r"
  "ra_input_end_idx (ra_map f r) = ra_input_end_idx r"
  "ra_unassembled_bytes (ra_map f r) = ra_unassembled_bytes r" "ra_empty (ra_map f r) = ra_empty r"
  by (simp_all add: ra_map_def ra_empty_def)

lemma buf_str_map [simp]: "buf_str (buf_map f b) = map f (buf_str b)"
  by (cases "buf_storage b") (simp_all add: buf_map_def buf_str_def drop_map)

lemma bs_map_simps [simp]:
  "bs_contents (bs_map f s) = map f (bs_contents s)" "bs_capacity (bs_map f s) = bs_capacity s"
  "bs_read_bytes (bs_map f s) = bs_read_bytes s" "bs_write_bytes (bs_map f s) = bs_write_bytes s"
  "bs_input_end (bs_map f s) = bs_input_end s" "bs_error (bs_map f s) = bs_error s"
  "bs_map f (bs_end_input s) = bs_end_input (bs_map f s)" "bs_map f (bs_set_error s) = bs_set_error (bs_map f s)"
  by (simp_all add: bs_map_def bs_contents_def bl_concatenate_eq map_concat comp_def bs_end_input_def
      bs_set_error_def)

lemma bs_write_map:
  "bs_write (map f d) (bs_map f s) = (fst (bs_write d s), bs_map f (snd (bs_write d s)))"
proof -
  have "bl_of_string (map f xs) = map (buf_map f) (bl_of_string xs)" for xs
    by (simp add: bl_of_string_def buf_of_string_def buf_map_def)
  then show ?thesis
    by (simp add: bs_write_def Let_def take_map) (simp add: bs_map_def)
qed

lemma merge_to_map:
  "merge_to (node_map f a) (node_map f b) = (fst (merge_to a b), node_map f (snd (merge_to a b)))"
  by (auto simp: merge_to_def Let_def drop_map node_map_def)

lemma set_ops_map [simp]:
  "set_lower_bound (node_map f b) (map (node_map f) ns) = set_lower_bound b ns"
  "set_erase_at i (map (node_map f) ns) = map (node_map f) (set_erase_at i ns)"
  "set_erase (node_map f b) (map (node_map f) ns) = map (node_map f) (set_erase b ns)"
  "set_insert (node_map f b) (map (node_map f) ns) = map (node_map f) (set_insert b ns)"
proof -
  show lb: "set_lower_bound (node_map f b) (map (node_map f) ns) = set_lower_bound b ns"
    by (simp add: set_lower_bound_def takeWhile_map comp_def)
  show "set_erase_at i (map (node_map f) ns) = map (node_map f) (set_erase_at i ns)"
    by (simp add: set_erase_at_def take_map drop_map)
  show "set_erase (node_map f b) (map (node_map f) ns) = map (node_map f) (set_erase b ns)"
    by (simp add: set_erase_def filter_map comp_def)
  show "set_insert (node_map f b) (map (node_map f) ns) = map (node_map f) (set_insert b ns)"
    using lb by (cases "set_lower_bound b ns < length ns") (simp_all add: set_insert_def Let_def take_map drop_map)
qed

definition triple_map :: "(u8 \<Rightarrow> u8) \<Rightarrow> node \<times> u64 \<times> node_set \<Rightarrow> node \<times> u64 \<times> node_set" where
  "triple_map f t = (case t of (b, u, ns) \<Rightarrow> (node_map f b, u, map (node_map f) ns))"

lemma merge_succ_map: "merge_succ (node_map f b) u (map (node_map f) ns) = triple_map f (merge_succ b u ns)"
proof (induction b u ns rule: merge_succ.induct)
  case (1 b u ns)
  define it where "it = set_lower_bound b ns"
  show ?case
  proof (cases "it < length ns")
    case True
    obtain k b' where m: "merge_to b (ns ! it) = (k, b')" by force
    have "merge_to (node_map f b) (node_map f (ns ! it)) = (k, node_map f b')" by (simp add: merge_to_map m)
    then show ?thesis using "1.IH" [OF it_def True m [symmetric] refl] True m
      by (subst (1 2) merge_succ.simps) (auto simp: it_def [symmetric] Let_def triple_map_def)
  next
    case False
    then show ?thesis by (subst (1 2) merge_succ.simps) (simp add: it_def [symmetric] Let_def triple_map_def)
  qed
qed

lemma merge_prev_map: "merge_prev (node_map f b) u (map (node_map f) ns) = triple_map f (merge_prev b u ns)"
proof (induction b u ns rule: merge_prev.induct)
  case (1 b u ns)
  define it where "it = set_lower_bound b ns"
  show ?case
  proof (cases "it = 0")
    case False
    have "it \<le> length ns" by (simp add: it_def set_lower_bound_def length_takeWhile_le)
    then have i: "it - 1 < length ns" using False by simp
    obtain k b' where m: "merge_to b (ns ! (it - 1)) = (k, b')" by force
    have "merge_to (node_map f b) (node_map f (ns ! (it - 1))) = (k, node_map f b')"
      unfolding merge_to_map m by simp
    then show ?thesis using "1.IH" [OF it_def False m [symmetric] refl] False m i
      by (subst (1 2) merge_prev.simps) (auto simp: it_def [symmetric] Let_def triple_map_def)
  next
    case True
    then show ?thesis by (subst (1 2) merge_prev.simps) (simp add: it_def [symmetric] Let_def triple_map_def)
  qed
qed

lemma store_block_map: "store_block (node_map f b) (ra_map f r) = ra_map f (store_block b r)"
proof -
  obtain b1 u1 ns1 where 1: "merge_succ b (ra_unassembled_bytes r + node_len b) (ra_data_buffer r) = (b1, u1, ns1)"
    by (metis prod_cases3)
  obtain b2 u2 ns2 where 2: "merge_prev b1 u1 ns1 = (b2, u2, ns2)" by (metis prod_cases3)
  show ?thesis
    using merge_prev_map [of f b1 u1 ns1]
    by (simp add: store_block_def merge_succ_map 1 2 triple_map_def ra_map_def)
qed

lemma write_ready_map: "write_ready (ra_map f r) = ra_map f (write_ready r)"
proof (cases "ra_data_buffer r")
  case (Cons t ts)
  have "set_erase (node_map f t) (node_map f t # map (node_map f) ts) = map (node_map f) (set_erase t (t # ts))"
    using set_ops_map(3) [of f t "t # ts"] by simp
  then show ?thesis using Cons
    by (simp add: write_ready_def bs_write_map split_beta ra_map_def)
qed (simp add: write_ready_def)

lemma clip_map:
  "clip_right m (node_map f b) = node_map f (clip_right m b)"
  "clip_left c i (node_map f b) = map_sum id (node_map f) (clip_left c i b)"
  by (auto simp: clip_right_def clip_left_def node_map_def Let_def take_map drop_map)

lemma ra_end_input_if_map: "ra_end_input_if c (ra_map f r) = ra_map f (ra_end_input_if c r)"
  by (simp add: ra_end_input_if_def ra_map_def)

lemma bindE_map_sum: "bindE (map_sum id g m) h = bindE m (\<lambda>x. h (g x))"
  by (cases m) simp_all

lemma map_sum_bindE: "map_sum id g (bindE m h) = bindE m (\<lambda>x. map_sum id g (h x))"
  by (cases m) simp_all

lemma push_substring_map:
  "push_substring (map f data) i e (ra_map f r) = map_sum id (ra_map f) (push_substring data i e r)"
proof -
  have u: "(ra_map f r)\<lparr>ra_input_end_idx := x\<rparr> = ra_map f (r\<lparr>ra_input_end_idx := x\<rparr>)" for x
    by (simp add: ra_map_def)
  have "node_map f (mk_node i data) = mk_node i (map f data)" by simp
  then have c: "clip_left c i (clip_right m (mk_node i (map f data))) =
      map_sum id (node_map f) (clip_left c i (clip_right m (mk_node i data)))" for c m
    using clip_map by metis
  show ?thesis
    by (simp add: push_substring_def Let_def u c bindE_map_sum map_sum_bindE store_block_map
        write_ready_map ra_end_input_if_map if_distrib [of "map_sum id (ra_map f)"])
qed

section \<open>The invariant without assumptions on the data\<close>

definition blank :: "u8 \<Rightarrow> u8" where
  "blank b = 0"

definition ra_ok :: "stream_reassembler \<Rightarrow> bool" where
  "ra_ok r \<longleftrightarrow> ra_inv (\<lambda>_. 0) (ra_map blank r)"

lemma ra_ok_new [simp]: "ra_ok (ra_new c)"
proof -
  have "ra_map blank (ra_new c) = ra_new c" by (simp add: ra_map_def ra_new_def bs_map_def bs_new_def)
  then show ?thesis by (simp add: ra_ok_def)
qed

lemma node_cover_map [simp]: "node_cover (node_map f n) = node_cover n"
  by (simp add: node_cover_def node_lo_def node_hi_def)

lemma received_map [simp]: "received (ra_map f r) = received r" "ra_max (ra_map f r) = ra_max r"
  by (simp_all add: received_def covered_def ra_max_def)

lemma pushed_map: "pushed (map f d) i e (ra_map f r) (ra_map f r') = pushed d i e r r'"
  by (simp add: pushed_def)

lemma push_ok:
  assumes "ra_ok r" "ra_max r < 2 ^ 62" "length data < 2 ^ 62"
  obtains r' where "push_substring data i e r = Inr r'" "ra_ok r'" "pushed data i e r r'"
proof -
  have z: "map blank data = map (\<lambda>_. 0) [unat i..<unat i + length (map blank data)]"
    by (rule nth_equalityI) (simp_all add: blank_def)
  obtain q where q: "push_substring (map blank data) i e (ra_map blank r) = Inr q" "ra_inv (\<lambda>_. 0) q"
      "pushed (map blank data) i e (ra_map blank r) q"
    by (rule push_facts [of "\<lambda>_. 0" "ra_map blank r" "map blank data" i e])
      (use assms z that in \<open>simp_all add: ra_ok_def\<close>)
  then obtain r' where r': "push_substring data i e r = Inr r'" "q = ra_map blank r'"
    by (cases "push_substring data i e r") (auto simp: push_substring_map)
  then show thesis using q that [of r'] by (simp add: ra_ok_def pushed_map)
qed

lemma map_blank_eq: "map blank xs = map (\<lambda>_. 0) ys \<longleftrightarrow> length xs = length ys"
  by (auto simp: list_eq_iff_nth_eq blank_def)

lemma ra_ok_out:
  "out_ok (\<lambda>_. 0) (ra_map blank r) \<longleftrightarrow> bs_inv (ra_output r) \<and>
     bs_capacity (ra_output r) = unat (ra_capacity r) \<and> bs_write_bytes (ra_output r) = unat (ra_cur_idx r)"
  by (auto simp: out_ok_def map_blank_eq bs_inv_def)

lemma ra_ok_output:
  assumes "ra_ok r" "bs_inv s" "bs_capacity s = bs_capacity (ra_output r)"
    and "bs_write_bytes s = bs_write_bytes (ra_output r)" "bs_read_bytes (ra_output r) \<le> bs_read_bytes s"
  shows "ra_ok (r\<lparr>ra_output := s\<rparr>)"
proof -
  have "stored_ok S c (ra_map f (r\<lparr>ra_output := s\<rparr>))" if "stored_ok S c (ra_map f r)" for S c f
  proof -
    have "ra_max r \<le> ra_max (r\<lparr>ra_output := s\<rparr>)" using assms(5) by (simp add: ra_max_def)
    then show ?thesis using that by (auto simp: stored_ok_def)
  qed
  then show ?thesis using assms(1-4) by (simp add: ra_ok_def ra_inv_def ra_ok_out)
qed

lemma ra_ok_bounds:
  assumes "ra_ok r" "ra_max r < 2 ^ 62"
  shows "bs_inv (ra_output r)" "bs_capacity (ra_output r) = unat (ra_capacity r)"
    "bs_write_bytes (ra_output r) = unat (ra_cur_idx r)"
    "length (bs_contents (ra_output r)) + unat (ra_unassembled_bytes r) \<le> unat (ra_capacity r)"
proof -
  have i: "ra_inv (\<lambda>_. 0) (ra_map blank r)" using assms(1) by (simp add: ra_ok_def)
  show o: "bs_inv (ra_output r)" "bs_capacity (ra_output r) = unat (ra_capacity r)"
    "bs_write_bytes (ra_output r) = unat (ra_cur_idx r)"
    using i by (simp_all add: ra_inv_def ra_ok_out)
  have "unat (ra_unassembled_bytes r) = card (received r - {..<unat (ra_cur_idx r)})"
    and sub: "received r \<subseteq> {..<ra_max r}"
    using ra_inv_stored(3,4) [OF i] assms(2) by simp_all
  moreover have "card (received r - {..<unat (ra_cur_idx r)}) \<le> card {unat (ra_cur_idx r)..<ra_max r}"
    using sub by (intro card_mono) auto
  moreover have "unat (ra_cur_idx r) = bs_read_bytes (ra_output r) + length (bs_contents (ra_output r))"
    using o by (simp add: bs_inv_def)
  ultimately show "length (bs_contents (ra_output r)) + unat (ra_unassembled_bytes r) \<le> unat (ra_capacity r)"
    using o(1,2) by (auto simp: ra_max_def bs_inv_def)
qed

lemma ra_ok_read:
  assumes "ra_ok r" "bs_inv (ra_output r)" "bs_read n (ra_output r) = Inr (d, s)"
  shows "ra_ok (r\<lparr>ra_output := s\<rparr>)"
  using bs_read_Inr [OF assms(3)] bs_inv_read [OF assms(3,2)] by (intro ra_ok_output [OF assms(1)]) simp_all

fun op_small :: "ra_op \<Rightarrow> bool" where
  "op_small (Push data index eof) \<longleftrightarrow> length data < 2 ^ 62"
| "op_small (Fetch n) \<longleftrightarrow> True"

lemma ra_run_total:
  assumes "ra_ok r" "\<forall>op\<in>set ops. op_small op" "ra_max r + sum_list (map op_fetch ops) < 2 ^ 62"
  shows "\<exists>out r'. ra_run ops r = Inr (out, r') \<and> ra_ok r' \<and> ra_max r' < 2 ^ 62 \<and> ra_capacity r' = ra_capacity r"
  using assms
proof (induction ops arbitrary: r)
  case (Cons op ops)
  have max: "ra_max r < 2 ^ 62" using Cons.prems(3) by simp
  show ?case
  proof (cases op)
    case (Push data index eof)
    have len: "length data < 2 ^ 62" using Cons.prems(2) Push by simp
    obtain r1 where r1: "push_substring data index eof r = Inr r1" "ra_ok r1" "pushed data index eof r r1"
      by (rule push_ok [OF Cons.prems(1) max len])
    then have "ra_max r1 + sum_list (map op_fetch ops) < 2 ^ 62"
      using Cons.prems(3) Push by (simp add: ra_max_def pushed_def)
    with Cons.IH [OF r1(2)] r1 Cons.prems(2) Push show ?thesis by (simp add: pushed_def)
  next
    case (Fetch n)
    obtain d s where rd: "bs_read n (ra_output r) = Inr (d, s)"
      by (rule bs_read_cases [of n "ra_output r"]) auto
    have "bs_read_bytes s \<le> bs_read_bytes (ra_output r) + n" using bs_read_Inr(7) [OF rd] by simp
    then have "ra_max (r\<lparr>ra_output := s\<rparr>) + sum_list (map op_fetch ops) < 2 ^ 62"
      using Cons.prems(3) Fetch by (simp add: ra_max_def)
    with Cons.IH [OF ra_ok_read [OF Cons.prems(1) _ rd]] ra_ok_bounds(1) [OF Cons.prems(1) max]
      Cons.prems(2) Fetch rd
    show ?thesis by auto
  qed
qed simp

section \<open>Properties\<close>

text \<open>
  Data independence: what the reassembler does depends only on the positions and lengths of the
  substrings, never on their bytes; it commutes with every map on byte values.
\<close>

theorem push_substring_data_independent:
  "push_substring (map f data) index eof (ra_map f r) =
     map_sum id (ra_map f) (push_substring data index eof r)"
  by (rule push_substring_map)

text \<open>
  (C13) Robustness: for arbitrary substrings, also contradictory ones, at arbitrary indices and with
  arbitrary end markers, no insertion and no read fails, and the buffered bytes together with the bytes
  waiting for reassembly never exceed the capacity.
\<close>

theorem reassembler_within_capacity:
  assumes "\<forall>op\<in>set ops. op_small op" "unat capacity + sum_list (map op_fetch ops) < 2 ^ 62"
  shows "\<exists>out r. ra_run ops (ra_new capacity) = Inr (out, r) \<and>
    bs_buffer_size (ra_output r) + unat (ra_unassembled r) \<le> unat capacity"
proof -
  have "ra_max (ra_new capacity) + sum_list (map op_fetch ops) < 2 ^ 62" using assms(2) by simp
  from ra_run_total [OF ra_ok_new assms(1) this] obtain out r where
    r: "ra_run ops (ra_new capacity) = Inr (out, r)" "ra_ok r" "ra_max r < 2 ^ 62"
      "ra_capacity r = ra_capacity (ra_new capacity)" by blast
  then show ?thesis
    using ra_ok_bounds(4) [OF r(2,3)] by (simp add: ra_unassembled_def) (simp add: ra_new_def)
qed

theorem reassembler_within_capacity_witness:
  "\<exists>out r. ra_run [Push [1, 2, 3] 1 False, Push [9, 9] 2 True, Push [4] 18446744073709551615 True] (ra_new 2) = Inr (out, r) \<and>
    bs_buffer_size (ra_output r) + unat (ra_unassembled r) \<le> 2"
  using reassembler_within_capacity
    [of "[Push [1, 2, 3] 1 False, Push [9, 9] 2 True, Push [4] 18446744073709551615 True]" 2] by auto

end
