(* ===== verification/Connection.thy ===== *)
theory Connection
  imports Tcp_State Reassembler_Safety
begin

text \<open>
  Model of \<open>tcp_connection.hh\<close> and \<open>tcp_connection.cc\<close>: an endpoint made of a sender and a receiver.
  \<open>front()\<close> of an empty queue in \<open>unclean_shutdown\<close> is undefined behaviour, so the operations return
  a sum; that it never happens is one of the results.
\<close>

section \<open>State and operations\<close>

record tcp_config =
  cfg_rt_timeout :: u16
  cfg_recv_capacity :: u64
  cfg_send_capacity :: nat
  cfg_fixed_isn :: "wrapping_int32 option"

definition cfg_default :: tcp_config where
  "cfg_default = \<lparr>cfg_rt_timeout = TIMEOUT_DFLT, cfg_recv_capacity = of_nat DEFAULT_CAPACITY,
     cfg_send_capacity = DEFAULT_CAPACITY, cfg_fixed_isn = None\<rparr>"

record tcp_connection =
  tc_cfg :: tcp_config
  tc_receiver :: tcp_receiver
  tc_sender :: tcp_sender
  tc_segments_out :: "tcp_segment list"
  tc_linger :: bool
  tc_time_since_last_segment_received :: u64
  tc_active :: bool

definition tc_new :: "tcp_config \<Rightarrow> u32 \<Rightarrow> tcp_connection" where
  "tc_new cfg random = \<lparr>tc_cfg = cfg, tc_receiver = rc_new (cfg_recv_capacity cfg),
     tc_sender = snd_new (cfg_send_capacity cfg) (cfg_rt_timeout cfg) (cfg_fixed_isn cfg) random,
     tc_segments_out = [], tc_linger = True, tc_time_since_last_segment_received = 0, tc_active = True\<rparr>"

definition tc_remaining_outbound_capacity :: "tcp_connection \<Rightarrow> nat" where
  "tc_remaining_outbound_capacity c = bs_remaining_capacity (snd_stream (tc_sender c))"

definition tc_bytes_in_flight :: "tcp_connection \<Rightarrow> u64" where
  "tc_bytes_in_flight c = snd_bytes_in_flight (tc_sender c)"

definition tc_unassembled_bytes :: "tcp_connection \<Rightarrow> u64" where
  "tc_unassembled_bytes c = rc_unassembled_bytes (tc_receiver c)"

definition tc_state :: "tcp_connection \<Rightarrow> tcp_state" where
  "tc_state c = ts_of (tc_sender c) (tc_receiver c) (tc_active c) (tc_linger c)"

definition set_seg :: "tcp_connection \<Rightarrow> tcp_segment \<Rightarrow> tcp_segment" where
  "set_seg c seg =
     (case rc_ackno (tc_receiver c) of
        None \<Rightarrow> seg
      | Some ackno \<Rightarrow> seg\<lparr>seg_header := (seg_header seg)\<lparr>th_ack := True, th_ackno := ackno,
          th_win := ucast (rc_window_size (tc_receiver c))\<rparr>\<rparr>)"

definition clean_shutdown :: "tcp_connection \<Rightarrow> tcp_connection" where
  "clean_shutdown c0 =
     (let c = (if \<not> bs_eof (snd_stream (tc_sender c0)) \<and> bs_input_ended (rc_stream_out (tc_receiver c0))
               then c0\<lparr>tc_linger := False\<rparr> else c0)
      in if bs_eof (snd_stream (tc_sender c)) \<and> bs_input_ended (rc_stream_out (tc_receiver c)) \<and>
            snd_bytes_in_flight (tc_sender c) = 0
         then if \<not> tc_linger c \<or>
                 tc_time_since_last_segment_received c \<ge> 10 * ucast (cfg_rt_timeout (tc_cfg c))
              then c\<lparr>tc_active := False\<rparr> else c
         else c)"

text \<open>The loop of \<open>send_segs_from_sender\<close>, over the sender's queue.\<close>

fun drain_sender :: "tcp_segment list \<Rightarrow> tcp_connection \<Rightarrow> tcp_connection" where
  "drain_sender [] c = c"
| "drain_sender (seg # segs) c =
     drain_sender segs (c\<lparr>tc_sender := (tc_sender c)\<lparr>snd_segments_out := segs\<rparr>,
       tc_segments_out := tc_segments_out c @ [set_seg c seg]\<rparr>)"

definition send_segs_from_sender :: "tcp_connection \<Rightarrow> tcp_connection" where
  "send_segs_from_sender c = clean_shutdown (drain_sender (snd_segments_out (tc_sender c)) c)"

text \<open>\<open>_sender.stream_in().set_error(); _receiver.stream_out().set_error(); _active = false;\<close>\<close>

definition kill :: "tcp_connection \<Rightarrow> tcp_connection" where
  "kill c = c\<lparr>tc_sender := (tc_sender c)\<lparr>snd_stream := bs_set_error (snd_stream (tc_sender c))\<rparr>,
     tc_receiver := (tc_receiver c)\<lparr>rc_reassembler := (rc_reassembler (tc_receiver c))\<lparr>
       ra_output := bs_set_error (rc_stream_out (tc_receiver c))\<rparr>\<rparr>,
     tc_active := False\<rparr>"

definition unclean_shutdown :: "tcp_connection \<Rightarrow> exn + tcp_connection" where
  "unclean_shutdown c0 =
     (let c = kill c0
      in case snd_segments_out (tc_sender c) of
           [] \<Rightarrow> Inl (Undefined ''TCPConnection::unclean_shutdown: front() of an empty queue'')
         | front # segs \<Rightarrow>
             let seg = set_seg c front;
                 seg = seg\<lparr>seg_header := (seg_header seg)\<lparr>th_rst := True\<rparr>\<rparr>
             in Inr (c\<lparr>tc_sender := (tc_sender c)\<lparr>snd_segments_out := segs\<rparr>,
                  tc_segments_out := tc_segments_out c @ [seg]\<rparr>))"

definition tc_connect :: "tcp_connection \<Rightarrow> exn + tcp_connection" where
  "tc_connect c =
     bindE (fill_window (tc_sender c)) (\<lambda>s. Inr (send_segs_from_sender (c\<lparr>tc_sender := s\<rparr>)))"

definition tc_write :: "bytes \<Rightarrow> tcp_connection \<Rightarrow> exn + nat \<times> tcp_connection" where
  "tc_write data c =
     (if length data = 0 then Inr (0, c)
      else
        let (written_size, stream) = bs_write data (snd_stream (tc_sender c))
        in bindE (fill_window ((tc_sender c)\<lparr>snd_stream := stream\<rparr>)) (\<lambda>s.
             Inr (written_size, send_segs_from_sender (c\<lparr>tc_sender := s\<rparr>))))"

definition tc_end_input_stream :: "tcp_connection \<Rightarrow> exn + tcp_connection" where
  "tc_end_input_stream c =
     bindE (fill_window ((tc_sender c)\<lparr>snd_stream := bs_end_input (snd_stream (tc_sender c))\<rparr>)) (\<lambda>s.
       Inr (send_segs_from_sender (c\<lparr>tc_sender := s\<rparr>)))"

definition tc_tick :: "u64 \<Rightarrow> tcp_connection \<Rightarrow> exn + tcp_connection" where
  "tc_tick ms_since_last_tick c =
     (if \<not> tc_active c then Inr c
      else
        let c = c\<lparr>tc_time_since_last_segment_received :=
                    tc_time_since_last_segment_received c + ms_since_last_tick\<rparr>
        in bindE (snd_tick ms_since_last_tick (tc_sender c)) (\<lambda>s.
             let c = c\<lparr>tc_sender := s\<rparr>
             in bindE (if snd_consecutive_retransmission s > MAX_RETX_ATTEMPTS
                       then unclean_shutdown c else Inr c)
                  (\<lambda>c. Inr (send_segs_from_sender c))))"

text \<open>The last part of \<open>segment_received\<close>: the segment goes to the receiver and the sender.\<close>

definition tc_deliver :: "tcp_segment \<Rightarrow> tcp_connection \<Rightarrow> exn + tcp_connection" where
  "tc_deliver seg c =
     bindE (rc_segment_received seg (tc_receiver c)) (\<lambda>r.
     bindE (ack_received (th_ackno (seg_header seg)) (th_win (seg_header seg)) (tc_sender c)) (\<lambda>s.
       let c = c\<lparr>tc_receiver := r, tc_sender := s\<rparr>
       in if th_rst (seg_header seg)
          then unclean_shutdown (c\<lparr>tc_sender := send_empty_segment (tc_sender c)\<rparr>)
          else
            let c = (if snd_segments_out (tc_sender c) = [] \<and> rc_ackno (tc_receiver c) \<noteq> None \<and>
                        length_in_sequence_space seg \<noteq> 0
                     then c\<lparr>tc_sender := send_empty_segment (tc_sender c)\<rparr> else c)
            in Inr (send_segs_from_sender c)))"

definition tc_segment_received :: "tcp_segment \<Rightarrow> tcp_connection \<Rightarrow> exn + tcp_connection" where
  "tc_segment_received seg c0 =
     (if \<not> tc_active c0 then Inr c0
      else
        let c = c0\<lparr>tc_time_since_last_segment_received := 0\<rparr>;
            LISTEN = (rc_ackno (tc_receiver c) = None \<and> snd_next_seqno (tc_sender c) = 0)
        in if LISTEN then
             if \<not> th_syn (seg_header seg) then Inr c
             else bindE (rc_segment_received seg (tc_receiver c)) (\<lambda>r. tc_connect (c\<lparr>tc_receiver := r\<rparr>))
           else
             let SYN_SENT = (snd_next_seqno (tc_sender c) > 0 \<and>
                             snd_next_seqno (tc_sender c) = snd_bytes_in_flight (tc_sender c))
             in if SYN_SENT \<and> rc_ackno (tc_receiver c) = None then
                  if buf_size (seg_payload seg) > 0 \<or> \<not> th_ack (seg_header seg) then
                    if \<not> th_ack (seg_header seg) \<and> th_syn (seg_header seg) then
                      bindE (rc_segment_received seg (tc_receiver c)) (\<lambda>r.
                        Inr (c\<lparr>tc_receiver := r, tc_sender := send_empty_segment (tc_sender c)\<rparr>))
                    else Inr c
                  else if th_rst (seg_header seg) then Inr (kill c)
                  else tc_deliver seg c
                else tc_deliver seg c)"

text \<open>The destructor; the exception handler swallows what is thrown.\<close>

definition tc_destroy :: "tcp_connection \<Rightarrow> exn + tcp_connection" where
  "tc_destroy c =
     (if tc_active c
      then unclean_shutdown (c\<lparr>tc_sender := send_empty_segment (tc_sender c)\<rparr>) else Inr c)"

section \<open>The parts of a connection\<close>

text \<open>The receiver on arbitrary segments: only sizes matter.\<close>

definition rc_ok :: "tcp_receiver \<Rightarrow> bool" where
  "rc_ok r \<longleftrightarrow> ra_ok (rc_reassembler r) \<and> rc_capacity r = ra_capacity (rc_reassembler r)"

lemma rc_ok_new: "rc_ok (rc_new c)"
  by (simp add: rc_ok_def rc_new_def) (simp add: ra_new_def)

lemma rc_ok_flags [simp]:
  "rc_ok (r\<lparr>rc_syn := a\<rparr>) = rc_ok r" "rc_ok (r\<lparr>rc_isn := b\<rparr>) = rc_ok r"
  "rc_ok (r\<lparr>rc_fin := a\<rparr>) = rc_ok r" "rc_ok (r\<lparr>rc_rcv_base := b\<rparr>) = rc_ok r"
  by (simp_all add: rc_ok_def)

definition rc_advances :: "tcp_receiver \<Rightarrow> tcp_receiver \<Rightarrow> bool" where
  "rc_advances r r' \<longleftrightarrow> rc_ok r' \<and> rc_capacity r' = rc_capacity r \<and>
     bs_read_bytes (rc_stream_out r') = bs_read_bytes (rc_stream_out r) \<and> (rc_syn r \<longrightarrow> rc_syn r')"

lemma rc_push_total:
  assumes "rc_ok r" "rc_max r < 2 ^ 62" "length (seg_data seg) < 2 ^ 62"
  shows "\<exists>r'. rc_push seg r = Inr r' \<and> rc_advances r r'"
proof -
  define idx where "idx = (if th_syn (seg_header seg) then 1
    else unwrap (th_seqno (seg_header seg)) (ucast (rc_isn r)) (ra_cur_idx (rc_reassembler r))) - 1"
  obtain ra where "push_substring (seg_data seg) idx (th_fin (seg_header seg)) (rc_reassembler r) = Inr ra"
      "ra_ok ra" "pushed (seg_data seg) idx (th_fin (seg_header seg)) (rc_reassembler r) ra"
    by (rule push_ok [of "rc_reassembler r" "seg_data seg" idx "th_fin (seg_header seg)"])
      (use assms in \<open>auto simp: rc_ok_def\<close>)
  then show ?thesis using assms(1)
    by (simp add: rc_push_def Let_def idx_def buf_copy_def seg_data_def rc_ok_def rc_advances_def rc_stream_out_def pushed_def)
qed

lemma rc_segment_total:
  assumes "rc_ok r" "rc_max r < 2 ^ 62" "length (seg_data seg) < 2 ^ 62"
  shows "\<exists>r'. rc_segment_received seg r = Inr r' \<and> rc_advances r r'"
proof -
  have adv: "rc_advances r r" using assms(1) by (simp add: rc_advances_def)
  have "\<exists>r'. rc_push seg r1 = Inr r' \<and> rc_advances r r'"
    if "rc_reassembler r1 = rc_reassembler r" "rc_capacity r1 = rc_capacity r" "rc_syn r1" for r1
  proof -
    have "rc_ok r1" "rc_max r1 < 2 ^ 62" using that assms by (simp_all add: rc_ok_def)
    from rc_push_total [OF this assms(3)] that show ?thesis by (auto simp: rc_advances_def rc_stream_out_def)
  qed
  moreover have "rc_advances r (r\<lparr>rc_syn := True, rc_isn := i\<rparr>)" for i
    using assms(1) by (simp add: rc_advances_def rc_stream_out_def)
  ultimately show ?thesis using adv by (auto simp: rc_segment_received_def Let_def)
qed

text \<open>The sender: what has been sent keeps its meaning.\<close>

definition snd_evolves :: "tcp_sender \<Rightarrow> tcp_sender \<Rightarrow> bool" where
  "snd_evolves s s' \<longleftrightarrow> snd_isn s' = snd_isn s \<and> unat (snd_next_seqno s) \<le> unat (snd_next_seqno s') \<and>
     bs_read_bytes (snd_stream s) \<le> bs_read_bytes (snd_stream s') \<and>
     (snd_fin_sent s \<longrightarrow> snd_fin_sent s' \<and> snd_next_seqno s' = snd_next_seqno s)"

lemma snd_evolves_log: "snd_log_ok S s seg \<Longrightarrow> snd_evolves s s' \<Longrightarrow> snd_log_ok S s' seg"
  by (erule snd_log_ok_mono) (auto simp: snd_evolves_def)

lemma snd_evolves_refl [simp]: "snd_evolves s s"
  by (simp add: snd_evolves_def)

lemma snd_evolves_trans: "snd_evolves s t \<Longrightarrow> snd_evolves t u \<Longrightarrow> snd_evolves s u"
  by (auto simp: snd_evolves_def)

definition snd_frame :: "tcp_sender \<Rightarrow> tcp_sender \<Rightarrow> bool" where
  "snd_frame s s' \<longleftrightarrow> snd_consecutive_retransmission s' = snd_consecutive_retransmission s \<and>
     bs_error (snd_stream s') = bs_error (snd_stream s) \<and>
     bs_read_bytes (snd_stream s) \<le> bs_read_bytes (snd_stream s')"

lemma snd_frame_trans: "snd_frame s t \<Longrightarrow> snd_frame t u \<Longrightarrow> snd_frame s u"
  by (auto simp: snd_frame_def)

lemma segment_handler_counter [simp]:
  "snd_consecutive_retransmission (segment_handler seg s) = snd_consecutive_retransmission s"
  by (simp add: segment_handler_def Let_def)

lemma fill_loop_frame: "fill_loop w s = Inr s' \<Longrightarrow> snd_frame s s'"
proof (induction "length (bs_contents (snd_stream s))" arbitrary: s rule: less_induct)
  case less
  define f :: u32 where "f = ucast (ucast w - snd_next_seqno s)"
  define p where "p = (if (ucast f :: u64) > MAX_PAYLOAD_SIZE then ucast MAX_PAYLOAD_SIZE else f)"
  define s0 where "s0 = s\<lparr>snd_free_bytes := f\<rparr>"
  show ?case
  proof (cases "f \<noteq> 0 \<and> \<not> snd_fin_sent s \<and> \<not> bs_buffer_empty (snd_stream s)")
    case True
    then have "fill_loop w s = bindE (bs_read (unat p) (snd_stream s)) (\<lambda>(data, stream).
        let (seg, fin) = data_segment s0 data stream
        in fill_loop w (segment_handler seg (s0\<lparr>snd_stream := stream, snd_fin_sent := snd_fin_sent s \<or> fin\<rparr>)))"
      by (subst fill_loop.simps) (simp add: Let_def f_def p_def s0_def)
    with less.prems obtain d st where rd: "bs_read (unat p) (snd_stream s) = Inr (d, st)" and
      "(let (seg, fin) = data_segment s0 d st in fill_loop w (segment_handler seg
          (s0\<lparr>snd_stream := st, snd_fin_sent := snd_fin_sent s \<or> fin\<rparr>))) = Inr s'"
      by (cases "bs_read (unat p) (snd_stream s)") auto
    then obtain seg fin where
      go: "fill_loop w (segment_handler seg (s0\<lparr>snd_stream := st, snd_fin_sent := snd_fin_sent s \<or> fin\<rparr>)) = Inr s'"
      by (cases "data_segment s0 d st") auto
    have "p \<noteq> 0" using True by (auto simp: p_def MAX_PAYLOAD_SIZE_def)
    then have "length (bs_contents st) < length (bs_contents (snd_stream s))"
      using True by (intro bs_read_shrinks [OF rd]) (auto simp: unat_gt_0)
    with less.hyps [OF _ go] show ?thesis using bs_read_Inr [OF rd]
      by (auto simp: snd_frame_def s0_def)
  next
    case False
    then show ?thesis using less.prems
      by (subst (asm) fill_loop.simps) (auto simp: Let_def f_def snd_frame_def)
  qed
qed

lemma fill_window_frame: "fill_window s = Inr s' \<Longrightarrow> snd_frame s s'"
  by (auto simp: fill_window_def Let_def snd_frame_def dest!: fill_loop_frame split: if_splits)

lemma fill_window_evolves:
  assumes inv: "snd_inv S s" "snd_inv S s'" and fill: "fill_window s = Inr s'" and "sends s segs s'"
  shows "snd_evolves s s'"
proof -
  have le: "bs_read_bytes (snd_stream s) \<le> bs_read_bytes (snd_stream s')"
    using fill_window_frame [OF fill] by (simp add: snd_frame_def)
  have p: "snd_pos_ok s" "snd_pos_ok s'" using inv by (simp_all add: snd_inv_def)
  have "snd_next_seqno s' = snd_next_seqno s" if "snd_fin_sent s"
    using fill that p by (auto simp: fill_window_def snd_pos_ok_def split: if_splits)
  with p le assms(4) show ?thesis
    by (auto simp: snd_evolves_def sends_def snd_pos_ok_def split: if_splits)
qed

text \<open>One call of the sender as the connection sees it.\<close>

definition snd_works :: "(nat \<Rightarrow> u8) \<Rightarrow> nat \<Rightarrow> wrapping_int32 \<Rightarrow> tcp_sender \<Rightarrow> tcp_sender \<Rightarrow> bool" where
  "snd_works S N isn s s' \<longleftrightarrow> snd_run_inv S N isn s' \<and> snd_evolves s s' \<and>
     bs_error (snd_stream s') = bs_error (snd_stream s)"

lemma snd_works_trans: "snd_works S N isn s t \<Longrightarrow> snd_works S N isn t u \<Longrightarrow> snd_works S N isn s u"
  by (auto simp: snd_works_def intro: snd_evolves_trans)

lemma fill_window_works:
  assumes "snd_run_inv S N isn s"
  shows "\<exists>s'. fill_window s = Inr s' \<and> snd_works S N isn s s' \<and>
    snd_consecutive_retransmission s' = snd_consecutive_retransmission s"
proof (rule fill_window_facts)
  show "snd_inv S s" "bs_write_bytes (snd_stream s) + 2 < 2 ^ 31" using assms by (auto simp: snd_run_inv_def)
next
  fix s' segs
  assume s': "fill_window s = Inr s'" "snd_inv S s'" "sends s segs s'"
  have "snd_evolves s s'"
    by (rule fill_window_evolves [OF _ s'(2,1,3)]) (use assms in \<open>simp add: snd_run_inv_def\<close>)
  then show ?thesis using s' fill_window_frame [OF s'(1)] assms
    by (auto simp: snd_works_def snd_frame_def snd_run_inv_def sends_def)
qed

lemma ack_received_works:
  assumes "snd_run_inv S N isn s"
  shows "\<exists>s'. ack_received ackno win s = Inr s' \<and> snd_works S N isn s s' \<and>
    snd_consecutive_retransmission s' \<in> {0, snd_consecutive_retransmission s}"
proof -
  have inv: "snd_inv S s" and small: "bs_write_bytes (snd_stream s) + 2 < 2 ^ 31"
    and N: "N + 2 < 2 ^ 31" "bs_write_bytes (snd_stream s) \<le> N" "snd_isn s = isn"
    using assms by (auto simp: snd_run_inv_def)
  show ?thesis
  proof (cases rule: ack_received_cases [OF inv small, of ackno win])
    case 1
    then show ?thesis using assms by (simp add: snd_works_def)
  next
    case (2 s')
    then show ?thesis using N by (simp add: snd_works_def snd_run_inv_def) (simp add: snd_evolves_def)
  next
    case (3 k t)
    have t: "snd_run_inv S N isn t" "snd_evolves s t" "snd_stream t = snd_stream s"
      using 3 N by (simp_all add: acked_state_def snd_run_inv_def snd_evolves_def)
    have "snd_consecutive_retransmission t \<in> {0, snd_consecutive_retransmission s}"
      using 3(5) by (cases "k = 0") (simp_all add: acked_state_def)
    with fill_window_works [OF t(1)] t 3(3) show ?thesis
      by (auto simp: snd_works_def intro: snd_evolves_trans)
  qed
qed

lemma snd_tick_works:
  assumes "snd_run_inv S N isn s"
  shows "\<exists>s'. snd_tick ms s = Inr s' \<and> snd_works S N isn s s' \<and>
    (snd_consecutive_retransmission s' = snd_consecutive_retransmission s \<or>
     snd_consecutive_retransmission s' = snd_consecutive_retransmission s + 1 \<and> snd_segments_out s' \<noteq> [])"
proof (rule snd_tick_facts)
  show "snd_inv S s" using assms by (simp add: snd_run_inv_def)
next
  fix s' segs
  assume s': "snd_tick ms s = Inr s'" "snd_inv S s'" "snd_stream s' = snd_stream s"
    "snd_segments_out s' = snd_segments_out s @ segs"
    "snd_consecutive_retransmission s' = (if segs \<noteq> [] \<and> snd_back_off s
       then snd_consecutive_retransmission s + 1 else snd_consecutive_retransmission s)"
  have "snd_isn s' = snd_isn s \<and> snd_next_seqno s' = snd_next_seqno s \<and> snd_fin_sent s' = snd_fin_sent s"
    using s'(1) by (auto simp: snd_tick_def Let_def split: if_splits list.splits)
  then show ?thesis using s' assms
    by (auto simp: snd_works_def snd_run_inv_def snd_evolves_def)
qed

lemma send_empty_works:
  assumes "snd_run_inv S N isn s"
  shows "snd_works S N isn s (send_empty_segment s)"
  using assms snd_inv_empty_segment [of S s]
  by (simp add: snd_works_def snd_run_inv_def) (simp add: send_empty_segment_def snd_evolves_def)

lemma snd_stream_works:
  assumes "snd_run_inv S N isn s" "stream_of S st" "bs_read_bytes st = bs_read_bytes (snd_stream s)"
    "bs_write_bytes st \<le> N"
  shows "snd_run_inv S N isn (s\<lparr>snd_stream := st\<rparr>)" "snd_evolves s (s\<lparr>snd_stream := st\<rparr>)"
  using assms snd_inv_stream [of S s st] by (simp_all add: snd_run_inv_def snd_evolves_def)

lemma snd_queue_works:
  assumes "snd_run_inv S N isn s" "set q \<subseteq> set (snd_segments_out s)"
  shows "snd_works S N isn s (s\<lparr>snd_segments_out := q\<rparr>)"
proof -
  let ?s = "s\<lparr>snd_segments_out := q\<rparr>"
  have "snd_pos_ok ?s = snd_pos_ok s" "snd_queue_ok S ?s = snd_queue_ok S s" "snd_log_ok S ?s = snd_log_ok S s"
    by (simp_all add: snd_parts fun_eq_iff)
  then have "snd_inv S s \<Longrightarrow> snd_inv S ?s" using assms(2) by (auto simp: snd_inv_def)
  then show ?thesis using assms(1) by (simp add: snd_works_def snd_run_inv_def snd_evolves_def)
qed

section \<open>Invariant of a connection\<close>

text \<open>
  \<open>N\<close> bounds what the application writes, \<open>B\<close> what it reads, \<open>S\<close> is the stream it writes, \<open>isn\<close> the
  initial sequence number, \<open>L\<close> a set of segments it has sent before. The peer is arbitrary.
\<close>

definition tc_inv :: "(nat \<Rightarrow> u8) \<Rightarrow> nat \<Rightarrow> nat \<Rightarrow> wrapping_int32 \<Rightarrow> tcp_segment set \<Rightarrow> tcp_connection \<Rightarrow> bool" where
  "tc_inv S N B isn L c \<longleftrightarrow> snd_run_inv S N isn (tc_sender c) \<and> rc_ok (tc_receiver c) \<and>
     bs_read_bytes (rc_stream_out (tc_receiver c)) \<le> B \<and> B + unat (rc_capacity (tc_receiver c)) < 2 ^ 62 \<and>
     (\<forall>seg\<in>set (tc_segments_out c) \<union> L. snd_log_ok S (tc_sender c) seg) \<and>
     (tc_active c \<longrightarrow> snd_consecutive_retransmission (tc_sender c) \<le> MAX_RETX_ATTEMPTS)"

lemma tc_inv_max: "tc_inv S N B isn L c \<Longrightarrow> rc_max (tc_receiver c) < 2 ^ 62"
  by (auto simp: tc_inv_def ra_max_def rc_stream_out_def rc_ok_def)

lemma tc_inv_frame [simp]:
  "tc_inv S N B isn L (c\<lparr>tc_time_since_last_segment_received := t\<rparr>) = tc_inv S N B isn L c"
  "tc_inv S N B isn L (c\<lparr>tc_linger := l\<rparr>) = tc_inv S N B isn L c"
  by (simp_all add: tc_inv_def)

lemma tc_inv_stop: "tc_inv S N B isn L c \<Longrightarrow> tc_inv S N B isn L (c\<lparr>tc_active := False\<rparr>)"
  by (simp add: tc_inv_def)

lemma tc_inv_sender:
  assumes "tc_inv S N B isn L c" "snd_works S N isn (tc_sender c) s"
    and "tc_active c \<Longrightarrow> snd_consecutive_retransmission s \<le> MAX_RETX_ATTEMPTS"
  shows "tc_inv S N B isn L (c\<lparr>tc_sender := s\<rparr>)"
proof -
  have "\<forall>seg\<in>set (tc_segments_out c) \<union> L. snd_log_ok S s seg"
    using assms(1,2) snd_evolves_log unfolding tc_inv_def snd_works_def by blast
  then show ?thesis using assms by (simp add: tc_inv_def snd_works_def)
qed

lemma tc_inv_receiver:
  assumes "tc_inv S N B isn L c" "rc_advances (tc_receiver c) r"
  shows "tc_inv S N B isn L (c\<lparr>tc_receiver := r\<rparr>)"
  using assms by (simp add: tc_inv_def rc_advances_def)

lemma set_seg_fields [simp]:
  "seg_payload (set_seg c seg) = seg_payload seg"
  "th_seqno (seg_header (set_seg c seg)) = th_seqno (seg_header seg)"
  "th_syn (seg_header (set_seg c seg)) = th_syn (seg_header seg)"
  "th_fin (seg_header (set_seg c seg)) = th_fin (seg_header seg)"
  "th_rst (seg_header (set_seg c seg)) = th_rst (seg_header seg)"
  by (simp_all add: set_seg_def split: option.splits)

lemma snd_log_ok_fields:
  assumes "snd_log_ok S s seg" "seg_payload seg' = seg_payload seg"
    "th_seqno (seg_header seg') = th_seqno (seg_header seg)"
    "th_syn (seg_header seg') = th_syn (seg_header seg)" "th_fin (seg_header seg') = th_fin (seg_header seg)"
  shows "snd_log_ok S s seg'"
proof -
  have "seg_data seg' = seg_data seg" "seg_len seg' = seg_len seg"
    "\<And>a. data_index a seg' = data_index a seg" "\<And>a. carries S isn a seg' = carries S isn a seg" for isn
    using assms(2-) by (simp_all add: seg_data_def length_in_sequence_space_def data_index_def carries_def)
  with assms(1,5) show ?thesis by (simp add: snd_log_ok_def)
qed

lemma tc_inv_emit:
  assumes inv: "tc_inv S N B isn L c" and q: "snd_segments_out (tc_sender c) = front # segs"
    and seg: "seg_payload seg = seg_payload front" "th_seqno (seg_header seg) = th_seqno (seg_header front)"
      "th_syn (seg_header seg) = th_syn (seg_header front)" "th_fin (seg_header seg) = th_fin (seg_header front)"
  shows "tc_inv S N B isn L (c\<lparr>tc_sender := (tc_sender c)\<lparr>snd_segments_out := segs\<rparr>,
    tc_segments_out := tc_segments_out c @ [seg]\<rparr>)"
proof -
  let ?s = "(tc_sender c)\<lparr>snd_segments_out := segs\<rparr>"
  have w: "snd_works S N isn (tc_sender c) ?s"
    using inv q by (intro snd_queue_works) (auto simp: tc_inv_def)
  have "snd_log_ok S (tc_sender c) front" using inv q by (simp add: tc_inv_def snd_run_inv_def snd_inv_def)
  then have "snd_log_ok S ?s seg"
    using snd_evolves_log w snd_log_ok_fields [OF _ seg] by (auto simp: snd_works_def)
  moreover have "tc_inv S N B isn L (c\<lparr>tc_sender := ?s\<rparr>)"
    by (rule tc_inv_sender [OF inv w]) (use inv in \<open>simp add: tc_inv_def\<close>)
  ultimately show ?thesis by (auto simp: tc_inv_def)
qed

lemma drain_sender_inv:
  "tc_inv S N B isn L c \<Longrightarrow> snd_segments_out (tc_sender c) = segs \<Longrightarrow> tc_inv S N B isn L (drain_sender segs c)"
proof (induction segs arbitrary: c)
  case (Cons seg segs)
  have "tc_inv S N B isn L (c\<lparr>tc_sender := (tc_sender c)\<lparr>snd_segments_out := segs\<rparr>,
      tc_segments_out := tc_segments_out c @ [set_seg c seg]\<rparr>)"
    by (rule tc_inv_emit [OF Cons.prems]) simp_all
  then show ?case using Cons.IH by simp
qed simp

lemma clean_shutdown_inv: "tc_inv S N B isn L c \<Longrightarrow> tc_inv S N B isn L (clean_shutdown c)"
  by (simp add: clean_shutdown_def Let_def tc_inv_stop)

lemma send_segs_inv: "tc_inv S N B isn L c \<Longrightarrow> tc_inv S N B isn L (send_segs_from_sender c)"
  by (simp add: send_segs_from_sender_def clean_shutdown_inv drain_sender_inv)

lemma bs_set_error_frame [simp]:
  "bs_contents (bs_set_error st) = bs_contents st" "bs_read_bytes (bs_set_error st) = bs_read_bytes st"
  "bs_write_bytes (bs_set_error st) = bs_write_bytes st" "bs_capacity (bs_set_error st) = bs_capacity st"
  by (simp_all add: bs_set_error_def bs_contents_def)

lemma bs_inv_set_error [simp]: "bs_inv (bs_set_error st) = bs_inv st"
  unfolding bs_inv_def by (simp add: bs_set_error_def bs_contents_def)

lemma stream_of_set_error [simp]: "stream_of S (bs_set_error st) = stream_of S st"
  unfolding stream_of_def bs_inv_set_error bs_set_error_frame ..

lemma kill_inv:
  assumes "tc_inv S N B isn L c"
  shows "tc_inv S N B isn L (kill c)"
proof -
  let ?s = "(tc_sender c)\<lparr>snd_stream := bs_set_error (snd_stream (tc_sender c))\<rparr>"
  let ?ra = "rc_reassembler (tc_receiver c)"
  have run: "snd_run_inv S N isn (tc_sender c)" and ok: "ra_ok ?ra"
    and cap: "rc_capacity (tc_receiver c) = ra_capacity ?ra"
    and log: "\<forall>seg\<in>set (tc_segments_out c) \<union> L. snd_log_ok S (tc_sender c) seg"
    and B: "bs_read_bytes (ra_output ?ra) \<le> B" "B + unat (ra_capacity ?ra) < 2 ^ 62"
    using assms by (auto simp: tc_inv_def rc_ok_def rc_stream_out_def)
  have st: "stream_of S (bs_set_error (snd_stream (tc_sender c)))" "bs_write_bytes (snd_stream (tc_sender c)) \<le> N"
    using run by (auto simp: snd_run_inv_def snd_inv_def)
  have s: "snd_run_inv S N isn ?s" "snd_evolves (tc_sender c) ?s"
    by (rule snd_stream_works [OF run st(1)]; use st(2) in simp)+
  have "ra_ok (?ra\<lparr>ra_output := bs_set_error (ra_output ?ra)\<rparr>)"
    by (rule ra_ok_output [OF ok]) (use ra_ok_bounds(1) [OF ok tc_inv_max [OF assms]] in simp_all)
  moreover have "\<forall>seg\<in>set (tc_segments_out c) \<union> L. snd_log_ok S ?s seg"
    using log snd_evolves_log [OF _ s(2)] by blast
  ultimately show ?thesis using s(1) cap B
    by (simp add: tc_inv_def kill_def rc_ok_def rc_stream_out_def)
qed

lemma unclean_shutdown_inv:
  assumes "tc_inv S N B isn L c" "snd_segments_out (tc_sender c) \<noteq> []"
  shows "\<exists>c'. unclean_shutdown c = Inr c' \<and> tc_inv S N B isn L c'"
proof -
  obtain front segs where q: "snd_segments_out (tc_sender (kill c)) = front # segs"
    using assms(2) by (cases "snd_segments_out (tc_sender c)") (simp_all add: kill_def)
  define seg where "seg = (set_seg (kill c) front)\<lparr>seg_header := (seg_header (set_seg (kill c) front))\<lparr>th_rst := True\<rparr>\<rparr>"
  from tc_inv_emit [OF kill_inv [OF assms(1)] q, of seg] show ?thesis
    by (simp add: unclean_shutdown_def Let_def q seg_def)
qed

section \<open>Every operation keeps the invariant\<close>

lemma fill_and_send_inv:
  assumes inv: "tc_inv S N B isn L c" and s: "snd_run_inv S N isn s" "snd_evolves (tc_sender c) s"
    "snd_consecutive_retransmission s = snd_consecutive_retransmission (tc_sender c)"
  shows "\<exists>s'. fill_window s = Inr s' \<and> tc_inv S N B isn L (send_segs_from_sender (c\<lparr>tc_sender := s'\<rparr>))"
proof -
  obtain s' where s': "fill_window s = Inr s'" "snd_works S N isn s s'"
      "snd_consecutive_retransmission s' = snd_consecutive_retransmission s"
    using fill_window_works [OF s(1)] by blast
  have "\<forall>seg\<in>set (tc_segments_out c) \<union> L. snd_log_ok S s' seg"
    using inv snd_evolves_log [OF _ snd_evolves_trans [OF s(2)]] s'(2) by (auto simp: tc_inv_def snd_works_def)
  then have "tc_inv S N B isn L (c\<lparr>tc_sender := s'\<rparr>)"
    using inv s' s(3) by (auto simp: tc_inv_def snd_works_def)
  then show ?thesis using s'(1) send_segs_inv by blast
qed

lemma tc_connect_inv:
  assumes "tc_inv S N B isn L c"
  shows "\<exists>c'. tc_connect c = Inr c' \<and> tc_inv S N B isn L c'"
  using fill_and_send_inv [OF assms, of "tc_sender c"] assms by (auto simp: tc_connect_def tc_inv_def)

lemma stream_change:
  assumes "tc_inv S N B isn L c" "stream_of S st" "bs_read_bytes st = bs_read_bytes (snd_stream (tc_sender c))"
    "bs_write_bytes st \<le> N"
  shows "\<exists>s'. fill_window ((tc_sender c)\<lparr>snd_stream := st\<rparr>) = Inr s' \<and>
    tc_inv S N B isn L (send_segs_from_sender (c\<lparr>tc_sender := s'\<rparr>))"
proof (rule fill_and_send_inv [OF assms(1)])
  have "snd_run_inv S N isn (tc_sender c)" using assms(1) by (simp add: tc_inv_def)
  then show "snd_run_inv S N isn ((tc_sender c)\<lparr>snd_stream := st\<rparr>)"
    "snd_evolves (tc_sender c) ((tc_sender c)\<lparr>snd_stream := st\<rparr>)"
    using snd_stream_works assms(2-) by blast+
qed simp

lemma tc_inv_stream: "tc_inv S N B isn L c \<Longrightarrow> stream_of S (snd_stream (tc_sender c)) \<and> bs_write_bytes (snd_stream (tc_sender c)) \<le> N"
  by (simp add: tc_inv_def snd_run_inv_def snd_inv_def)

lemma tc_end_input_inv:
  assumes "tc_inv S N B isn L c"
  shows "\<exists>c'. tc_end_input_stream c = Inr c' \<and> tc_inv S N B isn L c'"
proof -
  let ?st = "snd_stream (tc_sender c)"
  have "stream_of S (bs_end_input ?st)"
    using tc_inv_stream [OF assms] by (simp add: stream_of_def) (simp add: bs_end_input_def)
  from stream_change [OF assms this] tc_inv_stream [OF assms] show ?thesis
    by (auto simp: tc_end_input_stream_def bs_end_input_def)
qed

definition tc_rest :: "(nat \<Rightarrow> u8) \<Rightarrow> nat \<Rightarrow> nat \<Rightarrow> tcp_connection \<Rightarrow> bytes" where
  "tc_rest S N n c = (let w = bs_bytes_written (snd_stream (tc_sender c)) in map S [w..<min N (w + n)])"

lemma tc_write_inv:
  assumes "tc_inv S N B isn L c"
  shows "\<exists>k c'. tc_write (tc_rest S N n c) c = Inr (k, c') \<and> tc_inv S N B isn L c'"
proof -
  let ?st = "snd_stream (tc_sender c)"
  define d where "d = tc_rest S N n c"
  have N: "bs_write_bytes ?st \<le> N" and st: "stream_of S ?st" using tc_inv_stream [OF assms] by simp_all
  have d: "d = map S [bs_write_bytes ?st..<bs_write_bytes ?st + length d]" "bs_write_bytes ?st + length d \<le> N"
    using N by (simp_all add: d_def tc_rest_def bs_bytes_written_def min_def Let_def)
  have "stream_of S (snd (bs_write d ?st))" by (rule stream_of_write [OF st d(1)])
  moreover have "fst (bs_write d ?st) \<le> length d" by (simp add: bs_write_accepted)
  ultimately obtain s' where "fill_window ((tc_sender c)\<lparr>snd_stream := snd (bs_write d ?st)\<rparr>) = Inr s'"
      "tc_inv S N B isn L (send_segs_from_sender (c\<lparr>tc_sender := s'\<rparr>))"
    using stream_change [OF assms, of "snd (bs_write d ?st)"] d(2) by auto
  then show ?thesis using assms
    by (cases "bs_write d ?st") (simp add: tc_write_def d_def [symmetric])
qed

lemma tc_tick_inv:
  assumes "tc_inv S N B isn L c"
  shows "\<exists>c'. tc_tick ms c = Inr c' \<and> tc_inv S N B isn L c'"
proof (cases "tc_active c")
  case True
  define c1 where "c1 = c\<lparr>tc_time_since_last_segment_received := tc_time_since_last_segment_received c + ms\<rparr>"
  have run: "snd_run_inv S N isn (tc_sender c)" and n: "snd_consecutive_retransmission (tc_sender c) \<le> MAX_RETX_ATTEMPTS"
    using assms True by (simp_all add: tc_inv_def)
  obtain s where s: "snd_tick ms (tc_sender c) = Inr s" "snd_works S N isn (tc_sender c) s"
      "snd_consecutive_retransmission s = snd_consecutive_retransmission (tc_sender c) \<or> snd_segments_out s \<noteq> []"
    using snd_tick_works [OF run, of ms] by auto
  show ?thesis
  proof (cases "snd_consecutive_retransmission s > MAX_RETX_ATTEMPTS")
    case give_up: True
    then have "snd_segments_out s \<noteq> []" using s(3) n by auto
    moreover have "tc_inv S N B isn L (c1\<lparr>tc_active := False, tc_sender := s\<rparr>)"
      using tc_inv_sender [OF tc_inv_stop [of S N B isn L c1]] s(2) assms by (simp add: c1_def)
    ultimately obtain c2 where "unclean_shutdown (c1\<lparr>tc_active := False, tc_sender := s\<rparr>) = Inr c2" "tc_inv S N B isn L c2"
      using unclean_shutdown_inv by force
    moreover have "unclean_shutdown (c1\<lparr>tc_active := False, tc_sender := s\<rparr>) = unclean_shutdown (c1\<lparr>tc_sender := s\<rparr>)"
      by (simp add: unclean_shutdown_def kill_def)
    ultimately have "unclean_shutdown (c1\<lparr>tc_sender := s\<rparr>) = Inr c2" by simp
    with \<open>tc_inv S N B isn L c2\<close> show ?thesis using True s(1) give_up send_segs_inv
      by (simp add: tc_tick_def c1_def Let_def)
  next
    case False
    then have "tc_inv S N B isn L (c1\<lparr>tc_sender := s\<rparr>)"
      using tc_inv_sender [of S N B isn L c1 s] s(2) assms by (simp add: c1_def)
    then show ?thesis using True s(1) False send_segs_inv
      by (simp add: tc_tick_def c1_def Let_def)
  qed
qed (use assms in \<open>simp add: tc_tick_def\<close>)

lemma tc_deliver_inv:
  assumes inv: "tc_inv S N B isn L c" and len: "length (seg_data seg) < 2 ^ 62"
  shows "\<exists>c'. tc_deliver seg c = Inr c' \<and> tc_inv S N B isn L c'"
proof -
  obtain r where r: "rc_segment_received seg (tc_receiver c) = Inr r" "rc_advances (tc_receiver c) r"
    using rc_segment_total [OF _ tc_inv_max [OF inv] len] inv by (auto simp: tc_inv_def)
  obtain s where s: "ack_received (th_ackno (seg_header seg)) (th_win (seg_header seg)) (tc_sender c) = Inr s"
      "snd_works S N isn (tc_sender c) s"
      "snd_consecutive_retransmission s \<in> {0, snd_consecutive_retransmission (tc_sender c)}"
    using ack_received_works [of S N isn "tc_sender c"] inv unfolding tc_inv_def by blast
  define c1 where "c1 = c\<lparr>tc_receiver := r, tc_sender := s\<rparr>"
  have c1: "tc_inv S N B isn L c1"
    unfolding c1_def
    by (rule tc_inv_sender [OF tc_inv_receiver [OF inv r(2)]]) (use s inv in \<open>auto simp: tc_inv_def\<close>)
  define c2 where "c2 = c1\<lparr>tc_sender := send_empty_segment (tc_sender c1)\<rparr>"
  have c2: "tc_inv S N B isn L c2"
    unfolding c2_def
    by (rule tc_inv_sender [OF c1 send_empty_works]) (use c1 in \<open>auto simp: tc_inv_def send_empty_segment_def Let_def\<close>)
  have "snd_segments_out (tc_sender c2) \<noteq> []" by (simp add: c2_def send_empty_segment_def Let_def)
  from unclean_shutdown_inv [OF c2 this] show ?thesis
    using r(1) s(1) c1 c2 send_segs_inv
    by (auto simp: tc_deliver_def c2_def c1_def [symmetric] Let_def)
qed

lemma tc_segment_inv:
  assumes inv: "tc_inv S N B isn L c" and len: "length (seg_data seg) < 2 ^ 62"
  shows "\<exists>c'. tc_segment_received seg c = Inr c' \<and> tc_inv S N B isn L c'"
proof -
  define c1 where "c1 = c\<lparr>tc_time_since_last_segment_received := 0\<rparr>"
  have c1: "tc_inv S N B isn L c1" using inv by (simp add: c1_def)
  obtain r where r: "rc_segment_received seg (tc_receiver c1) = Inr r" "rc_advances (tc_receiver c1) r"
    using rc_segment_total [OF _ tc_inv_max [OF c1] len] c1 by (auto simp: tc_inv_def)
  note c2 = tc_inv_receiver [OF c1 r(2)]
  have c3: "tc_inv S N B isn L (c1\<lparr>tc_receiver := r, tc_sender := send_empty_segment (tc_sender c1)\<rparr>)"
    by (rule tc_inv_sender [OF c2]) (use c2 send_empty_works in \<open>auto simp: tc_inv_def send_empty_segment_def Let_def\<close>)
  show ?thesis
    using inv c1 r(1) c3 tc_connect_inv [OF c2] tc_deliver_inv [OF c1 len] kill_inv [OF c1]
    by (simp add: tc_segment_received_def c1_def [symmetric])
qed

section \<open>Runs of a connection\<close>

text \<open>
  The application connects, writes the next bytes of its stream \<open>S\<close> (at most \<open>N\<close> in all), ends it, and
  reads (at most \<open>B\<close> bytes in all); the owner takes segments off the outbound queue; time passes; and
  arbitrary segments arrive.
\<close>

datatype tc_op = TcConnect | TcWrite nat | TcEndInput | TcSegment tcp_segment | TcTick u64 | TcRead nat | TcPop

definition tc_read :: "nat \<Rightarrow> tcp_connection \<Rightarrow> exn + bytes \<times> tcp_connection" where
  "tc_read n c = bindE (bs_read n (rc_stream_out (tc_receiver c))) (\<lambda>(data, stream).
     Inr (data, c\<lparr>tc_receiver := (tc_receiver c)\<lparr>rc_reassembler :=
       (rc_reassembler (tc_receiver c))\<lparr>ra_output := stream\<rparr>\<rparr>\<rparr>))"

fun tc_step :: "(nat \<Rightarrow> u8) \<Rightarrow> nat \<Rightarrow> nat \<Rightarrow> tc_op \<Rightarrow> tcp_connection \<Rightarrow> exn + tcp_connection" where
  "tc_step S N B TcConnect c = tc_connect c"
| "tc_step S N B (TcWrite n) c = bindE (tc_write (tc_rest S N n c) c) (\<lambda>(k, c). Inr c)"
| "tc_step S N B TcEndInput c = tc_end_input_stream c"
| "tc_step S N B (TcSegment seg) c = tc_segment_received seg c"
| "tc_step S N B (TcTick ms) c = tc_tick ms c"
| "tc_step S N B (TcRead n) c =
     bindE (tc_read (min n (B - bs_bytes_read (rc_stream_out (tc_receiver c)))) c) (\<lambda>(d, c). Inr c)"
| "tc_step S N B TcPop c = Inr (c\<lparr>tc_segments_out := tl (tc_segments_out c)\<rparr>)"

fun tc_op_ok :: "tc_op \<Rightarrow> bool" where
  "tc_op_ok (TcSegment seg) \<longleftrightarrow> length (seg_data seg) < 2 ^ 62"
| "tc_op_ok _ \<longleftrightarrow> True"

lemma tc_read_facts:
  assumes "tc_inv S N B isn L c" "bs_bytes_read (rc_stream_out (tc_receiver c)) + n \<le> B"
  shows "\<exists>c'. tc_read n c = Inr (take n (bs_contents (rc_stream_out (tc_receiver c))), c') \<and> tc_inv S N B isn L c'"
proof -
  let ?ra = "rc_reassembler (tc_receiver c)"
  have ok: "ra_ok ?ra" using assms(1) by (simp add: tc_inv_def rc_ok_def)
  obtain d st where rd: "bs_read n (rc_stream_out (tc_receiver c)) = Inr (d, st)"
    by (rule bs_read_cases [of n "rc_stream_out (tc_receiver c)"]) auto
  have "ra_ok (?ra\<lparr>ra_output := st\<rparr>)"
    by (rule ra_ok_read [OF ok ra_ok_bounds(1) [OF ok tc_inv_max [OF assms(1)]]])
      (use rd in \<open>simp add: rc_stream_out_def\<close>)
  moreover have "bs_read_bytes st \<le> B"
    using bs_read_Inr(7) [OF rd] assms(2) by (simp add: bs_bytes_read_def)
  ultimately show ?thesis
    using assms(1) rd bs_read_Inr(1) [OF rd]
    by (auto simp: tc_read_def tc_inv_def rc_ok_def) (simp_all add: rc_stream_out_def)
qed

lemma tc_step_inv:
  assumes "tc_op_ok op" "tc_inv S N B isn L c"
  shows "\<exists>c'. tc_step S N B op c = Inr c' \<and> tc_inv S N B isn L c'"
proof (cases op)
  case (TcRead n)
  have "bs_bytes_read (rc_stream_out (tc_receiver c)) \<le> B" using assms(2) by (simp add: tc_inv_def bs_bytes_read_def)
  then have "bs_bytes_read (rc_stream_out (tc_receiver c)) +
      min n (B - bs_bytes_read (rc_stream_out (tc_receiver c))) \<le> B" by simp
  from tc_read_facts [OF assms(2) this] show ?thesis using TcRead by auto
next
  case TcPop
  then show ?thesis using assms(2) by (cases "tc_segments_out c") (auto simp: tc_inv_def)
next
  case (TcWrite n)
  then show ?thesis using tc_write_inv [OF assms(2), of n] by auto
qed (use assms tc_connect_inv tc_end_input_inv tc_segment_inv tc_tick_inv in auto)

interpretation tc: step_system "tc_step S N B" tc_op_ok "tc_inv S N B isn L" for S N B isn L
  by unfold_locales (rule tc_step_inv)

definition tc_isn :: "tcp_config \<Rightarrow> u32 \<Rightarrow> wrapping_int32" where
  "tc_isn cfg rnd = (case cfg_fixed_isn cfg of Some i \<Rightarrow> i | None \<Rightarrow> rnd)"

lemma tc_inv_new:
  assumes "N + 2 < 2 ^ 31" "B + unat (cfg_recv_capacity cfg) < 2 ^ 62"
  shows "tc_inv S N B (tc_isn cfg rnd) {} (tc_new cfg rnd)"
proof -
  have "snd_run_inv S N (tc_isn cfg rnd) (tc_sender (tc_new cfg rnd))"
    using assms(1) snd_inv_new by (simp add: snd_run_inv_def tc_new_def) (simp add: snd_new_def bs_new_def tc_isn_def)
  then show ?thesis using assms(2) rc_ok_new
    by (simp add: tc_inv_def tc_new_def) (simp add: rc_new_def rc_stream_out_def snd_new_def ra_new_def bs_new_def)
qed

lemma tc_run_new:
  assumes "N + 2 < 2 ^ 31" "B + unat (cfg_recv_capacity cfg) < 2 ^ 62" "\<forall>op\<in>set ops. tc_op_ok op"
  obtains c where "run_ops (tc_step S N B) ops (tc_new cfg rnd) = Inr c" "tc_inv S N B (tc_isn cfg rnd) {} c"
  using tc.run_inv [OF assms(3) tc_inv_new [OF assms(1,2)]] by blast

section \<open>Properties\<close>

text \<open>
  (C2) Safety of a connection against an arbitrary peer: whatever segments arrive, in whatever order
  with the calls of the application and the clock, no operation throws or runs into undefined behaviour
  (in particular \<open>unclean_shutdown\<close> never takes the front of an empty queue); the bytes held for the
  application and for reassembly never exceed the receive capacity; an active connection has never
  retransmitted more than \<open>MAX_RETX_ATTEMPTS\<close> times in a row; and every segment in the outbound queue
  carries bytes of the application's stream at their place.
\<close>

theorem connection_safe:
  assumes "N + 2 < 2 ^ 31" "B + unat (cfg_recv_capacity cfg) < 2 ^ 62" "\<forall>op\<in>set ops. tc_op_ok op"
  shows "\<exists>c. run_ops (tc_step S N B) ops (tc_new cfg rnd) = Inr c \<and>
    bs_buffer_size (rc_stream_out (tc_receiver c)) + unat (tc_unassembled_bytes c)
      \<le> unat (rc_capacity (tc_receiver c)) \<and>
    (tc_active c \<longrightarrow> snd_consecutive_retransmission (tc_sender c) \<le> MAX_RETX_ATTEMPTS) \<and>
    (\<forall>seg\<in>set (tc_segments_out c). \<exists>a. carries S (tc_isn cfg rnd) a seg)"
proof -
  obtain c where c: "run_ops (tc_step S N B) ops (tc_new cfg rnd) = Inr c" "tc_inv S N B (tc_isn cfg rnd) {} c"
    by (rule tc_run_new [OF assms])
  have i: "snd_isn (tc_sender c) = tc_isn cfg rnd" and log: "\<forall>seg\<in>set (tc_segments_out c). snd_log_ok S (tc_sender c) seg"
    using c(2) by (simp_all add: tc_inv_def snd_run_inv_def)
  have "\<forall>seg\<in>set (tc_segments_out c). \<exists>a. carries S (tc_isn cfg rnd) a seg"
    using log unfolding snd_log_ok_def i by blast
  moreover have "length (bs_contents (rc_stream_out (tc_receiver c))) + unat (tc_unassembled_bytes c)
      \<le> unat (rc_capacity (tc_receiver c))"
    using ra_ok_bounds(4) [OF _ tc_inv_max [OF c(2)]] c(2)
    by (simp add: tc_inv_def rc_ok_def tc_unassembled_bytes_def rc_unassembled_bytes_def ra_unassembled_def rc_stream_out_def)
  ultimately show ?thesis using c by (simp add: tc_inv_def)
qed

theorem connection_safe_witness:
  "\<exists>c. run_ops (tc_step (\<lambda>_. 7) 4 100) [TcConnect, TcSegment seg_new, TcWrite 4, TcTick 5000, TcEndInput]
      (tc_new cfg_default 0) = Inr c \<and>
    bs_buffer_size (rc_stream_out (tc_receiver c)) + unat (tc_unassembled_bytes c)
      \<le> unat (rc_capacity (tc_receiver c))"
  using connection_safe [of 4 100 cfg_default
      "[TcConnect, TcSegment seg_new, TcWrite 4, TcTick 5000, TcEndInput]" "\<lambda>_. 7" 0]
  by (auto simp: cfg_default_def DEFAULT_CAPACITY_def unat_of_nat64 seg_data_def seg_new_def)

definition tc_dead :: "tcp_connection \<Rightarrow> bool" where
  "tc_dead c \<longleftrightarrow> \<not> tc_active c \<and> bs_error (snd_stream (tc_sender c)) \<and> bs_error (rc_stream_out (tc_receiver c))"

lemma drain_sender_frame [simp]:
  "tc_active (drain_sender segs c) = tc_active c" "tc_receiver (drain_sender segs c) = tc_receiver c"
  "tc_linger (drain_sender segs c) = tc_linger c" "tc_cfg (drain_sender segs c) = tc_cfg c"
  "tc_time_since_last_segment_received (drain_sender segs c) = tc_time_since_last_segment_received c"
  "snd_stream (tc_sender (drain_sender segs c)) = snd_stream (tc_sender c)"
  "snd_bytes_in_flight (tc_sender (drain_sender segs c)) = snd_bytes_in_flight (tc_sender c)"
  "snd_next_seqno (tc_sender (drain_sender segs c)) = snd_next_seqno (tc_sender c)"
  by (induction segs arbitrary: c) simp_all

lemma drain_sender_out:
  "tc_segments_out (drain_sender segs c) = tc_segments_out c @ map (set_seg c) segs"
proof (induction segs arbitrary: c)
  case (Cons seg segs)
  have "set_seg (c\<lparr>tc_sender := s, tc_segments_out := q\<rparr>) = set_seg c" for s q
    by (rule ext) (simp add: set_seg_def split: option.split)
  then show ?case using Cons by simp
qed simp

lemma clean_shutdown_frame [simp]:
  "tc_sender (clean_shutdown c) = tc_sender c" "tc_receiver (clean_shutdown c) = tc_receiver c"
  "tc_segments_out (clean_shutdown c) = tc_segments_out c" "tc_cfg (clean_shutdown c) = tc_cfg c"
  "tc_time_since_last_segment_received (clean_shutdown c) = tc_time_since_last_segment_received c"
  by (simp_all add: clean_shutdown_def Let_def)

text \<open>When both streams are finished and acknowledged the connection may end.\<close>

definition tc_finished :: "tcp_connection \<Rightarrow> bool" where
  "tc_finished c \<longleftrightarrow> bs_eof (snd_stream (tc_sender c)) \<and> bs_input_ended (rc_stream_out (tc_receiver c)) \<and>
     snd_bytes_in_flight (tc_sender c) = 0"

lemma clean_shutdown_active:
  "tc_active (clean_shutdown c) \<longleftrightarrow> tc_active c \<and>
     \<not> (tc_finished c \<and> (\<not> tc_linger c \<or>
          10 * ucast (cfg_rt_timeout (tc_cfg c)) \<le> tc_time_since_last_segment_received c))"
  by (auto simp: clean_shutdown_def Let_def tc_finished_def)

lemma unclean_shutdown_dead:
  "unclean_shutdown c = Inr c' \<Longrightarrow> tc_dead c' \<and>
     (\<exists>seg. tc_segments_out c' = tc_segments_out c @ [seg] \<and> th_rst (seg_header seg))"
  by (auto simp: unclean_shutdown_def tc_dead_def kill_def Let_def bs_set_error_def rc_stream_out_def
      split: list.splits)

lemma send_segs_dead: "tc_dead c \<Longrightarrow> tc_dead (send_segs_from_sender c)"
  by (simp add: tc_dead_def send_segs_from_sender_def clean_shutdown_active)


text \<open>
  (C7) Giving up: when the retransmission timer expires (with a non-zero window) after
  \<open>MAX_RETX_ATTEMPTS\<close> retransmissions in a row, \<open>tick\<close> aborts the connection: it becomes inactive, both
  streams are in the error state, and the next segment out is a RST.
\<close>

theorem tick_gives_up:
  assumes "tc_inv S N B isn L c" "tc_active c" "snd_back_off (tc_sender c)"
    and "snd_consecutive_retransmission (tc_sender c) = MAX_RETX_ATTEMPTS"
    and "snd_outstanding_segments (tc_sender c) \<noteq> []"
    and "snd_RTO (tc_sender c) \<le> snd_time_elipsed (tc_sender c) + ucast ms"
  shows "\<exists>c' rst rest. tc_tick ms c = Inr c' \<and> tc_dead c' \<and>
    tc_segments_out c' = tc_segments_out c @ rst # rest \<and> th_rst (seg_header rst)"
proof -
  let ?c = "c\<lparr>tc_time_since_last_segment_received := tc_time_since_last_segment_received c + ms\<rparr>"
  obtain c' where c': "tc_tick ms c = Inr c'" using tc_tick_inv [OF assms(1)] by blast
  have inv: "snd_inv S (tc_sender c)" using assms(1) by (simp add: tc_inv_def snd_run_inv_def)
  obtain s where s: "snd_tick ms (tc_sender c) = Inr s" "MAX_RETX_ATTEMPTS < snd_consecutive_retransmission s"
    by (rule snd_tick_facts [OF inv, of ms])
      (use assms(3-) inv in \<open>auto simp: snd_inv_def snd_queue_ok_def MAX_RETX_ATTEMPTS_def\<close>)
  with c' assms(2) obtain c1 where c1: "unclean_shutdown (?c\<lparr>tc_sender := s\<rparr>) = Inr c1" "c' = send_segs_from_sender c1"
    by (auto simp: tc_tick_def Let_def bindE_eq_Inr_iff)
  from unclean_shutdown_dead [OF c1(1)] show ?thesis
    using c' c1(2) send_segs_dead by (auto simp: send_segs_from_sender_def drain_sender_out)
qed

definition tc_ended :: "tcp_connection \<Rightarrow> bool" where
  "tc_ended c \<longleftrightarrow> \<not> tc_active c \<and> (tc_dead c \<or> tc_finished c \<and> (\<not> tc_linger c \<or>
     10 * ucast (cfg_rt_timeout (tc_cfg c)) \<le> tc_time_since_last_segment_received c))"

lemma send_segs_ended:
  assumes "tc_active c \<or> tc_dead c" "\<not> tc_active (send_segs_from_sender c)"
  shows "tc_ended (send_segs_from_sender c)"
proof (cases "tc_active c")
  case True
  define d where "d = drain_sender (snd_segments_out (tc_sender c)) c"
  have "tc_linger (clean_shutdown d) = tc_linger d" if "tc_finished d"
    using that by (simp add: clean_shutdown_def tc_finished_def Let_def)
  moreover have "tc_finished (clean_shutdown d) = tc_finished d" by (simp add: tc_finished_def)
  ultimately show ?thesis using assms(2) True
    by (auto simp: tc_ended_def send_segs_from_sender_def d_def [symmetric] clean_shutdown_active)
      (simp_all add: d_def)
next
  case False
  then show ?thesis using assms send_segs_dead by (simp add: tc_ended_def)
qed

lemma unclean_shutdown_ended: "unclean_shutdown c = Inr c' \<Longrightarrow> tc_ended c'"
  using unclean_shutdown_dead [of c c'] by (auto simp: tc_ended_def tc_dead_def)

lemma tc_deliver_ended:
  assumes "tc_deliver seg c = Inr c'" "tc_active c" "\<not> tc_active c'"
  shows "tc_ended c'"
proof -
  consider c1 where "unclean_shutdown c1 = Inr c'" | c1 where "c' = send_segs_from_sender c1" "tc_active c1"
    using assms(1,2) by (auto simp: tc_deliver_def bindE_eq_Inr_iff Let_def split: if_splits)
  then show ?thesis using assms(3) unclean_shutdown_ended send_segs_ended by cases auto
qed

lemma tc_connect_ended: "tc_connect c = Inr c' \<Longrightarrow> tc_active c \<Longrightarrow> \<not> tc_active c' \<Longrightarrow> tc_ended c'"
  by (auto simp: tc_connect_def bindE_eq_Inr_iff intro!: send_segs_ended)

lemma kill_dead: "tc_dead (kill c)"
  by (simp add: tc_dead_def kill_def bs_set_error_def rc_stream_out_def)

lemma tc_segment_cases:
  assumes "tc_segment_received seg c = Inr c'" "tc_active c"
  defines "c1 \<equiv> c\<lparr>tc_time_since_last_segment_received := 0\<rparr>"
  obtains (listening) r where "rc_segment_received seg (tc_receiver c) = Inr r" "tc_connect (c1\<lparr>tc_receiver := r\<rparr>) = Inr c'"
    | (delivered) "tc_deliver seg c1 = Inr c'"
    | (refused) "c' = kill c1"
    | (simultaneous) r where "rc_segment_received seg (tc_receiver c) = Inr r"
        "c' = c1\<lparr>tc_receiver := r, tc_sender := send_empty_segment (tc_sender c1)\<rparr>"
    | (ignored) "c' = c1"
proof (cases "rc_ackno (tc_receiver c1) = None \<and> snd_next_seqno (tc_sender c1) = 0")
  case True
  have rc: "tc_receiver c1 = tc_receiver c" by (simp add: c1_def)
  from True have "(if \<not> th_syn (seg_header seg) then Inr c1
      else bindE (rc_segment_received seg (tc_receiver c1)) (\<lambda>r. tc_connect (c1\<lparr>tc_receiver := r\<rparr>))) = Inr c'"
    using assms(1,2) by (simp add: tc_segment_received_def c1_def [symmetric])
  then show thesis using listening ignored
    by (cases "th_syn (seg_header seg)") (auto simp: bindE_eq_Inr_iff rc)
next
  case False
  define Y where "Y = ((snd_next_seqno (tc_sender c1) > 0 \<and>
    snd_next_seqno (tc_sender c1) = snd_bytes_in_flight (tc_sender c1)) \<and> rc_ackno (tc_receiver c1) = None)"
  define B where "B = (buf_size (seg_payload seg) > 0 \<or> \<not> th_ack (seg_header seg))"
  have "tc_segment_received seg c = (if Y then if B then
        if \<not> th_ack (seg_header seg) \<and> th_syn (seg_header seg) then
          bindE (rc_segment_received seg (tc_receiver c1)) (\<lambda>r.
            Inr (c1\<lparr>tc_receiver := r, tc_sender := send_empty_segment (tc_sender c1)\<rparr>)) else Inr c1
        else if th_rst (seg_header seg) then Inr (kill c1) else tc_deliver seg c1
      else tc_deliver seg c1)"
    using False assms(2)
    by (simp only: tc_segment_received_def Let_def c1_def [symmetric] Y_def B_def not_True_eq_False if_False)
  note eq = this [unfolded assms(1)]
  have rc: "tc_receiver c1 = tc_receiver c" by (simp add: c1_def)
  consider "Y" "B" "\<not> th_ack (seg_header seg) \<and> th_syn (seg_header seg)"
    | "Y" "B" "\<not> (\<not> th_ack (seg_header seg) \<and> th_syn (seg_header seg))"
    | "Y" "\<not> B" "th_rst (seg_header seg)" | "\<not> (Y \<and> B)" "\<not> (Y \<and> th_rst (seg_header seg))" by blast
  then show thesis
  proof cases
    case 1
    then show thesis
      using eq simultaneous by (cases "rc_segment_received seg (tc_receiver c)") (simp_all add: rc)
  next
    case 2
    then show thesis using eq ignored by (simp only: if_True if_False simp_thms sum.inject)
  next
    case 3
    then show thesis using eq refused by simp
  next
    case 4
    then show thesis using eq delivered by (cases Y) simp_all
  qed
qed

lemma tc_segment_ended:
  assumes "tc_segment_received seg c = Inr c'" "tc_active c" "\<not> tc_active c'"
  shows "tc_ended c'"
proof (cases rule: tc_segment_cases [OF assms(1,2)])
  case (1 r)
  show ?thesis by (rule tc_connect_ended [OF 1(2)]) (use assms in simp_all)
next
  case 2
  then show ?thesis by (rule tc_deliver_ended) (use assms in simp_all)
next
  case 3
  then show ?thesis using kill_dead by (auto simp: tc_ended_def tc_dead_def)
qed (use assms in simp_all)

lemma tc_tick_ended:
  assumes "tc_tick ms c = Inr c'" "tc_active c" "\<not> tc_active c'"
  shows "tc_ended c'"
proof -
  obtain c1 where "c' = send_segs_from_sender c1" "tc_active c1 \<or> tc_dead c1"
    using assms(1,2) unclean_shutdown_dead
    by (auto simp: tc_tick_def Let_def bindE_eq_Inr_iff split: if_splits)
  then show ?thesis using assms(3) send_segs_ended by simp
qed

text \<open>
  (C6) An active connection becomes inactive in two ways only: cleanly, with both streams finished,
  everything acknowledged and no reason to linger (or the linger time over), or by a reset with both
  streams in the error state.
\<close>

theorem inactive_only_if_done:
  assumes "tc_step S N B op c = Inr c'" "tc_active c" "\<not> tc_active c'"
  shows "tc_dead c' \<or> tc_finished c' \<and> (\<not> tc_linger c' \<or>
    10 * ucast (cfg_rt_timeout (tc_cfg c')) \<le> tc_time_since_last_segment_received c')"
proof -
  have "tc_ended c'"
  proof (cases op)
    case (TcWrite n)
    then show ?thesis using assms
      by (auto simp: bindE_eq_Inr_iff tc_write_def Let_def split: if_splits prod.splits intro!: send_segs_ended)
  next
    case (TcRead n)
    then show ?thesis using assms by (auto simp: bindE_eq_Inr_iff tc_read_def)
  next
    case TcEndInput
    then show ?thesis using assms by (auto simp: bindE_eq_Inr_iff tc_end_input_stream_def intro!: send_segs_ended)
  qed (use assms tc_connect_ended tc_segment_ended tc_tick_ended in auto)
  then show ?thesis by (simp add: tc_ended_def)
qed

section \<open>Concrete connections\<close>

text \<open>A small configuration, and the SYN/ACK of a peer whose initial sequence number is 100.\<close>

definition demo_cfg :: tcp_config where
  "demo_cfg = \<lparr>cfg_rt_timeout = 1000, cfg_recv_capacity = 8, cfg_send_capacity = 8, cfg_fixed_isn = Some 0\<rparr>"

definition demo_synack :: tcp_segment where
  "demo_synack = seg_new\<lparr>seg_header := th_new\<lparr>th_seqno := 100, th_syn := True, th_ack := True, th_ackno := 1, th_win := 4\<rparr>\<rparr>"

lemma demo_run:
  assumes "\<forall>op\<in>set ops. tc_op_ok op"
    and "case run_ops (tc_step (\<lambda>_. 7) 4 8) ops (tc_new demo_cfg 0) of Inr c \<Rightarrow> P c | Inl e \<Rightarrow> False"
  obtains c where "run_ops (tc_step (\<lambda>_. 7) 4 8) ops (tc_new demo_cfg 0) = Inr c"
    "tc_inv (\<lambda>_. 7) 4 8 0 {} c" "P c"
proof -
  have isn: "tc_isn demo_cfg 0 = 0" by (simp add: tc_isn_def demo_cfg_def)
  obtain c where "run_ops (tc_step (\<lambda>_. 7) 4 8) ops (tc_new demo_cfg 0) = Inr c" "tc_inv (\<lambda>_. 7) 4 8 0 {} c"
    by (rule tc_run_new [of 4 8 demo_cfg ops "\<lambda>_. 7" 0])
      (use assms(1) isn in \<open>simp_all add: demo_cfg_def\<close>)
  then show thesis using that assms(2) by simp
qed


theorem tick_gives_up_witness:
  "\<exists>c c'. run_ops (tc_step (\<lambda>_. 7) 4 8) (TcConnect # replicate 8 (TcTick 1000000)) (tc_new demo_cfg 0) = Inr c \<and>
    tc_tick 1000000 c = Inr c' \<and> tc_dead c'"
proof (rule demo_run [of "TcConnect # replicate 8 (TcTick 1000000)" "\<lambda>c. tc_active c \<and> snd_back_off (tc_sender c) \<and>
    snd_consecutive_retransmission (tc_sender c) = MAX_RETX_ATTEMPTS \<and> snd_outstanding_segments (tc_sender c) \<noteq> [] \<and>
    snd_RTO (tc_sender c) \<le> snd_time_elipsed (tc_sender c) + ucast (1000000 :: u64)"])
  show "\<forall>op\<in>set (TcConnect # replicate 8 (TcTick 1000000)). tc_op_ok op" by simp
  show "case run_ops (tc_step (\<lambda>_. 7) 4 8) (TcConnect # replicate 8 (TcTick 1000000)) (tc_new demo_cfg 0) of
      Inr c \<Rightarrow> tc_active c \<and> snd_back_off (tc_sender c) \<and>
        snd_consecutive_retransmission (tc_sender c) = MAX_RETX_ATTEMPTS \<and> snd_outstanding_segments (tc_sender c) \<noteq> [] \<and>
        snd_RTO (tc_sender c) \<le> snd_time_elipsed (tc_sender c) + ucast (1000000 :: u64)
    | Inl e \<Rightarrow> False" by code_simp
next
  fix c
  assume run: "run_ops (tc_step (\<lambda>_. 7) 4 8) (TcConnect # replicate 8 (TcTick 1000000)) (tc_new demo_cfg 0) = Inr c"
    and c: "tc_inv (\<lambda>_. 7) 4 8 0 {} c" "tc_active c \<and> snd_back_off (tc_sender c) \<and>
      snd_consecutive_retransmission (tc_sender c) = MAX_RETX_ATTEMPTS \<and> snd_outstanding_segments (tc_sender c) \<noteq> [] \<and>
      snd_RTO (tc_sender c) \<le> snd_time_elipsed (tc_sender c) + ucast (1000000 :: u64)"
  from tick_gives_up [OF c(1), of 1000000] run c(2) show ?thesis by blast
qed

theorem inactive_only_if_done_witness:
  "case tc_step (\<lambda>_. 7) 4 8 (TcSegment (demo_synack\<lparr>seg_header := (seg_header demo_synack)\<lparr>th_rst := True\<rparr>\<rparr>))
       (case tc_connect (tc_new demo_cfg 0) of Inr c \<Rightarrow> c | Inl e \<Rightarrow> tc_new demo_cfg 0) of
     Inr c' \<Rightarrow> \<not> tc_active c' \<and> (tc_dead c' \<or> tc_finished c') | Inl e \<Rightarrow> False"
proof -
  let ?op = "TcSegment (demo_synack\<lparr>seg_header := (seg_header demo_synack)\<lparr>th_rst := True\<rparr>\<rparr>)"
  let ?c = "case tc_connect (tc_new demo_cfg 0) of Inr c \<Rightarrow> c | Inl e \<Rightarrow> tc_new demo_cfg 0"
  have "tc_active ?c \<and> (case tc_step (\<lambda>_. 7) 4 8 ?op ?c of Inr c' \<Rightarrow> \<not> tc_active c' | Inl e \<Rightarrow> False)" by code_simp
  then obtain c' where "tc_step (\<lambda>_. 7) 4 8 ?op ?c = Inr c'" "tc_active ?c" "\<not> tc_active c'"
    by (cases "tc_step (\<lambda>_. 7) 4 8 ?op ?c") auto
  then show ?thesis using inactive_only_if_done [of "\<lambda>_. 7" 4 8 ?op ?c c'] by auto
qed

section \<open>Closing\<close>

definition in_state :: "official_state \<Rightarrow> tcp_connection \<Rightarrow> bool" where
  "in_state st c \<longleftrightarrow> ts_eq (tc_state c) (ts_official st)"

lemma sender_fin_acked:
  "sender_summary s = SENDER_FIN_ACKED \<longleftrightarrow> \<not> bs_error (snd_stream s) \<and> snd_next_seqno s \<noteq> 0 \<and>
     bs_eof (snd_stream s) \<and> of_nat (bs_bytes_written (snd_stream s)) + 2 \<le> snd_next_seqno s \<and>
     snd_bytes_in_flight s = 0"
  by (auto simp: sender_summary_def summary_strings not_less)

lemma receiver_fin_recv:
  "receiver_summary r = RECEIVER_FIN_RECV \<longleftrightarrow> \<not> bs_error (rc_stream_out r) \<and> rc_ackno r \<noteq> None \<and>
     bs_input_ended (rc_stream_out r)"
  by (simp add: receiver_summary_def summary_strings)

lemma in_time_wait:
  "in_state TIME_WAIT c \<longleftrightarrow> sender_summary (tc_sender c) = SENDER_FIN_ACKED \<and>
     receiver_summary (tc_receiver c) = RECEIVER_FIN_RECV \<and> tc_active c \<and> tc_linger c"
  by (auto simp: in_state_def ts_eq_def tc_state_def ts_of_def)

lemma in_closed:
  "in_state CLOSED c \<longleftrightarrow> sender_summary (tc_sender c) = SENDER_FIN_ACKED \<and>
     receiver_summary (tc_receiver c) = RECEIVER_FIN_RECV \<and> \<not> tc_active c"
  by (auto simp: in_state_def ts_eq_def tc_state_def ts_of_def)

lemma time_wait_idle:
  assumes "tc_inv S N B isn L c" "in_state TIME_WAIT c"
  shows "snd_tick ms (tc_sender c) = Inr (tc_sender c)"
proof -
  have inv: "snd_inv S (tc_sender c)" and n: "bs_write_bytes (snd_stream (tc_sender c)) + 2 < 2 ^ 31"
    using assms(1) by (auto simp: tc_inv_def snd_run_inv_def)
  have q: "snd_queue_ok S (tc_sender c)" using inv by (simp add: snd_inv_def)
  have "of_nat (flight (snd_outstanding_segments (tc_sender c))) = (0 :: u64)"
    using q assms(2) by (simp add: in_time_wait sender_fin_acked snd_queue_ok_def)
  moreover have "flight (snd_outstanding_segments (tc_sender c)) < 2 ^ 64"
    using q unat_lt64 [of "snd_next_seqno (tc_sender c)"] by (simp add: snd_queue_ok_def del: unat_lt64)
  ultimately have "flight (snd_outstanding_segments (tc_sender c)) = 0"
    by (metis unat_of_nat64 unsigned_0)
  then have "snd_outstanding_segments (tc_sender c) = []"
    using q by (cases "snd_outstanding_segments (tc_sender c)") (auto simp: snd_queue_ok_def)
  then show ?thesis using q by (simp add: snd_tick_def snd_queue_ok_def)
qed

abbreviation linger_ms :: "tcp_connection \<Rightarrow> nat" where
  "linger_ms c \<equiv> 10 * unat (cfg_rt_timeout (tc_cfg c))"

lemma linger_word: "unat (10 * ucast (t :: u16) :: u64) = 10 * unat t"
proof -
  have "unat (ucast t :: u64) = unat t" using unat_lt16 [of t] by (simp add: unat_ucast_mod del: unat_lt16)
  moreover have "10 * unat t < 2 ^ 64" using unat_lt16 [of t] by (simp del: unat_lt16)
  ultimately show ?thesis by (simp add: unat_word_ariths)
qed

lemma time_wait_tick:
  assumes inv: "tc_inv S N B isn L c" and tw: "in_state TIME_WAIT c"
    and t: "t = unat (tc_time_since_last_segment_received c) + unat ms" "t < 2 ^ 64"
  obtains c' where "tc_tick ms c = Inr c'" "tc_inv S N B isn L c'" "tc_cfg c' = tc_cfg c"
    "unat (tc_time_since_last_segment_received c') = t"
    "in_state (if linger_ms c \<le> t then CLOSED else TIME_WAIT) c'"
proof -
  define c1 where "c1 = c\<lparr>tc_time_since_last_segment_received := tc_time_since_last_segment_received c + ms\<rparr>"
  have s: "tc_sender c1 = tc_sender c" "tc_receiver c1 = tc_receiver c" "tc_active c1" "tc_linger c1" "tc_cfg c1 = tc_cfg c"
    using tw by (simp_all add: c1_def in_time_wait)
  have n: "\<not> snd_consecutive_retransmission (tc_sender c) > MAX_RETX_ATTEMPTS"
    using inv s(3) by (simp add: tc_inv_def c1_def not_less)
  have tick: "tc_tick ms c = Inr (send_segs_from_sender c1)"
    using time_wait_idle [OF inv tw] n s(3) by (simp add: tc_tick_def c1_def Let_def)
  have time: "unat (tc_time_since_last_segment_received c1) = t" using t by (simp add: c1_def unat_add64)
  define d where "d = drain_sender (snd_segments_out (tc_sender c1)) c1"
  have d: "sender_summary (tc_sender d) = sender_summary (tc_sender c)"
    by (simp add: d_def sender_summary_def s(1))
  have fin: "tc_finished d" "bs_eof (snd_stream (tc_sender d))"
    using tw s by (simp_all add: d_def tc_finished_def in_time_wait sender_fin_acked receiver_fin_recv)
  have "tc_linger (clean_shutdown d)" using fin s by (simp add: clean_shutdown_def Let_def) (simp add: d_def)
  moreover have "tc_active (clean_shutdown d) \<longleftrightarrow> \<not> linger_ms c \<le> t"
    using fin s time by (simp add: clean_shutdown_active) (simp add: d_def word_le_nat_alt linger_word)
  ultimately have "in_state (if linger_ms c \<le> t then CLOSED else TIME_WAIT) (clean_shutdown d)"
    using tw d s by (simp add: in_time_wait in_closed) (simp add: d_def)
  moreover have "tc_inv S N B isn L (clean_shutdown d)"
    using tc_tick_inv [OF inv, of ms] tick by (simp add: send_segs_from_sender_def d_def)
  ultimately show thesis using tick time s
    by (intro that [of "clean_shutdown d"]) (simp_all add: send_segs_from_sender_def d_def)
qed

lemma run_ticks_closed: "\<not> tc_active c \<Longrightarrow> run_ops (tc_step S N B) (map TcTick mss) c = Inr c"
  by (induction mss) (simp_all add: tc_tick_def)

text \<open>
  (C5) Lingering ends: in TIME_WAIT, without further segments, the connection is CLOSED (and not before)
  as soon as the ticks add up to ten times the initial retransmission timeout.
\<close>

theorem time_wait_expires:
  assumes "tc_inv S N B isn L c" "in_state TIME_WAIT c"
    and "t = unat (tc_time_since_last_segment_received c) + sum_list (map unat mss)" "t < 2 ^ 64"
    and "unat (tc_time_since_last_segment_received c) < linger_ms c"
  shows "\<exists>c'. run_ops (tc_step S N B) (map TcTick mss) c = Inr c' \<and>
    in_state (if linger_ms c \<le> t then CLOSED else TIME_WAIT) c'"
  using assms
proof (induction mss arbitrary: c)
  case (Cons ms mss)
  have small: "unat (tc_time_since_last_segment_received c) + unat ms < 2 ^ 64" using Cons.prems(3,4) by simp
  obtain c1 where c1: "tc_tick ms c = Inr c1" "tc_inv S N B isn L c1" "tc_cfg c1 = tc_cfg c"
    "unat (tc_time_since_last_segment_received c1) = unat (tc_time_since_last_segment_received c) + unat ms"
    "in_state (if linger_ms c \<le> unat (tc_time_since_last_segment_received c) + unat ms then CLOSED else TIME_WAIT) c1"
    by (rule time_wait_tick [OF Cons.prems(1,2) refl small])
  show ?case
  proof (cases "linger_ms c \<le> unat (tc_time_since_last_segment_received c) + unat ms")
    case True
    then have "in_state CLOSED c1" using c1(5) by simp
    then show ?thesis using c1(1) Cons.prems(3) True run_ticks_closed [of c1]
      by (auto simp: in_closed)
  next
    case False
    then show ?thesis using Cons.IH [OF c1(2)] c1 Cons.prems(3,4) by simp
  qed
qed simp

definition demo_fin :: tcp_segment where
  "demo_fin = seg_new\<lparr>seg_header := th_new\<lparr>th_seqno := 101, th_fin := True, th_ack := True, th_ackno := 2, th_win := 4\<rparr>\<rparr>"

theorem time_wait_expires_witness:
  "\<exists>c c'. run_ops (tc_step (\<lambda>_. 7) 4 8) [TcConnect, TcSegment demo_synack, TcEndInput, TcSegment demo_fin]
      (tc_new demo_cfg 0) = Inr c \<and>
    run_ops (tc_step (\<lambda>_. 7) 4 8) (map TcTick [4, 9996]) c = Inr c' \<and> in_state CLOSED c'"
proof (rule demo_run [of "[TcConnect, TcSegment demo_synack, TcEndInput, TcSegment demo_fin]"
      "\<lambda>c. in_state TIME_WAIT c \<and> tc_time_since_last_segment_received c = 0 \<and> cfg_rt_timeout (tc_cfg c) = 1000"])
  show "\<forall>op\<in>set [TcConnect, TcSegment demo_synack, TcEndInput, TcSegment demo_fin]. tc_op_ok op"
    by (simp add: demo_synack_def demo_fin_def seg_data_def seg_new_def)
  show "case run_ops (tc_step (\<lambda>_. 7) 4 8) [TcConnect, TcSegment demo_synack, TcEndInput, TcSegment demo_fin]
      (tc_new demo_cfg 0) of
      Inr c \<Rightarrow> in_state TIME_WAIT c \<and> tc_time_since_last_segment_received c = 0 \<and> cfg_rt_timeout (tc_cfg c) = 1000
    | Inl e \<Rightarrow> False" by code_simp
next
  fix c
  assume run: "run_ops (tc_step (\<lambda>_. 7) 4 8) [TcConnect, TcSegment demo_synack, TcEndInput, TcSegment demo_fin]
      (tc_new demo_cfg 0) = Inr c" and inv: "tc_inv (\<lambda>_. 7) 4 8 0 {} c"
    and c: "in_state TIME_WAIT c \<and> tc_time_since_last_segment_received c = 0 \<and> cfg_rt_timeout (tc_cfg c) = 1000"
  from time_wait_expires [OF inv _ refl, of "[4, 9996]"] run c show ?thesis by auto
qed

section \<open>Opening\<close>

definition syn_segment :: "wrapping_int32 \<Rightarrow> tcp_segment" where
  "syn_segment isn = seg_new\<lparr>seg_header := th_new\<lparr>th_seqno := isn, th_syn := True\<rparr>\<rparr>"

definition syn_sent :: "tcp_sender \<Rightarrow> tcp_sender" where
  "syn_sent s = s\<lparr>snd_syn_sent := True, snd_bytes_in_flight := 1, snd_next_seqno := 1,
     snd_outstanding_segments := [syn_segment (snd_isn s)], snd_timer_running := True, snd_time_elipsed := 0\<rparr>"

lemma wrap_zero [simp]: "wrap 0 isn = isn"
  by (simp add: wrap_def)

lemma fill_window_new:
  "fill_window (snd_new cap t i x) = Inr ((syn_sent (snd_new cap t i x))\<lparr>snd_segments_out := [syn_segment (snd_isn (snd_new cap t i x))]\<rparr>)"
  by (simp add: fill_window_def segment_handler_def Let_def syn_sent_def syn_segment_def length_in_sequence_space_def)
   (simp add: snd_new_def seg_new_def th_new_def)

lemma push_nothing: "push_substring [] 0 False (ra_new c) = Inr (ra_new c)"
  by (simp add: push_substring_def Let_def ra_end_input_if_def) (simp add: ra_new_def ra_end_input_if_def)

definition rc_opened :: "u64 \<Rightarrow> wrapping_int32 \<Rightarrow> tcp_receiver" where
  "rc_opened cap isn = (rc_new cap)\<lparr>rc_syn := True, rc_isn := ucast isn, rc_rcv_base := 1\<rparr>"

lemma rc_receives_syn:
  assumes "th_syn (seg_header seg)" "\<not> th_fin (seg_header seg)" "seg_payload seg = buf_empty"
  shows "rc_segment_received seg (rc_new cap) = Inr (rc_opened cap (th_seqno (seg_header seg)))"
  using assms push_nothing [of cap]
  by (simp add: rc_segment_received_def rc_push_def Let_def rc_new_def rc_opened_def)
    (simp add: ra_new_def ra_input_ended_def buf_copy_def)

lemma unwrap_first:
  "unwrap (wrap 1 isn) isn 0 = 1"
  by (rule unwrap_wrap_nat) simp_all

text \<open>A segment without data at the first position changes nothing but the acknowledgment.\<close>

lemma rc_receives_ack:
  assumes "\<not> th_syn (seg_header seg)" "\<not> th_fin (seg_header seg)" "seg_payload seg = buf_empty"
    "th_seqno (seg_header seg) = wrap 1 isn"
  shows "rc_segment_received seg (rc_opened cap isn) = Inr (rc_opened cap isn)"
  using assms push_nothing [of cap] unwrap_first [of isn]
  by (simp add: rc_segment_received_def rc_push_def Let_def rc_new_def rc_opened_def)
    (simp add: ra_new_def ra_input_ended_def buf_copy_def)

definition syn_acked :: "u16 \<Rightarrow> tcp_sender \<Rightarrow> tcp_sender" where
  "syn_acked win s = s\<lparr>snd_syn_sent := True, snd_next_seqno := 1, snd_rcv_base := 1, snd_time_elipsed := 0,
     snd_receiver_window_size := (if win = 0 then 1 else ucast win), snd_back_off := (win \<noteq> 0),
     snd_free_bytes := (if win = 0 then 1 else ucast win)\<rparr>"

lemma ack_of_syn:
  assumes "s = snd_new cap t i x"
  shows "ack_received (wrap 1 (snd_isn s)) win (syn_sent s) = Inr (syn_acked win s)"
proof -
  have u: "unwrap (wrap 1 (snd_isn s)) (snd_isn s) 0 = 1" by (rule unwrap_first)
  have w: "unwrap (snd_isn s) (snd_isn s) 1 = 0"
    using unwrap_wrap_nat [of 1 0 "snd_isn s"] by simp
  have e: "length_in_sequence_space (syn_segment isn) = 1" "th_seqno (seg_header (syn_segment isn)) = isn" for isn
    by (simp_all add: syn_segment_def length_in_sequence_space_def seg_new_def th_new_def)
  have eof: "\<not> bs_eof (bs_new cap)" "bs_contents (bs_new cap) = []"
    by (simp_all add: bs_new_def bs_eof_def bs_input_ended_def bs_contents_def)
  have s: "snd_rcv_base s = 0" "snd_next_seqno s = 0" "snd_stream s = bs_new cap" "\<not> snd_fin_sent s"
    "snd_RTO s = snd_initial_retransmission_timeout s" "snd_consecutive_retransmission s = 0"
    "\<not> snd_timer_running s" "snd_outstanding_segments s = []" "snd_bytes_in_flight s = 0"
    by (simp_all add: assms snd_new_def)
  define v :: u32 where "v = (if win = 0 then 1 else ucast win)"
  have wz: "(ucast win :: u32) = 0 \<longleftrightarrow> win = 0" by (simp add: word_unat_eq_iff unat_ucast_16_32)
  define t1 where "t1 = s\<lparr>snd_syn_sent := True, snd_next_seqno := 1, snd_rcv_base := 1, snd_time_elipsed := 0,
    snd_receiver_window_size := ucast win, snd_back_off := (win \<noteq> 0)\<rparr>"
  have "ack_received (wrap 1 (snd_isn s)) win (syn_sent s) = fill_window t1"
    by (simp add: ack_received_def syn_sent_def s u w e wz t1_def)
      (intro arg_cong [where f = fill_window] tcp_sender.equality, simp_all add: s)
  also have "\<dots> = fill_loop (1 + v) (t1\<lparr>snd_receiver_window_size := v\<rparr>)"
    by (simp add: fill_window_def t1_def s eof wz v_def)
  also have "\<dots> = Inr (t1\<lparr>snd_receiver_window_size := v, snd_free_bytes := ucast (ucast (1 + v) - (1 :: u64))\<rparr>)"
    by (subst fill_loop_stop) (simp_all add: t1_def s eof)
  also have "ucast (ucast (1 + v) - (1 :: u64)) = v"
  proof -
    have "unat v < 65536" by (simp add: v_def unat_ucast_16_32)
    then have "unat (1 + v) = 1 + unat v" by (subst unat_add32) simp_all
    then show ?thesis by (simp add: word_unat_eq_iff free_bytes_nat)
  qed
  finally show ?thesis by (simp add: t1_def syn_acked_def v_def)
qed

text \<open>The three states of an endpoint during the handshake.\<close>

definition tc_syn_sent :: "tcp_config \<Rightarrow> u32 \<Rightarrow> tcp_connection" where
  "tc_syn_sent cfg x = (tc_new cfg x)\<lparr>tc_sender := syn_sent (tc_sender (tc_new cfg x)),
     tc_segments_out := [syn_segment (tc_isn cfg x)]\<rparr>"

definition tc_opened :: "tcp_config \<Rightarrow> u32 \<Rightarrow> wrapping_int32 \<Rightarrow> tcp_connection" where
  "tc_opened cfg x peer = (tc_new cfg x)\<lparr>tc_receiver := rc_opened (cfg_recv_capacity cfg) peer\<rparr>"

definition tc_established :: "tcp_config \<Rightarrow> u32 \<Rightarrow> wrapping_int32 \<Rightarrow> u16 \<Rightarrow> tcp_segment list \<Rightarrow> tcp_connection" where
  "tc_established cfg x peer win out = (tc_new cfg x)\<lparr>tc_receiver := rc_opened (cfg_recv_capacity cfg) peer,
     tc_sender := syn_acked win (tc_sender (tc_new cfg x)), tc_segments_out := out\<rparr>"

definition ack_fields :: "tcp_config \<Rightarrow> wrapping_int32 \<Rightarrow> tcp_segment \<Rightarrow> tcp_segment" where
  "ack_fields cfg peer seg = seg\<lparr>seg_header := (seg_header seg)\<lparr>th_ack := True, th_ackno := wrap 1 peer,
     th_win := ucast (cfg_recv_capacity cfg)\<rparr>\<rparr>"

lemma opened_ackno [simp]: "rc_ackno (rc_opened cap peer) = Some (wrap 1 peer)"
  "rc_window_size (rc_opened cap peer) = cap"
  by (simp_all add: rc_ackno_def rc_window_size_def rc_opened_def rc_new_def rc_stream_out_def ra_new_def bs_new_def bs_contents_def)

lemma not_ended_new [simp]: "\<not> bs_input_ended (bs_new cap)" "\<not> bs_eof (bs_new cap)"
  by (simp_all add: bs_new_def bs_input_ended_def bs_eof_def)

lemma rc_out_new [simp]: "rc_stream_out (rc_new cap) = bs_new (unat cap)"
  "rc_stream_out (rc_opened cap peer) = bs_new (unat cap)"
  by (simp_all add: rc_stream_out_def rc_new_def rc_opened_def ra_new_def)

lemma connect_new: "tc_connect (tc_new cfg x) = Inr (tc_syn_sent cfg x)"
proof -
  have r: "rc_ackno (rc_new c) = None" for c by (simp add: rc_ackno_def rc_new_def)
  show ?thesis
    using fill_window_new [of "cfg_send_capacity cfg" "cfg_rt_timeout cfg" "cfg_fixed_isn cfg" x]
    by (simp add: tc_connect_def tc_new_def send_segs_from_sender_def clean_shutdown_def set_seg_def r tc_syn_sent_def)
      (simp add: syn_sent_def snd_new_def tc_isn_def)
qed

lemma syn_segment_fields [simp]:
  "seg_payload (syn_segment isn) = buf_empty" "th_seqno (seg_header (syn_segment isn)) = isn"
  "th_syn (seg_header (syn_segment isn))" "\<not> th_fin (seg_header (syn_segment isn))"
  "\<not> th_rst (seg_header (syn_segment isn))" "length_in_sequence_space (syn_segment isn) = 1"
  by (simp_all add: syn_segment_def seg_new_def th_new_def length_in_sequence_space_def)

lemma snd_new_fields [simp]:
  "snd_isn (tc_sender (tc_new cfg x)) = tc_isn cfg x" "snd_next_seqno (tc_sender (tc_new cfg x)) = 0"
  "snd_stream (tc_sender (tc_new cfg x)) = bs_new (cfg_send_capacity cfg)"
  "snd_segments_out (tc_sender (tc_new cfg x)) = []"
  "tc_receiver (tc_new cfg x) = rc_new (cfg_recv_capacity cfg)" "tc_active (tc_new cfg x)" "tc_linger (tc_new cfg x)"
  by (simp_all add: tc_new_def snd_new_def tc_isn_def)

definition tc_syn_rcvd :: "tcp_config \<Rightarrow> u32 \<Rightarrow> wrapping_int32 \<Rightarrow> tcp_connection" where
  "tc_syn_rcvd cfg x peer = (tc_new cfg x)\<lparr>tc_receiver := rc_opened (cfg_recv_capacity cfg) peer,
     tc_sender := syn_sent (tc_sender (tc_new cfg x)),
     tc_segments_out := [ack_fields cfg peer (syn_segment (tc_isn cfg x))]\<rparr>"

lemma listen_receives_syn:
  "tc_segment_received (syn_segment peer) (tc_new cfg x) = Inr (tc_syn_rcvd cfg x peer)"
proof -
  have r: "rc_ackno (rc_new c) = None" for c by (simp add: rc_ackno_def rc_new_def)
  have t: "(tc_new cfg x)\<lparr>tc_time_since_last_segment_received := 0\<rparr> = tc_new cfg x" by (simp add: tc_new_def)
  have "tc_segment_received (syn_segment peer) (tc_new cfg x) =
      tc_connect ((tc_new cfg x)\<lparr>tc_receiver := rc_opened (cfg_recv_capacity cfg) peer\<rparr>)"
    by (simp add: tc_segment_received_def t r rc_receives_syn)
  also have "\<dots> = Inr (tc_syn_rcvd cfg x peer)"
    using fill_window_new [of "cfg_send_capacity cfg" "cfg_rt_timeout cfg" "cfg_fixed_isn cfg" x]
    by (simp add: tc_connect_def tc_new_def send_segs_from_sender_def clean_shutdown_def set_seg_def tc_syn_rcvd_def ack_fields_def)
      (simp add: syn_sent_def snd_new_def tc_isn_def)
  finally show ?thesis .
qed

definition ack_segment :: "wrapping_int32 \<Rightarrow> tcp_segment" where
  "ack_segment isn = seg_new\<lparr>seg_header := th_new\<lparr>th_seqno := wrap 1 isn\<rparr>\<rparr>"

lemma syn_sent_receives_synack:
  fixes cfg x peer pcfg
  defines "isn \<equiv> tc_isn cfg x"
  shows "tc_segment_received (ack_fields pcfg isn (syn_segment peer)) (tc_syn_sent cfg x) =
    Inr (tc_established cfg x peer (ucast (cfg_recv_capacity pcfg))
      [syn_segment isn, ack_fields cfg peer (ack_segment isn)])"
proof -
  let ?seg = "ack_fields pcfg isn (syn_segment peer)" and ?w = "ucast (cfg_recv_capacity pcfg) :: u16"
  have seg: "th_syn (seg_header ?seg)" "\<not> th_fin (seg_header ?seg)" "\<not> th_rst (seg_header ?seg)" "seg_payload ?seg = buf_empty"
    "th_ack (seg_header ?seg)" "th_seqno (seg_header ?seg) = peer" "th_ackno (seg_header ?seg) = wrap 1 isn"
    "th_win (seg_header ?seg) = ?w" "length_in_sequence_space ?seg = 1"
    by (simp_all add: ack_fields_def) (simp add: length_in_sequence_space_def)
  have r: "rc_ackno (rc_new c) = None" for c by (simp add: rc_ackno_def rc_new_def)
  have t: "(tc_syn_sent cfg x)\<lparr>tc_time_since_last_segment_received := 0\<rparr> = tc_syn_sent cfg x"
    by (simp add: tc_syn_sent_def tc_new_def)
  have a: "ack_received (wrap 1 isn) ?w (syn_sent (tc_sender (tc_new cfg x))) = Inr (syn_acked ?w (tc_sender (tc_new cfg x)))"
    using ack_of_syn [of "tc_sender (tc_new cfg x)"] by (simp add: tc_new_def isn_def snd_new_def tc_isn_def)
  have "tc_segment_received ?seg (tc_syn_sent cfg x) = tc_deliver ?seg (tc_syn_sent cfg x)"
    by (simp add: tc_segment_received_def t seg Let_def) (simp add: tc_syn_sent_def r syn_sent_def buf_size_def)
  also have "\<dots> = Inr (tc_established cfg x peer ?w [syn_segment isn, ack_fields cfg peer (ack_segment isn)])"
    using a by (simp add: tc_deliver_def seg tc_syn_sent_def rc_receives_syn Let_def syn_acked_def
        send_empty_segment_def send_segs_from_sender_def clean_shutdown_def set_seg_def)
      (simp add: tc_established_def syn_acked_def ack_fields_def ack_segment_def isn_def seg_new_def)
  finally show ?thesis .
qed

lemma syn_rcvd_receives_ack:
  fixes cfg x peer pcfg
  defines "isn \<equiv> tc_isn cfg x"
  shows "tc_segment_received (ack_fields pcfg isn (ack_segment peer)) (tc_syn_rcvd cfg x peer) =
    Inr (tc_established cfg x peer (ucast (cfg_recv_capacity pcfg)) [ack_fields cfg peer (syn_segment isn)])"
proof -
  let ?seg = "ack_fields pcfg isn (ack_segment peer)" and ?w = "ucast (cfg_recv_capacity pcfg) :: u16"
  have seg: "\<not> th_syn (seg_header ?seg)" "\<not> th_fin (seg_header ?seg)" "\<not> th_rst (seg_header ?seg)" "seg_payload ?seg = buf_empty"
    "th_ack (seg_header ?seg)" "th_seqno (seg_header ?seg) = wrap 1 peer" "th_ackno (seg_header ?seg) = wrap 1 isn"
    "th_win (seg_header ?seg) = ?w" "length_in_sequence_space ?seg = 0"
    by (simp_all add: ack_fields_def ack_segment_def seg_new_def th_new_def length_in_sequence_space_def)
  have t: "(tc_syn_rcvd cfg x peer)\<lparr>tc_time_since_last_segment_received := 0\<rparr> = tc_syn_rcvd cfg x peer"
    by (simp add: tc_syn_rcvd_def tc_new_def)
  have a: "ack_received (wrap 1 isn) ?w (syn_sent (tc_sender (tc_new cfg x))) = Inr (syn_acked ?w (tc_sender (tc_new cfg x)))"
    using ack_of_syn [of "tc_sender (tc_new cfg x)"] by (simp add: tc_new_def isn_def snd_new_def tc_isn_def)
  have "tc_segment_received ?seg (tc_syn_rcvd cfg x peer) = tc_deliver ?seg (tc_syn_rcvd cfg x peer)"
    by (simp add: tc_segment_received_def t) (simp add: tc_syn_rcvd_def)
  also have "\<dots> = Inr (tc_established cfg x peer ?w [ack_fields cfg peer (syn_segment isn)])"
    using a by (simp add: tc_deliver_def seg tc_syn_rcvd_def rc_receives_ack Let_def syn_acked_def
        send_segs_from_sender_def clean_shutdown_def)
      (simp add: tc_established_def syn_acked_def isn_def)
  finally show ?thesis .
qed

lemma tc_established_state: "in_state ESTABLISHED (tc_established cfg x peer win out)"
proof -
  have "snd_bytes_in_flight (tc_sender (tc_new cfg x)) = 0" "\<not> bs_error (bs_new c)" for c
    by (simp_all add: tc_new_def snd_new_def bs_new_def)
  then show ?thesis
    by (simp add: in_state_def ts_eq_def tc_state_def ts_of_def tc_established_def sender_summary_def
        receiver_summary_def syn_acked_def)
qed

text \<open>
  (C4) Three-way handshake, for all configurations, initial sequence numbers (also those about to wrap),
  capacities and timeouts: \<open>connect\<close> sends a SYN; the listening peer answers it with a SYN/ACK; the
  client answers that with an ACK; on its arrival both endpoints are ESTABLISHED and each expects the
  peer's initial sequence number plus one.
\<close>

theorem handshake_establishes:
  "\<exists>a1 a2 b1 b2 syn synack ack.
     tc_connect (tc_new cfgA x) = Inr a1 \<and> tc_segments_out a1 = [syn] \<and>
     tc_segment_received syn (tc_new cfgB y) = Inr b1 \<and> tc_segments_out b1 = [synack] \<and>
     tc_segment_received synack a1 = Inr a2 \<and> tc_segments_out a2 = [syn, ack] \<and>
     tc_segment_received ack b1 = Inr b2 \<and> tc_segments_out b2 = [synack] \<and>
     in_state SYN_SENT a1 \<and> in_state SYN_RCVD b1 \<and> in_state ESTABLISHED a2 \<and> in_state ESTABLISHED b2 \<and>
     rc_ackno (tc_receiver a2) = Some (tc_isn cfgB y + 1) \<and> rc_ackno (tc_receiver b2) = Some (tc_isn cfgA x + 1)"
proof -
  have st: "in_state SYN_SENT (tc_syn_sent cfgA x)" "in_state SYN_RCVD (tc_syn_rcvd cfgB y p)" for p
    by (simp_all add: in_state_def ts_eq_def tc_state_def ts_of_def tc_syn_sent_def tc_syn_rcvd_def
        sender_summary_def receiver_summary_def syn_sent_def)
      (simp_all add: bs_new_def rc_ackno_def rc_new_def)
  have "wrap 1 i = i + 1" for i by (simp add: wrap_def add.commute)
  then show ?thesis
    using connect_new [of cfgA x] listen_receives_syn [of "tc_isn cfgA x" cfgB y]
      syn_sent_receives_synack [of cfgB cfgA x "tc_isn cfgB y"]
      syn_rcvd_receives_ack [of cfgA cfgB y "tc_isn cfgA x"] st
      tc_established_state [of cfgA x] tc_established_state [of cfgB y]
    by (intro exI conjI) (assumption | simp add: tc_syn_sent_def tc_syn_rcvd_def tc_established_def)+
qed

text \<open>
  Two departures from RFC 793. In a simultaneous open the acknowledgment of the peer's SYN is
  produced but left in the sender's queue: \<open>segments_out\<close> of the connection stays as it was, for every
  configuration. And a connection that has been reset still accepts data and sends it.
\<close>

theorem connection_departures:
  "(\<exists>c. tc_segment_received (syn_segment peer) (tc_syn_sent cfg x) = Inr c \<and>
      tc_segments_out c = tc_segments_out (tc_syn_sent cfg x) \<and> length (snd_segments_out (tc_sender c)) = 1) \<and>
   (case run_ops (tc_step (\<lambda>_. 7) 4 8) [TcConnect, TcSegment demo_synack,
        TcSegment (demo_synack\<lparr>seg_header := (seg_header demo_synack)\<lparr>th_rst := True\<rparr>\<rparr>), TcWrite 2] (tc_new demo_cfg 0) of
      Inl e \<Rightarrow> False
    | Inr c \<Rightarrow> tc_dead c \<and> seg_data (last (tc_segments_out c)) = [7, 7])"
proof
  have r: "rc_ackno (rc_new c) = None" for c by (simp add: rc_ackno_def rc_new_def)
  have t: "(tc_syn_sent cfg x)\<lparr>tc_time_since_last_segment_received := 0\<rparr> = tc_syn_sent cfg x"
    by (simp add: tc_syn_sent_def tc_new_def)
  have "\<not> th_ack (seg_header (syn_segment peer))" by (simp add: syn_segment_def th_new_def)
  then show "\<exists>c. tc_segment_received (syn_segment peer) (tc_syn_sent cfg x) = Inr c \<and>
      tc_segments_out c = tc_segments_out (tc_syn_sent cfg x) \<and> length (snd_segments_out (tc_sender c)) = 1"
    by (simp add: tc_segment_received_def t Let_def)
      (simp add: tc_syn_sent_def r syn_sent_def rc_receives_syn send_empty_segment_def Let_def)
qed code_simp

end
