(* ===== verification/Tcp_Network.thy ===== *)
theory Tcp_Network
  imports Connection
begin

text \<open>
  Two connections over a network that may lose, duplicate, delay and reorder segments, as a step
  relation: the composition of all components of the TCP layer. A segment that was sent may be
  delivered any number of times, or never, in any order.
\<close>

section \<open>The system\<close>

record endpoint =
  ep_conn :: tcp_connection
  ep_sent :: "tcp_segment list"
  ep_read :: bytes

text \<open>The steps of one endpoint that may receive the segments in \<open>inc\<close>.\<close>

inductive ep_step :: "(nat \<Rightarrow> u8) \<Rightarrow> nat \<Rightarrow> tcp_segment list \<Rightarrow> endpoint \<Rightarrow> endpoint \<Rightarrow> bool" for S N inc where
  ep_connect_step: "tc_connect (ep_conn e) = Inr c \<Longrightarrow> ep_step S N inc e (e\<lparr>ep_conn := c\<rparr>)"
| ep_write_step: "tc_write (tc_rest S N n (ep_conn e)) (ep_conn e) = Inr (k, c) \<Longrightarrow> ep_step S N inc e (e\<lparr>ep_conn := c\<rparr>)"
| ep_end_input_step: "tc_end_input_stream (ep_conn e) = Inr c \<Longrightarrow> ep_step S N inc e (e\<lparr>ep_conn := c\<rparr>)"
| ep_tick_step: "tc_tick ms (ep_conn e) = Inr c \<Longrightarrow> ep_step S N inc e (e\<lparr>ep_conn := c\<rparr>)"
| ep_send_step: "tc_segments_out (ep_conn e) = seg # segs \<Longrightarrow>
    ep_step S N inc e (e\<lparr>ep_conn := (ep_conn e)\<lparr>tc_segments_out := segs\<rparr>, ep_sent := ep_sent e @ [seg]\<rparr>)"
| ep_receive_step: "seg \<in> set inc \<Longrightarrow> tc_segment_received seg (ep_conn e) = Inr c \<Longrightarrow> ep_step S N inc e (e\<lparr>ep_conn := c\<rparr>)"
| ep_read_step: "tc_read n (ep_conn e) = Inr (d, c) \<Longrightarrow> ep_step S N inc e (e\<lparr>ep_conn := c, ep_read := ep_read e @ d\<rparr>)"

definition ep_new :: "tcp_config \<Rightarrow> u32 \<Rightarrow> endpoint" where
  "ep_new cfg x = \<lparr>ep_conn = tc_new cfg x, ep_sent = [], ep_read = []\<rparr>"

inductive reachable :: "(nat \<Rightarrow> u8) \<Rightarrow> nat \<Rightarrow> (nat \<Rightarrow> u8) \<Rightarrow> nat \<Rightarrow> endpoint \<Rightarrow> endpoint \<Rightarrow> endpoint \<Rightarrow> endpoint \<Rightarrow> bool"
  for SA NA SB NB a0 b0 where
  start: "reachable SA NA SB NB a0 b0 a0 b0"
| left: "reachable SA NA SB NB a0 b0 a b \<Longrightarrow> ep_step SA NA (ep_sent b) a a' \<Longrightarrow> reachable SA NA SB NB a0 b0 a' b"
| right: "reachable SA NA SB NB a0 b0 a b \<Longrightarrow> ep_step SB NB (ep_sent a) b b' \<Longrightarrow> reachable SA NA SB NB a0 b0 a b'"

section \<open>What an operation does to the receiver\<close>

definition rc_error :: "tcp_receiver \<Rightarrow> tcp_receiver" where
  "rc_error r = r\<lparr>rc_reassembler := (rc_reassembler r)\<lparr>ra_output := bs_set_error (rc_stream_out r)\<rparr>\<rparr>"

definition keeps_receiver :: "tcp_connection \<Rightarrow> tcp_connection \<Rightarrow> bool" where
  "keeps_receiver c c' \<longleftrightarrow> tc_receiver c' = tc_receiver c \<or> tc_receiver c' = rc_error (tc_receiver c)"

lemma send_segs_receiver [simp]: "tc_receiver (send_segs_from_sender c) = tc_receiver c"
  by (simp add: send_segs_from_sender_def)

lemma kill_receiver: "tc_receiver (kill c) = rc_error (tc_receiver c)"
  by (simp add: kill_def rc_error_def)

lemma unclean_receiver: "unclean_shutdown c = Inr c' \<Longrightarrow> tc_receiver c' = rc_error (tc_receiver c)"
  by (auto simp: unclean_shutdown_def Let_def kill_receiver split: list.splits)

lemma connect_receiver: "tc_connect c = Inr c' \<Longrightarrow> tc_receiver c' = tc_receiver c"
  by (auto simp: tc_connect_def bindE_eq_Inr_iff)

lemma write_receiver: "tc_write d c = Inr (k, c') \<Longrightarrow> tc_receiver c' = tc_receiver c"
  by (auto simp: tc_write_def bindE_eq_Inr_iff Let_def split: if_splits prod.splits)

lemma end_input_receiver: "tc_end_input_stream c = Inr c' \<Longrightarrow> tc_receiver c' = tc_receiver c"
  by (auto simp: tc_end_input_stream_def bindE_eq_Inr_iff)

lemma tick_receiver: "tc_tick ms c = Inr c' \<Longrightarrow> keeps_receiver c c'"
  by (auto simp: tc_tick_def bindE_eq_Inr_iff Let_def keeps_receiver_def dest!: unclean_receiver split: if_splits)

lemma deliver_receiver:
  assumes "tc_deliver seg c = Inr c'"
  shows "\<exists>r. rc_segment_received seg (tc_receiver c) = Inr r \<and> (tc_receiver c' = r \<or> tc_receiver c' = rc_error r)"
  using assms by (auto simp: tc_deliver_def bindE_eq_Inr_iff Let_def dest!: unclean_receiver split: if_splits)

lemma segment_receiver:
  assumes "tc_segment_received seg c = Inr c'"
  shows "\<exists>r. (r = tc_receiver c \<or> rc_segment_received seg (tc_receiver c) = Inr r) \<and>
    (tc_receiver c' = r \<or> tc_receiver c' = rc_error r)"
proof (cases "tc_active c")
  case True
  show ?thesis
  proof (cases rule: tc_segment_cases [OF assms True])
    case (1 r)
    then show ?thesis using connect_receiver by fastforce
  next
    case 2
    then show ?thesis using deliver_receiver by fastforce
  qed (auto simp: kill_receiver)
qed (use assms in \<open>auto simp: tc_segment_received_def\<close>)

section \<open>The invariant\<close>

text \<open>The receiver holds and has delivered bytes of the stream \<open>S\<close> of the peer, at most \<open>N\<close> of them.\<close>

definition genuine :: "(nat \<Rightarrow> u8) \<Rightarrow> nat \<Rightarrow> wrapping_int32 \<Rightarrow> tcp_receiver \<Rightarrow> bool" where
  "genuine S N isn r \<longleftrightarrow> rc_inv S isn r \<and> rc_received r \<subseteq> {..<N}"

lemma genuine_error: "genuine S N isn r \<Longrightarrow> genuine S N isn (rc_error r)"
proof -
  have "out_ok S (ra\<lparr>ra_output := bs_set_error (ra_output ra)\<rparr>) = out_ok S ra" for ra
    unfolding out_ok_def by simp
  moreover have "stored_ok S n (ra\<lparr>ra_output := bs_set_error (ra_output ra)\<rparr>) = stored_ok S n ra" for ra n
    by (simp add: stored_ok_def ra_max_def)
  moreover have "bs_input_ended (bs_set_error st) = bs_input_ended st" for st
    by (simp add: bs_input_ended_def bs_set_error_def)
  moreover have "received (ra\<lparr>ra_output := x\<rparr>) = received ra" for ra x by (simp add: received_def)
  ultimately show "genuine S N isn r \<Longrightarrow> genuine S N isn (rc_error r)"
    by (simp add: genuine_def rc_inv_def rc_error_def rc_stream_out_def ra_inv_def ra_input_ended_def)
qed

lemma genuine_segment:
  assumes "genuine S N isn r" "rc_op_of S N isn (Arrive seg)" "rc_segment_received seg r = Inr r'"
    "N + 2 < 2 ^ 31" "unat (rc_capacity r) < 2 ^ 61"
  shows "genuine S N isn r'"
    "bs_read_bytes (rc_stream_out r') = bs_read_bytes (rc_stream_out r)"
proof -
  obtain r1 where "rc_run [Arrive seg] r = Inr (map S [bs_read_bytes (rc_stream_out r)..<bs_read_bytes (rc_stream_out r1)], r1)"
    "rc_inv S isn r1" "rc_received r1 \<subseteq> {..<N}" "bs_read_bytes (rc_stream_out r) \<le> bs_read_bytes (rc_stream_out r1)"
    using rc_run_facts [of S isn r "[Arrive seg]" N] assms by (auto simp: genuine_def)
  then show "genuine S N isn r'" "bs_read_bytes (rc_stream_out r') = bs_read_bytes (rc_stream_out r)"
    using assms(3) by (auto simp: genuine_def)
qed

definition ep_inv :: "(nat \<Rightarrow> u8) \<Rightarrow> nat \<Rightarrow> wrapping_int32 \<Rightarrow> (nat \<Rightarrow> u8) \<Rightarrow> nat \<Rightarrow> wrapping_int32 \<Rightarrow> endpoint \<Rightarrow> bool" where
  "ep_inv S N isn P M pisn e \<longleftrightarrow> tc_inv S N M isn (set (ep_sent e)) (ep_conn e) \<and> genuine P M pisn (tc_receiver (ep_conn e)) \<and>
     M + 2 < 2 ^ 31 \<and> unat (rc_capacity (tc_receiver (ep_conn e))) < 2 ^ 61 \<and>
     ep_read e = map P [0..<bs_read_bytes (rc_stream_out (tc_receiver (ep_conn e)))]"

text \<open>The bytes of the stream that the sender has put into segments.\<close>

abbreviation sent_bytes :: "endpoint \<Rightarrow> nat" where
  "sent_bytes e \<equiv> bs_read_bytes (snd_stream (tc_sender (ep_conn e)))"

lemma sent_bytes_bound:
  assumes "ep_inv S N isn P M pisn e"
  shows "sent_bytes e \<le> bs_write_bytes (snd_stream (tc_sender (ep_conn e)))" "sent_bytes e \<le> N"
    "unat (snd_next_seqno (tc_sender (ep_conn e))) \<le> sent_bytes e + 2"
proof -
  let ?s = "tc_sender (ep_conn e)"
  have inv: "snd_inv S ?s" "bs_write_bytes (snd_stream ?s) \<le> N"
    using assms by (auto simp: ep_inv_def tc_inv_def snd_run_inv_def)
  show w: "sent_bytes e \<le> bs_write_bytes (snd_stream ?s)"
    using stream_of_written [of S "snd_stream ?s"] inv(1) by (simp add: snd_inv_def)
  then show "sent_bytes e \<le> N" using inv(2) by simp
  show "unat (snd_next_seqno ?s) \<le> sent_bytes e + 2"
    using inv(1) by (auto simp: snd_inv_def snd_pos_ok_def split: if_splits)
qed

lemma sent_genuine:
  assumes "ep_inv S N isn P M pisn e" "seg \<in> set (ep_sent e)"
  shows "rc_op_of S (sent_bytes e) isn (Arrive seg)"
proof -
  let ?s = "tc_sender (ep_conn e)"
  have "snd_isn ?s = isn" "snd_log_ok S ?s seg"
    using assms by (auto simp: ep_inv_def tc_inv_def snd_run_inv_def)
  then obtain a where "carries S isn a seg" "a + seg_len seg \<le> unat (snd_next_seqno ?s)"
      "seg_data seg = [] \<or> data_index a seg + length (seg_data seg) \<le> sent_bytes e"
    by (auto simp: snd_log_ok_def)
  then show ?thesis using sent_bytes_bound(3) [OF assms(1)] by (auto intro!: exI [of _ a])
qed

lemma rc_error_read [simp]: "bs_read_bytes (rc_stream_out (rc_error r)) = bs_read_bytes (rc_stream_out r)"
  "rc_capacity (rc_error r) = rc_capacity r"
  by (simp_all add: rc_error_def rc_stream_out_def)

lemma ep_inv_keeps:
  assumes "ep_inv S N isn P M pisn e" "tc_inv S N M isn (set (ep_sent e)) c" "keeps_receiver (ep_conn e) c"
  shows "ep_inv S N isn P M pisn (e\<lparr>ep_conn := c\<rparr>)"
  using assms genuine_error by (auto simp: ep_inv_def keeps_receiver_def)

lemma ep_read_inv:
  assumes inv: "ep_inv S N isn P M pisn e" and rd: "tc_read n (ep_conn e) = Inr (d, c)"
  shows "ep_inv S N isn P M pisn (e\<lparr>ep_conn := c, ep_read := ep_read e @ d\<rparr>)"
proof -
  let ?r = "tc_receiver (ep_conn e)"
  let ?o = "rc_stream_out ?r"
  have g: "rc_inv P pisn ?r" "rc_received ?r \<subseteq> {..<M}" and ti: "tc_inv S N M isn (set (ep_sent e)) (ep_conn e)"
    using inv by (auto simp: ep_inv_def genuine_def)
  obtain st where st: "bs_read n ?o = Inr (d, st)"
      "c = (ep_conn e)\<lparr>tc_receiver := ?r\<lparr>rc_reassembler := (rc_reassembler ?r)\<lparr>ra_output := st\<rparr>\<rparr>\<rparr>"
    using rd by (auto simp: tc_read_def bindE_eq_Inr_iff)
  note i = rc_inv_read [OF g(1) st(1)]
  have le: "bs_read_bytes ?o \<le> bs_read_bytes st" using bs_read_Inr(7) [OF st(1)] by simp
  have "bs_read_bytes ?o + length (bs_contents ?o) \<le> M"
    using rc_cur_bound [OF g(2)] ra_inv_bounds(1) [of P "rc_reassembler ?r"] g(1)
    by (simp add: rc_inv_def rc_stream_out_def)
  moreover have "tc_read (min n (length (bs_contents ?o))) (ep_conn e) = Inr (d, c)"
  proof -
    have "bs_read (min n (length (bs_contents ?o))) ?o = bs_read n ?o"
      by (simp add: bs_read_def min_def bs_buffer_size_def [symmetric])
    then show ?thesis using rd by (simp add: tc_read_def)
  qed
  ultimately have "tc_inv S N M isn (set (ep_sent e)) c"
    using tc_read_facts [OF ti, of "min n (length (bs_contents ?o))"] by (auto simp: bs_bytes_read_def)
  moreover have "genuine P M pisn (tc_receiver c)"
    using i(1) g(2) st(2) by (simp add: genuine_def received_def)
  moreover have "ep_read e @ d = map P [0..<bs_read_bytes st]"
    using inv i(2) le map_upt_glue [of 0 "bs_read_bytes ?o" "bs_read_bytes ?o" "bs_read_bytes st" P]
    by (simp add: ep_inv_def)
  ultimately show ?thesis using inv st(2) by (simp add: ep_inv_def rc_stream_out_def)
qed

lemma ep_receive_inv:
  assumes inv: "ep_inv S N isn P M pisn e" and seg: "rc_op_of P M pisn (Arrive seg)"
    and step: "tc_segment_received seg (ep_conn e) = Inr c"
  shows "ep_inv S N isn P M pisn (e\<lparr>ep_conn := c\<rparr>)"
proof -
  let ?r = "tc_receiver (ep_conn e)"
  have g: "genuine P M pisn ?r" "M + 2 < 2 ^ 31" "unat (rc_capacity ?r) < 2 ^ 61"
    and ti: "tc_inv S N M isn (set (ep_sent e)) (ep_conn e)" using inv by (auto simp: ep_inv_def)
  have len: "length (seg_data seg) < 2 ^ 62" using seg g(2) by auto
  obtain c' where c': "tc_segment_received seg (ep_conn e) = Inr c'" "tc_inv S N M isn (set (ep_sent e)) c'"
    using tc_segment_inv [OF ti len] by blast
  obtain r where r: "r = ?r \<or> rc_segment_received seg ?r = Inr r"
      "tc_receiver c = r \<or> tc_receiver c = rc_error r"
    using segment_receiver [OF step] by blast
  have adv: "rc_capacity r = rc_capacity ?r"
    using r(1) rc_segment_total [of ?r seg, OF _ tc_inv_max [OF ti] len] ti by (auto simp: tc_inv_def rc_advances_def)
  have "genuine P M pisn r" "bs_read_bytes (rc_stream_out r) = bs_read_bytes (rc_stream_out ?r)"
    using r(1) genuine_segment [OF g(1) seg _ g(2,3)] g(1) by auto
  then have "genuine P M pisn (tc_receiver c)" "rc_capacity (tc_receiver c) = rc_capacity ?r"
      "bs_read_bytes (rc_stream_out (tc_receiver c)) = bs_read_bytes (rc_stream_out ?r)"
    using r(2) adv genuine_error by auto
  then show ?thesis using inv c' step by (simp add: ep_inv_def)
qed

lemma ep_step_inv:
  assumes step: "ep_step S N inc e e'" and inv: "ep_inv S N isn P M pisn e"
    and inc: "\<forall>seg\<in>set inc. rc_op_of P M pisn (Arrive seg)"
  shows "ep_inv S N isn P M pisn e'"
  using step
proof cases
  case (ep_connect_step c)
  then show ?thesis using inv tc_connect_inv [of S N M isn "set (ep_sent e)" "ep_conn e"] connect_receiver
    by (auto simp: ep_inv_def [of _ _ _ _ _ _ e] keeps_receiver_def intro!: ep_inv_keeps [OF inv])
next
  case (ep_write_step n k c)
  then show ?thesis using inv tc_write_inv [of S N M isn "set (ep_sent e)" "ep_conn e" n] write_receiver
    by (auto simp: ep_inv_def [of _ _ _ _ _ _ e] keeps_receiver_def intro!: ep_inv_keeps [OF inv])
next
  case (ep_end_input_step c)
  then show ?thesis using inv tc_end_input_inv [of S N M isn "set (ep_sent e)" "ep_conn e"] end_input_receiver
    by (auto simp: ep_inv_def [of _ _ _ _ _ _ e] keeps_receiver_def intro!: ep_inv_keeps [OF inv])
next
  case (ep_tick_step ms c)
  then show ?thesis using inv tc_tick_inv [of S N M isn "set (ep_sent e)" "ep_conn e" ms] tick_receiver
    by (auto simp: ep_inv_def [of _ _ _ _ _ _ e] intro!: ep_inv_keeps [OF inv])
next
  case (ep_send_step seg segs)
  then show ?thesis using inv by (auto simp: ep_inv_def tc_inv_def)
next
  case (ep_receive_step seg c)
  then show ?thesis using ep_receive_inv [OF inv] inc by blast
next
  case (ep_read_step n d c)
  then show ?thesis using ep_read_inv [OF inv] by simp
qed

lemma ep_inv_new:
  assumes "N + 2 < 2 ^ 31" "M + 2 < 2 ^ 31" "unat (cfg_recv_capacity cfg) < 2 ^ 61"
  shows "ep_inv S N (tc_isn cfg x) P M pisn (ep_new cfg x)"
proof -
  have "M + unat (cfg_recv_capacity cfg) < 2 ^ 62" using assms(2,3) by simp
  then have "tc_inv S N M (tc_isn cfg x) {} (tc_new cfg x)" by (rule tc_inv_new [OF assms(1)])
  moreover have "genuine P M pisn (rc_new cap)" for cap
    using rc_inv_new by (simp add: genuine_def) (simp add: rc_new_def)
  moreover have "bs_read_bytes (rc_stream_out (rc_new cap)) = 0" "rc_capacity (rc_new cap) = cap" for cap
    by (simp, simp add: bs_new_def) (simp add: rc_new_def)
  ultimately show ?thesis using assms(2,3) by (simp add: ep_inv_def ep_new_def)
qed

text \<open>
  The number of bytes sent only grows: a segment made of all of them so far stays one that the sender
  may have sent.
\<close>

definition all_sent :: "(nat \<Rightarrow> u8) \<Rightarrow> wrapping_int32 \<Rightarrow> nat \<Rightarrow> tcp_segment" where
  "all_sent S isn n = \<lparr>seg_header = th_new\<lparr>th_syn := True, th_seqno := isn\<rparr>, seg_payload = buf_of_string (map S [0..<n])\<rparr>"

lemma all_sent_fields:
  "seg_data (all_sent S isn n) = map S [0..<n]" "th_syn (seg_header (all_sent S isn n))"
  "\<not> th_fin (seg_header (all_sent S isn n))" "seg_len (all_sent S isn n) = n + 1"
  "carries S isn 0 (all_sent S isn n)"
  by (simp_all add: all_sent_def seg_data_def length_in_sequence_space_def th_new_def carries_def data_index_def)

lemma all_sent_log:
  assumes "snd_inv S s" "snd_isn s = isn" "snd_syn_sent s"
  shows "snd_log_ok S s (all_sent S isn (bs_read_bytes (snd_stream s)))"
  unfolding snd_log_ok_def using assms all_sent_fields
  by (intro exI [of _ 0]) (auto simp: snd_inv_def snd_pos_ok_def data_index_def)

lemma all_sent_bound: "snd_log_ok S s (all_sent S isn n) \<Longrightarrow> n \<le> bs_read_bytes (snd_stream s)"
  by (auto simp: snd_log_ok_def all_sent_fields data_index_def)

lemma ep_step_more_sent:
  assumes "ep_step S N inc e e'"
  shows "ep_step S N inc (e\<lparr>ep_sent := X @ ep_sent e\<rparr>) (e'\<lparr>ep_sent := X @ ep_sent e'\<rparr>)"
  using assms
proof cases
  case (ep_send_step seg segs)
  then show ?thesis
    using ep_step.ep_send_step [of "e\<lparr>ep_sent := X @ ep_sent e\<rparr>" seg segs S N inc] by (cases e) simp
next
  case (ep_read_step n d c)
  then show ?thesis
    using ep_step.ep_read_step [of n "e\<lparr>ep_sent := X @ ep_sent e\<rparr>" d c S N inc] by (cases e) simp
next
  case (ep_write_step n k c)
  then show ?thesis
    using ep_step.ep_write_step [of S N n "e\<lparr>ep_sent := X @ ep_sent e\<rparr>" k c inc] by (cases e) simp
next
  case (ep_connect_step c)
  then show ?thesis using ep_step.ep_connect_step [of "e\<lparr>ep_sent := X @ ep_sent e\<rparr>" c S N inc] by (cases e) simp
next
  case (ep_end_input_step c)
  then show ?thesis using ep_step.ep_end_input_step [of "e\<lparr>ep_sent := X @ ep_sent e\<rparr>" c S N inc] by (cases e) simp
next
  case (ep_tick_step ms c)
  then show ?thesis using ep_step.ep_tick_step [of ms "e\<lparr>ep_sent := X @ ep_sent e\<rparr>" c S N inc] by (cases e) simp
next
  case (ep_receive_step seg c)
  then show ?thesis using ep_step.ep_receive_step [of seg inc "e\<lparr>ep_sent := X @ ep_sent e\<rparr>" c S N] by (cases e) simp
qed

lemma sent_bytes_mono:
  assumes step: "ep_step S N inc e e'" and inv: "ep_inv S N isn P M pisn e"
    and inc: "\<forall>seg\<in>set inc. rc_op_of P M pisn (Arrive seg)"
  shows "sent_bytes e \<le> sent_bytes e'"
proof (cases "snd_syn_sent (tc_sender (ep_conn e))")
  case True
  let ?f = "all_sent S isn (sent_bytes e)"
  have "snd_log_ok S (tc_sender (ep_conn e)) ?f"
    by (rule all_sent_log) (use inv True in \<open>auto simp: ep_inv_def tc_inv_def snd_run_inv_def\<close>)
  then have "ep_inv S N isn P M pisn (e\<lparr>ep_sent := [?f] @ ep_sent e\<rparr>)"
    using inv by (auto simp: ep_inv_def tc_inv_def)
  from ep_step_inv [OF ep_step_more_sent [OF step] this inc]
  have "snd_log_ok S (tc_sender (ep_conn e')) ?f" by (simp add: ep_inv_def tc_inv_def)
  then show ?thesis by (rule all_sent_bound)
next
  case False
  then show ?thesis using inv by (simp add: ep_inv_def tc_inv_def snd_run_inv_def snd_inv_def snd_pos_ok_def)
qed

lemma ep_inv_mono:
  assumes "ep_inv S N isn P M pisn e" "M \<le> M'" "M' + 2 < 2 ^ 31"
  shows "ep_inv S N isn P M' pisn e"
  using assms by (auto simp: ep_inv_def tc_inv_def genuine_def)

lemma reachable_inv:
  assumes "reachable SA NA SB NB (ep_new cfgA x) (ep_new cfgB y) a b"
    and N: "NA + 2 < 2 ^ 31" "NB + 2 < 2 ^ 31"
    and "unat (cfg_recv_capacity cfgA) < 2 ^ 61" "unat (cfg_recv_capacity cfgB) < 2 ^ 61"
  shows "ep_inv SA NA (tc_isn cfgA x) SB (sent_bytes b) (tc_isn cfgB y) a \<and>
    ep_inv SB NB (tc_isn cfgB y) SA (sent_bytes a) (tc_isn cfgA x) b"
  using assms(1)
proof induction
  case start
  have "sent_bytes (ep_new cfg z) = 0" for cfg z by (simp add: ep_new_def) (simp add: bs_new_def)
  then show ?case using assms(2-) ep_inv_new by simp
next
  case (left a b a')
  have inc: "\<forall>seg\<in>set (ep_sent b). rc_op_of SB (sent_bytes b) (tc_isn cfgB y) (Arrive seg)"
    using left(3) sent_genuine by blast
  have a': "ep_inv SA NA (tc_isn cfgA x) SB (sent_bytes b) (tc_isn cfgB y) a'"
    using ep_step_inv [OF left(2) _ inc] left(3) by blast
  moreover have "sent_bytes a \<le> sent_bytes a'" using sent_bytes_mono [OF left(2) _ inc] left(3) by blast
  moreover have "sent_bytes a' + 2 < 2 ^ 31" using sent_bytes_bound(2) [OF a'] N(1) by simp
  ultimately show ?case using left(3) ep_inv_mono by blast
next
  case (right a b b')
  have inc: "\<forall>seg\<in>set (ep_sent a). rc_op_of SA (sent_bytes a) (tc_isn cfgA x) (Arrive seg)"
    using right(3) sent_genuine by blast
  have b': "ep_inv SB NB (tc_isn cfgB y) SA (sent_bytes a) (tc_isn cfgA x) b'"
    using ep_step_inv [OF right(2) _ inc] right(3) by blast
  moreover have "sent_bytes b \<le> sent_bytes b'" using sent_bytes_mono [OF right(2) _ inc] right(3) by blast
  moreover have "sent_bytes b' + 2 < 2 ^ 31" using sent_bytes_bound(2) [OF b'] N(2) by simp
  ultimately show ?case using right(3) ep_inv_mono by blast
qed

section \<open>Properties\<close>

lemma ep_read_bound:
  assumes "ep_inv S N isn P M pisn e"
  shows "\<exists>i\<le>M. ep_read e = map P [0..<i]"
proof -
  let ?r = "tc_receiver (ep_conn e)"
  have "rc_inv P pisn ?r" "rc_received ?r \<subseteq> {..<M}" "ep_read e = map P [0..<bs_read_bytes (rc_stream_out ?r)]"
    using assms by (auto simp: ep_inv_def genuine_def)
  moreover have "bs_read_bytes (rc_stream_out ?r) \<le> M"
    using rc_cur_bound [of ?r M] ra_inv_bounds(1) [of P "rc_reassembler ?r"] calculation(1,2)
    by (simp add: rc_inv_def rc_stream_out_def)
  ultimately show ?thesis by blast
qed

text \<open>
  (C1) End-to-end safety of TCP over an unreliable network: whatever segments are lost, duplicated,
  delayed or reordered, and however the two applications, the clocks and the network interleave, the
  bytes that an application has read are a prefix of the bytes that the other one has written, in both
  directions, for all initial sequence numbers and capacities.
\<close>

theorem endpoints_read_prefix:
  assumes "reachable SA NA SB NB (ep_new cfgA x) (ep_new cfgB y) a b"
    and "NA + 2 < 2 ^ 31" "NB + 2 < 2 ^ 31"
    and "unat (cfg_recv_capacity cfgA) < 2 ^ 61" "unat (cfg_recv_capacity cfgB) < 2 ^ 61"
  shows "\<exists>i j. ep_read a = map SB [0..<i] \<and> i \<le> bs_bytes_written (snd_stream (tc_sender (ep_conn b))) \<and>
    ep_read b = map SA [0..<j] \<and> j \<le> bs_bytes_written (snd_stream (tc_sender (ep_conn a)))"
proof -
  have a: "ep_inv SA NA (tc_isn cfgA x) SB (sent_bytes b) (tc_isn cfgB y) a"
    and b: "ep_inv SB NB (tc_isn cfgB y) SA (sent_bytes a) (tc_isn cfgA x) b"
    using reachable_inv [OF assms] by blast+
  show ?thesis
    using ep_read_bound [OF a] ep_read_bound [OF b] sent_bytes_bound(1) [OF a] sent_bytes_bound(1) [OF b]
    unfolding bs_bytes_written_def by (meson le_trans)
qed

text \<open>A schedule of concrete moves, to run the system.\<close>

datatype ep_move = MConnect | MWrite nat | MEndInput | MTick u64 | MSend | MReceive nat | MRead nat

fun ep_do :: "(nat \<Rightarrow> u8) \<Rightarrow> nat \<Rightarrow> tcp_segment list \<Rightarrow> ep_move \<Rightarrow> endpoint \<Rightarrow> endpoint" where
  "ep_do S N inc MConnect e = (case tc_connect (ep_conn e) of Inl x \<Rightarrow> e | Inr c \<Rightarrow> e\<lparr>ep_conn := c\<rparr>)"
| "ep_do S N inc (MWrite n) e =
     (case tc_write (tc_rest S N n (ep_conn e)) (ep_conn e) of Inl x \<Rightarrow> e | Inr (k, c) \<Rightarrow> e\<lparr>ep_conn := c\<rparr>)"
| "ep_do S N inc MEndInput e = (case tc_end_input_stream (ep_conn e) of Inl x \<Rightarrow> e | Inr c \<Rightarrow> e\<lparr>ep_conn := c\<rparr>)"
| "ep_do S N inc (MTick ms) e = (case tc_tick ms (ep_conn e) of Inl x \<Rightarrow> e | Inr c \<Rightarrow> e\<lparr>ep_conn := c\<rparr>)"
| "ep_do S N inc MSend e =
     (case tc_segments_out (ep_conn e) of [] \<Rightarrow> e
      | seg # segs \<Rightarrow> e\<lparr>ep_conn := (ep_conn e)\<lparr>tc_segments_out := segs\<rparr>, ep_sent := ep_sent e @ [seg]\<rparr>)"
| "ep_do S N inc (MReceive i) e =
     (if i < length inc then
        case tc_segment_received (inc ! i) (ep_conn e) of Inl x \<Rightarrow> e | Inr c \<Rightarrow> e\<lparr>ep_conn := c\<rparr>
      else e)"
| "ep_do S N inc (MRead n) e =
     (case tc_read n (ep_conn e) of Inl x \<Rightarrow> e | Inr (d, c) \<Rightarrow> e\<lparr>ep_conn := c, ep_read := ep_read e @ d\<rparr>)"

lemma ep_do_step: "ep_do S N inc m e = e \<or> ep_step S N inc e (ep_do S N inc m e)"
  by (cases m) (auto intro: ep_step.intros ep_step.ep_receive_step [OF nth_mem] split: sum.splits list.splits)

fun net_run :: "(nat \<Rightarrow> u8) \<Rightarrow> nat \<Rightarrow> (nat \<Rightarrow> u8) \<Rightarrow> nat \<Rightarrow> (bool \<times> ep_move) list \<Rightarrow> endpoint \<times> endpoint \<Rightarrow> endpoint \<times> endpoint" where
  "net_run SA NA SB NB [] ab = ab"
| "net_run SA NA SB NB ((at_a, m) # ms) (a, b) =
     net_run SA NA SB NB ms
       (if at_a then (ep_do SA NA (ep_sent b) m a, b) else (a, ep_do SB NB (ep_sent a) m b))"

lemma net_run_reachable:
  "reachable SA NA SB NB a0 b0 a b \<Longrightarrow> net_run SA NA SB NB ms (a, b) = (a', b') \<Longrightarrow>
   reachable SA NA SB NB a0 b0 a' b'"
proof (induction ms arbitrary: a b)
  case (Cons x ms)
  obtain at_a m where x: "x = (at_a, m)" by (cases x)
  show ?case
  proof (cases at_a)
    case True
    have "reachable SA NA SB NB a0 b0 (ep_do SA NA (ep_sent b) m a) b"
      using ep_do_step [of SA NA "ep_sent b" m a] left [OF Cons.prems(1)] Cons.prems(1) by metis
    then show ?thesis using Cons.IH Cons.prems(2) x True by simp
  next
    case False
    have "reachable SA NA SB NB a0 b0 a (ep_do SB NB (ep_sent a) m b)"
      using ep_do_step [of SB NB "ep_sent a" m b] right [OF Cons.prems(1)] Cons.prems(1) by metis
    then show ?thesis using Cons.IH Cons.prems(2) x False by simp
  qed
qed simp

text \<open>The handshake, then data of \<open>a\<close> that arrives twice and out of order.\<close>

definition demo_moves :: "(bool \<times> ep_move) list" where
  "demo_moves = [(True, MConnect), (True, MSend), (False, MReceive 0), (False, MSend), (True, MReceive 0), (True, MSend),
     (False, MReceive 1), (True, MWrite 2), (True, MWrite 2), (True, MSend), (True, MSend),
     (False, MReceive 3), (False, MReceive 2), (False, MReceive 3), (False, MRead 3)]"

theorem endpoints_read_prefix_witness:
  "\<exists>a b i. net_run (\<lambda>i. of_nat i) 4 (\<lambda>_. 0) 0 demo_moves (ep_new demo_cfg 0, ep_new (demo_cfg\<lparr>cfg_fixed_isn := Some 4294967295\<rparr>) 0) = (a, b) \<and>
     ep_read b = [0, 1, 2] \<and> ep_read b = map (\<lambda>i. of_nat i) [0..<i] \<and> i \<le> bs_bytes_written (snd_stream (tc_sender (ep_conn a)))"
proof -
  let ?a = "ep_new demo_cfg 0" and ?b = "ep_new (demo_cfg\<lparr>cfg_fixed_isn := Some 4294967295\<rparr>) 0"
  obtain a b where ab: "net_run (\<lambda>i. of_nat i) 4 (\<lambda>_. 0) 0 demo_moves (?a, ?b) = (a, b)" by (cases "net_run (\<lambda>i. of_nat i) 4 (\<lambda>_. 0) 0 demo_moves (?a, ?b)")
  have "ep_read (snd (net_run (\<lambda>i. of_nat i) 4 (\<lambda>_. 0) 0 demo_moves (?a, ?b))) = [0, 1, 2]" by code_simp
  then have "ep_read b = [0, 1, 2]" using ab by simp
  moreover have "reachable (\<lambda>i. of_nat i) 4 (\<lambda>_. 0) 0 ?a ?b a b" by (rule net_run_reachable [OF start ab])
  from endpoints_read_prefix [OF this] have "\<exists>i. ep_read b = map (\<lambda>i. of_nat i) [0..<i] \<and>
      i \<le> bs_bytes_written (snd_stream (tc_sender (ep_conn a)))"
    by (auto simp: demo_cfg_def)
  ultimately show ?thesis using ab by blast
qed

end
