(* ===== verification/Sponge_Socket.thy ===== *)
theory Sponge_Socket
  imports Event_Loop Tcp_Network
begin

text \<open>
  Model of \<open>tcp_helpers/tcp_sponge_socket\<close>: the thread that runs a TCP connection between a local stream socket
  and a datagram adapter. The class is a template over the adapter, which is a record of operations here;
  \<open>_abort\<close>, which the owner's thread sets, is read through the parameter \<open>aborted\<close>. Debugging output is left
  out.
\<close>

section \<open>Adapters and state\<close>

record ('k, 'a) adapter =
  ad_fd :: "'a \<Rightarrow> fd"
  ad_read :: "'k sys \<times> 'a \<Rightarrow> exn + tcp_segment option \<times> 'k sys \<times> 'a"
  ad_write :: "tcp_segment \<Rightarrow> 'k sys \<times> 'a \<Rightarrow> exn + 'k sys \<times> 'a"
  ad_tick :: "u64 \<Rightarrow> 'k sys \<times> 'a \<Rightarrow> exn + 'k sys \<times> 'a"
  ad_set_config :: "fd_adapter_config \<Rightarrow> 'a \<Rightarrow> 'a"
  ad_set_listening :: "bool \<Rightarrow> 'a \<Rightarrow> 'a"

text \<open>The adapter over UDP: the socket and the state of \<open>FdAdapterBase\<close>.\<close>

definition udp_adapter :: "'k kernel \<Rightarrow> getnameinfo \<Rightarrow> ('k, fd \<times> fd_adapter_base) adapter" where
  "udp_adapter K gni =
     \<lparr>ad_fd = fst,
      ad_read = (\<lambda>(s, sock, b). bindE (udp_recv K sock 65536 s) (\<lambda>(datagram, s).
        bindE (udp_read datagram b) (\<lambda>(seg, b). Inr (seg, s, sock, b)))),
      ad_write = (\<lambda>seg (s, sock, b). bindE (udp_write gni seg b) (\<lambda>((destination, payload), seg).
        bindE (udp_sendto K sock destination (bvl_of_buffer_list payload) s) (\<lambda>s. Inr (s, sock, b)))),
      ad_tick = (\<lambda>ms (s, sock, b). Inr (s, sock, b)),
      ad_set_config = (\<lambda>cfg (sock, b). (sock, b\<lparr>fb_cfg := cfg\<rparr>)),
      ad_set_listening = (\<lambda>l (sock, b). (sock, set_listening l b))\<rparr>"

text \<open>The adapter over a TUN device; \<open>read()\<close> without argument has the largest \<open>size_t\<close> as its limit.\<close>

definition tun_adapter :: "'k kernel \<Rightarrow> getaddrinfo \<Rightarrow> getnameinfo \<Rightarrow> ('k, fd \<times> fd_adapter_base) adapter" where
  "tun_adapter K gai gni =
     \<lparr>ad_fd = fst,
      ad_read = (\<lambda>(s, tun, b). bindE (fd_read K tun (2 ^ 64 - 1) s) (\<lambda>(str, s).
        bindE (tun_read gai gni str b) (\<lambda>(seg, b). Inr (seg, s, tun, b)))),
      ad_write = (\<lambda>seg (s, tun, b). bindE (tun_write gni seg b) (\<lambda>str.
        bindE (fd_write K tun (bvl_of_string str) True s) (\<lambda>(_, s). Inr (s, tun, b)))),
      ad_tick = (\<lambda>ms (s, tun, b). Inr (s, tun, b)),
      ad_set_config = (\<lambda>cfg (tun, b). (tun, b\<lparr>fb_cfg := cfg\<rparr>)),
      ad_set_listening = (\<lambda>l (tun, b). (tun, set_listening l b))\<rparr>"

record 'a sponge_socket =
  sp_socket :: fd
  sp_thread_data :: fd
  sp_adapter :: 'a
  sp_tcp :: "tcp_connection option"
  sp_thread_running :: bool
  sp_inbound_shutdown :: bool
  sp_outbound_shutdown :: bool
  sp_fully_acked :: bool

definition sp_new :: "'k kernel \<Rightarrow> fd \<times> fd \<Rightarrow> 'a \<Rightarrow> 'k sys \<Rightarrow> exn + ('k, 'a sponge_socket) world" where
  "sp_new K data_socket_pair datagram_interface s =
     bindE (set_blocking K (snd data_socket_pair) False s) (\<lambda>s.
       Inr (s, \<lparr>sp_socket = fst data_socket_pair, sp_thread_data = snd data_socket_pair,
         sp_adapter = datagram_interface, sp_tcp = None, sp_thread_running = False,
         sp_inbound_shutdown = False, sp_outbound_shutdown = False, sp_fully_acked = False\<rparr>))"

text \<open>\<open>_tcp->\<close> on an empty optional is undefined.\<close>

definition sp_the_tcp :: "'a sponge_socket \<Rightarrow> exn + tcp_connection" where
  "sp_the_tcp u = (case sp_tcp u of Some c \<Rightarrow> Inr c | None \<Rightarrow> Inl (Undefined ''empty optional''))"

definition tc_inbound :: "tcp_connection \<Rightarrow> byte_stream" where
  "tc_inbound c = rc_stream_out (tc_receiver c)"

definition tc_set_inbound :: "byte_stream \<Rightarrow> tcp_connection \<Rightarrow> tcp_connection" where
  "tc_set_inbound st c = c\<lparr>tc_receiver := (tc_receiver c)\<lparr>rc_reassembler := (rc_reassembler (tc_receiver c))\<lparr>ra_output := st\<rparr>\<rparr>\<rparr>"

section \<open>The four rules of the event loop\<close>

text \<open>Rule 1: a datagram has arrived.\<close>

definition rule1_callback :: "('k, 'a) adapter \<Rightarrow> ('k, 'a sponge_socket) world \<Rightarrow> exn + ('k, 'a sponge_socket) world" where
  "rule1_callback A w =
     (let (s, u) = w
      in bindE (ad_read A (s, sp_adapter u)) (\<lambda>(seg, s, a).
           let u = u\<lparr>sp_adapter := a\<rparr>
           in bindE (case seg of
                       Some seg \<Rightarrow> bindE (sp_the_tcp u) (\<lambda>c. bindE (tc_segment_received seg c) (\<lambda>c. Inr (u\<lparr>sp_tcp := Some c\<rparr>)))
                     | None \<Rightarrow> Inr u) (\<lambda>u.
              bindE (if fd_eof (sp_thread_data u) s
                     then bindE (sp_the_tcp u) (\<lambda>c. Inr (tc_bytes_in_flight c = 0 \<and> \<not> sp_fully_acked u))
                     else Inr False) (\<lambda>acked.
                Inr (s, if acked then u\<lparr>sp_fully_acked := True\<rparr> else u)))))"

definition rule1_interest :: "('k, 'a sponge_socket) world \<Rightarrow> bool" where
  "rule1_interest w = (case sp_tcp (snd w) of Some c \<Rightarrow> tc_active c | None \<Rightarrow> False)"

text \<open>Rule 2: the owner has written something, or shut down its side.\<close>

definition rule2_cancel :: "('k, 'a sponge_socket) world \<Rightarrow> exn + ('k, 'a sponge_socket) world" where
  "rule2_cancel w =
     (let (s, u) = w
      in bindE (sp_the_tcp u) (\<lambda>c. bindE (tc_end_input_stream c) (\<lambda>c.
           Inr (s, u\<lparr>sp_tcp := Some c, sp_outbound_shutdown := True\<rparr>))))"

definition rule2_callback :: "'k kernel \<Rightarrow> ('k, 'a sponge_socket) world \<Rightarrow> exn + ('k, 'a sponge_socket) world" where
  "rule2_callback K w =
     (let (s, u) = w
      in bindE (sp_the_tcp u) (\<lambda>c.
         bindE (fd_read K (sp_thread_data u) (tc_remaining_outbound_capacity c) s) (\<lambda>(data, s).
         let len = length data
         in bindE (tc_write data c) (\<lambda>(amount_written, c).
              if amount_written \<noteq> len
              then Inl (RuntimeError ''TCPConnection::write() accepted less than advertised length'')
              else
                let u = u\<lparr>sp_tcp := Some c\<rparr>
                in if fd_eof (sp_thread_data u) s then rule2_cancel (s, u) else Inr (s, u)))))"

definition rule2_interest :: "('k, 'a sponge_socket) world \<Rightarrow> bool" where
  "rule2_interest w =
     (case sp_tcp (snd w) of
        Some c \<Rightarrow> tc_active c \<and> \<not> sp_outbound_shutdown (snd w) \<and> tc_remaining_outbound_capacity c > 0
      | None \<Rightarrow> False)"

text \<open>Rule 3: there are bytes for the owner, or the inbound stream is finished.\<close>

definition rule3_callback :: "'k kernel \<Rightarrow> ('k, 'a sponge_socket) world \<Rightarrow> exn + ('k, 'a sponge_socket) world" where
  "rule3_callback K w =
     (let (s, u) = w
      in bindE (sp_the_tcp u) (\<lambda>c.
         let amount_to_write = min 65536 (bs_buffer_size (tc_inbound c));
             buffer = bs_peek_output amount_to_write (tc_inbound c)
         in bindE (fd_write K (sp_thread_data u) (bvl_of_string buffer) False s) (\<lambda>(bytes_written, s).
            bindE (bs_pop_output bytes_written (tc_inbound c)) (\<lambda>inbound.
              let u = u\<lparr>sp_tcp := Some (tc_set_inbound inbound c)\<rparr>
              in if bs_eof inbound \<or> bs_error inbound
                 then bindE (sock_shutdown K (sp_thread_data u) SHUT_WR s) (\<lambda>s. Inr (s, u\<lparr>sp_inbound_shutdown := True\<rparr>))
                 else Inr (s, u)))))"

definition rule3_interest :: "('k, 'a sponge_socket) world \<Rightarrow> bool" where
  "rule3_interest w =
     (case sp_tcp (snd w) of
        Some c \<Rightarrow> \<not> bs_buffer_empty (tc_inbound c) \<or>
          (bs_eof (tc_inbound c) \<or> bs_error (tc_inbound c)) \<and> \<not> sp_inbound_shutdown (snd w)
      | None \<Rightarrow> False)"

text \<open>Rule 4: the connection has segments to send.\<close>

fun send_segments :: "('k, 'a) adapter \<Rightarrow> tcp_segment list \<Rightarrow> 'k sys \<times> 'a \<Rightarrow> exn + 'k sys \<times> 'a" where
  "send_segments A [] sa = Inr sa"
| "send_segments A (seg # segs) sa = bindE (ad_write A seg sa) (send_segments A segs)"

definition rule4_callback :: "('k, 'a) adapter \<Rightarrow> ('k, 'a sponge_socket) world \<Rightarrow> exn + ('k, 'a sponge_socket) world" where
  "rule4_callback A w =
     (let (s, u) = w
      in bindE (sp_the_tcp u) (\<lambda>c.
         bindE (send_segments A (tc_segments_out c) (s, sp_adapter u)) (\<lambda>(s, a).
           Inr (s, u\<lparr>sp_adapter := a, sp_tcp := Some (c\<lparr>tc_segments_out := []\<rparr>)\<rparr>))))"

definition rule4_interest :: "('k, 'a sponge_socket) world \<Rightarrow> bool" where
  "rule4_interest w = (case sp_tcp (snd w) of Some c \<Rightarrow> tc_segments_out c \<noteq> [] | None \<Rightarrow> False)"

definition initialize_TCP :: "'k kernel \<Rightarrow> ('k, 'a) adapter \<Rightarrow> tcp_config \<Rightarrow> u32 \<Rightarrow> 'a sponge_socket \<Rightarrow>
    ('k, 'a sponge_socket) rule list \<times> 'a sponge_socket" where
  "initialize_TCP K A config random u =
     (let u = u\<lparr>sp_tcp := Some (tc_new config random)\<rparr>;
          rules = [];
          rules = add_rule (ad_fd A (sp_adapter u)) In (rule1_callback A) rule1_interest Inr rules;
          rules = add_rule (sp_thread_data u) In (rule2_callback K) rule2_interest rule2_cancel rules;
          rules = add_rule (sp_thread_data u) Out (rule3_callback K) rule3_interest Inr rules;
          rules = add_rule (ad_fd A (sp_adapter u)) Out (rule4_callback A) rule4_interest Inr rules
      in (rules, u))"

section \<open>The loop of the connection\<close>

definition TCP_TICK_MS :: int where "TCP_TICK_MS = 10"

definition timestamp_ms :: "'k kernel \<Rightarrow> 'k sys \<Rightarrow> u64 \<times> 'k sys" where
  "timestamp_ms K s = (let (t, k) = k_clock K (sy_kernel s) in (t, s\<lparr>sy_kernel := k\<rparr>))"

text \<open>The time passed since the last iteration, for an active connection.\<close>

definition loop_tick :: "'k kernel \<Rightarrow> ('k, 'a) adapter \<Rightarrow> u64 \<Rightarrow> ('k, 'a sponge_socket) world \<Rightarrow>
    exn + u64 \<times> ('k, 'a sponge_socket) world" where
  "loop_tick K A base_time w =
     (let (s, u) = w
      in bindE (sp_the_tcp u) (\<lambda>c.
         if tc_active c then
           let (next_time, s) = timestamp_ms K s
           in bindE (tc_tick (next_time - base_time) c) (\<lambda>c.
              bindE (ad_tick A (next_time - base_time) (s, sp_adapter u)) (\<lambda>(s, a).
                Inr (next_time, s, u\<lparr>sp_tcp := Some c, sp_adapter := a\<rparr>)))
         else Inr (base_time, s, u)))"

text \<open>The loop may run forever; \<open>None\<close> stands for that.\<close>

partial_function (option) tcp_loop_from :: "'k kernel \<Rightarrow> ('k, 'a) adapter \<Rightarrow> ('k \<Rightarrow> bool) \<Rightarrow> (('k, 'a sponge_socket) world \<Rightarrow> bool) \<Rightarrow>
    u64 \<Rightarrow> ('k, 'a sponge_socket) rule list \<Rightarrow> ('k, 'a sponge_socket) world \<Rightarrow>
    (exn + ('k, 'a sponge_socket) rule list \<times> ('k, 'a sponge_socket) world) option" where
  "tcp_loop_from K A aborted condition base_time rules w =
     (if \<not> condition w then Some (Inr (rules, w))
      else
        case wait_next_event K TCP_TICK_MS rules w of
          Inl e \<Rightarrow> Some (Inl e)
        | Inr (ret, rules, w) \<Rightarrow>
            if ret = Exit \<or> aborted (sy_kernel (fst w)) then Some (Inr (rules, w))
            else
              case loop_tick K A base_time w of
                Inl e \<Rightarrow> Some (Inl e)
              | Inr (base_time, w) \<Rightarrow> tcp_loop_from K A aborted condition base_time rules w)"

definition tcp_loop :: "'k kernel \<Rightarrow> ('k, 'a) adapter \<Rightarrow> ('k \<Rightarrow> bool) \<Rightarrow> (('k, 'a sponge_socket) world \<Rightarrow> bool) \<Rightarrow>
    ('k, 'a sponge_socket) rule list \<Rightarrow> ('k, 'a sponge_socket) world \<Rightarrow>
    (exn + ('k, 'a sponge_socket) rule list \<times> ('k, 'a sponge_socket) world) option" where
  "tcp_loop K A aborted condition rules w =
     (let (base_time, s) = timestamp_ms K (fst w) in tcp_loop_from K A aborted condition base_time rules (s, snd w))"

definition sp_in_state :: "official_state list \<Rightarrow> ('k, 'a sponge_socket) world \<Rightarrow> bool" where
  "sp_in_state sts w =
     (case sp_tcp (snd w) of Some c \<Rightarrow> list_ex (\<lambda>st. ts_eq (tc_state c) (ts_official st)) sts | None \<Rightarrow> False)"

text \<open>
  \<open>connect\<close> and \<open>listen_and_accept\<close>: the state in which the connection's thread is started, with the rules it
  goes on with.
\<close>

definition sp_start :: "('k, 'a sponge_socket) world \<Rightarrow> ('k, 'a sponge_socket) world" where
  "sp_start w = (fst w, (snd w)\<lparr>sp_thread_running := True\<rparr>)"

definition sp_connect :: "'k kernel \<Rightarrow> ('k, 'a) adapter \<Rightarrow> ('k \<Rightarrow> bool) \<Rightarrow> tcp_config \<Rightarrow> fd_adapter_config \<Rightarrow> u32 \<Rightarrow>
    ('k, 'a sponge_socket) world \<Rightarrow> (exn + ('k, 'a sponge_socket) rule list \<times> ('k, 'a sponge_socket) world) option" where
  "sp_connect K A aborted c_tcp c_ad random w =
     (let (s, u) = w
      in if sp_tcp u \<noteq> None then Some (Inl (RuntimeError ''connect() with TCPConnection already initialized''))
         else
           let (rules, u) = initialize_TCP K A c_tcp random u;
               u = u\<lparr>sp_adapter := ad_set_config A c_ad (sp_adapter u)\<rparr>
           in case bindE (sp_the_tcp u) tc_connect of
                Inl e \<Rightarrow> Some (Inl e)
              | Inr c \<Rightarrow>
                  if \<not> ts_eq (tc_state c) (ts_official SYN_SENT)
                  then Some (Inl (RuntimeError (''After TCPConnection::connect(), state was '' @ ts_name (tc_state c) @
                    '' but expected '' @ ts_name (ts_official SYN_SENT))))
                  else map_option (\<lambda>r. bindE r (\<lambda>(rules, w). Inr (rules, sp_start w)))
                    (tcp_loop K A aborted (sp_in_state [SYN_SENT]) rules (s, u\<lparr>sp_tcp := Some c\<rparr>)))"

definition sp_listen_and_accept :: "'k kernel \<Rightarrow> ('k, 'a) adapter \<Rightarrow> ('k \<Rightarrow> bool) \<Rightarrow> tcp_config \<Rightarrow> fd_adapter_config \<Rightarrow> u32 \<Rightarrow>
    ('k, 'a sponge_socket) world \<Rightarrow> (exn + ('k, 'a sponge_socket) rule list \<times> ('k, 'a sponge_socket) world) option" where
  "sp_listen_and_accept K A aborted c_tcp c_ad random w =
     (let (s, u) = w
      in if sp_tcp u \<noteq> None then Some (Inl (RuntimeError ''listen_and_accept() with TCPConnection already initialized''))
         else
           let (rules, u) = initialize_TCP K A c_tcp random u;
               u = u\<lparr>sp_adapter := ad_set_listening A True (ad_set_config A c_ad (sp_adapter u))\<rparr>
           in map_option (\<lambda>r. bindE r (\<lambda>(rules, w). Inr (rules, sp_start w)))
                (tcp_loop K A aborted (sp_in_state [LISTEN, SYN_RCVD, SYN_SENT]) rules (s, u)))"

text \<open>The body of the thread: run until the loop ends, then shut down and drop the connection.\<close>

definition tcp_main :: "'k kernel \<Rightarrow> ('k, 'a) adapter \<Rightarrow> ('k \<Rightarrow> bool) \<Rightarrow> ('k, 'a sponge_socket) rule list \<Rightarrow>
    ('k, 'a sponge_socket) world \<Rightarrow> (exn + ('k, 'a sponge_socket) world) option" where
  "tcp_main K A aborted rules w =
     (if sp_tcp (snd w) = None then Some (Inl (RuntimeError ''no TCP''))
      else map_option (\<lambda>r. bindE r (\<lambda>(rules, s, u).
             bindE (sock_shutdown K (sp_socket u) SHUT_RDWR s) (\<lambda>s. Inr (s, u\<lparr>sp_tcp := None\<rparr>))))
           (tcp_loop K A aborted (\<lambda>_. True) rules w))"

section \<open>Ready-made sockets\<close>

text \<open>\<open>wait_until_closed\<close>: shut down the owner's side; the thread is then joined, when it has ended in \<open>w'\<close>.\<close>

definition wait_until_closed :: "'k kernel \<Rightarrow> ('k, 'a sponge_socket) world \<Rightarrow>
    (('k, 'a sponge_socket) world \<Rightarrow> (exn + ('k, 'a sponge_socket) world) option) \<Rightarrow> (exn + ('k, 'a sponge_socket) world) option" where
  "wait_until_closed K w thread =
     (case sock_shutdown K (sp_socket (snd w)) SHUT_RDWR (fst w) of
        Inl e \<Rightarrow> Some (Inl e)
      | Inr s \<Rightarrow>
          if sp_thread_running (snd w)
          then map_option (\<lambda>r. bindE r (\<lambda>(s, u). Inr (s, u\<lparr>sp_thread_running := False\<rparr>))) (thread (s, snd w))
          else Some (Inr (s, snd w)))"

text \<open>The configurations with which \<open>CS144TCPSocket\<close> and \<open>FullStackSocket\<close> connect; \<open>random\<close> is a value of \<open>random_device\<close>.\<close>

definition cs144_config :: "getaddrinfo \<Rightarrow> u32 \<Rightarrow> address \<Rightarrow> exn + tcp_config \<times> fd_adapter_config" where
  "cs144_config gai random address =
     (let tcp_config = cfg_default\<lparr>cfg_rt_timeout := 100\<rparr>
      in bindE (fc_new gai) (\<lambda>multiplexer_config.
         bindE (addr_of_host gai ''169.254.144.9'' (dec_string (unat (ucast random :: u16)))) (\<lambda>source.
           Inr (tcp_config, multiplexer_config\<lparr>fc_source := source, fc_destination := address\<rparr>))))"

definition LOCAL_TAP_IP_ADDRESS :: string where "LOCAL_TAP_IP_ADDRESS = ''169.254.10.9''"
definition LOCAL_TAP_NEXT_HOP_ADDRESS :: string where "LOCAL_TAP_NEXT_HOP_ADDRESS = ''169.254.10.1''"

definition fullstack_config :: "getaddrinfo \<Rightarrow> u32 \<Rightarrow> address \<Rightarrow> exn + tcp_config \<times> fd_adapter_config" where
  "fullstack_config gai random address =
     (let tcp_config = cfg_default\<lparr>cfg_rt_timeout := 100\<rparr>
      in bindE (fc_new gai) (\<lambda>multiplexer_config.
         bindE (addr_of_host gai LOCAL_TAP_IP_ADDRESS (dec_string (unat (ucast random :: u16)))) (\<lambda>source.
           Inr (tcp_config, multiplexer_config\<lparr>fc_source := source, fc_destination := address\<rparr>))))"

text \<open>Six random bytes, made a private unicast address.\<close>

fun random_private_ethernet_address :: "u8 \<times> u8 \<times> u8 \<times> u8 \<times> u8 \<times> u8 \<Rightarrow> ethernet_address" where
  "random_private_ethernet_address (b0, b1, b2, b3, b4, b5) = EthernetAddress ((b0 OR 0x02) AND 0xfe) b1 b2 b3 b4 b5"

definition fullstack_adapter :: "getaddrinfo \<Rightarrow> u8 \<times> u8 \<times> u8 \<times> u8 \<times> u8 \<times> u8 \<Rightarrow> exn + eth_adapter" where
  "fullstack_adapter gai random =
     bindE (addr_of_host gai LOCAL_TAP_IP_ADDRESS ''0'') (\<lambda>ip_address.
     bindE (addr_of_host gai LOCAL_TAP_NEXT_HOP_ADDRESS ''0'') (\<lambda>next_hop.
       ea_new gai (random_private_ethernet_address random) ip_address next_hop))"

section \<open>What the rules do\<close>

lemma tc_inbound_set [simp]: "tc_inbound (tc_set_inbound st c) = st"
  by (simp add: tc_inbound_def tc_set_inbound_def rc_stream_out_def)

text \<open>Reading, seen as an operation on the connection: \<open>peek_output\<close> followed by \<open>pop_output\<close>.\<close>

lemma tc_read_pop:
  assumes "bs_pop_output m (tc_inbound c) = Inr st"
  shows "tc_read m c = Inr (take m (bs_contents (tc_inbound c)), tc_set_inbound st c)"
proof -
  let ?n = "length (bs_contents (tc_inbound c))"
  have "bs_pop_output (if ?n < m then ?n else m) (tc_inbound c) = Inr st"
    using assms by (auto simp: bs_pop_output_def Let_def)
  then show ?thesis
    by (cases "?n < m") (simp_all add: tc_read_def tc_set_inbound_def bs_read_def tc_inbound_def [symmetric] bs_peek_output_eq Let_def)
qed

context stream_kernel
begin

lemma fd_write_sends:
  assumes "fd_write K fd buf all s = Inr (n, s')"
  shows "n \<le> length (concat buf)" "concat buf \<noteq> [] \<longrightarrow> 0 < n" "fd_num fd s' = fd_num fd s"
    "sent (fd_num fd s) (sy_kernel s') = sent (fd_num fd s) (sy_kernel s) @ take n (concat buf)"
  using fd_write_loop_sends [of fd all buf 0 s n s'] assms by (auto simp: fd_write_def)

lemma sock_shutdown_sent:
  assumes "sock_shutdown K fd SHUT_WR s = Inr s'"
  shows "sent (fd_num fd s) (sy_kernel s') = sent (fd_num fd s) (sy_kernel s)"
  using assms shutdown_keeps
  by (auto simp: sock_shutdown_def SystemCall_def bindE_eq_Inr_iff SHUT_RD_def SHUT_WR_def register_write_def fd_update_def
      split: prod.splits sum.splits)

lemma rule3_refines:
  assumes u: "sp_tcp u = Some c" and cb: "rule3_callback K (s, u) = Inr (s', u')"
  obtains m d c' where "tc_read m c = Inr (d, c')" "sp_tcp u' = Some c'"
    "sent (fd_num (sp_thread_data u) s) (sy_kernel s') = sent (fd_num (sp_thread_data u) s) (sy_kernel s) @ d"
    "bs_contents (tc_inbound c) = d @ bs_contents (tc_inbound c')" "bs_contents (tc_inbound c) \<noteq> [] \<longrightarrow> d \<noteq> []"
    "sp_inbound_shutdown u' \<longleftrightarrow> sp_inbound_shutdown u \<or> bs_eof (tc_inbound c') \<or> bs_error (tc_inbound c')"
proof -
  let ?st = "tc_inbound c" and ?fd = "sp_thread_data u"
  let ?buf = "[take (min 65536 (length (bs_contents ?st))) (bs_contents ?st)]"
  obtain m s1 where w: "fd_write K ?fd ?buf False s = Inr (m, s1)"
    using cb u by (auto simp: rule3_callback_def sp_the_tcp_def bindE_eq_Inr_iff bs_peek_output_eq bvl_of_string_def Let_def)
  obtain st where st: "bs_pop_output m ?st = Inr st" "bs_contents st = drop m (bs_contents ?st)"
    by (rule bs_pop_output_cases [of m ?st])
  let ?u = "u\<lparr>sp_tcp := Some (tc_set_inbound st c)\<rparr>"
  have rest: "(if bs_eof st \<or> bs_error st
      then bindE (sock_shutdown K ?fd SHUT_WR s1) (\<lambda>s. Inr (s, ?u\<lparr>sp_inbound_shutdown := True\<rparr>)) else Inr (s1, ?u)) = Inr (s', u')"
    using cb u w st(1)
    by (auto simp: rule3_callback_def sp_the_tcp_def bs_peek_output_eq bvl_of_string_def Let_def split: if_splits)
  note f = fd_write_sends [OF w]
  have m: "take m (concat ?buf) = take m (bs_contents ?st)" using f(1) by (simp add: min_absorb1)
  have "sent (fd_num ?fd s) (sy_kernel s') = sent (fd_num ?fd s) (sy_kernel s1)"
    using rest sock_shutdown_sent [of ?fd s1] f(3) by (auto simp: bindE_eq_Inr_iff split: if_splits)
  then have sent: "sent (fd_num ?fd s) (sy_kernel s') = sent (fd_num ?fd s) (sy_kernel s) @ take m (bs_contents ?st)"
    using f(4) m by simp
  have u': "sp_tcp u' = Some (tc_set_inbound st c)"
      "sp_inbound_shutdown u' \<longleftrightarrow> sp_inbound_shutdown u \<or> bs_eof st \<or> bs_error st"
    using rest by (auto simp: bindE_eq_Inr_iff split: if_splits)
  show thesis
    by (rule that [OF tc_read_pop [OF st(1)] u'(1) sent]) (use st(2) f(2) u'(2) in \<open>auto simp: min_def\<close>)
qed

lemma rule2_refines:
  assumes u: "sp_tcp u = Some c" and cb: "rule2_callback K (s, u) = r"
    and rd: "fd_read K (sp_thread_data u) (tc_remaining_outbound_capacity c) s = Inr (data, s1)"
    and wr: "tc_write data c = Inr (n, c1)"
  shows "n = length data \<and>
    r = (if fd_eof (sp_thread_data u) s1 then rule2_cancel (s1, u\<lparr>sp_tcp := Some c1\<rparr>) else Inr (s1, u\<lparr>sp_tcp := Some c1\<rparr>))"
proof -
  obtain k where "k_read K (fd_num (sp_thread_data u) s) (min BUFFER_SIZE (tc_remaining_outbound_capacity c)) (sy_kernel s) = (Inr data, k)"
    using rd by (auto simp: fd_read_def SystemCall_def Let_def bindE_eq_Inr_iff split: prod.splits sum.splits if_splits)
  from read_limited [OF this] have "length data \<le> tc_remaining_outbound_capacity c" by simp
  then have "fst (bs_write data (snd_stream (tc_sender c))) = length data"
    by (simp add: bs_write_accepted tc_remaining_outbound_capacity_def bs_remaining_capacity_def)
  then have n: "n = length data"
    using wr by (cases "bs_write data (snd_stream (tc_sender c))") (auto simp: tc_write_def bindE_eq_Inr_iff split: if_splits)
  show ?thesis using cb u rd wr n by (simp add: rule2_callback_def sp_the_tcp_def Let_def)
qed

end

section \<open>Properties\<close>


text \<open>
  (C19) The check of the socket that the connection takes all the data read from the owner never fails: a
  read asks for no more than the connection has room for. So the rule that serves the owner's writes
  performs one write of all the data, and ends the outbound stream exactly when the owner has.
\<close>

theorem socket_outbound_refines_write:
  assumes "stream_kernel K sent" "sp_tcp u = Some c"
    and "fd_read K (sp_thread_data u) (tc_remaining_outbound_capacity c) s = Inr (data, s1)"
    and "tc_write data c = Inr (n, c1)"
  shows "n = length data \<and>
    rule2_callback K (s, u) =
      (if fd_eof (sp_thread_data u) s1
       then bindE (tc_end_input_stream c1) (\<lambda>c. Inr (s1, u\<lparr>sp_tcp := Some c, sp_outbound_shutdown := True\<rparr>))
       else Inr (s1, u\<lparr>sp_tcp := Some c1\<rparr>))"
  using stream_kernel.rule2_refines [OF assms(1,2) refl assms(3,4)] by (simp add: rule2_cancel_def sp_the_tcp_def)

definition demo_socket :: "tcp_connection \<Rightarrow> unit sponge_socket" where
  "demo_socket c = \<lparr>sp_socket = 3, sp_thread_data = 4, sp_adapter = (), sp_tcp = Some c, sp_thread_running = True,
     sp_inbound_shutdown = False, sp_outbound_shutdown = False, sp_fully_acked = False\<rparr>"

definition demo_inbound :: tcp_connection where
  "demo_inbound = tc_set_inbound (snd (bs_write [1, 2, 3] (bs_new 10))) (tc_new cfg_default 0)"

lemma bs_new_contents: "bs_contents (bs_new n) = []"
  by (simp add: bs_new_def bs_contents_def)


theorem socket_outbound_refines_write_witness:
  "\<exists>s c. rule2_callback (pipe_kernel 2) (demo_sys [1, 2, 3], demo_socket (tc_new demo_cfg 0)) = Inr (s, demo_socket c) \<and>
    tc_write [1, 2, 3] (tc_new demo_cfg 0) = Inr (3, c)"
proof -
  let ?c = "tc_new demo_cfg 0" and ?u = "demo_socket (tc_new demo_cfg 0)"
  have cap: "tc_remaining_outbound_capacity ?c \<ge> 3" by code_simp
  have "case tc_write [1, 2, 3] ?c of Inr (n, c) \<Rightarrow> True | Inl e \<Rightarrow> False" by code_simp
  then obtain n c where wr: "tc_write [1, 2, 3] ?c = Inr (n, c)" by (auto split: sum.splits)
  obtain s where rd: "fd_read (pipe_kernel 2) (sp_thread_data ?u) (tc_remaining_outbound_capacity ?c) (demo_sys [1, 2, 3]) = Inr ([1, 2, 3], s)"
      "\<not> fd_eof (sp_thread_data ?u) s"
    using cap by (simp add: fd_read_def SystemCall_def pipe_kernel_def demo_sys_def fd_num_def Let_def BUFFER_SIZE_def
        demo_socket_def fd_eof_def register_read_def fd_update_def min_def)
  have u: "sp_tcp ?u = Some ?c" "?u\<lparr>sp_tcp := Some c\<rparr> = demo_socket c" by (simp_all add: demo_socket_def)
  from socket_outbound_refines_write [OF pipe.stream_kernel_axioms u(1) rd(1) wr] wr rd(2) show ?thesis
    by (auto simp: u(2))
qed


definition demo_finished :: tcp_connection where
  "demo_finished = (tc_new cfg_default 0)\<lparr>tc_active := False\<rparr>"


end
