(* ===== verification/Event_Progress.thy ===== *)
theory Event_Progress
  imports Event_Loop
begin

text \<open>
  What an event loop keeps, and why it comes to its end: a contract of rules that make progress, under
  which the loop serves them until none is interested any more.
\<close>

section \<open>One step of the first loop\<close>

text \<open>The condition under which the event loop drops a rule before polling.\<close>

definition rule_gone :: "('k, 'u) rule \<Rightarrow> ('k, 'u) world \<Rightarrow> bool" where
  "rule_gone r w \<longleftrightarrow> ru_direction r = In \<and> fd_eof (ru_fd r) (fst w) \<or> fd_closed (ru_fd r) (fst w)"

lemma el_setup_Cons:
  assumes "el_setup (r # rules) w = Inr (rules', ps, b, w')"
  shows "rule_gone r w \<and> (\<exists>w1. ru_cancel r w = Inr w1 \<and> el_setup rules w1 = Inr (rules', ps, b, w')) \<or>
    \<not> rule_gone r w \<and> (\<exists>rs ps' b'. el_setup rules w = Inr (rs, ps', b', w') \<and> rules' = r # rs \<and> b = (ru_interest r w \<or> b') \<and>
      ps = (fd_num (ru_fd r) (fst w), if ru_interest r w then direction_bits (ru_direction r) else 0) # ps')"
proof (cases "rule_gone r w")
  case True
  then have "bindE (ru_cancel r w) (el_setup rules) = Inr (rules', ps, b, w')"
    using assms by (auto simp: rule_gone_def split: if_splits)
  with True show ?thesis by (auto simp: bindE_eq_Inr_iff)
next
  case False
  then show ?thesis using assms by (cases "el_setup rules w") (auto simp: rule_gone_def Let_def)
qed

section \<open>Invariants\<close>

text \<open>What the callbacks and \<open>poll\<close> keep, the loop keeps.\<close>

definition rules_keep :: "(('k, 'u) world \<Rightarrow> bool) \<Rightarrow> ('k, 'u) rule list \<Rightarrow> bool" where
  "rules_keep P rules \<longleftrightarrow> (\<forall>r\<in>set rules. \<forall>w w'. P w \<longrightarrow> ru_callback r w = Inr w' \<or> ru_cancel r w = Inr w' \<longrightarrow> P w')"

lemma rules_keepD:
  assumes "rules_keep P rules" "r \<in> set rules" "P w"
  shows "ru_callback r w = Inr w' \<Longrightarrow> P w'" "ru_cancel r w = Inr w' \<Longrightarrow> P w'"
  using assms unfolding rules_keep_def by blast+

lemma rules_keep_subset: "rules_keep P rules \<Longrightarrow> set rules' \<subseteq> set rules \<Longrightarrow> rules_keep P rules'"
  unfolding rules_keep_def by blast

lemma rules_keep_Cons: "rules_keep P (r # rules) \<Longrightarrow> rules_keep P rules"
  by (rule rules_keep_subset) auto

lemma el_setup_keeps:
  assumes "el_setup rules w = Inr (rules', ps, b, w')" "P w" "rules_keep P rules"
  shows "P w'"
  using assms
proof (induction rules arbitrary: w rules' ps b)
  case (Cons r rules)
  note k = rules_keep_Cons [OF Cons.prems(3)]
  show ?case
    using el_setup_Cons [OF Cons.prems(1)] Cons.IH [OF _ _ k] rules_keepD(2) [OF Cons.prems(3) _ Cons.prems(2), of r] Cons.prems(2)
    by (metis list.set_intros(1))
qed simp

lemma el_dispatch_keeps:
  assumes "el_dispatch rules evs w = Inr (rules', w')" "P w" "rules_keep P rules"
  shows "P w'"
  using assms
proof (induction rules arbitrary: evs w rules')
  case (Cons r rules)
  note k = rules_keep_Cons [OF Cons.prems(3)] and d = rules_keepD [OF Cons.prems(3) _ Cons.prems(2), of r]
  obtain e rv evs' where evs: "evs = (e, rv) # evs'" using Cons.prems(1) by (cases evs) auto
  have "\<exists>w1 rs. P w1 \<and> el_dispatch rules evs' w1 = Inr (rs, w')"
    using Cons.prems(1,2) d by (fastforce simp: evs Let_def bindE_eq_Inr_iff split: if_splits)
  then show ?case using Cons.IH [OF _ _ k] by blast
qed simp

lemma wait_next_event_keeps:
  assumes "wait_next_event K t rules w = Inr (res, rules', w')" "P w" "rules_keep P rules"
    and poll: "\<And>s u ps x k. P (s, u) \<Longrightarrow> k_poll K ps t (sy_kernel s) = (x, k) \<Longrightarrow> P (s\<lparr>sy_kernel := k\<rparr>, u)"
  shows "P w'" "subseq rules' rules"
proof -
  obtain rules1 ps b w1 where s: "el_setup rules w = Inr (rules1, ps, b, w1)"
    using assms(1) by (auto simp: wait_next_event_def bindE_eq_Inr_iff)
  have P1: "P w1" by (rule el_setup_keeps [OF s assms(2,3)])
  have sub: "subseq rules1 rules" using el_setup_facts(1) [OF s] .
  then have k: "rules_keep P rules1" by (auto intro: rules_keep_subset [OF assms(3)] dest: list_emb_set)
  obtain x k' where p: "k_poll K ps t (sy_kernel (fst w1)) = (x, k')" by fastforce
  have P2: "P ((fst w1)\<lparr>sy_kernel := k'\<rparr>, snd w1)" using poll [OF _ p, of "snd w1"] P1 by simp
  have "(w' = w1 \<or> w' = ((fst w1)\<lparr>sy_kernel := k'\<rparr>, snd w1)) \<and> rules' = rules1 \<or>
      (\<exists>evs. el_dispatch rules1 evs ((fst w1)\<lparr>sy_kernel := k'\<rparr>, snd w1) = Inr (rules', w'))"
    using assms(1) by (auto simp: wait_next_event_def s p Let_def bindE_eq_Inr_iff split: if_splits sum.splits)
  then show "P w'" "subseq rules' rules"
    using P1 P2 sub by (auto dest: el_dispatch_keeps [OF _ P2 k] el_dispatch_subseq intro: subseq_order.trans)
qed

section \<open>Rules that make progress\<close>

text \<open>What the loop asks \<open>poll\<close> for: input or output, and something at all.\<close>

definition asks :: "(int \<times> u16) list \<Rightarrow> bool" where
  "asks ps \<longleftrightarrow> (\<forall>p\<in>set ps. snd p \<in> {0, POLLIN, POLLOUT}) \<and> (\<exists>p\<in>set ps. snd p \<noteq> 0)"

text \<open>An answer of \<open>poll\<close> with an event that was asked for, and without errors and hang-ups.\<close>

definition answers :: "(int \<times> u16) list \<Rightarrow> nat \<Rightarrow> u16 list \<Rightarrow> bool" where
  "answers ps ready revents \<longleftrightarrow> 0 < ready \<and> length revents = length ps \<and>
     (\<forall>r\<in>set revents. r AND (POLLERR OR POLLNVAL) = 0 \<and> r AND POLLHUP = 0) \<and>
     (\<exists>i<length ps. revents ! i AND snd (ps ! i) \<noteq> 0)"

text \<open>An event the loop can handle: no error, no hang-up, and if it was asked for, its rule is enabled.\<close>

definition event_ok :: "(('k, 'u) rule \<Rightarrow> ('k, 'u) world \<Rightarrow> bool) \<Rightarrow> ('k, 'u) world \<Rightarrow> ('k, 'u) rule \<Rightarrow> u16 \<times> u16 \<Rightarrow> bool" where
  "event_ok enabled w r ev \<longleftrightarrow>
     (case ev of (events, revents) \<Rightarrow> revents AND (POLLERR OR POLLNVAL) = 0 \<and> revents AND POLLHUP = 0 \<and>
       (revents AND events \<noteq> 0 \<longrightarrow> enabled r w))"

lemma answers_events:
  assumes "answers ps ready revents" "list_all2 (\<lambda>r p. snd p \<noteq> 0 \<longrightarrow> enabled r w) rules ps"
  shows "list_all2 (event_ok enabled w) rules (zip (map snd ps) revents)"
    "list_ex (\<lambda>(events, revents). revents AND events \<noteq> 0) (zip (map snd ps) revents)"
proof -
  have len: "length rules = length ps" "length revents = length ps"
    using assms list_all2_lengthD by (auto simp: answers_def)
  show "list_all2 (event_ok enabled w) rules (zip (map snd ps) revents)"
  proof (rule list_all2_all_nthI)
    fix i
    assume i: "i < length rules"
    then have "revents ! i \<in> set revents" using len by simp
    then have "revents ! i AND (POLLERR OR POLLNVAL) = 0" "revents ! i AND POLLHUP = 0"
      using assms(1) by (auto simp: answers_def)
    then show "event_ok enabled w (rules ! i) (zip (map snd ps) revents ! i)"
      using list_all2_nthD [OF assms(2) i] i len by (auto simp: event_ok_def)
  qed (simp add: len)
  show "list_ex (\<lambda>(events, revents). revents AND events \<noteq> 0) (zip (map snd ps) revents)"
    using assms(1) len by (fastforce simp: answers_def list_ex_length)
qed

text \<open>The loop of a program that serves its rules until none is interested any more; it may run forever.\<close>

partial_function (option) copy_loop :: "'k kernel \<Rightarrow> ('k, 'u) rule list \<Rightarrow> ('k, 'u) world \<Rightarrow> (exn + ('k, 'u) world) option" where
  "copy_loop K rules w =
     (case wait_next_event K (- 1) rules w of
        Inl e \<Rightarrow> Some (Inl e)
      | Inr (ret, rules, w) \<Rightarrow> if ret = Exit then Some (Inr w) else copy_loop K rules w)"

text \<open>Dropping the rule \<open>r'\<close> does not make the rule \<open>r\<close> interested.\<close>

definition undisturbed :: "(('k, 'u) world \<Rightarrow> bool) \<Rightarrow> ('k, 'u) rule \<Rightarrow> ('k, 'u) rule \<Rightarrow> bool" where
  "undisturbed Inv r r' \<longleftrightarrow> (\<forall>w w'. Inv w \<longrightarrow> ru_cancel r' w = Inr w' \<longrightarrow> ru_interest r w' \<longrightarrow> ru_interest r w)"

lemma undisturbedD: "undisturbed Inv r r' \<Longrightarrow> Inv w \<Longrightarrow> ru_cancel r' w = Inr w' \<Longrightarrow> ru_interest r w' \<Longrightarrow> ru_interest r w"
  unfolding undisturbed_def by blast

lemma sorted_wrt_subseq: "subseq xs ys \<Longrightarrow> sorted_wrt P ys \<Longrightarrow> sorted_wrt P xs"
  by (induction rule: list_emb.induct) (auto dest: list_emb_set)

lemma el_setup_asks:
  assumes "el_setup rules w = Inr (rules', ps, True, w')"
  shows "asks ps"
proof -
  have "\<forall>p\<in>set ps. snd p \<in> {0, POLLIN, POLLOUT}" if "el_setup rules w = Inr (rules', ps, b, w')" for rules w rules' ps b
    using that
  proof (induction rules arbitrary: w rules' ps b)
    case (Cons r rules)
    have d: "direction_bits d \<in> {POLLIN, POLLOUT}" for d by (cases d) simp_all
    from el_setup_Cons [OF Cons.prems] show ?case
    proof (elim disjE conjE exE)
      fix rs ps' b'
      assume "el_setup rules w = Inr (rs, ps', b', w')"
        "ps = (fd_num (ru_fd r) (fst w), if ru_interest r w then direction_bits (ru_direction r) else 0) # ps'"
      then show ?case using Cons.IH d [of "ru_direction r"] by auto
    qed (rule Cons.IH)
  qed simp
  then show ?thesis using el_setup_facts(3) [OF assms] assms by (auto simp: asks_def)
qed

lemma distinct_subseq: "subseq xs ys \<Longrightarrow> distinct ys \<Longrightarrow> distinct xs"
  by (metis distinct_nthsI subseq_conv_nths)

text \<open>
  A call of a callback that makes progress: it keeps an invariant, lowers a measure, has read or written
  its descriptor, and neither disables nor revives another rule.
\<close>

definition rule_progress :: "('k, 'u) rule list \<Rightarrow> (('k, 'u) world \<Rightarrow> bool) \<Rightarrow> (('k, 'u) rule \<Rightarrow> ('k, 'u) world \<Rightarrow> bool) \<Rightarrow> (('k, 'u) world \<Rightarrow> nat) \<Rightarrow>
    ('k, 'u) rule \<Rightarrow> ('k, 'u) world \<Rightarrow> ('k, 'u) world \<Rightarrow> bool" where
  "rule_progress R Inv enabled rank r w w' \<longleftrightarrow>
     ru_callback r w = Inr w' \<and> Inv w' \<and> rank w' < rank w \<and> service_count r w' \<noteq> service_count r w \<and>
     (\<forall>r'\<in>set R. (r' \<noteq> r \<longrightarrow> enabled r' w \<longrightarrow> enabled r' w') \<and> (rule_gone r' w \<longrightarrow> rule_gone r' w'))"

text \<open>
  A set of rules each of which makes progress when it is served: a rule that is interested is \<open>enabled\<close>, the
  callback of an enabled rule makes progress, and dropping a rule does not make an earlier one interested.
\<close>

locale progressing_rules =
  fixes K :: "'k kernel" and R :: "('k, 'u) rule list"
    and Inv :: "('k, 'u) world \<Rightarrow> bool" and enabled :: "('k, 'u) rule \<Rightarrow> ('k, 'u) world \<Rightarrow> bool"
    and rank :: "('k, 'u) world \<Rightarrow> nat"
  assumes distinct_rules: "Inv w \<Longrightarrow> distinct R"
    and interest_enabled: "r \<in> set R \<Longrightarrow> Inv w \<Longrightarrow> \<not> rule_gone r w \<Longrightarrow> ru_interest r w \<Longrightarrow> enabled r w"
    and cancel_ok: "r \<in> set R \<Longrightarrow> Inv w \<Longrightarrow> rule_gone r w \<Longrightarrow>
      \<exists>w'. ru_cancel r w = Inr w' \<and> Inv w' \<and> rank w' = rank w \<and> fst w' = fst w \<and> (\<forall>r'\<in>set R. enabled r' w \<longrightarrow> enabled r' w')"
    and cancel_order: "sorted_wrt (undisturbed Inv) R"
    and callback_ok: "r \<in> set R \<Longrightarrow> Inv w \<Longrightarrow> enabled r w \<Longrightarrow> \<exists>w'. rule_progress R Inv enabled rank r w w'"
    and poll_ok: "Inv (s, u) \<Longrightarrow> asks ps \<Longrightarrow>
      \<exists>ready revents k. k_poll K ps (- 1) (sy_kernel s) = (Inr (ready, revents), k) \<and> answers ps ready revents \<and>
        Inv (s\<lparr>sy_kernel := k\<rparr>, u) \<and> rank (s\<lparr>sy_kernel := k\<rparr>, u) = rank (s, u) \<and>
        (\<forall>r\<in>set R. enabled r (s, u) \<longrightarrow> enabled r (s\<lparr>sy_kernel := k\<rparr>, u))"
begin

lemma setup_progress:
  assumes "set rules \<subseteq> set R" "sorted_wrt (undisturbed Inv) rules" "Inv w"
  shows "\<exists>rules' ps something w'. el_setup rules w = Inr (rules', ps, something, w') \<and> Inv w' \<and> rank w' = rank w \<and> fst w' = fst w \<and>
    (\<forall>r\<in>set R. enabled r w \<longrightarrow> enabled r w') \<and> (\<forall>r. list_all (undisturbed Inv r) rules \<longrightarrow> ru_interest r w' \<longrightarrow> ru_interest r w) \<and>
    list_all2 (\<lambda>r p. snd p \<noteq> 0 \<longrightarrow> enabled r w') rules' ps \<and>
    (\<forall>r\<in>set rules - set rules'. rule_gone r w) \<and> (\<not> something \<longrightarrow> (\<forall>r\<in>set rules'. \<not> ru_interest r w'))"
  using assms
proof (induction rules arbitrary: w)
  case (Cons r rules)
  show ?case
  proof (cases "rule_gone r w")
    case True
    obtain w1 where c: "ru_cancel r w = Inr w1" "Inv w1" "rank w1 = rank w" "fst w1 = fst w" "\<forall>r'\<in>set R. enabled r' w \<longrightarrow> enabled r' w1"
      using cancel_ok [of r w] Cons.prems True by auto
    have e: "el_setup (r # rules) w = el_setup rules w1"
      using True c(1) by (auto simp: rule_gone_def)
    obtain rules' ps st w' where ih: "el_setup rules w1 = Inr (rules', ps, st, w')" "Inv w'" "rank w' = rank w1" "fst w' = fst w1"
        "\<forall>r\<in>set R. enabled r w1 \<longrightarrow> enabled r w'" "\<forall>r. list_all (undisturbed Inv r) rules \<longrightarrow> ru_interest r w' \<longrightarrow> ru_interest r w1"
        "list_all2 (\<lambda>r p. snd p \<noteq> 0 \<longrightarrow> enabled r w') rules' ps" "\<forall>r\<in>set rules - set rules'. rule_gone r w1"
        "\<not> st \<longrightarrow> (\<forall>r\<in>set rules'. \<not> ru_interest r w')"
      using Cons.IH [of w1] Cons.prems c(2) by (auto simp del: el_setup.simps)
    have "\<forall>q. list_all (undisturbed Inv q) (r # rules) \<longrightarrow> ru_interest q w' \<longrightarrow> ru_interest q w"
      using ih(6) undisturbedD [of Inv _ r w w1, OF _ Cons.prems(3) c(1)] by auto
    moreover have "\<forall>r'\<in>set (r # rules) - set rules'. rule_gone r' w"
      using ih(8) True c(4) by (auto simp: rule_gone_def)
    ultimately show ?thesis
      unfolding e using ih(1-5,7,9) c(3-5) by (intro exI [of _ rules'] exI [of _ ps] exI [of _ st] exI [of _ w']) simp
  next
    case False
    obtain rules' ps st w' where ih: "el_setup rules w = Inr (rules', ps, st, w')" "Inv w'" "rank w' = rank w" "fst w' = fst w"
        "\<forall>r\<in>set R. enabled r w \<longrightarrow> enabled r w'" "\<forall>r. list_all (undisturbed Inv r) rules \<longrightarrow> ru_interest r w' \<longrightarrow> ru_interest r w"
        "list_all2 (\<lambda>r p. snd p \<noteq> 0 \<longrightarrow> enabled r w') rules' ps" "\<forall>r\<in>set rules - set rules'. rule_gone r w"
        "\<not> st \<longrightarrow> (\<forall>r\<in>set rules'. \<not> ru_interest r w')"
      using Cons.IH [of w] Cons.prems by (auto simp del: el_setup.simps)
    let ?p = "(fd_num (ru_fd r) (fst w), if ru_interest r w then direction_bits (ru_direction r) else 0)"
    have e: "el_setup (r # rules) w = Inr (r # rules', ?p # ps, ru_interest r w \<or> st, w')"
      using False ih(1) by (auto simp: rule_gone_def Let_def)
    have "ru_interest r w \<longrightarrow> enabled r w'" using interest_enabled [of r w] False Cons.prems ih(5) by auto
    then have a: "list_all2 (\<lambda>r p. snd p \<noteq> 0 \<longrightarrow> enabled r w') (r # rules') (?p # ps)" using ih(7) by simp
    have "\<not> ru_interest r w \<longrightarrow> \<not> ru_interest r w'" using ih(6) Cons.prems(2) by (auto simp: list_all_iff)
    then have b: "\<not> (ru_interest r w \<or> st) \<longrightarrow> (\<forall>r\<in>set (r # rules'). \<not> ru_interest r w')" using ih(9) by simp
    have "\<forall>q. list_all (undisturbed Inv q) (r # rules) \<longrightarrow> ru_interest q w' \<longrightarrow> ru_interest q w" using ih(6) by simp
    moreover have "\<forall>r'\<in>set (r # rules) - set (r # rules'). rule_gone r' w" using ih(8) by auto
    ultimately show ?thesis
      unfolding e using ih(2-5) a b by blast
  qed
qed auto

lemma dispatch_progress:
  assumes "set rules \<subseteq> set R" "distinct rules" "Inv w"
    and "list_all2 (event_ok enabled w) rules evs"
  shows "\<exists>w'. el_dispatch rules evs w = Inr (rules, w') \<and> Inv w' \<and> rank w' \<le> rank w \<and>
    (list_ex (\<lambda>(events, revents). revents AND events \<noteq> 0) evs \<longrightarrow> rank w' < rank w) \<and> (\<forall>r\<in>set R. rule_gone r w \<longrightarrow> rule_gone r w')"
  using assms
proof (induction rules arbitrary: evs w)
  case (Cons r rules)
  obtain events revents es where evs: "evs = (events, revents) # es" using Cons.prems(4) by (cases evs) auto
  have rv: "revents AND (POLLERR OR POLLNVAL) = 0" "revents AND POLLHUP = 0" "revents AND events \<noteq> 0 \<longrightarrow> enabled r w"
    and es: "list_all2 (event_ok enabled w) rules es"
    using Cons.prems(4) by (simp_all add: evs event_ok_def [of enabled w r])
  show ?case
  proof (cases "revents AND events = 0")
    case True
    then have e: "el_dispatch (r # rules) evs w = bindE (el_dispatch rules es w) (\<lambda>(rules, w). Inr (r # rules, w))"
      using rv by (simp add: evs Let_def)
    show ?thesis using Cons.IH [of w es] Cons.prems es True unfolding e by (auto simp: evs)
  next
    case False
    then obtain w1 where c: "ru_callback r w = Inr w1" "Inv w1" "rank w1 < rank w" "service_count r w1 \<noteq> service_count r w"
        "\<forall>r'\<in>set R. (r' \<noteq> r \<longrightarrow> enabled r' w \<longrightarrow> enabled r' w1) \<and> (rule_gone r' w \<longrightarrow> rule_gone r' w1)"
      using callback_ok [of r w] Cons.prems rv(3) by (auto simp: rule_progress_def)
    have e: "el_dispatch (r # rules) evs w = bindE (el_dispatch rules es w1) (\<lambda>(rules, w). Inr (r # rules, w))"
      using False rv c(1,4) by (simp add: evs Let_def)
    have "list_all2 (event_ok enabled w1) rules es"
    proof (rule list.rel_mono_strong [OF es])
      fix q p
      assume "q \<in> set rules"
      then have "q \<in> set R" "q \<noteq> r" using Cons.prems(1,2) by auto
      then show "event_ok enabled w q p \<Longrightarrow> event_ok enabled w1 q p" using c(5) by (auto simp: event_ok_def)
    qed
    then obtain w' where "el_dispatch rules es w1 = Inr (rules, w')" "Inv w'" "rank w' \<le> rank w1" "\<forall>r\<in>set R. rule_gone r w1 \<longrightarrow> rule_gone r w'"
      using Cons.IH [of w1 es] Cons.prems(1,2) c(2) by auto
    then show ?thesis using c(3,5) unfolding e by simp
  qed
qed simp

lemma wait_progress:
  assumes "subseq rules R" "Inv w" "\<forall>r\<in>set R - set rules. rule_gone r w"
  shows "\<exists>ret rules' w'. wait_next_event K (- 1) rules w = Inr (ret, rules', w') \<and> subseq rules' R \<and> Inv w' \<and>
    (\<forall>r\<in>set R - set rules'. rule_gone r w') \<and> (ret = Exit \<and> (\<forall>r\<in>set rules'. \<not> ru_interest r w') \<or> ret = Success \<and> rank w' < rank w)"
proof -
  have sub: "set rules \<subseteq> set R" using assms(1) by (auto dest: list_emb_set)
  have "sorted_wrt (undisturbed Inv) rules" using sorted_wrt_subseq [OF assms(1) cancel_order] .
  from setup_progress [OF sub this assms(2)] obtain rules' ps st w1 where
    s: "el_setup rules w = Inr (rules', ps, st, w1)" "Inv w1" "rank w1 = rank w" "fst w1 = fst w"
      "list_all2 (\<lambda>r p. snd p \<noteq> 0 \<longrightarrow> enabled r w1) rules' ps"
      "\<forall>r\<in>set rules - set rules'. rule_gone r w" "\<not> st \<longrightarrow> (\<forall>r\<in>set rules'. \<not> ru_interest r w1)" by blast
  note f = el_setup_facts [OF s(1)]
  have gone: "\<forall>r\<in>set R - set rules'. rule_gone r w1" using s(4,6) assms(3) by (auto simp: rule_gone_def)
  have R': "set rules' \<subseteq> set R" "subseq rules' R"
    using subseq_order.trans [OF f(1) assms(1)] by (auto dest: list_emb_set)
  show ?thesis
  proof (cases st)
    case False
    then have "wait_next_event K (- 1) rules w = Inr (Exit, rules', w1)" using s(1) by (simp add: wait_next_event_def)
    then show ?thesis using s(2,7) gone False R'(2) by blast
  next
    case True
    obtain sys u where w1: "w1 = (sys, u)" by fastforce
    have "asks ps" using el_setup_asks s(1) True by simp
    from poll_ok [OF s(2) [unfolded w1] this] obtain ready revents k where
      p: "k_poll K ps (- 1) (sy_kernel sys) = (Inr (ready, revents), k)" "answers ps ready revents" "Inv (sys\<lparr>sy_kernel := k\<rparr>, u)"
        "rank (sys\<lparr>sy_kernel := k\<rparr>, u) = rank w1" "\<forall>r\<in>set R. enabled r w1 \<longrightarrow> enabled r (sys\<lparr>sy_kernel := k\<rparr>, u)"
      unfolding w1 by blast
    let ?w = "(sys\<lparr>sy_kernel := k\<rparr>, u)" and ?evs = "zip (map snd ps) revents"
    have d: "distinct rules'" using distinct_subseq [OF R'(2) distinct_rules [OF assms(2)]] .
    have "list_all2 (\<lambda>r p. snd p \<noteq> 0 \<longrightarrow> enabled r ?w) rules' ps"
      by (rule list.rel_mono_strong [OF s(5)]) (use p(5) R'(1) in auto)
    note ev = answers_events [OF p(2), of enabled ?w, OF this]
    from dispatch_progress [OF R'(1) d p(3) ev(1)] obtain w2 where
      w2: "el_dispatch rules' ?evs ?w = Inr (rules', w2)" "Inv w2"
        "list_ex (\<lambda>(events, revents). revents AND events \<noteq> 0) ?evs \<longrightarrow> rank w2 < rank ?w" "\<forall>r\<in>set R. rule_gone r ?w \<longrightarrow> rule_gone r w2"
      by blast
    have lt: "rank w2 < rank w" using w2(3) p(4) s(3) ev(2) by simp
    have wt: "wait_next_event K (- 1) rules w = Inr (Success, rules', w2)"
      using s(1) True p(1,2) w2(1) by (simp add: wait_next_event_def w1 answers_def)
    have "rule_gone r ?w = rule_gone r w1" for r by (simp add: rule_gone_def w1 fd_eof_def fd_closed_def)
    then have "\<forall>r\<in>set R - set rules'. rule_gone r w2" using gone w2(4) by blast
    then show ?thesis using wt R'(2) w2(2) lt by blast
  qed
qed

lemma loop_ends:
  assumes "subseq rules R" "Inv w" "\<forall>r\<in>set R - set rules. rule_gone r w"
  shows "\<exists>w'. copy_loop K rules w = Some (Inr w') \<and> Inv w' \<and> (\<forall>r\<in>set R. rule_gone r w' \<or> \<not> ru_interest r w')"
  using assms
proof (induction "rank w" arbitrary: rules w rule: less_induct)
  case less
  obtain ret rules' w' where w': "wait_next_event K (- 1) rules w = Inr (ret, rules', w')" "subseq rules' R" "Inv w'"
      "\<forall>r\<in>set R - set rules'. rule_gone r w'" "ret = Exit \<and> (\<forall>r\<in>set rules'. \<not> ru_interest r w') \<or> ret = Success \<and> rank w' < rank w"
    using wait_progress [OF less.prems] by blast
  from w'(5) show ?case
  proof (elim disjE conjE)
    assume "ret = Exit" "\<forall>r\<in>set rules'. \<not> ru_interest r w'"
    then show ?thesis using w'(1,3,4) by (subst copy_loop.simps) auto
  next
    assume r: "ret = Success" "rank w' < rank w"
    then have "copy_loop K rules w = copy_loop K rules' w'" using w'(1) by (subst copy_loop.simps) simp
    with less.hyps [OF r(2) w'(2-4)] show ?thesis by simp
  qed
qed

end

end
