(* ===== verification/Stream_Copy.thy ===== *)
theory Stream_Copy
  imports Event_Progress Byte_Streams
begin

text \<open>
  Model of \<open>apps/bidirectional_stream_copy\<close>, with which the command-line programs connect a TCP socket to the
  standard input and output: an event loop with four rules and a byte stream for each direction.
\<close>

section \<open>The program\<close>

definition max_copy_length :: nat where "max_copy_length = 65536"
definition copy_buffer_size :: nat where "copy_buffer_size = 1048576"

text \<open>The local variables the rules refer to; the socket is the argument.\<close>

record copy_state =
  cp_socket :: fd
  cp_input :: fd
  cp_output :: fd
  cp_outbound :: byte_stream
  cp_inbound :: byte_stream
  cp_outbound_shutdown :: bool
  cp_inbound_shutdown :: bool

text \<open>What the callbacks of rules 1 and 3, and of rules 2 and 4, have in common.\<close>

definition copy_in :: "'k kernel \<Rightarrow> fd \<Rightarrow> byte_stream \<Rightarrow> 'k sys \<Rightarrow> exn + 'k sys \<times> byte_stream" where
  "copy_in K fd st s =
     bindE (fd_read K fd (bs_remaining_capacity st) s) (\<lambda>(data, s).
       let st = snd (bs_write data st)
       in Inr (s, if fd_eof fd s then bs_end_input st else st))"

definition copy_out :: "'k kernel \<Rightarrow> fd \<Rightarrow> byte_stream \<Rightarrow> 'k sys \<Rightarrow> exn + 'k sys \<times> byte_stream" where
  "copy_out K fd st s =
     (let bytes_to_write = min max_copy_length (bs_buffer_size st)
      in bindE (fd_write K fd (bvl_of_string (bs_peek_output bytes_to_write st)) False s) (\<lambda>(bytes_written, s).
         bindE (bs_pop_output bytes_written st) (\<lambda>st. Inr (s, st))))"

text \<open>Rule 1: read from the standard input into the outbound stream.\<close>

definition copy_rule1_callback :: "'k kernel \<Rightarrow> ('k, copy_state) world \<Rightarrow> exn + ('k, copy_state) world" where
  "copy_rule1_callback K w =
     (let (s, u) = w
      in bindE (copy_in K (cp_input u) (cp_outbound u) s) (\<lambda>(s, outbound). Inr (s, u\<lparr>cp_outbound := outbound\<rparr>)))"

definition copy_rule1_interest :: "('k, copy_state) world \<Rightarrow> bool" where
  "copy_rule1_interest w \<longleftrightarrow> \<not> bs_error (cp_outbound (snd w)) \<and> bs_remaining_capacity (cp_outbound (snd w)) > 0 \<and>
     \<not> bs_error (cp_inbound (snd w))"

definition copy_rule1_cancel :: "('k, copy_state) world \<Rightarrow> exn + ('k, copy_state) world" where
  "copy_rule1_cancel w = Inr (fst w, (snd w)\<lparr>cp_outbound := bs_end_input (cp_outbound (snd w))\<rparr>)"

text \<open>Rule 2: write from the outbound stream to the socket.\<close>

definition copy_rule2_callback :: "'k kernel \<Rightarrow> ('k, copy_state) world \<Rightarrow> exn + ('k, copy_state) world" where
  "copy_rule2_callback K w =
     (let (s, u) = w
      in bindE (copy_out K (cp_socket u) (cp_outbound u) s) (\<lambda>(s, outbound).
           let u = u\<lparr>cp_outbound := outbound\<rparr>
           in if bs_eof outbound
              then bindE (sock_shutdown K (cp_socket u) SHUT_WR s) (\<lambda>s. Inr (s, u\<lparr>cp_outbound_shutdown := True\<rparr>))
              else Inr (s, u)))"

definition copy_rule2_interest :: "('k, copy_state) world \<Rightarrow> bool" where
  "copy_rule2_interest w \<longleftrightarrow> \<not> bs_buffer_empty (cp_outbound (snd w)) \<or>
     bs_eof (cp_outbound (snd w)) \<and> \<not> cp_outbound_shutdown (snd w)"

definition copy_rule2_cancel :: "('k, copy_state) world \<Rightarrow> exn + ('k, copy_state) world" where
  "copy_rule2_cancel w = Inr (fst w, (snd w)\<lparr>cp_outbound := bs_set_error (cp_outbound (snd w))\<rparr>)"

text \<open>Rule 3: read from the socket into the inbound stream.\<close>

definition copy_rule3_callback :: "'k kernel \<Rightarrow> ('k, copy_state) world \<Rightarrow> exn + ('k, copy_state) world" where
  "copy_rule3_callback K w =
     (let (s, u) = w
      in bindE (copy_in K (cp_socket u) (cp_inbound u) s) (\<lambda>(s, inbound). Inr (s, u\<lparr>cp_inbound := inbound\<rparr>)))"

definition copy_rule3_interest :: "('k, copy_state) world \<Rightarrow> bool" where
  "copy_rule3_interest w \<longleftrightarrow> \<not> bs_error (cp_inbound (snd w)) \<and> bs_remaining_capacity (cp_inbound (snd w)) > 0 \<and>
     \<not> bs_error (cp_outbound (snd w))"

definition copy_rule3_cancel :: "('k, copy_state) world \<Rightarrow> exn + ('k, copy_state) world" where
  "copy_rule3_cancel w = Inr (fst w, (snd w)\<lparr>cp_inbound := bs_end_input (cp_inbound (snd w))\<rparr>)"

text \<open>Rule 4: write from the inbound stream to the standard output.\<close>

definition copy_rule4_callback :: "'k kernel \<Rightarrow> ('k, copy_state) world \<Rightarrow> exn + ('k, copy_state) world" where
  "copy_rule4_callback K w =
     (let (s, u) = w
      in bindE (copy_out K (cp_output u) (cp_inbound u) s) (\<lambda>(s, inbound).
           let u = u\<lparr>cp_inbound := inbound\<rparr>
           in if bs_eof inbound
              then bindE (fd_close K (cp_output u) s) (\<lambda>s. Inr (s, u\<lparr>cp_inbound_shutdown := True\<rparr>))
              else Inr (s, u)))"

definition copy_rule4_interest :: "('k, copy_state) world \<Rightarrow> bool" where
  "copy_rule4_interest w \<longleftrightarrow> \<not> bs_buffer_empty (cp_inbound (snd w)) \<or>
     bs_eof (cp_inbound (snd w)) \<and> \<not> cp_inbound_shutdown (snd w)"

definition copy_rule4_cancel :: "('k, copy_state) world \<Rightarrow> exn + ('k, copy_state) world" where
  "copy_rule4_cancel w = Inr (fst w, (snd w)\<lparr>cp_inbound := bs_set_error (cp_inbound (snd w))\<rparr>)"

definition copy_rules :: "'k kernel \<Rightarrow> copy_state \<Rightarrow> ('k, copy_state) rule list" where
  "copy_rules K u =
     (let rules = [];
          rules = add_rule (cp_input u) In (copy_rule1_callback K) copy_rule1_interest copy_rule1_cancel rules;
          rules = add_rule (cp_socket u) Out (copy_rule2_callback K) copy_rule2_interest copy_rule2_cancel rules;
          rules = add_rule (cp_socket u) In (copy_rule3_callback K) copy_rule3_interest copy_rule3_cancel rules;
          rules = add_rule (cp_output u) Out (copy_rule4_callback K) copy_rule4_interest copy_rule4_cancel rules
      in rules)"

text \<open>
  \<open>input\<close> and \<open>output\<close> are the places of the two new descriptor objects in the store. The result is the state
  at the \<open>return\<close>; the destructors, which close the two descriptors, are left out.
\<close>

definition fd_new :: "fd \<Rightarrow> int \<Rightarrow> 'k sys \<Rightarrow> exn + 'k sys" where
  "fd_new fd n s = bindE (fw_new n) (\<lambda>w. Inr (s\<lparr>sy_wrappers := (sy_wrappers s)(fd := w)\<rparr>))"

definition copy_setup :: "'k kernel \<Rightarrow> fd \<Rightarrow> fd \<Rightarrow> fd \<Rightarrow> 'k sys \<Rightarrow> exn + ('k, copy_state) world" where
  "copy_setup K socket input output s =
     bindE (fd_new input 0 s) (\<lambda>s. bindE (fd_new output 1 s) (\<lambda>s.
     bindE (set_blocking K socket False s) (\<lambda>s. bindE (set_blocking K input False s) (\<lambda>s.
     bindE (set_blocking K output False s) (\<lambda>s.
       Inr (s, \<lparr>cp_socket = socket, cp_input = input, cp_output = output,
         cp_outbound = bs_new copy_buffer_size, cp_inbound = bs_new copy_buffer_size,
         cp_outbound_shutdown = False, cp_inbound_shutdown = False\<rparr>))))))"

definition bidirectional_stream_copy :: "'k kernel \<Rightarrow> fd \<Rightarrow> fd \<Rightarrow> fd \<Rightarrow> 'k sys \<Rightarrow> (exn + ('k, copy_state) world) option" where
  "bidirectional_stream_copy K socket input output s =
     (case copy_setup K socket input output s of
        Inl e \<Rightarrow> Some (Inl e)
      | Inr w \<Rightarrow> copy_loop K (copy_rules K (snd w)) w)"

section \<open>What the program relies on\<close>

text \<open>\<open>h n k\<close> is some part of the kernel's state that belongs to the descriptor \<open>n\<close>.\<close>

definition keeps :: "(int \<Rightarrow> 'k \<Rightarrow> bytes) \<Rightarrow> 'k \<Rightarrow> 'k \<Rightarrow> bool" where
  "keeps h k k' \<longleftrightarrow> (\<forall>n. h n k' = h n k)"

definition keeps_but :: "int \<Rightarrow> (int \<Rightarrow> 'k \<Rightarrow> bytes) \<Rightarrow> 'k \<Rightarrow> 'k \<Rightarrow> bool" where
  "keeps_but m h k k' \<longleftrightarrow> (\<forall>n. n \<noteq> m \<longrightarrow> h n k' = h n k)"

text \<open>
  The history of the streams: \<open>got n k\<close> are the bytes read from descriptor \<open>n\<close> so far. What is done with one
  descriptor does not change the history of another, and the calls other than \<open>read\<close> and \<open>writev\<close> move no bytes.
\<close>

locale io_kernel = stream_kernel K sent
  for K :: "'k kernel" and sent :: "int \<Rightarrow> 'k \<Rightarrow> bytes" +
  fixes got :: "int \<Rightarrow> 'k \<Rightarrow> bytes"
  assumes read_history: "k_read K n limit k = (Inr bs, k') \<Longrightarrow>
      got n k' = got n k @ bs \<and> keeps_but n got k k' \<and> keeps sent k k'"
    and writev_history: "k_writev K n iov k = (Inr m, k') \<Longrightarrow> keeps got k k' \<and> keeps_but n sent k k'"
    and shutdown_history: "k_shutdown K n how k = (Inr u, k') \<Longrightarrow> keeps got k k' \<and> keeps sent k k'"
    and close_history: "k_close K n k = (Inr u, k') \<Longrightarrow> keeps got k k' \<and> keeps sent k k'"
    and getfl_history: "k_fcntl_getfl K n k = (Inr f, k') \<Longrightarrow> keeps got k k' \<and> keeps sent k k'"
    and setfl_history: "k_fcntl_setfl K n f k = (Inr u, k') \<Longrightarrow> keeps got k k' \<and> keeps sent k k'"
    and poll_history: "k_poll K ps t k = (r, k') \<Longrightarrow> keeps got k k' \<and> keeps sent k k'"

text \<open>
  A kernel that does its part: \<open>pending n k\<close> is the input still to come on \<open>n\<close>, the calls succeed, \<open>read\<close>
  returns nothing only at the end of the input, \<open>writev\<close> accepts something, and \<open>poll\<close> without a timeout comes back
  with an event that was asked for.
\<close>

locale live_kernel = io_kernel K sent got
  for K :: "'k kernel" and sent :: "int \<Rightarrow> 'k \<Rightarrow> bytes" and got :: "int \<Rightarrow> 'k \<Rightarrow> bytes" +
  fixes pending :: "int \<Rightarrow> 'k \<Rightarrow> bytes"
  assumes read_live: "\<exists>bs k'. k_read K n limit k = (Inr bs, k') \<and> pending n k = bs @ pending n k' \<and>
      (0 < limit \<and> pending n k \<noteq> [] \<longrightarrow> bs \<noteq> []) \<and> keeps_but n pending k k'"
    and writev_live: "\<exists>m k'. k_writev K n iov k = (Inr m, k') \<and> (concat iov \<noteq> [] \<longrightarrow> 0 < m) \<and> keeps pending k k'"
    and shutdown_live: "\<exists>k'. k_shutdown K n how k = (Inr (), k') \<and> keeps pending k k'"
    and close_live: "\<exists>k'. k_close K n k = (Inr (), k') \<and> keeps pending k k'"
    and getfl_live: "\<exists>f k'. k_fcntl_getfl K n k = (Inr f, k') \<and> keeps pending k k'"
    and setfl_live: "\<exists>k'. k_fcntl_setfl K n f k = (Inr (), k') \<and> keeps pending k k'"
    and poll_live: "asks ps \<Longrightarrow>
      \<exists>ready revents k'. k_poll K ps (- 1) k = (Inr (ready, revents), k') \<and> answers ps ready revents \<and> keeps pending k k'"


section \<open>One direction\<close>

definition fd_frame :: "fd \<Rightarrow> 'k sys \<Rightarrow> 'k sys \<Rightarrow> bool" where
  "fd_frame fd s s' \<longleftrightarrow> fd_num fd s' = fd_num fd s \<and> (\<forall>g. g \<noteq> fd \<longrightarrow> sy_wrappers s' g = sy_wrappers s g)"

lemma fd_read_Inr:
  assumes "fd_read K fd limit s = Inr (d, s')"
  shows "k_read K (fd_num fd s) (min BUFFER_SIZE limit) (sy_kernel s) = (Inr d, sy_kernel s')" "fd_frame fd s s'"
    "fd_eof fd s' \<longleftrightarrow> fd_eof fd s \<or> 0 < limit \<and> d = []" "fd_closed fd s' = fd_closed fd s" "fd_read_count fd s' = fd_read_count fd s + 1"
  using assms
  by (auto simp: fd_read_def Let_def bindE_eq_Inr_iff SystemCall_Inr_iff register_read_def fd_update_def fd_frame_def
      fd_num_def fd_eof_def fd_closed_def fd_read_count_def split: if_splits)

lemma fd_write_Inr:
  assumes "fd_write K fd buf False s = Inr (m, s')"
  shows "k_writev K (fd_num fd s) buf (sy_kernel s) = (Inr m, sy_kernel s')" "concat buf \<noteq> [] \<longrightarrow> 0 < m" "fd_frame fd s s'"
    "fd_eof fd s' = fd_eof fd s" "fd_closed fd s' = fd_closed fd s" "fd_write_count fd s' = fd_write_count fd s + 1"
proof -
  obtain s1 where s1: "SystemCall ''writev'' (k_writev K (fd_num fd s) buf) s = Inr (m, s1)" "s' = register_write fd s1" "concat buf \<noteq> [] \<longrightarrow> 0 < m"
    using assms unfolding fd_write_def fd_write_loop.simps [of K fd False buf] bvl_as_iovecs_def
    by (auto simp: bvl_size_eq Let_def split: sum.splits prod.splits if_splits)
  then show "k_writev K (fd_num fd s) buf (sy_kernel s) = (Inr m, sy_kernel s')" "concat buf \<noteq> [] \<longrightarrow> 0 < m" "fd_frame fd s s'"
    "fd_eof fd s' = fd_eof fd s" "fd_closed fd s' = fd_closed fd s" "fd_write_count fd s' = fd_write_count fd s + 1"
    by (auto simp: SystemCall_Inr_iff register_write_def fd_update_def fd_frame_def fd_num_def fd_eof_def fd_closed_def fd_write_count_def)
qed

text \<open>Everything but the contents of a stream.\<close>

definition bs_flags :: "byte_stream \<Rightarrow> bool \<times> bool \<times> nat" where
  "bs_flags st = (bs_error st, bs_input_end st, bs_capacity st)"

context stream_kernel
begin

lemma copy_in_facts:
  assumes "copy_in K fd st s = Inr (s', st')"
  obtains d where "k_read K (fd_num fd s) (min BUFFER_SIZE (bs_remaining_capacity st)) (sy_kernel s) = (Inr d, sy_kernel s')"
    "bs_contents st' = bs_contents st @ d" "fd_eof fd s' \<longleftrightarrow> fd_eof fd s \<or> 0 < bs_remaining_capacity st \<and> d = []"
    "fd_frame fd s s'" "fd_closed fd s' = fd_closed fd s" "fd_read_count fd s' = fd_read_count fd s + 1"
    "bs_flags st' = (bs_error st, bs_input_end st \<or> fd_eof fd s', bs_capacity st)"
proof -
  obtain d where d: "fd_read K fd (bs_remaining_capacity st) s = Inr (d, s')"
      "st' = (let st = snd (bs_write d st) in if fd_eof fd s' then bs_end_input st else st)"
    using assms by (auto simp: copy_in_def bindE_eq_Inr_iff Let_def)
  note r = fd_read_Inr [OF d(1)]
  have "length d \<le> bs_capacity st - length (bs_contents st)"
    using read_limited [OF r(1)] by (simp add: bs_remaining_capacity_def)
  then have "fst (bs_write d st) = length d" by (simp add: bs_write_accepted)
  then have "bs_contents st' = bs_contents st @ d" "bs_flags st' = (bs_error st, bs_input_end st \<or> fd_eof fd s', bs_capacity st)"
    by (simp_all add: d(2) Let_def bs_flags_def bs_end_input_def)
  then show thesis using that r by blast
qed

lemma copy_out_facts:
  assumes "copy_out K fd st s = Inr (s', st')"
  obtains iov m d where "k_writev K (fd_num fd s) iov (sy_kernel s) = (Inr m, sy_kernel s')"
    "sent (fd_num fd s) (sy_kernel s') = sent (fd_num fd s) (sy_kernel s) @ d"
    "bs_contents st = d @ bs_contents st'" "bs_contents st \<noteq> [] \<longrightarrow> d \<noteq> []" "fd_frame fd s s'"
    "fd_eof fd s' = fd_eof fd s" "fd_closed fd s' = fd_closed fd s" "fd_write_count fd s' = fd_write_count fd s + 1" "bs_flags st' = bs_flags st"
proof -
  let ?buf = "[take (min max_copy_length (length (bs_contents st))) (bs_contents st)]"
  obtain m where m: "fd_write K fd ?buf False s = Inr (m, s')" "bs_pop_output m st = Inr st'"
    using assms by (auto simp: copy_out_def bindE_eq_Inr_iff Let_def bs_peek_output_eq bvl_of_string_def)
  note w = fd_write_Inr [OF m(1)]
  obtain st2 where st2: "bs_pop_output m st = Inr st2" "bs_contents st2 = drop m (bs_contents st)"
    "bs_capacity st2 = bs_capacity st" "bs_error st2 = bs_error st" "bs_input_end st2 = bs_input_end st"
    by (rule bs_pop_output_cases [of m st])
  from writev_takes [OF w(1)] have t: "m \<le> length (concat ?buf)"
      "sent (fd_num fd s) (sy_kernel s') = sent (fd_num fd s) (sy_kernel s) @ take m (concat ?buf)" by blast+
  have b: "take m (concat ?buf) = take m (bs_contents st)" using t(1) by (simp add: min_absorb1)
  have "bs_contents st \<noteq> [] \<longrightarrow> take m (bs_contents st) \<noteq> []" using w(2) by (auto simp: max_copy_length_def)
  then show thesis
    by (intro that [OF w(1), of "take m (bs_contents st)"]) (use t(2) b st2 m(2) w(3-) in \<open>auto simp: bs_flags_def\<close>)
qed

end


section \<open>Nothing is lost, repeated or reordered\<close>

text \<open>What was read from descriptor \<open>n\<close> since \<open>k0\<close> is what was written to \<open>m\<close> since then, and what is in the stream.\<close>

definition copied :: "(int \<Rightarrow> 'k \<Rightarrow> bytes) \<Rightarrow> (int \<Rightarrow> 'k \<Rightarrow> bytes) \<Rightarrow> 'k \<Rightarrow> int \<Rightarrow> int \<Rightarrow> byte_stream \<Rightarrow> 'k \<Rightarrow> bool" where
  "copied got sent k0 n m st k \<longleftrightarrow> (\<exists>d. got n k = got n k0 @ d @ bs_contents st \<and> sent m k = sent m k0 @ d)"

lemma copied_in:
  assumes "copied got sent k0 n m st k" "got n k' = got n k @ d" "sent m k' = sent m k" "bs_contents st' = bs_contents st @ d"
  shows "copied got sent k0 n m st' k'"
  using assms by (auto simp: copied_def)

lemma copied_out:
  assumes "copied got sent k0 n m st k" "got n k' = got n k" "sent m k' = sent m k @ d" "bs_contents st = d @ bs_contents st'"
  shows "copied got sent k0 n m st' k'"
  using assms by (auto simp: copied_def)

lemma copied_keep:
  assumes "copied got sent k0 n m st k" "got n k' = got n k" "sent m k' = sent m k" "bs_contents st' = bs_contents st"
  shows "copied got sent k0 n m st' k'"
  using assms by (auto simp: copied_def)

definition copy_fds :: "fd \<Rightarrow> fd \<Rightarrow> fd \<Rightarrow> int \<Rightarrow> ('k, copy_state) world \<Rightarrow> bool" where
  "copy_fds f i out n w \<longleftrightarrow> cp_socket (snd w) = f \<and> cp_input (snd w) = i \<and> cp_output (snd w) = out \<and>
     fd_num f (fst w) = n \<and> fd_num i (fst w) = 0 \<and> fd_num out (fst w) = 1"

definition copy_ok :: "(int \<Rightarrow> 'k \<Rightarrow> bytes) \<Rightarrow> (int \<Rightarrow> 'k \<Rightarrow> bytes) \<Rightarrow> 'k \<Rightarrow> fd \<Rightarrow> fd \<Rightarrow> fd \<Rightarrow> int \<Rightarrow> ('k, copy_state) world \<Rightarrow> bool" where
  "copy_ok got sent k0 f i out n w \<longleftrightarrow> copy_fds f i out n w \<and> distinct [f, i, out] \<and> n \<noteq> 0 \<and> n \<noteq> 1 \<and>
     copied got sent k0 0 n (cp_outbound (snd w)) (sy_kernel (fst w)) \<and> copied got sent k0 n 1 (cp_inbound (snd w)) (sy_kernel (fst w))"

lemma fd_frame_num: "fd_frame fd s s' \<Longrightarrow> fd_num g s' = fd_num g s"
  by (cases "g = fd") (auto simp: fd_frame_def fd_num_def)

lemma copy_fds_frame: "fd_frame fd s s' \<Longrightarrow> copy_fds f i out n (s', u) = copy_fds f i out n (s, u)"
  by (simp add: copy_fds_def fd_frame_num)

lemma copy_fds_streams [simp]:
  "copy_fds f i out n (s, u\<lparr>cp_outbound := st\<rparr>) = copy_fds f i out n (s, u)"
  "copy_fds f i out n (s, u\<lparr>cp_inbound := st\<rparr>) = copy_fds f i out n (s, u)"
  "copy_fds f i out n (s, u\<lparr>cp_outbound_shutdown := b\<rparr>) = copy_fds f i out n (s, u)"
  "copy_fds f i out n (s, u\<lparr>cp_inbound_shutdown := b\<rparr>) = copy_fds f i out n (s, u)"
  by (simp_all add: copy_fds_def)

lemma bs_flag_contents [simp]:
  "bs_contents (bs_end_input st) = bs_contents st" "bs_contents (bs_set_error st) = bs_contents st"
  by (simp_all add: bs_end_input_def bs_set_error_def)

context io_kernel
begin

lemma sock_shutdown_facts:
  assumes "sock_shutdown K fd SHUT_WR s = Inr s'"
  shows "keeps got (sy_kernel s) (sy_kernel s')" "keeps sent (sy_kernel s) (sy_kernel s')" "fd_frame fd s s'"
    "fd_eof fd s' = fd_eof fd s" "fd_closed fd s' = fd_closed fd s" "fd_write_count fd s' = fd_write_count fd s + 1"
  using assms shutdown_history
  by (auto simp: sock_shutdown_def SystemCall_Inr_iff bindE_eq_Inr_iff SHUT_RD_def SHUT_WR_def register_write_def fd_update_def
      fd_frame_def fd_num_def fd_eof_def fd_closed_def fd_write_count_def)

lemma fd_close_facts:
  assumes "fd_close K fd s = Inr s'"
  shows "keeps got (sy_kernel s) (sy_kernel s')" "keeps sent (sy_kernel s) (sy_kernel s')" "fd_frame fd s s'"
    "fd_closed fd s'" "fd_write_count fd s' = fd_write_count fd s"
  using assms close_history
  by (auto simp: fd_close_def SystemCall_Inr_iff bindE_eq_Inr_iff fd_update_def
      fd_frame_def fd_num_def fd_closed_def fd_write_count_def)

lemma copy_in_ok:
  assumes "copy_in K fd st s = Inr (s', st')" "fd_num fd s = n" "copied got sent k0 n m st (sy_kernel s)"
  shows "copied got sent k0 n m st' (sy_kernel s')" "fd_frame fd s s'"
    "n' \<noteq> n \<Longrightarrow> copied got sent k0 n' m' st2 (sy_kernel s) \<Longrightarrow> copied got sent k0 n' m' st2 (sy_kernel s')"
proof -
  obtain d where d: "k_read K (fd_num fd s) (min BUFFER_SIZE (bs_remaining_capacity st)) (sy_kernel s) = (Inr d, sy_kernel s')"
      "bs_contents st' = bs_contents st @ d" "fd_frame fd s s'"
    by (rule copy_in_facts [OF assms(1)])
  note h = read_history [OF d(1)]
  show "copied got sent k0 n m st' (sy_kernel s')"
    by (rule copied_in [OF assms(3) _ _ d(2)]) (use h assms(2) in \<open>auto simp: keeps_def\<close>)
  show "fd_frame fd s s'" by fact
  show "n' \<noteq> n \<Longrightarrow> copied got sent k0 n' m' st2 (sy_kernel s) \<Longrightarrow> copied got sent k0 n' m' st2 (sy_kernel s')"
    by (erule copied_keep) (use h assms(2) in \<open>auto simp: keeps_def keeps_but_def\<close>)
qed

lemma copy_out_ok:
  assumes "copy_out K fd st s = Inr (s', st')" "fd_num fd s = m" "copied got sent k0 n m st (sy_kernel s)"
  shows "copied got sent k0 n m st' (sy_kernel s')" "fd_frame fd s s'"
    "m' \<noteq> m \<Longrightarrow> copied got sent k0 n' m' st2 (sy_kernel s) \<Longrightarrow> copied got sent k0 n' m' st2 (sy_kernel s')"
proof -
  obtain iov c d where d: "k_writev K (fd_num fd s) iov (sy_kernel s) = (Inr c, sy_kernel s')"
    "sent (fd_num fd s) (sy_kernel s') = sent (fd_num fd s) (sy_kernel s) @ d"
    "bs_contents st = d @ bs_contents st'" "fd_frame fd s s'"
    by (rule copy_out_facts [OF assms(1)])
  note h = writev_history [OF d(1)]
  show "copied got sent k0 n m st' (sy_kernel s')"
    by (rule copied_out [OF assms(3) _ _ d(3)]) (use h assms(2) d(2) in \<open>auto simp: keeps_def\<close>)
  show "fd_frame fd s s'" by fact
  show "m' \<noteq> m \<Longrightarrow> copied got sent k0 n' m' st2 (sy_kernel s) \<Longrightarrow> copied got sent k0 n' m' st2 (sy_kernel s')"
    by (erule copied_keep) (use h assms(2) in \<open>auto simp: keeps_def keeps_but_def\<close>)
qed

lemma copied_history:
  assumes "keeps got k k'" "keeps sent k k'" "bs_contents st' = bs_contents st"
  shows "copied got sent k0 n m st k \<Longrightarrow> copied got sent k0 n m st' k'"
  by (erule copied_keep) (use assms in \<open>auto simp: keeps_def\<close>)

lemma copy_rule1_ok:
  assumes ok: "copy_ok got sent k0 f i out n w" and cb: "copy_rule1_callback K w = Inr w'"
  shows "copy_ok got sent k0 f i out n w'"
proof -
  obtain s u where w: "w = (s, u)" by (cases w)
  obtain s' st where c: "copy_in K i (cp_outbound u) s = Inr (s', st)" "w' = (s', u\<lparr>cp_outbound := st\<rparr>)"
    using cb ok by (auto simp: w copy_rule1_callback_def bindE_eq_Inr_iff copy_ok_def copy_fds_def)
  have z: "fd_num i s = 0" "copied got sent k0 0 n (cp_outbound u) (sy_kernel s)" using ok by (simp_all add: w copy_ok_def copy_fds_def)
  note h = copy_in_ok [OF c(1) z]
  show ?thesis using ok h by (simp add: w c(2) copy_ok_def copy_fds_frame [OF h(2)])
qed

lemma copy_rule3_ok:
  assumes ok: "copy_ok got sent k0 f i out n w" and cb: "copy_rule3_callback K w = Inr w'"
  shows "copy_ok got sent k0 f i out n w'"
proof -
  obtain s u where w: "w = (s, u)" by (cases w)
  obtain s' st where c: "copy_in K f (cp_inbound u) s = Inr (s', st)" "w' = (s', u\<lparr>cp_inbound := st\<rparr>)"
    using cb ok by (auto simp: w copy_rule3_callback_def bindE_eq_Inr_iff copy_ok_def copy_fds_def)
  have z: "fd_num f s = n" "copied got sent k0 n 1 (cp_inbound u) (sy_kernel s)" using ok by (simp_all add: w copy_ok_def copy_fds_def)
  note h = copy_in_ok [OF c(1) z]
  show ?thesis using ok h by (simp add: w c(2) copy_ok_def copy_fds_frame [OF h(2)])
qed

lemma copy_rule2_ok:
  assumes ok: "copy_ok got sent k0 f i out n w" and cb: "copy_rule2_callback K w = Inr w'"
  shows "copy_ok got sent k0 f i out n w'"
proof -
  obtain s u where w: "w = (s, u)" by (cases w)
  obtain s1 st where c: "copy_out K f (cp_outbound u) s = Inr (s1, st)"
      "if bs_eof st then \<exists>s'. sock_shutdown K f SHUT_WR s1 = Inr s' \<and> w' = (s', u\<lparr>cp_outbound := st, cp_outbound_shutdown := True\<rparr>)
       else w' = (s1, u\<lparr>cp_outbound := st\<rparr>)"
    using cb ok by (auto simp: w copy_rule2_callback_def bindE_eq_Inr_iff copy_ok_def copy_fds_def Let_def split: if_splits)
  have z: "fd_num f s = n" "copied got sent k0 0 n (cp_outbound u) (sy_kernel s)" using ok by (simp_all add: w copy_ok_def copy_fds_def)
  note h = copy_out_ok [OF c(1) z]
  have ok1: "copy_ok got sent k0 f i out n (s1, u\<lparr>cp_outbound := st\<rparr>)"
    using ok h by (simp add: w copy_ok_def copy_fds_frame [OF h(2)])
  show ?thesis
  proof (cases "bs_eof st")
    case True
    then obtain s' where s': "sock_shutdown K f SHUT_WR s1 = Inr s'" "w' = (s', u\<lparr>cp_outbound := st, cp_outbound_shutdown := True\<rparr>)"
      using c(2) by auto
    note g = sock_shutdown_facts [OF s'(1)]
    show ?thesis using ok1 by (simp add: s'(2) copy_ok_def copy_fds_frame [OF g(3)] copied_history [OF g(1,2) refl])
  qed (use ok1 c(2) in simp)
qed

lemma copy_rule4_ok:
  assumes ok: "copy_ok got sent k0 f i out n w" and cb: "copy_rule4_callback K w = Inr w'"
  shows "copy_ok got sent k0 f i out n w'"
proof -
  obtain s u where w: "w = (s, u)" by (cases w)
  obtain s1 st where c: "copy_out K out (cp_inbound u) s = Inr (s1, st)"
      "if bs_eof st then \<exists>s'. fd_close K out s1 = Inr s' \<and> w' = (s', u\<lparr>cp_inbound := st, cp_inbound_shutdown := True\<rparr>)
       else w' = (s1, u\<lparr>cp_inbound := st\<rparr>)"
    using cb ok by (auto simp: w copy_rule4_callback_def bindE_eq_Inr_iff copy_ok_def copy_fds_def Let_def split: if_splits)
  have z: "fd_num out s = 1" "copied got sent k0 n 1 (cp_inbound u) (sy_kernel s)" using ok by (simp_all add: w copy_ok_def copy_fds_def)
  note h = copy_out_ok [OF c(1) z]
  have ok1: "copy_ok got sent k0 f i out n (s1, u\<lparr>cp_inbound := st\<rparr>)"
    using ok h by (simp add: w copy_ok_def copy_fds_frame [OF h(2)])
  show ?thesis
  proof (cases "bs_eof st")
    case True
    then obtain s' where s': "fd_close K out s1 = Inr s'" "w' = (s', u\<lparr>cp_inbound := st, cp_inbound_shutdown := True\<rparr>)"
      using c(2) by auto
    note g = fd_close_facts [OF s'(1)]
    show ?thesis using ok1 by (simp add: s'(2) copy_ok_def copy_fds_frame [OF g(3)] copied_history [OF g(1,2) refl])
  qed (use ok1 c(2) in simp)
qed

lemma copy_cancel_ok:
  assumes "copy_ok got sent k0 f i out n w"
    and "w' \<in> {(fst w, (snd w)\<lparr>cp_outbound := bs_end_input (cp_outbound (snd w))\<rparr>), (fst w, (snd w)\<lparr>cp_outbound := bs_set_error (cp_outbound (snd w))\<rparr>),
      (fst w, (snd w)\<lparr>cp_inbound := bs_end_input (cp_inbound (snd w))\<rparr>), (fst w, (snd w)\<lparr>cp_inbound := bs_set_error (cp_inbound (snd w))\<rparr>)}"
  shows "copy_ok got sent k0 f i out n w'"
  using assms by (auto simp: copy_ok_def copy_fds_def copied_def)

lemma copy_rules_keep: "rules_keep (copy_ok got sent k0 f i out n) (copy_rules K u)"
  unfolding rules_keep_def copy_rules_def add_rule_def Let_def
  by (auto intro: copy_rule1_ok copy_rule2_ok copy_rule3_ok copy_rule4_ok copy_cancel_ok
      simp del: split_paired_All
      simp: copy_rule1_cancel_def copy_rule2_cancel_def copy_rule3_cancel_def copy_rule4_cancel_def)

lemma copy_poll_ok:
  assumes "copy_ok got sent k0 f i out n (s, u)" "k_poll K ps t (sy_kernel s) = (x, k)"
  shows "copy_ok got sent k0 f i out n (s\<lparr>sy_kernel := k\<rparr>, u)"
proof -
  have h: "keeps got (sy_kernel s) k" "keeps sent (sy_kernel s) k" using poll_history [OF assms(2)] by simp_all
  show ?thesis using assms(1) by (simp add: copy_ok_def copy_fds_def fd_num_def copied_history [OF h refl])
qed

end


section \<open>The loop comes to its end\<close>

definition copy_live :: "(int \<Rightarrow> 'k \<Rightarrow> bytes) \<Rightarrow> (int \<Rightarrow> 'k \<Rightarrow> bytes) \<Rightarrow> (int \<Rightarrow> 'k \<Rightarrow> bytes) \<Rightarrow> 'k \<Rightarrow> fd \<Rightarrow> fd \<Rightarrow> fd \<Rightarrow> int \<Rightarrow>
    ('k, copy_state) world \<Rightarrow> bool" where
  "copy_live got sent pending k0 f i out n w \<longleftrightarrow>
     (case w of (s, u) \<Rightarrow>
       copy_ok got sent k0 f i out n w \<and>
       (\<forall>m\<in>{0, n}. got m (sy_kernel s) @ pending m (sy_kernel s) = got m k0 @ pending m k0) \<and>
       (fd_eof i s \<longrightarrow> pending 0 (sy_kernel s) = []) \<and> (fd_eof f s \<longrightarrow> pending n (sy_kernel s) = []) \<and>
       (bs_input_end (cp_outbound u) \<longleftrightarrow> fd_eof i s) \<and> (bs_input_end (cp_inbound u) \<longleftrightarrow> fd_eof f s) \<and>
       \<not> fd_closed i s \<and> \<not> fd_closed f s \<and> (fd_closed out s \<longleftrightarrow> cp_inbound_shutdown u) \<and>
       \<not> bs_error (cp_outbound u) \<and> (bs_error (cp_inbound u) \<longrightarrow> cp_inbound_shutdown u) \<and>
       (cp_outbound_shutdown u \<longrightarrow> bs_eof (cp_outbound u)) \<and> (cp_inbound_shutdown u \<longrightarrow> bs_eof (cp_inbound u)) \<and>
       0 < bs_capacity (cp_outbound u) \<and> 0 < bs_capacity (cp_inbound u))"

definition copy_enabled :: "('k, copy_state) rule \<Rightarrow> ('k, copy_state) world \<Rightarrow> bool" where
  "copy_enabled r w =
     (case w of (s, u) \<Rightarrow>
       if ru_direction r = In
       then \<not> fd_eof (ru_fd r) s \<and> 0 < bs_remaining_capacity (if ru_fd r = cp_input u then cp_outbound u else cp_inbound u)
       else if ru_fd r = cp_socket u then copy_rule2_interest w else copy_rule4_interest w)"

definition copy_rank :: "(int \<Rightarrow> 'k \<Rightarrow> bytes) \<Rightarrow> fd \<Rightarrow> fd \<Rightarrow> int \<Rightarrow> ('k, copy_state) world \<Rightarrow> nat" where
  "copy_rank pending f i n w =
     (case w of (s, u) \<Rightarrow>
       2 * length (pending 0 (sy_kernel s)) + length (bs_contents (cp_outbound u)) +
       2 * length (pending n (sy_kernel s)) + length (bs_contents (cp_inbound u)) +
       of_bool (\<not> fd_eof i s) + of_bool (\<not> fd_eof f s) + of_bool (\<not> cp_outbound_shutdown u) + of_bool (\<not> cp_inbound_shutdown u))"

lemma copy_rules_eq:
  "copy_rules K u =
   [\<lparr>ru_fd = cp_input u, ru_direction = In, ru_callback = copy_rule1_callback K, ru_interest = copy_rule1_interest, ru_cancel = copy_rule1_cancel\<rparr>,
    \<lparr>ru_fd = cp_socket u, ru_direction = Out, ru_callback = copy_rule2_callback K, ru_interest = copy_rule2_interest, ru_cancel = copy_rule2_cancel\<rparr>,
    \<lparr>ru_fd = cp_socket u, ru_direction = In, ru_callback = copy_rule3_callback K, ru_interest = copy_rule3_interest, ru_cancel = copy_rule3_cancel\<rparr>,
    \<lparr>ru_fd = cp_output u, ru_direction = Out, ru_callback = copy_rule4_callback K, ru_interest = copy_rule4_interest, ru_cancel = copy_rule4_cancel\<rparr>]"
  by (simp add: copy_rules_def add_rule_def Let_def)

lemma fd_frame_other:
  assumes "fd_frame fd s s'" "g \<noteq> fd"
  shows "fd_eof g s' = fd_eof g s" "fd_closed g s' = fd_closed g s"
  using assms by (simp_all add: fd_frame_def fd_eof_def fd_closed_def)

lemma bs_flag_fields:
  "bs_remaining_capacity (bs_end_input st) = bs_remaining_capacity st" "bs_remaining_capacity (bs_set_error st) = bs_remaining_capacity st"
  "bs_eof (bs_end_input st) \<longleftrightarrow> bs_contents st = []" "bs_eof (bs_set_error st) = bs_eof st"
  "bs_error (bs_end_input st) = bs_error st" "bs_error (bs_set_error st)" "bs_input_end (bs_end_input st)"
  "bs_input_end (bs_set_error st) = bs_input_end st" "bs_capacity (bs_end_input st) = bs_capacity st" "bs_capacity (bs_set_error st) = bs_capacity st"
  by (simp_all add: bs_remaining_capacity_def bs_eof_def bs_input_ended_def) (simp_all add: bs_end_input_def bs_set_error_def)

context live_kernel
begin

lemma copy_in_live:
  obtains s' st' d where "copy_in K fd st s = Inr (s', st')" "bs_contents st' = bs_contents st @ d"
    "pending (fd_num fd s) (sy_kernel s) = d @ pending (fd_num fd s) (sy_kernel s')" "keeps_but (fd_num fd s) pending (sy_kernel s) (sy_kernel s')"
    "got (fd_num fd s) (sy_kernel s') = got (fd_num fd s) (sy_kernel s) @ d" "keeps_but (fd_num fd s) got (sy_kernel s) (sy_kernel s')"
    "0 < bs_remaining_capacity st \<longrightarrow> d = [] \<longrightarrow> pending (fd_num fd s) (sy_kernel s) = []"
    "fd_eof fd s' \<longleftrightarrow> fd_eof fd s \<or> 0 < bs_remaining_capacity st \<and> d = []"
    "fd_frame fd s s'" "fd_closed fd s' = fd_closed fd s" "fd_read_count fd s' = fd_read_count fd s + 1"
    "bs_flags st' = (bs_error st, bs_input_end st \<or> fd_eof fd s', bs_capacity st)"
proof -
  let ?n = "fd_num fd s" and ?l = "min BUFFER_SIZE (bs_remaining_capacity st)"
  obtain d k where r: "k_read K ?n ?l (sy_kernel s) = (Inr d, k)" "pending ?n (sy_kernel s) = d @ pending ?n k"
      "0 < ?l \<and> pending ?n (sy_kernel s) \<noteq> [] \<longrightarrow> d \<noteq> []" "keeps_but ?n pending (sy_kernel s) k"
    using read_live [of ?n ?l "sy_kernel s"] by blast
  have "length d \<le> ?l" using read_limited [OF r(1)] by simp
  then obtain s' st' where c: "copy_in K fd st s = Inr (s', st')"
    using r(1) by (simp add: copy_in_def fd_read_def SystemCall_def Let_def)
  obtain d' where d': "k_read K ?n ?l (sy_kernel s) = (Inr d', sy_kernel s')"
    "bs_contents st' = bs_contents st @ d'" "fd_eof fd s' \<longleftrightarrow> fd_eof fd s \<or> 0 < bs_remaining_capacity st \<and> d' = []"
    "fd_frame fd s s'" "fd_closed fd s' = fd_closed fd s" "fd_read_count fd s' = fd_read_count fd s + 1"
    "bs_flags st' = (bs_error st, bs_input_end st \<or> fd_eof fd s', bs_capacity st)"
    by (rule copy_in_facts [OF c])
  then have e: "d' = d" "sy_kernel s' = k" using r(1) by simp_all
  show thesis
    by (rule that [OF c d'(2)]) (use r(2-4) e d'(3-) read_history [OF d'(1)] in \<open>auto simp: BUFFER_SIZE_def\<close>)
qed

lemma copy_out_live:
  obtains s' st' d where "copy_out K fd st s = Inr (s', st')" "keeps pending (sy_kernel s) (sy_kernel s')" "keeps got (sy_kernel s) (sy_kernel s')"
    "bs_contents st = d @ bs_contents st'" "bs_contents st \<noteq> [] \<longrightarrow> d \<noteq> []" "fd_frame fd s s'"
    "fd_eof fd s' = fd_eof fd s" "fd_closed fd s' = fd_closed fd s" "fd_write_count fd s' = fd_write_count fd s + 1" "bs_flags st' = bs_flags st"
proof -
  let ?n = "fd_num fd s" and ?buf = "[take (min max_copy_length (length (bs_contents st))) (bs_contents st)]"
  obtain m k where w: "k_writev K ?n ?buf (sy_kernel s) = (Inr m, k)" "concat ?buf \<noteq> [] \<longrightarrow> 0 < m" "keeps pending (sy_kernel s) k"
    using writev_live [of ?n ?buf "sy_kernel s"] by blast
  have m: "m \<le> length (concat ?buf)" using writev_takes [OF w(1)] by simp
  obtain buf' where b: "bvl_remove_prefix m ?buf = Inr buf'" using bvl_remove_prefix_fits [OF m] by blast
  have fw: "fd_write K fd ?buf False s = Inr (m, register_write fd (s\<lparr>sy_kernel := k\<rparr>))"
    using w(1,2) m b by (auto simp: fd_write_def fd_write_loop.simps bvl_as_iovecs_def SystemCall_def bvl_size_eq Let_def)
  obtain st2 where "bs_pop_output m st = Inr st2" by (rule bs_pop_output_cases [of m st])
  then have c: "copy_out K fd st s = Inr (register_write fd (s\<lparr>sy_kernel := k\<rparr>), st2)"
    using fw by (simp add: copy_out_def Let_def bs_peek_output_eq bvl_of_string_def)
  have k: "sy_kernel (register_write fd (s\<lparr>sy_kernel := k\<rparr>)) = k" by (simp add: register_write_def fd_update_def)
  show thesis
    by (rule copy_out_facts [OF c], rule that [OF c]) (use w(3) writev_history [OF w(1)] k in auto)
qed

end

lemma copy_rules_all: "(\<forall>r\<in>set (copy_rules K u). P r) \<longleftrightarrow>
   P (copy_rules K u ! 0) \<and> P (copy_rules K u ! 1) \<and> P (copy_rules K u ! 2) \<and> P (copy_rules K u ! 3)"
  by (simp add: copy_rules_eq numeral_2_eq_2 numeral_3_eq_3)

context live_kernel
begin

lemma rule1_progress:
  assumes L: "copy_live got sent pending k0 f i out n (s, u)" and e: "copy_enabled (copy_rules K u ! 0) (s, u)"
  shows "\<exists>w'. rule_progress (copy_rules K u) (copy_live got sent pending k0 f i out n) copy_enabled (copy_rank pending f i n) (copy_rules K u ! 0) (s, u) w'"
proof -
  have ok: "copy_ok got sent k0 f i out n (s, u)" using L by (simp add: copy_live_def)
  then have fds: "cp_socket u = f" "cp_input u = i" "cp_output u = out" "fd_num i s = 0" "fd_num f s = n" "f \<noteq> i" "f \<noteq> out" "i \<noteq> out" "n \<noteq> 0"
    by (auto simp: copy_ok_def copy_fds_def)
  obtain s' st' d where c: "copy_in K i (cp_outbound u) s = Inr (s', st')" "bs_contents st' = bs_contents (cp_outbound u) @ d"
    "pending 0 (sy_kernel s) = d @ pending 0 (sy_kernel s')" "keeps_but 0 pending (sy_kernel s) (sy_kernel s')"
    "got 0 (sy_kernel s') = got 0 (sy_kernel s) @ d" "keeps_but 0 got (sy_kernel s) (sy_kernel s')"
    "0 < bs_remaining_capacity (cp_outbound u) \<longrightarrow> d = [] \<longrightarrow> pending 0 (sy_kernel s) = []"
    "fd_eof i s' \<longleftrightarrow> fd_eof i s \<or> 0 < bs_remaining_capacity (cp_outbound u) \<and> d = []"
    "fd_frame i s s'" "fd_closed i s' = fd_closed i s" "fd_read_count i s' = fd_read_count i s + 1"
    "bs_flags st' = (bs_error (cp_outbound u), bs_input_end (cp_outbound u) \<or> fd_eof i s', bs_capacity (cp_outbound u))"
    by (rule copy_in_live [of i "cp_outbound u" s, unfolded fds(4)])
  let ?w = "(s', u\<lparr>cp_outbound := st'\<rparr>)"
  have cb: "copy_rule1_callback K (s, u) = Inr ?w" using c(1) by (simp add: copy_rule1_callback_def fds)
  note ok' = copy_rule1_ok [OF ok cb]
  note other = fd_frame_other [OF c(9) fds(6)] fd_frame_other [OF c(9) fds(8) [symmetric]]
  have en: "\<not> fd_eof i s" "0 < bs_remaining_capacity (cp_outbound u)" using e by (simp_all add: copy_rules_eq copy_enabled_def fds)
  have fl: "bs_error st' = bs_error (cp_outbound u)" "bs_input_end st' = (bs_input_end (cp_outbound u) \<or> fd_eof i s')"
     "bs_capacity st' = bs_capacity (cp_outbound u)" using c(12) by (simp_all add: bs_flags_def)
  have pn: "pending n (sy_kernel s') = pending n (sy_kernel s)" "got n (sy_kernel s') = got n (sy_kernel s)"
    using c(4,6) fds(9) by (simp_all add: keeps_but_def)
  have L': "copy_live got sent pending k0 f i out n ?w"
    using L ok' en c(3,5,7,8,10) by (auto simp: copy_live_def other fl pn bs_eof_def bs_input_ended_def fds)
  have rk: "copy_rank pending f i n ?w < copy_rank pending f i n (s, u)"
    using c(2,3,8) en by (cases d) (auto simp: copy_rank_def other pn)
  have "\<not> bs_input_end (cp_outbound u)" using L en by (simp add: copy_live_def)
  then have "rule_progress (copy_rules K u) (copy_live got sent pending k0 f i out n) copy_enabled (copy_rank pending f i n) (copy_rules K u ! 0) (s, u) ?w"
    unfolding rule_progress_def copy_rules_all using L' rk cb c(2,8,10,11)
    by (auto simp: copy_rules_eq fds other service_count_def copy_enabled_def rule_gone_def copy_rule2_interest_def copy_rule4_interest_def
         bs_eof_def bs_input_ended_def numeral_2_eq_2 numeral_3_eq_3)
  then show ?thesis by blast
qed

lemma rule3_progress:
  assumes L: "copy_live got sent pending k0 f i out n (s, u)" and e: "copy_enabled (copy_rules K u ! 2) (s, u)"
  shows "\<exists>w'. rule_progress (copy_rules K u) (copy_live got sent pending k0 f i out n) copy_enabled (copy_rank pending f i n) (copy_rules K u ! 2) (s, u) w'"
proof -
  have ok: "copy_ok got sent k0 f i out n (s, u)" using L by (simp add: copy_live_def)
  then have fds: "cp_socket u = f" "cp_input u = i" "cp_output u = out" "fd_num i s = 0" "fd_num f s = n" "f \<noteq> i" "f \<noteq> out" "i \<noteq> out" "n \<noteq> 0"
    by (auto simp: copy_ok_def copy_fds_def)
  obtain s' st' d where c: "copy_in K f (cp_inbound u) s = Inr (s', st')" "bs_contents st' = bs_contents (cp_inbound u) @ d"
    "pending n (sy_kernel s) = d @ pending n (sy_kernel s')" "keeps_but n pending (sy_kernel s) (sy_kernel s')"
    "got n (sy_kernel s') = got n (sy_kernel s) @ d" "keeps_but n got (sy_kernel s) (sy_kernel s')"
    "0 < bs_remaining_capacity (cp_inbound u) \<longrightarrow> d = [] \<longrightarrow> pending n (sy_kernel s) = []"
    "fd_eof f s' \<longleftrightarrow> fd_eof f s \<or> 0 < bs_remaining_capacity (cp_inbound u) \<and> d = []"
    "fd_frame f s s'" "fd_closed f s' = fd_closed f s" "fd_read_count f s' = fd_read_count f s + 1"
    "bs_flags st' = (bs_error (cp_inbound u), bs_input_end (cp_inbound u) \<or> fd_eof f s', bs_capacity (cp_inbound u))"
    by (rule copy_in_live [of f "cp_inbound u" s, unfolded fds(5)])
  let ?w = "(s', u\<lparr>cp_inbound := st'\<rparr>)"
  have cb: "copy_rule3_callback K (s, u) = Inr ?w" using c(1) by (simp add: copy_rule3_callback_def fds)
  note ok' = copy_rule3_ok [OF ok cb]
  note other = fd_frame_other [OF c(9) fds(6) [symmetric]] fd_frame_other [OF c(9) fds(7) [symmetric]]
  have en: "\<not> fd_eof f s" "0 < bs_remaining_capacity (cp_inbound u)" using e by (simp_all add: copy_rules_eq copy_enabled_def fds)
  have fl: "bs_error st' = bs_error (cp_inbound u)" "bs_input_end st' = (bs_input_end (cp_inbound u) \<or> fd_eof f s')"
     "bs_capacity st' = bs_capacity (cp_inbound u)" using c(12) by (simp_all add: bs_flags_def)
  have pn: "pending 0 (sy_kernel s') = pending 0 (sy_kernel s)" "got 0 (sy_kernel s') = got 0 (sy_kernel s)"
    using c(4,6) fds(9) by (simp_all add: keeps_but_def)
  have L': "copy_live got sent pending k0 f i out n ?w"
    using L ok' en c(3,5,7,8,10) by (auto simp: copy_live_def other fl pn bs_eof_def bs_input_ended_def fds)
  have rk: "copy_rank pending f i n ?w < copy_rank pending f i n (s, u)"
    using c(2,3,8) en by (cases d) (auto simp: copy_rank_def other pn)
  have "\<not> bs_input_end (cp_inbound u)" using L en by (simp add: copy_live_def)
  then have "rule_progress (copy_rules K u) (copy_live got sent pending k0 f i out n) copy_enabled (copy_rank pending f i n) (copy_rules K u ! 2) (s, u) ?w"
    unfolding rule_progress_def copy_rules_all using L' rk cb c(2,8,10,11)
    by (auto simp: copy_rules_eq fds other service_count_def copy_enabled_def rule_gone_def copy_rule2_interest_def copy_rule4_interest_def
         bs_eof_def bs_input_ended_def numeral_2_eq_2 numeral_3_eq_3)
  then show ?thesis by blast
qed


lemma sock_shutdown_live:
  obtains s' where "sock_shutdown K fd SHUT_WR s = Inr s'" "keeps pending (sy_kernel s) (sy_kernel s')"
  using shutdown_live [of "fd_num fd s" SHUT_WR "sy_kernel s"]
  by (auto simp: sock_shutdown_def SystemCall_def SHUT_RD_def SHUT_WR_def register_write_def fd_update_def)

lemma fd_close_live:
  obtains s' where "fd_close K fd s = Inr s'" "keeps pending (sy_kernel s) (sy_kernel s')"
  using close_live [of "fd_num fd s" "sy_kernel s"]
  by (auto simp: fd_close_def SystemCall_def fd_update_def)

lemma rule2_progress:
  assumes L: "copy_live got sent pending k0 f i out n (s, u)" and e: "copy_enabled (copy_rules K u ! 1) (s, u)"
  shows "\<exists>w'. rule_progress (copy_rules K u) (copy_live got sent pending k0 f i out n) copy_enabled (copy_rank pending f i n) (copy_rules K u ! 1) (s, u) w'"
proof -
  have ok: "copy_ok got sent k0 f i out n (s, u)" using L by (simp add: copy_live_def)
  then have fds: "cp_socket u = f" "cp_input u = i" "cp_output u = out" "fd_num i s = 0" "fd_num f s = n" "f \<noteq> i" "f \<noteq> out" "i \<noteq> out" "n \<noteq> 0"
    by (auto simp: copy_ok_def copy_fds_def)
  obtain s1 st' d where c: "copy_out K f (cp_outbound u) s = Inr (s1, st')" "keeps pending (sy_kernel s) (sy_kernel s1)" "keeps got (sy_kernel s) (sy_kernel s1)"
    "bs_contents (cp_outbound u) = d @ bs_contents st'" "bs_contents (cp_outbound u) \<noteq> [] \<longrightarrow> d \<noteq> []" "fd_frame f s s1"
    "fd_eof f s1 = fd_eof f s" "fd_closed f s1 = fd_closed f s" "fd_write_count f s1 = fd_write_count f s + 1" "bs_flags st' = bs_flags (cp_outbound u)"
    by (rule copy_out_live)
  obtain s2 where s2: "sock_shutdown K f SHUT_WR s1 = Inr s2" "keeps pending (sy_kernel s1) (sy_kernel s2)" by (rule sock_shutdown_live)
  note h = sock_shutdown_facts [OF s2(1)]
  let ?u = "u\<lparr>cp_outbound := st', cp_outbound_shutdown := bs_eof st' \<or> cp_outbound_shutdown u\<rparr>" and ?s = "if bs_eof st' then s2 else s1"
  let ?w = "(?s, ?u)"
  have cb: "copy_rule2_callback K (s, u) = Inr ?w" using c(1) s2(1) by (simp add: copy_rule2_callback_def fds Let_def)
  note ok' = copy_rule2_ok [OF ok cb]
  have other: "fd_eof i ?s = fd_eof i s" "fd_closed i ?s = fd_closed i s" "fd_eof out ?s = fd_eof out s" "fd_closed out ?s = fd_closed out s"
    "fd_eof f ?s = fd_eof f s" "fd_closed f ?s = fd_closed f s" "fd_write_count f ?s \<noteq> fd_write_count f s"
    using fd_frame_other [OF c(6)] fd_frame_other [OF h(3)] fds(6,7) c(7-9) h(4-6) by auto
  have kept: "pending m (sy_kernel ?s) = pending m (sy_kernel s)" "got m (sy_kernel ?s) = got m (sy_kernel s)" for m
    using c(2,3) s2(2) h(1) by (auto simp: keeps_def)
  have fl: "bs_error st' = bs_error (cp_outbound u)" "bs_input_end st' = bs_input_end (cp_outbound u)"
     "bs_capacity st' = bs_capacity (cp_outbound u)" using c(10) by (simp_all add: bs_flags_def)
  have en: "bs_contents (cp_outbound u) \<noteq> [] \<or> bs_eof (cp_outbound u) \<and> \<not> cp_outbound_shutdown u"
    using e by (simp add: copy_rules_eq copy_enabled_def fds copy_rule2_interest_def)
  have L': "copy_live got sent pending k0 f i out n ?w"
    using L ok' c(4) unfolding copy_live_def prod.case kept other by (auto simp: fl bs_eof_def bs_input_ended_def)
  have rk: "copy_rank pending f i n ?w < copy_rank pending f i n (s, u)"
    unfolding copy_rank_def prod.case kept other using c(4,5) en
    by (cases "d = []") (auto simp: bs_eof_def bs_input_ended_def fl)
  have cap: "bs_remaining_capacity (cp_outbound u) \<le> bs_remaining_capacity st'" by (simp add: bs_remaining_capacity_def fl c(4))
  have "rule_progress (copy_rules K u) (copy_live got sent pending k0 f i out n) copy_enabled (copy_rank pending f i n) (copy_rules K u ! 1) (s, u) ?w"
    unfolding rule_progress_def copy_rules_all using L' rk cb cap other fds(6-8)
    by (auto simp: copy_rules_eq fds(1-3) service_count_def copy_enabled_def rule_gone_def copy_rule4_interest_def numeral_2_eq_2 numeral_3_eq_3)
  then show ?thesis by blast
qed

lemma rule4_progress:
  assumes L: "copy_live got sent pending k0 f i out n (s, u)" and e: "copy_enabled (copy_rules K u ! 3) (s, u)"
  shows "\<exists>w'. rule_progress (copy_rules K u) (copy_live got sent pending k0 f i out n) copy_enabled (copy_rank pending f i n) (copy_rules K u ! 3) (s, u) w'"
proof -
  have ok: "copy_ok got sent k0 f i out n (s, u)" using L by (simp add: copy_live_def)
  then have fds: "cp_socket u = f" "cp_input u = i" "cp_output u = out" "fd_num i s = 0" "fd_num f s = n" "f \<noteq> i" "f \<noteq> out" "i \<noteq> out" "n \<noteq> 0"
    by (auto simp: copy_ok_def copy_fds_def)
  obtain s1 st' d where c: "copy_out K out (cp_inbound u) s = Inr (s1, st')" "keeps pending (sy_kernel s) (sy_kernel s1)" "keeps got (sy_kernel s) (sy_kernel s1)"
    "bs_contents (cp_inbound u) = d @ bs_contents st'" "bs_contents (cp_inbound u) \<noteq> [] \<longrightarrow> d \<noteq> []" "fd_frame out s s1"
    "fd_eof out s1 = fd_eof out s" "fd_closed out s1 = fd_closed out s" "fd_write_count out s1 = fd_write_count out s + 1" "bs_flags st' = bs_flags (cp_inbound u)"
    by (rule copy_out_live)
  obtain s2 where s2: "fd_close K out s1 = Inr s2" "keeps pending (sy_kernel s1) (sy_kernel s2)" by (rule fd_close_live)
  note h = fd_close_facts [OF s2(1)]
  let ?u = "u\<lparr>cp_inbound := st', cp_inbound_shutdown := bs_eof st' \<or> cp_inbound_shutdown u\<rparr>" and ?s = "if bs_eof st' then s2 else s1"
  let ?w = "(?s, ?u)"
  have cb: "copy_rule4_callback K (s, u) = Inr ?w" using c(1) s2(1) by (simp add: copy_rule4_callback_def fds Let_def)
  note ok' = copy_rule4_ok [OF ok cb]
  have other: "fd_eof i ?s = fd_eof i s" "fd_closed i ?s = fd_closed i s" "fd_eof f ?s = fd_eof f s" "fd_closed f ?s = fd_closed f s"
    "fd_closed out ?s = (bs_eof st' \<or> fd_closed out s)" "fd_write_count out ?s \<noteq> fd_write_count out s"
    using fd_frame_other [OF c(6)] fd_frame_other [OF h(3)] fds(7,8) c(8,9) h(4,5) by auto
  have kept: "pending m (sy_kernel ?s) = pending m (sy_kernel s)" "got m (sy_kernel ?s) = got m (sy_kernel s)" for m
    using c(2,3) s2(2) h(1) by (auto simp: keeps_def)
  have fl: "bs_error st' = bs_error (cp_inbound u)" "bs_input_end st' = bs_input_end (cp_inbound u)"
     "bs_capacity st' = bs_capacity (cp_inbound u)" using c(10) by (simp_all add: bs_flags_def)
  have en: "bs_contents (cp_inbound u) \<noteq> [] \<or> bs_eof (cp_inbound u) \<and> \<not> cp_inbound_shutdown u"
    using e fds(7) by (auto simp: copy_rules_eq copy_enabled_def fds(1-3) copy_rule4_interest_def)
  have L': "copy_live got sent pending k0 f i out n ?w"
    using L ok' c(4) unfolding copy_live_def prod.case kept other by (auto simp: fl bs_eof_def bs_input_ended_def)
  have rk: "copy_rank pending f i n ?w < copy_rank pending f i n (s, u)"
    unfolding copy_rank_def prod.case kept other using c(4,5) en
    by (cases "d = []") (auto simp: bs_eof_def bs_input_ended_def fl)
  have cap: "bs_remaining_capacity (cp_inbound u) \<le> bs_remaining_capacity st'" by (simp add: bs_remaining_capacity_def fl c(4))
  have "rule_progress (copy_rules K u) (copy_live got sent pending k0 f i out n) copy_enabled (copy_rank pending f i n) (copy_rules K u ! 3) (s, u) ?w"
    unfolding rule_progress_def copy_rules_all using L' rk cb cap other fds(6-8)
    by (auto simp: copy_rules_eq fds(1-3) service_count_def copy_enabled_def rule_gone_def copy_rule2_interest_def numeral_2_eq_2 numeral_3_eq_3)
  then show ?thesis by blast
qed

lemma copy_cancel_live:
  assumes L: "copy_live got sent pending k0 f i out n (s, u)" and r: "r \<in> set (copy_rules K u)" "rule_gone r (s, u)"
  shows "\<exists>u'. ru_cancel r (s, u) = Inr (s, u') \<and> copy_live got sent pending k0 f i out n (s, u') \<and>
    copy_rank pending f i n (s, u') = copy_rank pending f i n (s, u) \<and> (\<forall>r'\<in>set (copy_rules K u). copy_enabled r' (s, u) \<longrightarrow> copy_enabled r' (s, u'))"
proof -
  have ok: "copy_ok got sent k0 f i out n (s, u)" using L by (simp add: copy_live_def)
  then have fds: "cp_socket u = f" "cp_input u = i" "cp_output u = out" "f \<noteq> i" "f \<noteq> out" "i \<noteq> out"
    by (auto simp: copy_ok_def copy_fds_def)
  have c: "\<not> fd_closed i s" "\<not> fd_closed f s" "fd_closed out s \<longleftrightarrow> cp_inbound_shutdown u"
      "bs_input_end (cp_outbound u) \<longleftrightarrow> fd_eof i s" "bs_input_end (cp_inbound u) \<longleftrightarrow> fd_eof f s"
    using L by (simp_all add: copy_live_def)
  have same: "fd_eof i s \<Longrightarrow> u\<lparr>cp_outbound := bs_end_input (cp_outbound u)\<rparr> = u" "fd_eof f s \<Longrightarrow> u\<lparr>cp_inbound := bs_end_input (cp_inbound u)\<rparr> = u"
    using c(4,5) by (simp_all add: bs_end_input_def)
  let ?u = "u\<lparr>cp_inbound := bs_set_error (cp_inbound u)\<rparr>"
  have "ru_cancel r (s, u) = Inr (s, u) \<or> ru_cancel r (s, u) = Inr (s, ?u) \<and> cp_inbound_shutdown u"
    using r same by (auto simp: copy_rules_eq rule_gone_def fds c(1-3) copy_rule1_cancel_def copy_rule3_cancel_def copy_rule4_cancel_def)
  then consider "ru_cancel r (s, u) = Inr (s, u)" | "ru_cancel r (s, u) = Inr (s, ?u)" "cp_inbound_shutdown u" by blast
  then show ?thesis
  proof cases
    case 1
    then show ?thesis using L by blast
  next
    case 2
    have ok': "copy_ok got sent k0 f i out n (s, ?u)" using copy_cancel_ok [OF ok] by simp
    have "copy_live got sent pending k0 f i out n (s, ?u)" using L ok' 2(2) by (simp add: copy_live_def bs_flag_fields)
    moreover have "copy_rank pending f i n (s, ?u) = copy_rank pending f i n (s, u)" by (simp add: copy_rank_def)
    moreover have "copy_enabled r' (s, u) \<longrightarrow> copy_enabled r' (s, ?u)" for r'
      by (simp add: copy_enabled_def bs_flag_fields copy_rule2_interest_def copy_rule4_interest_def)
    ultimately show ?thesis using 2(1) by blast
  qed
qed

lemma copy_poll_live:
  assumes L: "copy_live got sent pending k0 f i out n (s, u)" and ps: "asks ps"
  shows "\<exists>ready revents k. k_poll K ps (- 1) (sy_kernel s) = (Inr (ready, revents), k) \<and> answers ps ready revents \<and>
    copy_live got sent pending k0 f i out n (s\<lparr>sy_kernel := k\<rparr>, u) \<and>
    copy_rank pending f i n (s\<lparr>sy_kernel := k\<rparr>, u) = copy_rank pending f i n (s, u) \<and>
    (\<forall>r. copy_enabled r (s, u) \<longrightarrow> copy_enabled r (s\<lparr>sy_kernel := k\<rparr>, u))"
proof -
  obtain ready revents k where p: "k_poll K ps (- 1) (sy_kernel s) = (Inr (ready, revents), k)" "answers ps ready revents" "keeps pending (sy_kernel s) k"
    using poll_live [OF ps, of "sy_kernel s"] by blast
  have fd: "fd_eof fd (s\<lparr>sy_kernel := k\<rparr>) = fd_eof fd s" "fd_closed fd (s\<lparr>sy_kernel := k\<rparr>) = fd_closed fd s" for fd
    by (simp_all add: fd_eof_def fd_closed_def)
  have "copy_ok got sent k0 f i out n (s, u)" using L by (simp add: copy_live_def)
  note ok = copy_poll_ok [OF this p(1)]
  have k: "pending m k = pending m (sy_kernel s)" "got m k = got m (sy_kernel s)" for m
    using p(3) poll_history [OF p(1)] by (simp_all add: keeps_def)
  have "copy_live got sent pending k0 f i out n (s\<lparr>sy_kernel := k\<rparr>, u)" using L ok by (simp add: copy_live_def fd k)
  moreover have "copy_rank pending f i n (s\<lparr>sy_kernel := k\<rparr>, u) = copy_rank pending f i n (s, u)" by (simp add: copy_rank_def fd k)
  moreover have "copy_enabled r (s, u) \<longrightarrow> copy_enabled r (s\<lparr>sy_kernel := k\<rparr>, u)" for r
    by (simp add: copy_enabled_def fd copy_rule2_interest_def copy_rule4_interest_def)
  ultimately show ?thesis using p(1,2) by blast
qed

lemma copy_live_fds:
  assumes "copy_live got sent pending k0 (cp_socket u) (cp_input u) (cp_output u) n (s, v)"
  shows "copy_rules K v = copy_rules K u" "distinct (copy_rules K u)"
  using assms by (auto simp: copy_live_def copy_ok_def copy_fds_def copy_rules_eq)

lemma copy_interest_enabled:
  assumes "r \<in> set (copy_rules K u)" "copy_live got sent pending k0 f i out n (s, u)" "\<not> rule_gone r (s, u)" "ru_interest r (s, u)"
  shows "copy_enabled r (s, u)"
proof -
  have "cp_socket u \<noteq> cp_input u" "cp_socket u \<noteq> cp_output u"
    using assms(2) by (auto simp: copy_live_def copy_ok_def copy_fds_def)
  then show ?thesis
    using assms(1,3,4)
    by (auto simp: copy_rules_eq rule_gone_def copy_enabled_def copy_rule1_interest_def copy_rule3_interest_def)
qed

lemma copy_callback_progress:
  assumes "r \<in> set (copy_rules K u)" "copy_live got sent pending k0 f i out n (s, u)" "copy_enabled r (s, u)"
  shows "\<exists>w'. rule_progress (copy_rules K u) (copy_live got sent pending k0 f i out n) copy_enabled (copy_rank pending f i n) r (s, u) w'"
proof -
  have "\<forall>r\<in>set (copy_rules K u). copy_enabled r (s, u) \<longrightarrow>
      (\<exists>w'. rule_progress (copy_rules K u) (copy_live got sent pending k0 f i out n) copy_enabled (copy_rank pending f i n) r (s, u) w')"
    unfolding copy_rules_all
    by (intro conjI impI rule1_progress [OF assms(2)] rule2_progress [OF assms(2)] rule3_progress [OF assms(2)] rule4_progress [OF assms(2)])
  then show ?thesis using assms(1,3) by blast
qed

end

text \<open>So the rules of the program meet the contract of the event loop, with every kernel that does its part.\<close>

sublocale live_kernel \<subseteq> copier: progressing_rules K "copy_rules K u"
  "copy_live got sent pending k0 (cp_socket u) (cp_input u) (cp_output u) n" copy_enabled "copy_rank pending (cp_socket u) (cp_input u) n"
  for u k0 n
proof (unfold_locales, goal_cases)
  case (1 w)
  then show ?case using copy_live_fds(2) [of k0 u n "fst w" "snd w"] by simp
next
  case (2 r w)
  then show ?case using copy_interest_enabled [of r "snd w" k0 _ _ _ n "fst w"] copy_live_fds(1) [of k0 u n "fst w" "snd w"] by simp
next
  case (3 r w)
  then show ?case using copy_cancel_live [of k0 _ _ _ n "fst w" "snd w" r] copy_live_fds(1) [of k0 u n "fst w" "snd w"] by fastforce
next
  case 4
  show ?case
    by (simp add: copy_rules_eq undisturbed_def copy_rule1_interest_def copy_rule2_interest_def copy_rule3_interest_def
        copy_rule2_cancel_def copy_rule3_cancel_def copy_rule4_cancel_def bs_flag_fields)
next
  case (5 r w)
  then show ?case using copy_callback_progress [of r "snd w" k0 _ _ _ n "fst w"] copy_live_fds(1) [of k0 u n "fst w" "snd w"] by simp
next
  case (6 s v ps)
  from copy_poll_live [OF this] show ?case by blast
qed

section \<open>Setting up\<close>

definition copy_init :: "fd \<Rightarrow> fd \<Rightarrow> fd \<Rightarrow> copy_state" where
  "copy_init f i out = \<lparr>cp_socket = f, cp_input = i, cp_output = out, cp_outbound = bs_new copy_buffer_size, cp_inbound = bs_new copy_buffer_size,
     cp_outbound_shutdown = False, cp_inbound_shutdown = False\<rparr>"

lemma keeps_trans: "keeps h k k' \<Longrightarrow> keeps h k' k'' \<Longrightarrow> keeps h k k''"
  by (simp add: keeps_def)

lemma copy_init_fields [simp]:
  "cp_socket (copy_init f i out) = f" "cp_input (copy_init f i out) = i" "cp_output (copy_init f i out) = out"
  "bs_contents (cp_outbound (copy_init f i out)) = []" "bs_contents (cp_inbound (copy_init f i out)) = []"
  "\<not> bs_input_end (cp_outbound (copy_init f i out))" "\<not> bs_input_end (cp_inbound (copy_init f i out))"
  "\<not> bs_error (cp_outbound (copy_init f i out))" "\<not> bs_error (cp_inbound (copy_init f i out))"
  "0 < bs_capacity (cp_outbound (copy_init f i out))" "0 < bs_capacity (cp_inbound (copy_init f i out))"
  "\<not> cp_outbound_shutdown (copy_init f i out)" "\<not> cp_inbound_shutdown (copy_init f i out)"
  by (simp_all add: copy_init_def bs_new_def bs_contents_def copy_buffer_size_def)

definition copy_wrappers :: "fd \<Rightarrow> fd \<Rightarrow> (fd \<Rightarrow> fd_wrapper) \<Rightarrow> fd \<Rightarrow> fd_wrapper" where
  "copy_wrappers i out ws = ws(i := \<lparr>fw_fd = 0, fw_eof = False, fw_closed = False, fw_read_count = 0, fw_write_count = 0\<rparr>,
     out := \<lparr>fw_fd = 1, fw_eof = False, fw_closed = False, fw_read_count = 0, fw_write_count = 0\<rparr>)"

context io_kernel
begin

lemma set_blocking_facts:
  assumes "set_blocking K fd b s = Inr s'"
  shows "sy_wrappers s' = sy_wrappers s" "keeps got (sy_kernel s) (sy_kernel s')" "keeps sent (sy_kernel s) (sy_kernel s')"
proof -
  obtain fl fl' k k' where k: "k_fcntl_getfl K (fd_num fd s) (sy_kernel s) = (Inr fl, k)"
      "k_fcntl_setfl K (fd_num fd (s\<lparr>sy_kernel := k\<rparr>)) fl' k = (Inr (), k')" "s' = s\<lparr>sy_kernel := k'\<rparr>"
    using assms by (auto simp: set_blocking_def Let_def bindE_eq_Inr_iff SystemCall_Inr_iff)
  then show "sy_wrappers s' = sy_wrappers s" "keeps got (sy_kernel s) (sy_kernel s')" "keeps sent (sy_kernel s) (sy_kernel s')"
    using getfl_history [OF k(1)] setfl_history [OF k(2)] by (auto intro: keeps_trans)
qed

lemma copy_setup_facts:
  assumes "copy_setup K f i out s = Inr w"
  obtains s' where "w = (s', copy_init f i out)" "sy_wrappers s' = copy_wrappers i out (sy_wrappers s)"
    "keeps got (sy_kernel s) (sy_kernel s')" "keeps sent (sy_kernel s) (sy_kernel s')"
proof -
  let ?s = "s\<lparr>sy_wrappers := copy_wrappers i out (sy_wrappers s)\<rparr>"
  obtain s1 s2 s3 where b: "set_blocking K f False ?s = Inr s1" "set_blocking K i False s1 = Inr s2"
      "set_blocking K out False s2 = Inr s3" "w = (s3, copy_init f i out)"
    using assms by (auto simp: copy_setup_def fd_new_def fw_new_def bindE_eq_Inr_iff copy_init_def copy_wrappers_def)
  note f = set_blocking_facts [OF b(1)] set_blocking_facts [OF b(2)] set_blocking_facts [OF b(3)]
  show thesis
    by (rule that [OF b(4)]) (use f in \<open>auto simp: keeps_def\<close>)
qed

lemma copy_ok_init:
  assumes "sy_wrappers s' = copy_wrappers i out (sy_wrappers s)" "keeps got (sy_kernel s) (sy_kernel s')" "keeps sent (sy_kernel s) (sy_kernel s')"
    and "distinct [f, i, out]" "fd_num f s \<noteq> 0" "fd_num f s \<noteq> 1"
  shows "copy_ok got sent (sy_kernel s) f i out (fd_num f s) (s', copy_init f i out)"
  using assms by (simp add: copy_ok_def copy_fds_def fd_num_def copy_wrappers_def copied_def keeps_def)

end

context live_kernel
begin

lemma set_blocking_live:
  obtains s' where "set_blocking K fd b s = Inr s'" "keeps pending (sy_kernel s) (sy_kernel s')"
proof -
  obtain fl k where g: "k_fcntl_getfl K (fd_num fd s) (sy_kernel s) = (Inr fl, k)" "keeps pending (sy_kernel s) k"
    using getfl_live by blast
  let ?fl = "if b then fl XOR (fl AND O_NONBLOCK) else fl OR O_NONBLOCK"
  obtain k' where "k_fcntl_setfl K (fd_num fd s) ?fl k = (Inr (), k')" "keeps pending k k'"
    using setfl_live by blast
  with g show thesis
    by (intro that [of "s\<lparr>sy_kernel := k'\<rparr>"]) (auto simp: set_blocking_def SystemCall_def Let_def fd_num_def intro: keeps_trans)
qed

lemma copy_setup_live:
  obtains s' where "copy_setup K f i out s = Inr (s', copy_init f i out)" "keeps pending (sy_kernel s) (sy_kernel s')"
proof -
  let ?s = "s\<lparr>sy_wrappers := copy_wrappers i out (sy_wrappers s)\<rparr>"
  obtain s1 where b1: "set_blocking K f False ?s = Inr s1" "keeps pending (sy_kernel ?s) (sy_kernel s1)" by (rule set_blocking_live)
  obtain s2 where b2: "set_blocking K i False s1 = Inr s2" "keeps pending (sy_kernel s1) (sy_kernel s2)" by (rule set_blocking_live)
  obtain s3 where b3: "set_blocking K out False s2 = Inr s3" "keeps pending (sy_kernel s2) (sy_kernel s3)" by (rule set_blocking_live)
  show thesis
    by (rule that [of s3])
      (use b1 b2 b3 in \<open>auto simp: copy_setup_def fd_new_def fw_new_def copy_init_def copy_wrappers_def intro: keeps_trans\<close>)
qed

lemma copy_live_init:
  assumes "sy_wrappers s' = copy_wrappers i out (sy_wrappers s)" "keeps got (sy_kernel s) (sy_kernel s')" "keeps sent (sy_kernel s) (sy_kernel s')"
    and "keeps pending (sy_kernel s) (sy_kernel s')"
    and fds: "distinct [f, i, out]" "fd_num f s \<noteq> 0" "fd_num f s \<noteq> 1" "\<not> fd_eof f s" "\<not> fd_closed f s"
  shows "copy_live got sent pending (sy_kernel s) f i out (fd_num f s) (s', copy_init f i out)"
  using copy_ok_init [OF assms(1-3) fds(1-3)] assms
  by (simp add: copy_live_def keeps_def fd_eof_def fd_closed_def copy_wrappers_def)

text \<open>What it means that no rule is interested any more.\<close>

lemma copy_end:
  assumes L: "copy_live got sent pending k0 f i out n (s, u)"
    and e: "\<forall>r\<in>set (copy_rules K u). rule_gone r (s, u) \<or> \<not> ru_interest r (s, u)"
  shows "fd_eof f s" "bs_contents (cp_outbound u) = []" "bs_contents (cp_inbound u) = []" "cp_inbound_shutdown u"
    "fd_eof i s \<longrightarrow> cp_outbound_shutdown u"
proof -
  have fds: "cp_socket u = f" "cp_input u = i" "cp_output u = out" using L by (auto simp: copy_live_def copy_ok_def copy_fds_def)
  have l: "bs_input_end (cp_outbound u) \<longleftrightarrow> fd_eof i s" "bs_input_end (cp_inbound u) \<longleftrightarrow> fd_eof f s" "\<not> fd_closed i s" "\<not> fd_closed f s"
      "fd_closed out s \<longleftrightarrow> cp_inbound_shutdown u" "\<not> bs_error (cp_outbound u)" "bs_error (cp_inbound u) \<longrightarrow> cp_inbound_shutdown u"
      "cp_inbound_shutdown u \<longrightarrow> bs_contents (cp_inbound u) = [] \<and> bs_input_end (cp_inbound u)" "0 < bs_capacity (cp_inbound u)"
    using L by (auto simp: copy_live_def bs_eof_def bs_input_ended_def)
  have r: "\<not> copy_rule2_interest (s, u)" "fd_eof f s \<or> \<not> copy_rule3_interest (s, u)" "cp_inbound_shutdown u \<or> \<not> copy_rule4_interest (s, u)"
    using e by (auto simp: copy_rules_eq rule_gone_def fds l(3-5))
  show "bs_contents (cp_outbound u) = []" using r(1) by (simp add: copy_rule2_interest_def)
  show "fd_eof i s \<longrightarrow> cp_outbound_shutdown u" using r(1) l(1) by (simp add: copy_rule2_interest_def bs_eof_def bs_input_ended_def)
  show in_empty: "bs_contents (cp_inbound u) = []" using r(3) l(8) by (auto simp: copy_rule4_interest_def)
  then have "0 < bs_remaining_capacity (cp_inbound u)" using l(9) by (simp add: bs_remaining_capacity_def)
  then show f: "fd_eof f s" using r(2) l(2,6-8) by (auto simp: copy_rule3_interest_def)
  show "cp_inbound_shutdown u" using r(3) f l(2) in_empty by (auto simp: copy_rule4_interest_def bs_eof_def bs_input_ended_def)
qed

lemma copying_ends:
  assumes fds: "distinct [f, i, out]" "fd_num f s \<noteq> 0" "fd_num f s \<noteq> 1" "\<not> fd_eof f s" "\<not> fd_closed f s"
  shows "\<exists>s' u. bidirectional_stream_copy K f i out s = Some (Inr (s', u)) \<and> copy_live got sent pending (sy_kernel s) f i out (fd_num f s) (s', u) \<and>
    (\<forall>r\<in>set (copy_rules K u). rule_gone r (s', u) \<or> \<not> ru_interest r (s', u))"
proof -
  obtain s1 where s1: "copy_setup K f i out s = Inr (s1, copy_init f i out)" "keeps pending (sy_kernel s) (sy_kernel s1)"
    by (rule copy_setup_live)
  then have "sy_wrappers s1 = copy_wrappers i out (sy_wrappers s)" "keeps got (sy_kernel s) (sy_kernel s1)" "keeps sent (sy_kernel s) (sy_kernel s1)"
    using copy_setup_facts [OF s1(1)] by blast+
  note L = copy_live_init [OF this s1(2) fds]
  let ?u = "copy_init f i out"
  obtain s' u where l: "copy_loop K (copy_rules K ?u) (s1, ?u) = Some (Inr (s', u))"
      "copy_live got sent pending (sy_kernel s) f i out (fd_num f s) (s', u)"
      "\<forall>r\<in>set (copy_rules K ?u). rule_gone r (s', u) \<or> \<not> ru_interest r (s', u)"
    using copier.loop_ends [of "copy_rules K ?u" ?u "sy_kernel s" "fd_num f s" "(s1, ?u)"] L by auto
  then have "copy_rules K u = copy_rules K ?u" by (simp add: copy_live_def copy_ok_def copy_fds_def copy_rules_eq)
  then show ?thesis using l s1(1) by (auto simp: bidirectional_stream_copy_def)
qed

end

section \<open>Properties\<close>

text \<open>The first \<open>j\<close> rounds of the loop.\<close>

fun copy_rounds :: "'k kernel \<Rightarrow> nat \<Rightarrow> ('k, 'u) rule list \<Rightarrow> ('k, 'u) world \<Rightarrow> exn + ('k, 'u) rule list \<times> ('k, 'u) world" where
  "copy_rounds K 0 rules w = Inr (rules, w)"
| "copy_rounds K (Suc j) rules w =
     bindE (wait_next_event K (- 1) rules w) (\<lambda>(ret, rules, w). if ret = Exit then Inr (rules, w) else copy_rounds K j rules w)"

lemma copy_rounds_keep:
  assumes "copy_rounds K j rules w = Inr (rules', w')" "P w" "rules_keep P rules"
    and poll: "\<And>s u ps x k. P (s, u) \<Longrightarrow> k_poll K ps (- 1) (sy_kernel s) = (x, k) \<Longrightarrow> P (s\<lparr>sy_kernel := k\<rparr>, u)"
  shows "P w'"
  using assms(1-3)
proof (induction j arbitrary: rules w)
  case (Suc j)
  obtain ret rules1 w1 where w: "wait_next_event K (- 1) rules w = Inr (ret, rules1, w1)"
      "if ret = Exit then w' = w1 else copy_rounds K j rules1 w1 = Inr (rules', w')"
    using Suc.prems(1) by (auto simp: bindE_eq_Inr_iff split: if_splits)
  have k: "P w1" "subseq rules1 rules" using wait_next_event_keeps [OF w(1) Suc.prems(2,3)] poll by blast+
  have "set rules1 \<subseteq> set rules" using k(2) by (auto dest: list_emb_set)
  then have "rules_keep P rules1" by (rule rules_keep_subset [OF Suc.prems(3)])
  then show ?case using Suc.IH k(1) w(2) by (auto split: if_splits)
qed simp

text \<open>
  (C21) The copier connects the two streams without losing, repeating or reordering a byte: however many rounds of
  its event loop have passed, and whatever the kernel reports, what has been read from the standard input is
  what has been written to the socket, followed by what is still in the outbound stream; and what has been
  read from the socket is what has been written to the standard output, followed by what is still in
  the inbound stream.
\<close>

theorem copy_faithful:
  assumes "io_kernel K sent got" "copy_setup K f i out s = Inr w" "copy_rounds K j (copy_rules K (snd w)) w = Inr (rules, s', u)"
    and "distinct [f, i, out]" "fd_num f s \<noteq> 0" "fd_num f s \<noteq> 1"
  shows "(\<exists>d. got 0 (sy_kernel s') = got 0 (sy_kernel s) @ d @ bs_contents (cp_outbound u) \<and>
      sent (fd_num f s) (sy_kernel s') = sent (fd_num f s) (sy_kernel s) @ d) \<and>
    (\<exists>d. got (fd_num f s) (sy_kernel s') = got (fd_num f s) (sy_kernel s) @ d @ bs_contents (cp_inbound u) \<and>
      sent 1 (sy_kernel s') = sent 1 (sy_kernel s) @ d)"
proof -
  obtain s1 where s1: "w = (s1, copy_init f i out)" "sy_wrappers s1 = copy_wrappers i out (sy_wrappers s)"
    "keeps got (sy_kernel s) (sy_kernel s1)" "keeps sent (sy_kernel s) (sy_kernel s1)"
    by (rule io_kernel.copy_setup_facts [OF assms(1,2)])
  let ?ok = "copy_ok got sent (sy_kernel s) f i out (fd_num f s)"
  have "?ok w" using io_kernel.copy_ok_init [OF assms(1) s1(2-4) assms(4-6)] s1(1) by simp
  then have "?ok (s', u)"
    using copy_rounds_keep [OF assms(3), of ?ok] io_kernel.copy_rules_keep [OF assms(1)] io_kernel.copy_poll_ok [OF assms(1)] by blast
  then show ?thesis by (simp add: copy_ok_def copied_def)
qed


text \<open>The kernel made of pipes meets both contracts.\<close>

interpretation pipe_io: io_kernel "pipe_kernel chunk" "\<lambda>n k. ps_sent k n" "\<lambda>n k. ps_got k n" for chunk
  by unfold_locales (auto simp: pipe_kernel_def keeps_def keeps_but_def)

interpretation pipe_live: live_kernel "pipe_kernel (Suc chunk)" "\<lambda>n k. ps_sent k n" "\<lambda>n k. ps_got k n" "\<lambda>n k. ps_input k n" for chunk
proof (unfold_locales, goal_cases)
  case (7 ps k)
  then have "ps \<noteq> []" "\<forall>r\<in>set (map snd ps). r AND (POLLERR OR POLLNVAL) = 0 \<and> r AND POLLHUP = 0"
    by (auto simp: asks_def POLLIN_def POLLOUT_def POLLERR_def POLLNVAL_def POLLHUP_def)
  moreover have "\<exists>i<length ps. map snd ps ! i AND snd (ps ! i) \<noteq> 0"
    using 7 by (force simp: asks_def in_set_conv_nth)
  ultimately have "answers ps (length ps) (map snd ps)" by (simp add: answers_def)
  then show ?case by (simp add: pipe_kernel_def keeps_def)
qed (auto simp: pipe_kernel_def keeps_def keeps_but_def)


lemma copy_setup_pipe:
  "copy_setup (pipe_kernel c) f i out s = Inr (s\<lparr>sy_wrappers := copy_wrappers i out (sy_wrappers s)\<rparr>, copy_init f i out)"
  by (simp add: copy_setup_def fd_new_def fw_new_def set_blocking_def SystemCall_def pipe_kernel_def Let_def copy_wrappers_def copy_init_def)

theorem copy_faithful_witness:
  "\<exists>w rules s' u. copy_setup (pipe_kernel 2) 5 3 4 (demo_sys [1, 2, 3]) = Inr w \<and>
    copy_rounds (pipe_kernel 2) 1 (copy_rules (pipe_kernel 2) (snd w)) w = Inr (rules, s', u) \<and>
    ps_got (sy_kernel s') 0 = ps_sent (sy_kernel s') 5 @ bs_contents (cp_outbound u)"
proof -
  let ?s = "demo_sys [1, 2, 3]" and ?K = "pipe_kernel 2"
  let ?s1 = "?s\<lparr>sy_wrappers := copy_wrappers 3 4 (sy_wrappers ?s)\<rparr>" and ?u = "copy_init 5 3 4"
  have K: "?K = pipe_kernel (Suc 1)" by (simp add: numeral_2_eq_2)
  have fds: "distinct [5, 3, 4 :: nat]" "fd_num 5 ?s \<noteq> 0" "fd_num 5 ?s \<noteq> 1" "\<not> fd_eof 5 ?s" "\<not> fd_closed 5 ?s"
    by (simp_all add: demo_sys_def fd_num_def fd_eof_def fd_closed_def)
  have "copy_live (\<lambda>n k. ps_got k n) (\<lambda>n k. ps_sent k n) (\<lambda>n k. ps_input k n) (sy_kernel ?s) 5 3 4 (fd_num 5 ?s) (?s1, ?u)"
    by (rule pipe_live.copy_live_init [OF _ _ _ _ fds]) (simp_all add: keeps_def)
  then obtain ret rules s' u where "wait_next_event ?K (- 1) (copy_rules ?K ?u) (?s1, ?u) = Inr (ret, rules, (s', u))"
    using pipe_live.copier.wait_progress [where rules = "copy_rules ?K ?u" and chunk = 1 and u = ?u and ?k0.0 = "sy_kernel ?s" and
      n = "fd_num 5 ?s" and w = "(?s1, ?u)"] unfolding K by auto
  then have r: "copy_rounds ?K 1 (copy_rules ?K (snd (?s1, ?u))) (?s1, ?u) = Inr (rules, s', u)" by simp
  from copy_faithful [OF pipe_io.io_kernel_axioms copy_setup_pipe r fds(1-3)]
  have "ps_got (sy_kernel s') 0 = ps_sent (sy_kernel s') 5 @ bs_contents (cp_outbound u)"
    by (auto simp: demo_sys_def fd_num_def)
  then show ?thesis using r copy_setup_pipe [of 2 5 3 4 ?s] by blast
qed

end
