(* ===== verification/In_Order.thy ===== *)
theory In_Order
  imports Connection
begin

text \<open>
  What a receiver does on a link that keeps the order of the segments and loses none: the segments of a stream
  one after the other, the acknowledgments they carry, and the receiver that has everything below some sequence
  number and nothing above it.
\<close>

section \<open>Segments in order\<close>

text \<open>A segment at absolute sequence number \<open>a\<close> of a stream \<open>S\<close> of \<open>N\<close> bytes.\<close>

definition seg_at :: "(nat \<Rightarrow> u8) \<Rightarrow> nat \<Rightarrow> wrapping_int32 \<Rightarrow> nat \<Rightarrow> tcp_segment \<Rightarrow> bool" where
  "seg_at S N isn a seg \<longleftrightarrow> carries S isn a seg \<and>
     (seg_data seg = [] \<or> data_index a seg + length (seg_data seg) \<le> N) \<and>
     (th_fin (seg_header seg) \<longrightarrow> a + seg_len seg = N + 2) \<and> \<not> th_rst (seg_header seg) \<and>
     (th_syn (seg_header seg) \<or> 0 < a) \<and> a + seg_len seg \<le> N + 2"

text \<open>\<open>feed p segs n\<close>: delivered in this order to a receiver that expects \<open>p\<close>, the segments lead it to \<open>n\<close>.\<close>

fun feed :: "(nat \<Rightarrow> u8) \<Rightarrow> nat \<Rightarrow> wrapping_int32 \<Rightarrow> nat \<Rightarrow> tcp_segment list \<Rightarrow> nat \<Rightarrow> bool" where
  "feed S N isn p [] n \<longleftrightarrow> p = n"
| "feed S N isn p (seg # segs) n \<longleftrightarrow>
     (\<exists>a. seg_at S N isn a seg \<and> (a = p \<or> a + seg_len seg \<le> p) \<and> feed S N isn (max p (a + seg_len seg)) segs n)"

lemma feed_append: "feed S N isn p (xs @ ys) n \<longleftrightarrow> (\<exists>m. feed S N isn p xs m \<and> feed S N isn m ys n)"
  by (induction xs arbitrary: p) auto

lemma feed_mono: "feed S N isn p segs n \<Longrightarrow> p \<le> n"
  by (induction segs arbitrary: p) force+

text \<open>An acknowledgment of \<open>k\<close> with a window that reaches to \<open>E\<close>.\<close>

definition ack_at :: "nat \<Rightarrow> wrapping_int32 \<Rightarrow> nat \<Rightarrow> nat \<Rightarrow> tcp_segment \<Rightarrow> bool" where
  "ack_at N isn E k seg \<longleftrightarrow> th_ack (seg_header seg) \<and> th_ackno (seg_header seg) = wrap (of_nat k) isn \<and>
     (k \<le> N + 1 \<longrightarrow> k + unat (th_win (seg_header seg)) = E)"

fun ack_feed :: "nat \<Rightarrow> wrapping_int32 \<Rightarrow> nat \<Rightarrow> nat \<Rightarrow> tcp_segment list \<Rightarrow> nat \<Rightarrow> bool" where
  "ack_feed N isn E b [] k \<longleftrightarrow> b = k"
| "ack_feed N isn E b (seg # segs) k \<longleftrightarrow> (\<exists>j. ack_at N isn E j seg \<and> b \<le> j \<and> ack_feed N isn E j segs k)"

lemma ack_feed_append: "ack_feed N isn E b (xs @ ys) k \<longleftrightarrow> (\<exists>j. ack_feed N isn E b xs j \<and> ack_feed N isn E j ys k)"
  by (induction xs arbitrary: b) auto

lemma ack_feed_mono: "ack_feed N isn E b segs k \<Longrightarrow> b \<le> k"
  by (induction segs arbitrary: b) force+

lemma ack_feed_all:
  "\<forall>seg\<in>set segs. ack_at N isn E k seg \<Longrightarrow> b \<le> k \<Longrightarrow> (segs = [] \<longrightarrow> b = k) \<Longrightarrow> ack_feed N isn E b segs k"
  by (induction segs arbitrary: b) auto

section \<open>The receiver\<close>

text \<open>
  A receiver that has received everything below \<open>K\<close> and nothing else. The right edge of its window is the
  first sequence number for which it has no room.
\<close>

definition rc_at :: "(nat \<Rightarrow> u8) \<Rightarrow> nat \<Rightarrow> wrapping_int32 \<Rightarrow> tcp_receiver \<Rightarrow> nat \<Rightarrow> bool" where
  "rc_at S N isn r K \<longleftrightarrow> rc_inv S isn r \<and> rc_syn r \<and> N + 2 < 2 ^ 31 \<and> unat (rc_capacity r) < 65536 \<and>
     bs_input_end (rc_stream_out r) = rc_fin r \<and>
     (\<exists>m\<le>N. rc_received r = {..<m} \<and> (rc_fin r \<longrightarrow> m = N) \<and> K = m + 1 + (if rc_fin r then 1 else 0) \<and>
        ra_input_end_idx (rc_reassembler r) = (if rc_fin r then of_nat m else 2147483647))"

definition rc_edge :: "tcp_receiver \<Rightarrow> nat" where
  "rc_edge r = bs_read_bytes (rc_stream_out r) + unat (rc_capacity r) + 1"

lemma rc_edge_max: "rc_inv S isn r \<Longrightarrow> rc_edge r = rc_max r + 1"
  by (simp add: rc_edge_def ra_max_def rc_inv_def rc_stream_out_def)

lemma lessThan_idx:
  assumes "ra_inv S ra" "ra_max ra < 2 ^ 62" "received ra = {..<m}"
  shows "unat (ra_cur_idx ra) = m" "ra_unassembled_bytes ra = 0"
proof -
  show m: "unat (ra_cur_idx ra) = m"
    unfolding ra_cur_idx_mex [OF assms(1,2)] assms(3) by (rule Least_equality) auto
  then show "ra_unassembled_bytes ra = 0" using ra_unassembled_zero [OF assms(1,2)] assms(3) by simp
qed

lemma rc_at_cases:
  assumes "rc_at S N isn r K"
  obtains m where "m \<le> N" "rc_received r = {..<m}" "rc_fin r \<longrightarrow> m = N" "K = m + 1 + (if rc_fin r then 1 else 0)"
    "unat (ra_cur_idx (rc_reassembler r)) = m" "rc_max r < 2 ^ 62"
    "ra_input_end_idx (rc_reassembler r) = (if rc_fin r then of_nat m else 2147483647)"
proof -
  obtain m where m: "m \<le> N" "rc_received r = {..<m}" "rc_fin r \<longrightarrow> m = N" "K = m + 1 + (if rc_fin r then 1 else 0)"
      "ra_input_end_idx (rc_reassembler r) = (if rc_fin r then of_nat m else 2147483647)"
    and r: "rc_inv S isn r" "N + 2 < 2 ^ 31" "unat (rc_capacity r) < 65536"
    using assms by (auto simp: rc_at_def)
  have ra: "ra_inv S (rc_reassembler r)" "rc_capacity r = ra_capacity (rc_reassembler r)" using r(1) by (simp_all add: rc_inv_def)
  have "unat (ra_cur_idx (rc_reassembler r)) \<le> N" using rc_cur_bound [of r N] m(1,2) by auto
  then have max: "rc_max r < 2 ^ 62" using ra_inv_bounds(1) [OF ra(1)] ra(2) r(2,3) by (simp add: ra_max_def)
  show thesis using that m max lessThan_idx(1) [OF ra(1) max m(2)] by blast
qed

lemma rc_at_ackno: "rc_at S N isn r K \<Longrightarrow> rc_ackno r = Some (wrap (of_nat K) isn)"
proof (rule rc_at_cases, assumption)
  fix m
  assume r: "rc_at S N isn r K" and m: "K = m + 1 + (if rc_fin r then 1 else 0)" "unat (ra_cur_idx (rc_reassembler r)) = m"
  have "ra_cur_idx (rc_reassembler r) = of_nat m" unfolding m(2) [symmetric] by simp
  then have "rc_rcv_base r = of_nat K"
    using r m(1) by (auto simp: rc_at_def rc_inv_def ra_input_ended_def bs_input_ended_def rc_stream_out_def)
  then show "rc_ackno r = Some (wrap (of_nat K) isn)" using r by (simp add: rc_at_def rc_inv_def rc_ackno_def)
qed

lemma rc_at_bounds:
  assumes "rc_at S N isn r K"
  shows "1 \<le> K" "K \<le> N + 2" "rc_fin r \<longleftrightarrow> K = N + 2" "K \<le> rc_edge r + 1"
    "K \<le> N + 1 \<Longrightarrow> K + length (bs_contents (rc_stream_out r)) + unat (rc_window_size r) = K + unat (rc_capacity r)"
    "K \<le> N + 1 \<Longrightarrow> K + unat (rc_window_size r) = rc_edge r"
    "unat (rc_window_size r) < 65536"
    "bs_bytes_read (rc_stream_out r) + length (bs_contents (rc_stream_out r)) + 1 = (if rc_fin r then K - 1 else K)"
proof -
  obtain m where m: "m \<le> N" "rc_fin r \<longrightarrow> m = N" "K = m + 1 + (if rc_fin r then 1 else 0)"
      "unat (ra_cur_idx (rc_reassembler r)) = m" "rc_max r < 2 ^ 62" by (rule rc_at_cases [OF assms])
  have r: "ra_inv S (rc_reassembler r)" "rc_capacity r = ra_capacity (rc_reassembler r)" "unat (rc_capacity r) < 65536"
    using assms unfolding rc_at_def rc_inv_def by blast+
  note b = ra_inv_bounds [OF r(1)]
  show "1 \<le> K" "K \<le> N + 2" "rc_fin r \<longleftrightarrow> K = N + 2" using m(1-3) by auto
  show "K \<le> rc_edge r + 1" using b m(3,4) r(2) by (auto simp: rc_edge_def rc_stream_out_def)
  have w: "unat (rc_window_size r) = unat (rc_capacity r) - length (bs_contents (rc_stream_out r))"
  proof -
    have le: "length (bs_contents (rc_stream_out r)) \<le> unat (rc_capacity r)" using b(2) r(2) by (simp add: rc_stream_out_def)
    then have "unat (of_nat (length (bs_contents (rc_stream_out r))) :: u64) = length (bs_contents (rc_stream_out r))"
      using r(3) by (intro unat_of_nat64) simp
    then show ?thesis using le by (simp add: rc_window_size_def unat_sub64)
  qed
  then show "unat (rc_window_size r) < 65536" using r(3) by simp
  show "K \<le> N + 1 \<Longrightarrow> K + length (bs_contents (rc_stream_out r)) + unat (rc_window_size r) = K + unat (rc_capacity r)"
    "K \<le> N + 1 \<Longrightarrow> K + unat (rc_window_size r) = rc_edge r"
    using w b m r(2) by (auto simp: rc_edge_def rc_stream_out_def split: if_splits)
  show "bs_bytes_read (rc_stream_out r) + length (bs_contents (rc_stream_out r)) + 1 = (if rc_fin r then K - 1 else K)"
    using b m by (auto simp: rc_stream_out_def bs_bytes_read_def)
qed

text \<open>The reassembler takes the next piece of the stream, or one that it has already.\<close>

lemma push_in_order:
  assumes inv: "ra_inv S ra" "ra_max ra < 2 ^ 62" "ra_inv S ra'" and push: "pushed data idx fin ra ra'"
    and rec: "received ra = {..<m}" "received ra' = {..<m'}"
  shows "unat (ra_cur_idx ra') = m'" "ra_unassembled_bytes ra' = 0" "unat (ra_cur_idx ra) = m"
    "bs_input_end (ra_output ra') \<longleftrightarrow> bs_input_end (ra_output ra) \<or>
       unat idx \<le> ra_max ra \<and> (unat (ra_input_end_idx ra') \<le> m' \<or> fin \<and> m < unat idx + length data)"
proof -
  have max: "ra_max ra' < 2 ^ 62" using inv(2) push by (simp add: pushed_def ra_max_def)
  note c = lessThan_idx [OF inv(1,2) rec(1)] lessThan_idx [OF inv(3) max rec(2)]
  then show "unat (ra_cur_idx ra') = m'" "ra_unassembled_bytes ra' = 0" "unat (ra_cur_idx ra) = m" by simp_all
  show "bs_input_end (ra_output ra') \<longleftrightarrow> bs_input_end (ra_output ra) \<or>
       unat idx \<le> ra_max ra \<and> (unat (ra_input_end_idx ra') \<le> m' \<or> fin \<and> m < unat idx + length data)"
    using push c by (auto simp: pushed_def word_le_nat_alt)
qed

lemma seg_at_len:
  "seg_len seg = length (seg_data seg) + (if th_syn (seg_header seg) then 1 else 0) + (if th_fin (seg_header seg) then 1 else 0)"
  by (simp add: length_in_sequence_space_def seg_data_def)

lemma seg_at_syn: "seg_at S N isn a seg \<Longrightarrow> th_syn (seg_header seg) \<Longrightarrow> a = 0"
  unfolding seg_at_def carries_def by blast

lemma seg_at_end: "seg_at S N isn a seg \<Longrightarrow> \<not> th_syn (seg_header seg) \<Longrightarrow> 0 < a \<and> a + length (seg_data seg) \<le> N + 1 + (if seg_data seg = [] then 1 else 0)"
  using seg_at_len [of seg] by (auto simp: seg_at_def data_index_def split: if_splits)

lemma lessThan_Un: "a \<le> m \<Longrightarrow> {..<m} \<union> {a..<a + n} = {..<max m (a + n)}" for a m n :: nat
  by (auto simp: max_def)

text \<open>The part of the receiver after its early returns.\<close>

lemma rc_at_push:
  assumes r: "rc_at S N isn r K" and seg: "seg_at S N isn a seg" "a = K \<or> a + seg_len seg \<le> K"
    and fits: "a + length (seg_data seg) \<le> rc_edge r \<or> a + seg_len seg \<le> K"
    and acc: "\<not> th_syn (seg_header seg)" "\<not> (th_fin (seg_header seg) \<and> rc_fin r)"
  defines "r1 \<equiv> (if th_fin (seg_header seg) then r\<lparr>rc_fin := True\<rparr> else r)"
  shows "\<exists>r'. rc_push seg r1 = Inr r' \<and> rc_at S N isn r' (max K (a + seg_len seg)) \<and> rc_capacity r' = rc_capacity r \<and>
    bs_read_bytes (rc_stream_out r') = bs_read_bytes (rc_stream_out r)"
proof -
  let ?h = "seg_header seg" and ?l = "length (seg_data seg)"
  obtain m where m: "m \<le> N" "rc_received r = {..<m}" "rc_fin r \<longrightarrow> m = N" "K = m + 1 + (if rc_fin r then 1 else 0)"
      "unat (ra_cur_idx (rc_reassembler r)) = m" "rc_max r < 2 ^ 62"
      "ra_input_end_idx (rc_reassembler r) = (if rc_fin r then of_nat m else 2147483647)" by (rule rc_at_cases [OF r])
  have ri: "rc_inv S isn r" "rc_syn r" "N + 2 < 2 ^ 31" "unat (rc_capacity r) < 65536" "bs_input_end (rc_stream_out r) = rc_fin r"
    using r by (simp_all add: rc_at_def)
  have ra: "ra_inv S (rc_reassembler r)" "rc_isn r = ucast isn" "rc_capacity r = ra_capacity (rc_reassembler r)"
    using ri(1,2) unfolding rc_inv_def by simp_all
  have carr: "carries S isn a seg" and fin: "th_fin ?h \<longrightarrow> a + seg_len seg = N + 2" using seg(1) by (simp_all add: seg_at_def)
  note a = seg_at_end [OF seg(1) acc(1)]
  have len: "seg_len seg = ?l + (if th_fin ?h then 1 else 0)" using seg_at_len [of seg] acc(1) by simp
  have sm: "a < 2 ^ 31" "?l < 2 ^ 62" "m < 2 ^ 31" using a ri(3) m(1) by (auto split: if_splits)
  have ai: "unat (of_nat a - 1 :: u64) = a - 1"
  proof -
    have "unat (of_nat a :: u64) = a" using sm(1) by (intro unat_of_nat64) simp
    then show ?thesis using a by (subst unat_sub64) simp_all
  qed
  have r1: "rc_reassembler r1 = rc_reassembler r" "rc_capacity r1 = rc_capacity r" "rc_syn r1" "rc_isn r1 = ucast isn"
      "rc_fin r1 = (rc_fin r \<or> th_fin ?h)"
    using ri(2) ra(2) by (simp_all add: r1_def)
  obtain r' where r': "rc_push seg r1 = Inr r'" "rc_inv S isn r'" "rc_syn r'" "rc_fin r' = rc_fin r1"
      "rc_capacity r' = rc_capacity r1"
      and p: "pushed (seg_data seg) (of_nat a - 1) (th_fin ?h) (rc_reassembler r) (rc_reassembler r')"
    by (rule rc_push_facts [of S r1 isn a seg])
      (use ra(1,3) m(5,6) sm carr r1 acc(1) in simp_all)
  define m' where "m' = (if seg_data seg = [] then m else max m (a - 1 + ?l))"
  have dat: "seg_data seg \<noteq> [] \<longrightarrow> a - 1 + ?l \<le> N" using seg(1) acc(1) by (auto simp: seg_at_def data_index_def)
  have mmax: "m \<le> rc_max r" using ra_inv_bounds(3) [OF ra(1)] m(5) by simp
  have edge: "rc_edge r = rc_max r + 1" using rc_edge_max [OF ri(1)] .
  have fin': "a = m + 1 \<and> m + ?l = N \<and> \<not> rc_fin r" if "th_fin ?h"
    using that fin len m(1,4) seg(2) acc(2) by (auto split: if_splits)
  have new: "a - 1 \<le> m \<and> a - 1 + ?l \<le> rc_max r" if "seg_data seg \<noteq> []"
    using that dat m(3,4) seg(2) fits len edge mmax a by (auto split: if_splits)
  have rec: "rc_received r' = {..<m'}"
  proof (cases "seg_data seg = []")
    case True
    then show ?thesis using p m(2) by (simp add: pushed_def m'_def)
  next
    case False
    then have "{a - 1..<a - 1 + ?l} \<inter> {..<rc_max r} = {a - 1..<a - 1 + ?l}" using new by auto
    then show ?thesis using p m(2) lessThan_Un [of "a - 1" m ?l] new False by (simp add: pushed_def m'_def ai)
  qed
  have K': "max K (a + seg_len seg) = m' + 1 + (if rc_fin r' then 1 else 0)" "rc_fin r' \<longrightarrow> m' = N" "m' \<le> N"
    using r'(4) r1(5) fin' m(1,3,4) len seg(1,2) dat a by (auto simp: m'_def max_def seg_at_def split: if_splits)
  have ra': "ra_inv S (rc_reassembler r')" using r'(2) by (simp add: rc_inv_def)
  note q = push_in_order [OF ra(1) m(6) ra' p m(2) rec]
  have un: "unat (of_nat N :: u64) = N" "unat (2147483647 :: u64) = 2147483647" using ri(3) by (simp_all add: unat_of_nat64)
  have fl: "rc_fin r' = (rc_fin r \<or> th_fin ?h)" using r'(4) r1(5) by simp
  have e: "ra_input_end_idx (rc_reassembler r') = (if rc_fin r' then of_nat m' else 2147483647)"
  proof (cases "th_fin ?h")
    case True
    have "of_nat a - 1 + of_nat ?l = (of_nat N :: u64)" using fin' [OF True] by (simp add: of_nat_add [symmetric] del: of_nat_add)
    then show ?thesis using True p K'(2) fl by (simp add: pushed_def)
  next
    case False
    then show ?thesis using p m(3,7) K'(2) fl by (simp add: pushed_def)
  qed
  have "bs_input_end (rc_stream_out r') = rc_fin r'"
    using q(4) ri(5) e K'(2,3) un fl fin' mmax ai ri(3) m(3) by (auto simp: rc_stream_out_def split: if_splits)
  then have "rc_at S N isn r' (max K (a + seg_len seg))"
    unfolding rc_at_def using r'(2,3,5) ri(3,4) rec K' e r1(2) by auto
  then show ?thesis using r'(1,5) r1(2) p by (auto simp: pushed_def rc_stream_out_def)
qed

lemma rc_at_receives:
  assumes r: "rc_at S N isn r K" and seg: "seg_at S N isn a seg" "a = K \<or> a + seg_len seg \<le> K"
    and fits: "a + length (seg_data seg) \<le> rc_edge r \<or> a + seg_len seg \<le> K"
  shows "\<exists>r'. rc_segment_received seg r = Inr r' \<and> rc_at S N isn r' (max K (a + seg_len seg)) \<and> rc_capacity r' = rc_capacity r \<and>
    bs_read_bytes (rc_stream_out r') = bs_read_bytes (rc_stream_out r)"
proof (cases "th_syn (seg_header seg) \<or> th_fin (seg_header seg) \<and> rc_fin r")
  case True
  then have "rc_segment_received seg r = Inr r" using r by (auto simp: rc_segment_received_def rc_at_def)
  moreover have "a + seg_len seg \<le> K"
    using seg(2) seg_at_syn [OF seg(1)] True rc_at_bounds(1-3) [OF r] seg(1) by (auto simp: seg_at_def)
  ultimately show ?thesis using r by (simp add: max_absorb1)
next
  case False
  moreover have "rc_syn r" using r by (simp add: rc_at_def)
  ultimately have "rc_segment_received seg r = rc_push seg (if th_fin (seg_header seg) then r\<lparr>rc_fin := True\<rparr> else r)"
    by (auto simp: rc_segment_received_def)
  then show ?thesis using rc_at_push [OF assms] False by simp
qed

end
