(* ===== verification/Lossless_Sender.thy ===== *)
theory Lossless_Sender
  imports In_Order
begin

text \<open>
  What a sender does while nothing is lost: it never runs ahead of the window of its peer, it never waits with
  nothing in flight, it never resets, and its retransmission counter does not exceed one.
\<close>

section \<open>The sender\<close>

abbreviation snd_n :: "tcp_sender \<Rightarrow> nat" where "snd_n s \<equiv> unat (snd_next_seqno s)"
abbreviation snd_b :: "tcp_sender \<Rightarrow> nat" where "snd_b s \<equiv> unat (snd_rcv_base s)"

text \<open>What \<open>fill_window\<close> does to a sender, besides what \<open>sends\<close> says.\<close>

definition grows :: "tcp_sender \<Rightarrow> tcp_sender \<Rightarrow> bool" where
  "grows s s' \<longleftrightarrow> (\<exists>segs. snd_outstanding_segments s' = snd_outstanding_segments s @ segs \<and>
     snd_next_seqno s' = snd_next_seqno s + of_nat (flight segs))"

lemma grows_refl: "snd_outstanding_segments s' = snd_outstanding_segments s \<Longrightarrow> snd_next_seqno s' = snd_next_seqno s \<Longrightarrow> grows s s'"
  unfolding grows_def by (rule exI [of _ "[]"]) simp

lemma grows_trans:
  assumes "grows s t" "grows t u"
  shows "grows s u"
proof -
  obtain xs ys where "snd_outstanding_segments t = snd_outstanding_segments s @ xs" "snd_next_seqno t = snd_next_seqno s + of_nat (flight xs)"
      "snd_outstanding_segments u = snd_outstanding_segments t @ ys" "snd_next_seqno u = snd_next_seqno t + of_nat (flight ys)"
    using assms by (auto simp: grows_def)
  then show ?thesis unfolding grows_def by (intro exI [of _ "xs @ ys"]) (simp add: add.assoc)
qed

lemma grows_handler:
  assumes "snd_outstanding_segments t = snd_outstanding_segments s" "snd_next_seqno t = snd_next_seqno s"
  shows "grows s (segment_handler seg t)"
  unfolding grows_def using assms by (intro exI [of _ "[stamped t seg]"]) simp

definition calm :: "tcp_sender \<Rightarrow> bool" where
  "calm s \<longleftrightarrow> (\<forall>seg\<in>set (snd_segments_out s) \<union> set (snd_outstanding_segments s). \<not> th_rst (seg_header seg)) \<and>
     (snd_fin_sent s \<longrightarrow> bs_eof (snd_stream s))"

lemma calm_handler:
  assumes "calm s" "\<not> th_rst (seg_header seg)" "snd_fin_sent t \<longrightarrow> bs_eof (snd_stream t)"
    "snd_segments_out t = snd_segments_out s" "snd_outstanding_segments t = snd_outstanding_segments s"
  shows "calm (segment_handler seg t)"
  using assms by (auto simp: calm_def stamped_def)

lemma data_segment_calm:
  "data_segment s data st = (seg, fin) \<Longrightarrow> \<not> th_rst (seg_header seg) \<and> (fin \<longrightarrow> bs_eof st)"
  by (auto simp: data_segment_def Let_def seg_new_def th_new_def split: if_splits)

lemma fill_loop_calm:
  "fill_loop w s = Inr s' \<Longrightarrow> calm s \<Longrightarrow>
   calm s' \<and> grows s s' \<and> snd_receiver_window_size s' = snd_receiver_window_size s"
proof (induction "length (bs_contents (snd_stream s))" arbitrary: s rule: less_induct)
  case less
  define f :: u32 where "f = ucast (ucast w - snd_next_seqno s)"
  define p where "p = (if (ucast f :: u64) > MAX_PAYLOAD_SIZE then ucast MAX_PAYLOAD_SIZE else f)"
  define s0 where "s0 = s\<lparr>snd_free_bytes := f\<rparr>"
  show ?case
  proof (cases "f \<noteq> 0 \<and> \<not> snd_fin_sent s \<and> \<not> bs_buffer_empty (snd_stream s)")
    case True
    then have "fill_loop w s = bindE (bs_read (unat p) (snd_stream s)) (\<lambda>(data, stream).
        let (seg, fin) = data_segment s0 data stream
        in fill_loop w (segment_handler seg (s0\<lparr>snd_stream := stream, snd_fin_sent := snd_fin_sent s \<or> fin\<rparr>)))"
      by (subst fill_loop.simps) (simp add: Let_def f_def p_def s0_def)
    with less.prems(1) obtain d st where rd: "bs_read (unat p) (snd_stream s) = Inr (d, st)" and
      go0: "(let (seg, fin) = data_segment s0 d st in fill_loop w (segment_handler seg
          (s0\<lparr>snd_stream := st, snd_fin_sent := snd_fin_sent s \<or> fin\<rparr>))) = Inr s'"
      by (cases "bs_read (unat p) (snd_stream s)") auto
    obtain seg fin where sg: "data_segment s0 d st = (seg, fin)" by force
    let ?t = "s0\<lparr>snd_stream := st, snd_fin_sent := snd_fin_sent s \<or> fin\<rparr>"
    have go: "fill_loop w (segment_handler seg ?t) = Inr s'" using go0 sg by simp
    have "p \<noteq> 0" using True by (auto simp: p_def MAX_PAYLOAD_SIZE_def)
    then have "length (bs_contents st) < length (bs_contents (snd_stream s))"
      using True by (intro bs_read_shrinks [OF rd]) (auto simp: unat_gt_0)
    moreover have "calm (segment_handler seg ?t)"
      using less.prems(2) data_segment_calm [OF sg] True by (intro calm_handler [of s]) (auto simp: s0_def)
    moreover have "grows s (segment_handler seg ?t)" by (rule grows_handler) (simp_all add: s0_def)
    ultimately show ?thesis using less.hyps [OF _ go] grows_trans by (auto simp: s0_def)
  next
    case False
    then show ?thesis using less.prems
      by (subst (asm) fill_loop.simps) (auto simp: Let_def f_def calm_def intro!: grows_refl)
  qed
qed

lemma fill_window_calm:
  assumes "fill_window s = Inr s'" "calm s"
  shows "calm s'" "grows s s'" "snd_receiver_window_size s' = snd_receiver_window_size s \<or>
    snd_receiver_window_size s = 0 \<and> snd_receiver_window_size s' = 1"
proof -
  let ?fin = "seg_new\<lparr>seg_header := (seg_header seg_new)\<lparr>th_fin := True\<rparr>\<rparr>"
  let ?syn = "seg_new\<lparr>seg_header := (seg_header seg_new)\<lparr>th_syn := True\<rparr>\<rparr>"
  have rst: "\<not> th_rst (seg_header ?fin)" "\<not> th_rst (seg_header ?syn)" by (simp_all add: seg_new_def th_new_def)
  have "calm s' \<and> grows s s' \<and> (snd_receiver_window_size s' = snd_receiver_window_size s \<or>
    snd_receiver_window_size s = 0 \<and> snd_receiver_window_size s' = 1)"
  proof (cases "may_fill s")
    case True
    define s1 where "s1 = s\<lparr>snd_receiver_window_size :=
      (if snd_receiver_window_size s = 0 then 1 else snd_receiver_window_size s)\<rparr>"
    define s2 where "s2 = (if bs_eof (snd_stream s1) \<and> ucast (snd_rcv_base s1 + snd_receiver_window_size s1) > snd_next_seqno s1
      then segment_handler ?fin (s1\<lparr>snd_fin_sent := True\<rparr>) else s1)"
    have c1: "calm s1" using assms(2) by (simp add: s1_def calm_def)
    have "calm s2" using c1 rst calm_handler [OF c1, of ?fin "s1\<lparr>snd_fin_sent := True\<rparr>"] by (simp add: s2_def)
    moreover have "fill_loop (snd_rcv_base s1 + snd_receiver_window_size s1) s2 = Inr s'"
      using assms(1) True by (auto simp: fill_window_def may_fill_def Let_def s1_def s2_def)
    moreover have "grows s s2"
      using grows_handler [of "s1\<lparr>snd_fin_sent := True\<rparr>" s ?fin] grows_refl [of s1 s] by (simp add: s2_def s1_def)
    ultimately show ?thesis using fill_loop_calm [of _ s2 s'] grows_trans [of s s2 s'] by (auto simp: s2_def s1_def)
  next
    case False
    then show ?thesis using assms calm_handler [OF assms(2), of ?syn "s\<lparr>snd_syn_sent := True\<rparr>"] rst
        grows_handler [of "s\<lparr>snd_syn_sent := True\<rparr>" s ?syn] grows_refl [of s s]
      by (auto simp: fill_window_def may_fill_def calm_def split: if_splits)
  qed
  then show "calm s'" "grows s s'" "snd_receiver_window_size s' = snd_receiver_window_size s \<or>
    snd_receiver_window_size s = 0 \<and> snd_receiver_window_size s' = 1" by simp_all
qed

text \<open>
  A sender in the middle of a transfer over a link that loses nothing, whose peer has room up to \<open>E\<close>: it never
  runs ahead of the window, and it never waits with nothing in flight.
\<close>

definition snd_pre :: "(nat \<Rightarrow> u8) \<Rightarrow> nat \<Rightarrow> wrapping_int32 \<Rightarrow> nat \<Rightarrow> tcp_sender \<Rightarrow> bool" where
  "snd_pre S N isn E s \<longleftrightarrow> snd_run_inv S N isn s \<and> snd_syn_sent s \<and> calm s \<and>
     (bs_input_end (snd_stream s) \<longrightarrow> bs_write_bytes (snd_stream s) = N) \<and>
     min (snd_n s) (N + 1) \<le> max E (snd_b s + 1) \<and>
     (\<not> snd_fin_sent s \<longrightarrow> snd_n s \<le> right_edge s \<and> right_edge s \<le> max E (snd_b s + 1))"

abbreviation wants_to_send :: "tcp_sender \<Rightarrow> bool" where
  "wants_to_send s \<equiv> bs_contents (snd_stream s) \<noteq> [] \<or> bs_input_end (snd_stream s)"

definition snd_at :: "(nat \<Rightarrow> u8) \<Rightarrow> nat \<Rightarrow> wrapping_int32 \<Rightarrow> nat \<Rightarrow> tcp_sender \<Rightarrow> bool" where
  "snd_at S N isn E s \<longleftrightarrow> snd_pre S N isn E s \<and> (wants_to_send s \<longrightarrow> snd_fin_sent s \<or> snd_b s < snd_n s)"

lemma snd_pre_parts:
  assumes "snd_pre S N isn E s"
  shows "snd_inv S s" "bs_write_bytes (snd_stream s) + 2 < 2 ^ 31" "N + 2 < 2 ^ 31" "snd_isn s = isn" "stream_of S (snd_stream s)"
    "bs_read_bytes (snd_stream s) \<le> bs_write_bytes (snd_stream s)" "bs_write_bytes (snd_stream s) \<le> N"
    "snd_b s \<le> snd_n s" "snd_n s = 1 + bs_read_bytes (snd_stream s) + (if snd_fin_sent s then 1 else 0)"
    "snd_fin_sent s \<longleftrightarrow> snd_n s = N + 2" "snd_n s \<le> N + 2" "snd_b s < 2 ^ 31" "snd_n s < 2 ^ 31"
    "snd_fin_sent s \<Longrightarrow> bs_read_bytes (snd_stream s) = N"
proof -
  show inv: "snd_inv S s" and N: "bs_write_bytes (snd_stream s) \<le> N" "N + 2 < 2 ^ 31" and "snd_isn s = isn"
    using assms by (simp_all add: snd_pre_def snd_run_inv_def)
  show small: "bs_write_bytes (snd_stream s) + 2 < 2 ^ 31" using N by simp
  show st: "stream_of S (snd_stream s)" using inv by (simp add: snd_inv_def)
  show le: "bs_read_bytes (snd_stream s) \<le> bs_write_bytes (snd_stream s)" by (rule stream_of_written [OF st])
  show "snd_b s \<le> snd_n s" using inv by (simp add: snd_inv_def snd_queue_ok_def)
  show n: "snd_n s = 1 + bs_read_bytes (snd_stream s) + (if snd_fin_sent s then 1 else 0)"
    using inv assms by (simp add: snd_inv_def snd_pos_ok_def snd_pre_def)
  show e: "bs_read_bytes (snd_stream s) = N" if "snd_fin_sent s"
  proof -
    have "bs_eof (snd_stream s)" "bs_input_end (snd_stream s) \<longrightarrow> bs_write_bytes (snd_stream s) = N"
      using assms that by (simp_all add: snd_pre_def calm_def)
    moreover have "bs_contents (snd_stream s) = map S [bs_read_bytes (snd_stream s)..<bs_write_bytes (snd_stream s)]"
      using st unfolding stream_of_def by blast
    ultimately show ?thesis using le by (auto simp: bs_eof_def bs_input_ended_def)
  qed
  then show "snd_fin_sent s \<longleftrightarrow> snd_n s = N + 2" "snd_n s \<le> N + 2" using n le N(1) by auto
  show "snd_b s < 2 ^ 31" "snd_n s < 2 ^ 31" using snd_next_bound [OF inv small] by simp_all
qed

lemma sent_chain_append: "sent_chain S isn a (xs @ ys) e \<longleftrightarrow> (\<exists>m. sent_chain S isn a xs m \<and> sent_chain S isn m ys e)"
  by (induction xs arbitrary: a) auto

lemma sent_chain_start: "sent_chain S isn a xs e \<Longrightarrow> sent_chain S isn b xs e \<Longrightarrow> a = b"
  using sent_chain_end by (metis add_right_cancel)

lemma grows_chain:
  assumes "snd_inv S s" "snd_inv S s'" "grows s s'" "sends s segs s'" "snd_n s + flight segs < 2 ^ 64"
  shows "sent_chain S (snd_isn s) (snd_n s) segs (snd_n s')" "snd_base s' = snd_base s"
proof -
  let ?o = "snd_outstanding_segments s"
  have n: "snd_n s' = snd_n s + flight segs"
    using assms(3,4,5) by (auto simp: grows_def sends_def unat_add64 unat_of_nat64)
  have c: "sent_chain S (snd_isn s) (snd_base s) ?o (snd_n s)" "flight ?o \<le> snd_n s"
    "sent_chain S (snd_isn s) (snd_base s') (?o @ segs) (snd_n s')"
    using assms(1,2,4) by (simp_all add: snd_inv_def snd_queue_ok_def sends_def)
  show b: "snd_base s' = snd_base s" using n c(2) assms(4) by (simp add: snd_base_def sends_def)
  obtain m where m: "sent_chain S (snd_isn s) (snd_base s) ?o m" "sent_chain S (snd_isn s) m segs (snd_n s')"
    using c(3) b by (auto simp: sent_chain_append)
  then show "sent_chain S (snd_isn s) (snd_n s) segs (snd_n s')"
    using sent_chain_end [OF m(1)] sent_chain_end [OF c(1)] by simp
qed

lemma snd_base_bounds:
  assumes "snd_inv S s"
  shows "snd_base s \<le> snd_b s" "snd_b s \<le> snd_n s" "snd_base s + flight (snd_outstanding_segments s) = snd_n s"
    "sent_chain S (snd_isn s) (snd_base s) (snd_outstanding_segments s) (snd_n s)"
    "snd_outstanding_segments s \<noteq> [] \<longrightarrow> snd_b s < snd_base s + seg_len (hd (snd_outstanding_segments s))"
    "snd_timer_running s \<longleftrightarrow> snd_outstanding_segments s \<noteq> []"
  using assms by (auto simp: snd_inv_def snd_queue_ok_def snd_base_def)

lemma syn_in_flight:
  assumes "snd_inv S s" "snd_outstanding_segments s \<noteq> []" "th_syn (seg_header (hd (snd_outstanding_segments s)))"
  shows "snd_b s < snd_n s"
proof -
  note b = snd_base_bounds [OF assms(1)]
  obtain x xs where o: "snd_outstanding_segments s = x # xs" using assms(2) by (cases "snd_outstanding_segments s") auto
  show ?thesis using b assms(2) o by auto
qed

lemma right_edge_gt: "snd_b s < right_edge s"
  by (simp add: right_edge_def max_def)

text \<open>\<open>fill_window\<close> took \<open>t\<close> to \<open>s'\<close> and put \<open>segs\<close> on its queues.\<close>

definition fills :: "(nat \<Rightarrow> u8) \<Rightarrow> tcp_sender \<Rightarrow> tcp_segment list \<Rightarrow> tcp_sender \<Rightarrow> bool" where
  "fills S t segs s' \<longleftrightarrow> fill_window t = Inr s' \<and> snd_inv S s' \<and> sends t segs s' \<and> snd_syn_sent s' \<and>
     (may_fill t \<longrightarrow> snd_n t \<le> right_edge t \<longrightarrow> (\<exists>w. unat w = right_edge t \<and> filled w s') \<and>
       (bs_eof (snd_stream t) \<longrightarrow> snd_n t < right_edge t \<longrightarrow> snd_fin_sent s'))"

lemma snd_pre_fills:
  assumes pre: "snd_pre S N isn E t"
  obtains s' segs where "fills S t segs s'"
  by (rule fill_window_facts [OF snd_pre_parts(1,2) [OF pre]]) (rule that, simp add: fills_def)

lemma fills_same:
  assumes pre: "snd_pre S N isn E t" and f: "fills S t segs s'"
  shows "snd_b s' = snd_b t" "bs_write_bytes (snd_stream s') = bs_write_bytes (snd_stream t)"
    "bs_input_end (snd_stream s') = bs_input_end (snd_stream t)" "snd_isn s' = snd_isn t" "right_edge s' = right_edge t" "calm s'"
    "snd_n t \<le> snd_n s'" "snd_n s' = 1 + bs_read_bytes (snd_stream s') + (if snd_fin_sent s' then 1 else 0)"
    "bs_contents (snd_stream s') = map S [bs_read_bytes (snd_stream s')..<bs_write_bytes (snd_stream s')]"
    "\<not> may_fill t \<Longrightarrow> s' = t"
proof -
  note p = snd_pre_parts [OF pre]
  have w: "fill_window t = Inr s'" "snd_inv S s'" "sends t segs s'" "snd_syn_sent s'" using f unfolding fills_def by blast+
  have syn: "snd_syn_sent t" "calm t" using pre by (simp_all add: snd_pre_def)
  note c = fill_window_calm [OF w(1) syn(2)]
  show "snd_b s' = snd_b t" "bs_write_bytes (snd_stream s') = bs_write_bytes (snd_stream t)"
    "bs_input_end (snd_stream s') = bs_input_end (snd_stream t)" "snd_isn s' = snd_isn t" using w(3) by (simp_all add: sends_def)
  then show "right_edge s' = right_edge t" using c(3) by (auto simp: right_edge_def max_def)
  show "calm s'" by (rule c)
  show "snd_n t \<le> snd_n s'" using fill_window_evolves [OF p(1) w(2,1,3)] by (auto simp: snd_evolves_def)
  show "snd_n s' = 1 + bs_read_bytes (snd_stream s') + (if snd_fin_sent s' then 1 else 0)"
    using w(2,4) by (simp add: snd_inv_def snd_pos_ok_def)
  show "bs_contents (snd_stream s') = map S [bs_read_bytes (snd_stream s')..<bs_write_bytes (snd_stream s')]"
    using w(2) unfolding snd_inv_def stream_of_def by blast
  show "\<not> may_fill t \<Longrightarrow> s' = t" using w(1) syn(1) by (auto simp: fill_window_def may_fill_def split: if_splits)
qed

lemma fills_window:
  assumes pre: "snd_pre S N isn E t" and f: "fills S t segs s'" "may_fill t"
  shows "snd_n s' \<le> right_edge t + (if snd_fin_sent s' then 1 else 0)"
    "snd_fin_sent s' \<or> bs_contents (snd_stream s') = [] \<or> snd_n s' = right_edge t"
    "bs_eof (snd_stream t) \<longrightarrow> snd_n t < right_edge t \<longrightarrow> snd_fin_sent s'"
proof -
  have "\<not> snd_fin_sent t" using f(2) by (simp add: may_fill_def)
  then have "snd_n t \<le> right_edge t" using pre by (simp add: snd_pre_def)
  with f obtain w where "unat w = right_edge t" "filled w s'" "bs_eof (snd_stream t) \<longrightarrow> snd_n t < right_edge t \<longrightarrow> snd_fin_sent s'"
    unfolding fills_def by blast
  then show "snd_n s' \<le> right_edge t + (if snd_fin_sent s' then 1 else 0)"
    "snd_fin_sent s' \<or> bs_contents (snd_stream s') = [] \<or> snd_n s' = right_edge t"
    "bs_eof (snd_stream t) \<longrightarrow> snd_n t < right_edge t \<longrightarrow> snd_fin_sent s'" by (simp_all add: filled_def)
qed

lemma fills_chain:
  assumes pre: "snd_pre S N isn E t" and f: "fills S t segs s'"
  shows "sent_chain S isn (snd_n t) segs (snd_n s')" "snd_base s' = snd_base t"
proof -
  note p = snd_pre_parts [OF pre] and same = fills_same [OF pre f]
  have w: "fill_window t = Inr s'" "snd_inv S s'" "sends t segs s'" using f unfolding fills_def by blast+
  have "calm t" using pre by (simp add: snd_pre_def)
  note c = fill_window_calm [OF w(1) this]
  have n31: "snd_n s' < 2 ^ 31" by (rule snd_next_bound(1) [OF w(2)]) (use p(2) same(2) in simp)
  have "flight segs \<le> snd_n s'" using snd_base_bounds(3) [OF w(2)] w(3) by (simp add: sends_def)
  then have "snd_n t + flight segs < 2 ^ 64" using n31 p(13) by simp
  from grows_chain [OF p(1) w(2) c(2) w(3) this] p(4) show "sent_chain S isn (snd_n t) segs (snd_n s')" "snd_base s' = snd_base t" by simp_all
qed

lemma fills_progress:
  assumes pre: "snd_pre S N isn E t" and f: "fills S t segs s'" and want: "wants_to_send t"
  shows "snd_fin_sent s' \<or> snd_b s' < snd_n s'"
proof (cases "may_fill t")
  case True
  note p = snd_pre_parts [OF pre] and same = fills_same [OF pre f] and fill = fills_window [OF pre f True]
  have nf: "\<not> snd_fin_sent t" using True by (simp add: may_fill_def)
  consider "snd_fin_sent s'" | "snd_n s' = right_edge t" | "\<not> snd_fin_sent s'" "bs_contents (snd_stream s') = []" using fill(2) by blast
  then show ?thesis
  proof cases
    case 3
    then have rd: "bs_read_bytes (snd_stream s') \<ge> bs_write_bytes (snd_stream t)" using same(2,9) by auto
    show ?thesis
    proof (cases "bs_contents (snd_stream t) = []")
      case True
      then have "bs_eof (snd_stream t)" using want by (simp add: bs_eof_def bs_input_ended_def)
      then have "right_edge t \<le> snd_n t" using fill(3) 3(1) by force
      then show ?thesis using right_edge_gt [of t] same(1,7) by simp
    next
      case False
      then have "bs_read_bytes (snd_stream t) < bs_write_bytes (snd_stream t)" using p(5) by (simp add: stream_of_def)
      then have "snd_n t < snd_n s'" using rd same(8) p(9) nf by simp
      then show ?thesis using p(8) same(1) by simp
    qed
  qed (use right_edge_gt [of t] same(1) in simp_all)
next
  case False
  have "snd_syn_sent t" using pre by (simp add: snd_pre_def)
  then show ?thesis using False fills_same(10) [OF pre f False] syn_in_flight [OF snd_pre_parts(1) [OF pre]] by (auto simp: may_fill_def)
qed

lemma fills_pre:
  assumes pre: "snd_pre S N isn E t" and f: "fills S t segs s'"
  shows "snd_pre S N isn E s'"
proof (cases "may_fill t")
  case True
  note p = snd_pre_parts [OF pre] and same = fills_same [OF pre f] and fill = fills_window [OF pre f True]
  have t: "bs_input_end (snd_stream t) \<longrightarrow> bs_write_bytes (snd_stream t) = N" "\<not> snd_fin_sent t" "right_edge t \<le> max E (snd_b t + 1)"
    using pre True by (simp_all add: snd_pre_def may_fill_def)
  have s: "snd_inv S s'" "snd_syn_sent s'" using f unfolding fills_def by blast+
  have run: "snd_run_inv S N isn s'" using s(1) same(2,4) p(3,4,7) by (simp add: snd_run_inv_def)
  have le: "snd_n s' \<le> max E (snd_b s' + 1) + (if snd_fin_sent s' then 1 else 0)" using fill(1) t(3) same(1) by auto
  have re: "\<not> snd_fin_sent s' \<longrightarrow> snd_n s' \<le> right_edge s'" using fill(1) same(5) by (simp split: if_splits)
  have "min (snd_n s') (N + 1) \<le> max E (snd_b s' + 1)"
  proof (cases "snd_fin_sent s'")
    case fin: True
    have "bs_eof (snd_stream s')" using same(6) fin by (simp add: calm_def)
    then have "bs_input_end (snd_stream s')" "bs_write_bytes (snd_stream s') \<le> bs_read_bytes (snd_stream s')"
      using same(9) by (auto simp: bs_eof_def bs_input_ended_def)
    then have "snd_n s' \<ge> N + 2" using same(2,3,8) fin t(1) by simp
    then show ?thesis using le fin by simp
  qed (use le in simp)
  then show ?thesis using run s(2) same(1-3,5,6) t re by (simp add: snd_pre_def)
next
  case False
  then show ?thesis using fills_same(10) [OF pre f False] pre by simp
qed

lemma snd_pre_fill:
  assumes pre: "snd_pre S N isn E t"
  obtains s' segs where "fill_window t = Inr s'" "snd_at S N isn E s'" "sends t segs s'"
    "sent_chain S isn (snd_n t) segs (snd_n s')" "snd_base s' = snd_base t" "snd_n t \<le> snd_n s'"
    "snd_consecutive_retransmission s' = snd_consecutive_retransmission t"
    "wants_to_send t \<longrightarrow> snd_fin_sent s' \<or> snd_b s' < snd_n s'"
proof -
  obtain s' segs where f: "fills S t segs s'" by (rule snd_pre_fills [OF pre])
  have w: "fill_window t = Inr s'" "sends t segs s'" using f unfolding fills_def by blast+
  note same = fills_same [OF pre f]
  have fr: "snd_frame t s'" by (rule fill_window_frame [OF w(1)])
  have "wants_to_send t" if "wants_to_send s'"
  proof (rule ccontr)
    assume t: "\<not> wants_to_send t"
    then have "bs_write_bytes (snd_stream t) \<le> bs_read_bytes (snd_stream t)" using snd_pre_parts(5) [OF pre] by (auto simp: stream_of_def)
    moreover have "bs_read_bytes (snd_stream s') < bs_write_bytes (snd_stream s')" using that t same(3,9) by auto
    moreover have "bs_read_bytes (snd_stream t) \<le> bs_read_bytes (snd_stream s')" using w(2) fr by (simp add: snd_frame_def sends_def)
    ultimately show False using same(2) by simp
  qed
  then have "snd_at S N isn E s'" using fills_pre [OF pre f] fills_progress [OF pre f] by (auto simp: snd_at_def)
  then show thesis using that w fills_chain [OF pre f] same(7) fills_progress [OF pre f] fr by (simp add: snd_frame_def)
qed

text \<open>
  Acknowledgments up to \<open>D\<close> are on their way. The retransmission counter is zero once something has been acknowledged.
\<close>

definition pending :: "(nat \<Rightarrow> u8) \<Rightarrow> nat \<Rightarrow> nat \<Rightarrow> tcp_sender \<Rightarrow> bool" where
  "pending S D b0 s \<longleftrightarrow> (\<exists>xs ys. snd_outstanding_segments s = xs @ ys \<and> sent_chain S (snd_isn s) D ys (snd_n s)) \<and>
     snd_consecutive_retransmission s \<le> 1 \<and>
     (snd_consecutive_retransmission s = 0 \<or> snd_base s = b0 \<and> (b0 = D \<longrightarrow> snd_n s = D))"

lemma pending_start:
  "snd_inv S s \<Longrightarrow> snd_consecutive_retransmission s \<le> 1 \<Longrightarrow> pending S (snd_n s) (snd_base s) s"
  unfolding pending_def by (intro conjI exI [of _ "snd_outstanding_segments s"] exI [of _ "[]"]) auto

lemma flight_nonempty: "sent_chain S isn a segs e \<Longrightarrow> segs \<noteq> [] \<Longrightarrow> a < e"
  using sent_chain_end [of S isn a segs e] by (cases segs) auto

lemma sent_chain_take: "sent_chain S isn a segs e \<Longrightarrow> sent_chain S isn a (take j segs) (a + flight (take j segs))"
  by (metis append_take_drop_id sent_chain_append sent_chain_end)

lemma pending_step:
  assumes p: "pending S D b0 s" and inv: "snd_inv S s" and o: "snd_outstanding_segments s' = drop j (snd_outstanding_segments s) @ segs"
    and le: "0 < j \<longrightarrow> snd_base s + flight (take j (snd_outstanding_segments s)) \<le> D" "j \<le> length (snd_outstanding_segments s)"
    and ch: "sent_chain S (snd_isn s) (snd_n s) segs (snd_n s')" "snd_isn s' = snd_isn s"
    and cnt: "snd_consecutive_retransmission s' = 0 \<or>
      snd_consecutive_retransmission s' = snd_consecutive_retransmission s \<and> snd_base s' = snd_base s"
    and stay: "snd_base s = D \<longrightarrow> snd_n s' = snd_n s"
  shows "pending S D b0 s'"
proof -
  obtain xs ys where xy: "snd_outstanding_segments s = xs @ ys" "sent_chain S (snd_isn s) D ys (snd_n s)"
    using p by (auto simp: pending_def)
  obtain m where m: "sent_chain S (snd_isn s) (snd_base s) xs m" "sent_chain S (snd_isn s) m ys (snd_n s)"
    using snd_base_bounds(4) [OF inv] xy(1) by (auto simp: sent_chain_append)
  have mD: "m = D" using sent_chain_end [OF m(2)] sent_chain_end [OF xy(2)] by simp
  have j: "j \<le> length xs"
  proof (rule ccontr)
    assume "\<not> j \<le> length xs"
    then have t: "take j (snd_outstanding_segments s) = xs @ take (j - length xs) ys" "take (j - length xs) ys \<noteq> []"
      using xy(1) le(2) by auto
    have "D < D + flight (take (j - length xs) ys)" using flight_nonempty [OF sent_chain_take [OF xy(2)] t(2)] .
    then show False using le(1) t(1) sent_chain_end [OF m(1)] mD \<open>\<not> j \<le> length xs\<close> by auto
  qed
  have "snd_outstanding_segments s' = drop j xs @ (ys @ segs)" using o xy(1) j by simp
  moreover have "sent_chain S (snd_isn s') D (ys @ segs) (snd_n s')" using xy(2) ch by (auto simp: sent_chain_append)
  ultimately show ?thesis using p cnt stay unfolding pending_def by auto
qed

lemma pending_done:
  assumes "pending S D b0 s" "snd_inv S s" "snd_b s = D"
  shows "snd_base s = D" "snd_consecutive_retransmission s = 0 \<or> snd_n s = D"
proof -
  note b = snd_base_bounds [OF assms(2)]
  obtain xs ys where xy: "snd_outstanding_segments s = xs @ ys" "sent_chain S (snd_isn s) D ys (snd_n s)"
    using assms(1) by (auto simp: pending_def)
  obtain m where m: "sent_chain S (snd_isn s) (snd_base s) xs m" "sent_chain S (snd_isn s) m ys (snd_n s)"
    using b(4) xy(1) by (auto simp: sent_chain_append)
  have mD: "m = D" using sent_chain_end [OF m(2)] sent_chain_end [OF xy(2)] by simp
  have "xs = []"
  proof (rule ccontr)
    assume "xs \<noteq> []"
    then have "snd_base s + seg_len (hd xs) \<le> D" using sent_chain_end [OF m(1)] mD by (cases xs) auto
    then show False using b(5) xy(1) \<open>xs \<noteq> []\<close> assms(3) by simp
  qed
  then show "snd_base s = D" using m(1) mD by simp
  then show "snd_consecutive_retransmission s = 0 \<or> snd_n s = D" using assms(1) by (auto simp: pending_def)
qed

text \<open>The application has neither written nor ended its stream.\<close>

definition same_input :: "tcp_sender \<Rightarrow> tcp_sender \<Rightarrow> bool" where
  "same_input s s' \<longleftrightarrow> bs_write_bytes (snd_stream s') = bs_write_bytes (snd_stream s) \<and>
     bs_input_end (snd_stream s') = bs_input_end (snd_stream s) \<and> bs_capacity (snd_stream s') = bs_capacity (snd_stream s)"

lemma same_input_refl: "snd_stream s' = snd_stream s \<Longrightarrow> same_input s s'"
  by (simp add: same_input_def)

lemma same_input_trans: "same_input s t \<Longrightarrow> same_input t u \<Longrightarrow> same_input s u"
  by (simp add: same_input_def)

lemma snd_at_ack:
  assumes at: "snd_at S N isn E s" and k: "snd_b s \<le> k" "k \<le> snd_n s" "k \<le> N + 1 \<longrightarrow> k + unat win = E"
  obtains s' segs where "ack_received (wrap (of_nat k) isn) win s = Inr s'" "snd_at S N isn E s'" "snd_b s' = k"
    "snd_segments_out s' = snd_segments_out s @ segs" "sent_chain S isn (snd_n s) segs (snd_n s')" "snd_n s \<le> snd_n s'" "same_input s s'"
    "\<And>D b0. pending S D b0 s \<Longrightarrow> k \<le> D \<Longrightarrow> pending S D b0 s'"
proof -
  have pre: "snd_pre S N isn E s" using at by (simp add: snd_at_def)
  note p = snd_pre_parts [OF pre]
  have k31: "k < 2 ^ 31" using k(2) p(13) by simp
  then have uk: "unat (of_nat k :: u64) = k" by (intro unat_of_nat64) simp
  have q: "unwrap (wrap (of_nat k) isn) (snd_isn s) (ucast (snd_rcv_base s)) = of_nat k"
    unfolding p(4) using k31 uk p(12) by (intro unwrap_wrap_nat) (simp_all add: unat_ucast_32_64)
  have wn: "unat (ucast win :: u32) = unat win" by (simp add: unat_ucast_16_32)
  have edge: "k + max 1 (unat win) = max E (k + 1)" if "\<not> snd_fin_sent s"
    using k(2,3) p(10,11) that by (auto simp: max_def)
  have le: "min (snd_n s) (N + 1) \<le> max E (k + 1)" "\<not> snd_fin_sent s \<longrightarrow> snd_n s \<le> max E (k + 1)"
    using pre k(1) by (auto simp: snd_pre_def)
  show thesis
  proof (cases rule: ack_received_cases [OF p(1,2), of "wrap (of_nat k) isn" win, unfolded q uk])
    case 1
    then show thesis using k(2) by simp
  next
    case (2 s')
    have s': "snd_n s' = snd_n s" "snd_b s' = snd_b s" "snd_stream s' = snd_stream s" "snd_fin_sent s' = snd_fin_sent s" "snd_syn_sent s' = snd_syn_sent s"
        "calm s' = calm s" "snd_isn s' = snd_isn s" "snd_segments_out s' = snd_segments_out s" "snd_outstanding_segments s' = snd_outstanding_segments s"
        "snd_base s' = snd_base s" "snd_consecutive_retransmission s' = snd_consecutive_retransmission s" "snd_receiver_window_size s' = ucast win"
      using 2(3) by (simp_all add: calm_def snd_base_def)
    have "right_edge s' = k + max 1 (unat win)" using s' wn 2(1) k(1) by (simp add: right_edge_def)
    then have "snd_at S N isn E s'"
      using at 2(1,4) k(1) le edge s' unfolding snd_at_def snd_pre_def snd_run_inv_def by auto
    moreover have "pending S D b0 s'" if "pending S D b0 s" for D b0 using that s' by (simp add: pending_def)
    ultimately show thesis using that [of s' "[]"] 2 s' k(1) same_input_refl [of s' s] by simp
  next
    case (3 j t)
    have t: "snd_n t = snd_n s" "snd_b t = k" "snd_stream t = snd_stream s" "snd_fin_sent t = snd_fin_sent s" "snd_syn_sent t = snd_syn_sent s"
        "snd_isn t = snd_isn s" "snd_segments_out t = snd_segments_out s" "snd_outstanding_segments t = drop j (snd_outstanding_segments s)"
      using 3(5) k31 uk by (simp_all add: acked_state_def unat_ucast_mod)
    have ct: "calm t" using pre t by (auto simp: snd_pre_def calm_def dest: in_set_dropD)
    have "right_edge t = k + max 1 (unat win)" using t wn 3(6) by (simp add: right_edge_def)
    then have pt: "snd_pre S N isn E t"
      using pre 3(4) ct le edge t unfolding snd_pre_def snd_run_inv_def by auto
    obtain s' segs where f: "fill_window t = Inr s'" "snd_at S N isn E s'" "sends t segs s'"
        "sent_chain S isn (snd_n t) segs (snd_n s')" "snd_base s' = snd_base t" "snd_n t \<le> snd_n s'"
        "snd_consecutive_retransmission s' = snd_consecutive_retransmission t"
      by (rule snd_pre_fill [OF pt])
    have sn: "snd_b s' = k" "snd_isn s' = snd_isn s" "snd_segments_out s' = snd_segments_out s @ segs"
        "snd_outstanding_segments s' = drop j (snd_outstanding_segments s) @ segs"
      using f(3) t by (simp_all add: sends_def)
    have "pending S D b0 s'" if pd: "pending S D b0 s" "k \<le> D" for D b0
    proof (rule pending_step [OF pd(1) p(1) sn(4)])
      show "snd_consecutive_retransmission s' = 0 \<or>
          snd_consecutive_retransmission s' = snd_consecutive_retransmission s \<and> snd_base s' = snd_base s"
        using 3(5) f(5,7) t by (cases "j = 0") (auto simp: acked_state_def snd_base_def)
      show "snd_base s = D \<longrightarrow> snd_n s' = snd_n s" using snd_base_bounds(1) [OF p(1)] 3(1) pd(2) by simp
    qed (use 3(7,8) pd(2) f(4) t p(4) sn(2) in auto)
    moreover have "same_input s s'" using f(3) t(3) by (simp add: same_input_def sends_def)
    ultimately show thesis using that [of s' segs] 3(3) f t sn by simp
  qed
qed

end
