(* ===== verification/Lossless_Connection.thy ===== *)
theory Lossless_Connection
  imports Lossless_Sender
begin

text \<open>
  A connection on such a link: what it does with one segment, and what it puts on the link in answer.
\<close>

section \<open>The connection\<close>

lemma carries_unique:
  assumes "carries S isn a seg" "carries S isn b seg" "a < 2 ^ 31" "b < 2 ^ 31"
  shows "a = b"
proof -
  have u: "unat (of_nat x :: u64) = x" if "x < 2 ^ 31" for x using that by (intro unat_of_nat64) simp
  have "unwrap (wrap (of_nat x) isn) isn 0 = of_nat x" if "x < 2 ^ 31" for x
    using that u [OF that] by (intro unwrap_wrap_nat) simp_all
  moreover have "wrap (of_nat a) isn = wrap (of_nat b) isn" using assms(1,2) by (simp add: carries_def)
  ultimately show ?thesis using assms(3,4) u by metis
qed

lemma log_seg_at:
  assumes pre: "snd_pre S N isn E s" and log: "snd_log_ok S s seg" "\<not> th_rst (seg_header seg)"
    and a: "carries S isn a seg" "a < 2 ^ 31" "th_syn (seg_header seg) \<or> 0 < a"
  shows "seg_at S N isn a seg"
proof -
  note p = snd_pre_parts [OF pre]
  obtain b where b: "carries S isn b seg" "b + seg_len seg \<le> snd_n s"
      "seg_data seg = [] \<or> data_index b seg + length (seg_data seg) \<le> bs_read_bytes (snd_stream s)"
      "th_fin (seg_header seg) \<longrightarrow> snd_fin_sent s \<and> b + seg_len seg = snd_n s"
    using log(1) p(4) by (auto simp: snd_log_ok_def)
  have "b = a" using b(2) p(13) by (intro carries_unique [OF b(1) a(1) _ a(2)]) simp
  then show ?thesis using a b log(2) p(6,7,10,11) by (auto simp: seg_at_def)
qed

lemma seg_at_fields:
  assumes "seg_payload seg' = seg_payload seg" "th_seqno (seg_header seg') = th_seqno (seg_header seg)"
    "th_syn (seg_header seg') = th_syn (seg_header seg)" "th_fin (seg_header seg') = th_fin (seg_header seg)"
    "th_rst (seg_header seg') = th_rst (seg_header seg)"
  shows "seg_at S N isn a seg' = seg_at S N isn a seg" "seg_len seg' = seg_len seg"
proof -
  have "seg_data seg' = seg_data seg" "data_index a seg' = data_index a seg"
    using assms by (simp_all add: seg_data_def data_index_def)
  moreover show "seg_len seg' = seg_len seg" using assms by (simp add: length_in_sequence_space_def)
  ultimately show "seg_at S N isn a seg' = seg_at S N isn a seg" using assms by (simp add: seg_at_def carries_def)
qed

lemma set_seg_at [simp]: "seg_at S N isn a (set_seg c seg) = seg_at S N isn a seg" "seg_len (set_seg c seg) = seg_len seg"
  by (rule seg_at_fields; simp)+

lemma chain_feed:
  assumes pre: "snd_pre S N isn E s"
  shows "sent_chain S isn p segs n \<Longrightarrow> n \<le> snd_n s \<Longrightarrow> \<forall>seg\<in>set segs. snd_log_ok S s seg \<and> \<not> th_rst (seg_header seg) \<Longrightarrow>
    feed S N isn p (map (set_seg c) segs) n"
proof (induction segs arbitrary: p)
  case (Cons seg segs)
  have "p + seg_len seg \<le> n" using sent_chain_end [of S isn "p + seg_len seg" segs n] Cons.prems(1) by simp
  then have "seg_at S N isn p seg"
    using Cons.prems snd_pre_parts(13) [OF pre] by (intro log_seg_at [OF pre]) auto
  moreover have "feed S N isn (p + seg_len seg) (map (set_seg c) segs) n" using Cons by auto
  ultimately show ?case by (auto simp: max_absorb2)
qed simp

lemma set_seg_ack:
  assumes "rc_at P M pisn (tc_receiver c) K"
  shows "ack_at M pisn (rc_edge (tc_receiver c)) K (set_seg c seg)"
proof -
  let ?w = "rc_window_size (tc_receiver c)"
  have "unat (ucast ?w :: u16) = unat ?w" using rc_at_bounds(7) [OF assms] by (simp add: unat_ucast_mod)
  then show ?thesis using rc_at_ackno [OF assms] rc_at_bounds(6) [OF assms] by (simp add: ack_at_def set_seg_def)
qed

definition conn_at :: "(nat \<Rightarrow> u8) \<Rightarrow> nat \<Rightarrow> wrapping_int32 \<Rightarrow> nat \<Rightarrow> (nat \<Rightarrow> u8) \<Rightarrow> nat \<Rightarrow> wrapping_int32 \<Rightarrow> tcp_connection \<Rightarrow> nat \<Rightarrow> bool" where
  "conn_at S N isn E P M pisn c K \<longleftrightarrow> snd_at S N isn E (tc_sender c) \<and> snd_segments_out (tc_sender c) = [] \<and>
     rc_at P M pisn (tc_receiver c) K \<and> (\<not> tc_active c \<longrightarrow> snd_b (tc_sender c) = N + 2 \<and> K = M + 2)"

lemma drain_sender_sender:
  "snd_segments_out (tc_sender c) = segs \<Longrightarrow> tc_sender (drain_sender segs c) = (tc_sender c)\<lparr>snd_segments_out := []\<rparr>"
proof (induction segs arbitrary: c)
  case Nil
  then show ?case by (cases "tc_sender c") simp
next
  case (Cons seg segs)
  then show ?case by (cases "tc_sender c") simp
qed

lemma snd_at_queue:
  assumes "snd_at S N isn E s"
  shows "snd_at S N isn E (s\<lparr>snd_segments_out := []\<rparr>)"
proof -
  have "snd_run_inv S N isn (s\<lparr>snd_segments_out := []\<rparr>)"
    using snd_queue_works [of S N isn s "[]"] assms by (simp add: snd_at_def snd_pre_def snd_works_def)
  then show ?thesis using assms by (simp add: snd_at_def snd_pre_def calm_def right_edge_def)
qed

lemma snd_at_finished:
  assumes "snd_at S N isn E s" "bs_input_end (snd_stream s)" "snd_bytes_in_flight s = 0"
  shows "snd_b s = N + 2"
proof -
  have pre: "snd_pre S N isn E s" using assms(1) by (simp add: snd_at_def)
  note p = snd_pre_parts [OF pre]
  have f: "snd_bytes_in_flight s = of_nat (flight (snd_outstanding_segments s))" "flight (snd_outstanding_segments s) \<le> snd_n s"
    using p(1) by (simp_all add: snd_inv_def snd_queue_ok_def)
  have "unat (of_nat (flight (snd_outstanding_segments s)) :: u64) = flight (snd_outstanding_segments s)"
    using f(2) p(13) by (intro unat_of_nat64) simp
  then have "flight (snd_outstanding_segments s) = 0" using f(1) assms(3) by simp
  then have "snd_b s = snd_n s" using snd_base_bounds(1-3) [OF p(1)] by simp
  then show ?thesis using assms(1,2) p(10) by (simp add: snd_at_def)
qed

lemma conn_send:
  assumes s: "snd_at S N isn E (tc_sender c)" and r: "rc_at P M pisn (tc_receiver c) K"
    and act: "\<not> tc_active c \<longrightarrow> snd_b (tc_sender c) = N + 2 \<and> K = M + 2"
  defines "c' \<equiv> send_segs_from_sender c"
  shows "conn_at S N isn E P M pisn c' K" "tc_receiver c' = tc_receiver c"
    "tc_sender c' = (tc_sender c)\<lparr>snd_segments_out := []\<rparr>" "tc_cfg c' = tc_cfg c"
    "tc_segments_out c' = tc_segments_out c @ map (set_seg c) (snd_segments_out (tc_sender c))"
    "tc_time_since_last_segment_received c' = tc_time_since_last_segment_received c"
    "tc_active c' \<longrightarrow> tc_active c"
proof -
  let ?q = "snd_segments_out (tc_sender c)"
  show rc: "tc_receiver c' = tc_receiver c" "tc_cfg c' = tc_cfg c"
    "tc_time_since_last_segment_received c' = tc_time_since_last_segment_received c"
    by (simp_all add: c'_def send_segs_from_sender_def)
  show sc: "tc_sender c' = (tc_sender c)\<lparr>snd_segments_out := []\<rparr>"
    using drain_sender_sender [OF refl] by (simp add: c'_def send_segs_from_sender_def)
  show "tc_segments_out c' = tc_segments_out c @ map (set_seg c) ?q"
    by (simp add: c'_def send_segs_from_sender_def drain_sender_out)
  have ac: "tc_active c' \<longleftrightarrow> tc_active c \<and> \<not> (tc_finished (drain_sender ?q c) \<and> (\<not> tc_linger c \<or>
      10 * ucast (cfg_rt_timeout (tc_cfg c)) \<le> tc_time_since_last_segment_received c))"
    by (simp add: c'_def send_segs_from_sender_def clean_shutdown_active)
  then show "tc_active c' \<longrightarrow> tc_active c" by simp
  have "snd_b (tc_sender c) = N + 2 \<and> K = M + 2" if "tc_finished (drain_sender ?q c)"
  proof -
    have "bs_input_end (snd_stream (tc_sender c))" "snd_bytes_in_flight (tc_sender c) = 0" "bs_input_end (rc_stream_out (tc_receiver c))"
      using that by (simp_all add: tc_finished_def bs_eof_def bs_input_ended_def)
    then show ?thesis using snd_at_finished [OF s] r rc_at_bounds(3) [OF r] by (simp add: rc_at_def)
  qed
  then show "conn_at S N isn E P M pisn c' K"
    using snd_at_queue [OF s] r act ac rc sc by (auto simp: conn_at_def)
qed

lemma send_empty_at:
  assumes "snd_at S N isn E s"
  shows "snd_at S N isn E (send_empty_segment s)"
    "\<exists>seg. snd_segments_out (send_empty_segment s) = snd_segments_out s @ [seg] \<and> seg_at S N isn (snd_n s) seg \<and> seg_len seg = 0"
    "pending S D b0 (send_empty_segment s) = pending S D b0 s"
proof -
  have pre: "snd_pre S N isn E s" using assms by (simp add: snd_at_def)
  note p = snd_pre_parts [OF pre]
  let ?seg = "seg_new\<lparr>seg_header := (seg_header seg_new)\<lparr>th_seqno := wrap (snd_next_seqno s) (snd_isn s)\<rparr>\<rparr>"
  have f: "seg_data ?seg = []" "\<not> th_syn (seg_header ?seg)" "\<not> th_fin (seg_header ?seg)" "\<not> th_rst (seg_header ?seg)" "seg_len ?seg = 0"
    by (simp_all add: seg_data_def seg_new_def th_new_def length_in_sequence_space_def)
  have "carries S isn (snd_n s) ?seg" using f p(4) by (simp add: carries_def)
  then have "seg_at S N isn (snd_n s) ?seg" using f p(9,11) by (simp add: seg_at_def)
  then show "\<exists>seg. snd_segments_out (send_empty_segment s) = snd_segments_out s @ [seg] \<and> seg_at S N isn (snd_n s) seg \<and> seg_len seg = 0"
    using f(5) by (auto simp: send_empty_segment_def)
  have "snd_run_inv S N isn (send_empty_segment s)"
    using send_empty_works [of S N isn s] pre by (simp add: snd_pre_def snd_works_def)
  then show "snd_at S N isn E (send_empty_segment s)"
    using assms f(4) by (simp add: snd_at_def snd_pre_def) (simp add: send_empty_segment_def calm_def right_edge_def)
  show "pending S D b0 (send_empty_segment s) = pending S D b0 s" by (simp add: send_empty_segment_def pending_def snd_base_def)
qed

lemma pending_queue [simp]: "pending S D b0 (s\<lparr>snd_segments_out := q\<rparr>) = pending S D b0 s"
  by (simp add: pending_def snd_base_def)

lemma synchronized_received:
  assumes "tc_active c" "rc_ackno (tc_receiver c) = Some x" "\<not> th_rst (seg_header seg)"
    "rc_segment_received seg (tc_receiver c) = Inr r" "rc_ackno r = Some y"
    "ack_received (th_ackno (seg_header seg)) (th_win (seg_header seg)) (tc_sender c) = Inr s"
  shows "tc_segment_received seg c = Inr (send_segs_from_sender (c\<lparr>tc_time_since_last_segment_received := 0, tc_receiver := r,
    tc_sender := (if snd_segments_out s = [] \<and> seg_len seg \<noteq> 0 then send_empty_segment s else s)\<rparr>))"
proof -
  let ?c = "c\<lparr>tc_time_since_last_segment_received := 0\<rparr>"
  have "tc_segment_received seg c = tc_deliver seg ?c"
    using assms(1,2) by (simp add: tc_segment_received_def Let_def)
  also have "\<dots> = Inr (send_segs_from_sender (?c\<lparr>tc_receiver := r,
    tc_sender := (if snd_segments_out s = [] \<and> seg_len seg \<noteq> 0 then send_empty_segment s else s)\<rparr>))"
    using assms(3-) by (simp add: tc_deliver_def Let_def)
  finally show ?thesis .
qed

lemma queue_feed:
  assumes "snd_at S N isn E s" "sent_chain S isn p (snd_segments_out s) (snd_n s)"
  shows "feed S N isn p (map (set_seg c) (snd_segments_out s)) (snd_n s)"
proof -
  have pre: "snd_pre S N isn E s" using assms(1) by (simp add: snd_at_def)
  have inv: "snd_inv S s" using snd_pre_parts(1) [OF pre] .
  have "calm s" using pre by (simp add: snd_pre_def)
  then have "\<forall>x\<in>set (snd_segments_out s). snd_log_ok S s x \<and> \<not> th_rst (seg_header x)"
    using inv unfolding snd_inv_def calm_def by blast
  from chain_feed [OF pre assms(2) order_refl this] show ?thesis .
qed

lemma reply_feed:
  fixes seg c
  assumes s: "snd_at S N isn E s" "snd_segments_out s = segs" "sent_chain S isn p segs (snd_n s)"
  defines "new \<equiv> map (set_seg c) (snd_segments_out (if snd_segments_out s = [] \<and> seg_len seg \<noteq> 0 then send_empty_segment s else s))"
  shows "feed S N isn p new (snd_n s)" "segs = [] \<longrightarrow> (\<forall>x\<in>set new. seg_len x = 0) \<and> (seg_len seg = 0 \<longrightarrow> new = [])"
    "new = [] \<longrightarrow> seg_len seg = 0"
proof -
  obtain e where e: "snd_segments_out (send_empty_segment s) = segs @ [e]" "seg_at S N isn (snd_n s) e" "seg_len e = 0"
    using send_empty_at(2) [OF s(1)] s(2) by auto
  have "feed S N isn p new (snd_n s) \<and> (segs = [] \<longrightarrow> (\<forall>x\<in>set new. seg_len x = 0) \<and> (seg_len seg = 0 \<longrightarrow> new = [])) \<and>
    (new = [] \<longrightarrow> seg_len seg = 0)"
  proof (cases "segs = []")
    case True
    then have n: "p = snd_n s" using s(3) by simp
    show ?thesis
    proof (cases "seg_len seg = 0")
      case True
      then have "new = []" using s(2) \<open>segs = []\<close> by (simp add: new_def)
      then show ?thesis using n True by simp
    next
      case False
      then have "new = [set_seg c e]" using s(2) \<open>segs = []\<close> e(1) by (simp add: new_def)
      then show ?thesis using n False e by auto
    qed
  next
    case False
    then have "new = map (set_seg c) segs" using s(2) by (simp add: new_def)
    then show ?thesis using queue_feed [OF s(1), of p c] s(2,3) False by simp
  qed
  then show "feed S N isn p new (snd_n s)" "segs = [] \<longrightarrow> (\<forall>x\<in>set new. seg_len x = 0) \<and> (seg_len seg = 0 \<longrightarrow> new = [])"
    "new = [] \<longrightarrow> seg_len seg = 0" by blast+
qed

text \<open>One segment from the link arrives.\<close>

lemma conn_receives:
  assumes c: "conn_at S N isn E P M pisn c K"
    and seg: "seg_at P M pisn a seg" "a = K \<or> a + seg_len seg \<le> K"
    and fits: "a + length (seg_data seg) \<le> rc_edge (tc_receiver c) \<or> a + seg_len seg \<le> K"
    and ack: "ack_at N isn E k seg" "snd_b (tc_sender c) \<le> k" "k \<le> snd_n (tc_sender c)"
  obtains c' new where "tc_segment_received seg c = Inr c'" "conn_at S N isn E P M pisn c' (max K (a + seg_len seg))"
    "snd_b (tc_sender c') = k" "tc_segments_out c' = tc_segments_out c @ new"
    "feed S N isn (snd_n (tc_sender c)) new (snd_n (tc_sender c'))"
    "\<forall>x\<in>set new. ack_at M pisn (rc_edge (tc_receiver c)) (max K (a + seg_len seg)) x"
    "new = [] \<longrightarrow> max K (a + seg_len seg) = K"
    "snd_n (tc_sender c') = snd_n (tc_sender c) \<longrightarrow> (\<forall>x\<in>set new. seg_len x = 0) \<and> (seg_len seg = 0 \<longrightarrow> new = [])"
    "rc_edge (tc_receiver c') = rc_edge (tc_receiver c)" "bs_read_bytes (rc_stream_out (tc_receiver c')) = bs_read_bytes (rc_stream_out (tc_receiver c))"
    "tc_cfg c' = tc_cfg c" "tc_active c' \<longrightarrow> tc_active c \<and> tc_time_since_last_segment_received c' = 0"
    "same_input (tc_sender c) (tc_sender c')"
    "\<And>D b0. pending S D b0 (tc_sender c) \<Longrightarrow> k \<le> D \<Longrightarrow> pending S D b0 (tc_sender c')"
proof (cases "tc_active c")
  case False
  have sa: "snd_pre S N isn E (tc_sender c)" using c by (simp add: conn_at_def snd_at_def)
  have "snd_b (tc_sender c) = N + 2" "K = M + 2" using c False by (auto simp: conn_at_def)
  then have "k = snd_b (tc_sender c)" "max K (a + seg_len seg) = K"
    using ack(2,3) snd_pre_parts(11) [OF sa] seg(1) by (auto simp: seg_at_def)
  then show thesis using that [of c "[]"] c False by (simp add: tc_segment_received_def same_input_refl)
next
  case True
  define K' where "K' = max K (a + seg_len seg)"
  have sa: "snd_at S N isn E (tc_sender c)" "snd_segments_out (tc_sender c) = []" and ra: "rc_at P M pisn (tc_receiver c) K"
    using c by (simp_all add: conn_at_def)
  obtain r' where r': "rc_segment_received seg (tc_receiver c) = Inr r'" "rc_at P M pisn r' K'" "rc_capacity r' = rc_capacity (tc_receiver c)"
      "bs_read_bytes (rc_stream_out r') = bs_read_bytes (rc_stream_out (tc_receiver c))"
    using rc_at_receives [OF ra seg fits] by (auto simp: K'_def)
  have edge: "rc_edge r' = rc_edge (tc_receiver c)" using r'(3,4) by (simp add: rc_edge_def)
  have ak: "th_ackno (seg_header seg) = wrap (of_nat k) isn" "k \<le> N + 1 \<longrightarrow> k + unat (th_win (seg_header seg)) = E"
    using ack(1) by (simp_all add: ack_at_def)
  obtain s' segs where s': "ack_received (wrap (of_nat k) isn) (th_win (seg_header seg)) (tc_sender c) = Inr s'"
      "snd_at S N isn E s'" "snd_b s' = k" "snd_segments_out s' = snd_segments_out (tc_sender c) @ segs"
      "sent_chain S isn (snd_n (tc_sender c)) segs (snd_n s')" "same_input (tc_sender c) s'"
      "\<And>D b0. pending S D b0 (tc_sender c) \<Longrightarrow> k \<le> D \<Longrightarrow> pending S D b0 s'"
    by (rule snd_at_ack [OF sa(1) ack(2,3) ak(2)]) (rule that)
  define s2 where "s2 = (if snd_segments_out s' = [] \<and> seg_len seg \<noteq> 0 then send_empty_segment s' else s')"
  define c2 where "c2 = c\<lparr>tc_time_since_last_segment_received := 0, tc_receiver := r', tc_sender := s2\<rparr>"
  note ackno = rc_at_ackno [OF ra] rc_at_ackno [OF r'(2)]
  have rst: "\<not> th_rst (seg_header seg)" using seg(1) by (simp add: seg_at_def)
  have eq: "tc_segment_received seg c = Inr (send_segs_from_sender c2)"
    unfolding c2_def s2_def by (rule synchronized_received [OF True ackno(1) rst r'(1) ackno(2)]) (simp add: ak(1) s'(1))
  have s2: "snd_at S N isn E s2" "snd_n s2 = snd_n s'" "snd_b s2 = k" "\<And>D b0. pending S D b0 s2 = pending S D b0 s'" "snd_stream s2 = snd_stream s'"
    using s'(2,3) send_empty_at(1,3) [OF s'(2)] by (simp_all add: s2_def) (simp_all add: send_empty_segment_def)
  have c2s: "snd_at S N isn E (tc_sender c2)" using s2(1) by (simp add: c2_def)
  have c2f: "tc_receiver c2 = r'" "tc_active c2" "tc_cfg c2 = tc_cfg c" "tc_segments_out c2 = tc_segments_out c"
      "tc_time_since_last_segment_received c2 = 0" "tc_sender c2 = s2"
    using True by (simp_all add: c2_def)
  have rc2: "rc_at P M pisn (tc_receiver c2) K'" using r'(2) c2f(1) by simp
  define new where "new = map (set_seg c2) (snd_segments_out (tc_sender c2))"
  have q: "snd_segments_out s' = segs" using s'(4) sa(2) by simp
  note fd = reply_feed [where seg = seg and c = c2, OF s'(2) q s'(5), folded s2_def, folded c2f(6), folded new_def]
  have "segs = []" if "snd_n s' = snd_n (tc_sender c)" using flight_nonempty [OF s'(5)] that by auto
  note same = this
  define c' where "c' = send_segs_from_sender c2"
  have act: "\<not> tc_active c2 \<longrightarrow> snd_b (tc_sender c2) = N + 2 \<and> K' = M + 2" using c2f(2) by simp
  note cs = conn_send [OF c2s rc2 act, folded c'_def new_def]
  have n': "snd_n (tc_sender c') = snd_n s'" "snd_b (tc_sender c') = k" using cs(3) c2f(6) s2(2,3) by simp_all
  show thesis
  proof (rule that [of c' new, folded K'_def])
    show "tc_segment_received seg c = Inr c'" unfolding c'_def by (rule eq)
    show "conn_at S N isn E P M pisn c' K'" by (rule cs(1))
    show "snd_b (tc_sender c') = k" by (rule n'(2))
    show "tc_segments_out c' = tc_segments_out c @ new" using cs(5) c2f(4) by simp
    show "feed S N isn (snd_n (tc_sender c)) new (snd_n (tc_sender c'))" using fd(1) n'(1) by simp
    show "\<forall>x\<in>set new. ack_at M pisn (rc_edge (tc_receiver c)) K' x"
      using set_seg_ack [OF rc2] c2f(1) edge by (auto simp: new_def)
    show "new = [] \<longrightarrow> K' = K" using fd(3) seg(2) by (auto simp: K'_def)
    show "snd_n (tc_sender c') = snd_n (tc_sender c) \<longrightarrow> (\<forall>x\<in>set new. seg_len x = 0) \<and> (seg_len seg = 0 \<longrightarrow> new = [])"
      using fd(2) same n'(1) by simp
    show "rc_edge (tc_receiver c') = rc_edge (tc_receiver c)" "bs_read_bytes (rc_stream_out (tc_receiver c')) = bs_read_bytes (rc_stream_out (tc_receiver c))"
      using cs(2) c2f(1) edge r'(4) by simp_all
    show "tc_cfg c' = tc_cfg c" using cs(4) c2f(3) by simp
    show "tc_active c' \<longrightarrow> tc_active c \<and> tc_time_since_last_segment_received c' = 0" using cs(6) c2f(5) True by simp
    show "same_input (tc_sender c) (tc_sender c')" using s'(6) cs(3) c2f(6) s2(5) by (simp add: same_input_def)
    show "pending S D b0 (tc_sender c')" if "pending S D b0 (tc_sender c)" "k \<le> D" for D b0
      using s'(7) [OF that] cs(3) c2f(6) s2(4) by simp
  qed
qed

end
