(* ===== verification/Tcp_Benchmark.thy ===== *)
theory Tcp_Benchmark
  imports Connection Text_Format
begin

text \<open>
  Model of \<open>apps/tcp_benchmark.cc\<close>: two connections in one process exchange their segments directly, one of
  them sends a string to the other, and the program measures the throughput. The random bytes of the string
  and the random initial sequence numbers are parameters.
\<close>

section \<open>The program\<close>

text \<open>The variables that the closure \<open>loop\<close> captures.\<close>

record benchmark =
  bm_x :: tcp_connection
  bm_y :: tcp_connection
  bm_bytes_to_send :: buffer
  bm_x_closed :: bool
  bm_string_received :: bytes

fun deliver_segments :: "tcp_segment list \<Rightarrow> tcp_connection \<Rightarrow> exn + tcp_connection" where
  "deliver_segments [] y = Inr y"
| "deliver_segments (seg # segs) y = bindE (tc_segment_received seg y) (deliver_segments segs)"

definition move_segments :: "tcp_connection \<Rightarrow> tcp_connection \<Rightarrow> tcp_segment list \<Rightarrow> bool \<Rightarrow>
    exn + tcp_connection \<times> tcp_connection \<times> tcp_segment list" where
  "move_segments x y segments reorder =
     (let segments = segments @ tc_segments_out x;
          x = x\<lparr>tc_segments_out := []\<rparr>
      in bindE (deliver_segments (if reorder then rev segments else segments) y) (\<lambda>y. Inr (x, y, [])))"

lemma buf_remove_prefix_shrinks:
  "buf_remove_prefix n b = Inr b' \<Longrightarrow> 0 < n \<Longrightarrow> buf_size b' < buf_size b"
  using buf_remove_prefix_fits [of n b] buf_remove_prefix_throws [of b n]
  by (cases "n \<le> length (buf_str b)") (auto simp: buf_size_def)

text \<open>\<open>while (bytes_to_send.size() and x.remaining_outbound_capacity())\<close>\<close>

function write_input :: "buffer \<Rightarrow> tcp_connection \<Rightarrow> exn + buffer \<times> tcp_connection" where
  "write_input bytes_to_send x =
     (if buf_size bytes_to_send \<noteq> 0 \<and> tc_remaining_outbound_capacity x \<noteq> 0 then
        let want = min (tc_remaining_outbound_capacity x) (buf_size bytes_to_send)
        in bindE (tc_write (take want (buf_str bytes_to_send)) x) (\<lambda>(written, x).
             if want \<noteq> written then
               Inl (RuntimeError (''want = '' @ dec_string want @ '', written = '' @ dec_string written))
             else bindE (buf_remove_prefix written bytes_to_send) (\<lambda>bytes_to_send. write_input bytes_to_send x))
      else Inr (bytes_to_send, x))"
  by pat_completeness auto
termination
  by (relation "measure (\<lambda>(b, x). buf_size b)") (auto dest: buf_remove_prefix_shrinks)

declare write_input.simps [simp del]

definition bm_loop :: "bool \<Rightarrow> benchmark \<Rightarrow> exn + benchmark" where
  "bm_loop reorder b =
     bindE (write_input (bm_bytes_to_send b) (bm_x b)) (\<lambda>(bytes_to_send, x).
     bindE (if buf_size bytes_to_send = 0 \<and> \<not> bm_x_closed b
            then bindE (tc_end_input_stream x) (\<lambda>x. Inr (x, True)) else Inr (x, bm_x_closed b)) (\<lambda>(x, x_closed).
     bindE (move_segments x (bm_y b) [] reorder) (\<lambda>(x, y, segments).
     bindE (move_segments y x segments False) (\<lambda>(y, x, segments).
     let available_output = bs_buffer_size (rc_stream_out (tc_receiver y))
     in bindE (if available_output > 0
               then bindE (tc_read available_output y) (\<lambda>(data, y). Inr (bm_string_received b @ data, y))
               else Inr (bm_string_received b, y)) (\<lambda>(string_received, y).
        bindE (tc_tick 1000 x) (\<lambda>x.
        bindE (tc_tick 1000 y) (\<lambda>y.
          Inr \<lparr>bm_x = x, bm_y = y, bm_bytes_to_send = bytes_to_send, bm_x_closed = x_closed,
               bm_string_received = string_received\<rparr>)))))))"

text \<open>The two loops of \<open>main_loop\<close>; the value \<open>None\<close> stands for a loop that does not end.\<close>

partial_function (option) bm_while :: "(benchmark \<Rightarrow> bool) \<Rightarrow> bool \<Rightarrow> benchmark \<Rightarrow> (exn + benchmark) option" where
  "bm_while cond reorder b =
     (if cond b then
        case bm_loop reorder b of
          Inl e \<Rightarrow> Some (Inl e)
        | Inr b \<Rightarrow> bm_while cond reorder b
      else Some (Inr b))"

definition bm_start :: "tcp_config \<Rightarrow> u32 \<Rightarrow> u32 \<Rightarrow> bytes \<Rightarrow> exn + benchmark" where
  "bm_start config random_x random_y string_to_send =
     bindE (tc_connect (tc_new config random_x)) (\<lambda>x.
     bindE (tc_end_input_stream (tc_new config random_y)) (\<lambda>y.
       Inr \<lparr>bm_x = x, bm_y = y, bm_bytes_to_send = buf_of_string string_to_send, bm_x_closed = False,
            bm_string_received = []\<rparr>))"

definition bm_receiving :: "benchmark \<Rightarrow> bool" where
  "bm_receiving b \<longleftrightarrow> \<not> bs_eof (rc_stream_out (tc_receiver (bm_y b)))"

definition bm_active :: "benchmark \<Rightarrow> bool" where
  "bm_active b \<longleftrightarrow> tc_active (bm_x b) \<or> tc_active (bm_y b)"

definition main_loop :: "bool \<Rightarrow> u32 \<Rightarrow> u32 \<Rightarrow> bytes \<Rightarrow> (exn + benchmark) option" where
  "main_loop reorder random_x random_y string_to_send =
     (case bm_start cfg_default random_x random_y string_to_send of
        Inl e \<Rightarrow> Some (Inl e)
      | Inr b \<Rightarrow>
          Option.bind (bm_while bm_receiving reorder b) (\<lambda>r. case r of
            Inl e \<Rightarrow> Some (Inl e)
          | Inr b \<Rightarrow>
              if bm_string_received b \<noteq> string_to_send
              then Some (Inl (RuntimeError ''strings sent vs. received don't match''))
              else bm_while bm_active reorder b))"

text \<open>
  \<open>main\<close> runs the benchmark without and with reordering and turns exceptions into an exit status. The random
  numbers of each run are a parameter.
\<close>

definition bm_exit :: "exn + 'a \<Rightarrow> exn + int" where
  "bm_exit r = (case r of Inl (Undefined s) \<Rightarrow> Inl (Undefined s) | Inl _ \<Rightarrow> Inr 1 | Inr _ \<Rightarrow> Inr 0)"

definition bm_main :: "u32 \<times> u32 \<times> bytes \<Rightarrow> u32 \<times> u32 \<times> bytes \<Rightarrow> (exn + int) option" where
  "bm_main run1 run2 =
     (let (x1, y1, s1) = run1; (x2, y2, s2) = run2
      in Option.bind (main_loop False x1 y1 s1) (\<lambda>r. case r of
           Inl e \<Rightarrow> Some (bm_exit (Inl e :: exn + benchmark))
         | Inr _ \<Rightarrow> map_option bm_exit (main_loop True x2 y2 s2)))"

end
