(* ===== verification/Lossless_Exchange.thy ===== *)
theory Lossless_Exchange
  imports Lossless_Connection Tcp_Benchmark
begin

text \<open>
  What a connection does with a sequence of segments from the link, with the input of its application, and when
  time passes.
\<close>

section \<open>Sequences of events\<close>

abbreviation tc_n :: "tcp_connection \<Rightarrow> nat" where "tc_n c \<equiv> snd_n (tc_sender c)"
abbreviation tc_b :: "tcp_connection \<Rightarrow> nat" where "tc_b c \<equiv> snd_b (tc_sender c)"
abbreviation tc_edge :: "tcp_connection \<Rightarrow> nat" where "tc_edge c \<equiv> rc_edge (tc_receiver c)"

text \<open>
  From \<open>c\<close> to \<open>c'\<close> the connection has sent \<open>new\<close>, and its receiver has gone from \<open>K\<close> to \<open>K'\<close>, which it acknowledges.
\<close>

definition reacts :: "(nat \<Rightarrow> u8) \<Rightarrow> nat \<Rightarrow> wrapping_int32 \<Rightarrow> nat \<Rightarrow> (nat \<Rightarrow> u8) \<Rightarrow> nat \<Rightarrow> wrapping_int32 \<Rightarrow>
    tcp_connection \<Rightarrow> nat \<Rightarrow> tcp_connection \<Rightarrow> nat \<Rightarrow> tcp_segment list \<Rightarrow> bool" where
  "reacts S N isn E P M pisn c K c' K' new \<longleftrightarrow> conn_at S N isn E P M pisn c' K' \<and>
     tc_segments_out c' = tc_segments_out c @ new \<and> feed S N isn (tc_n c) new (tc_n c') \<and>
     ack_feed M pisn (tc_edge c) K new K' \<and> (tc_n c' = tc_n c \<longrightarrow> (\<forall>x\<in>set new. seg_len x = 0)) \<and>
     tc_edge c' = tc_edge c \<and> bs_read_bytes (rc_stream_out (tc_receiver c')) = bs_read_bytes (rc_stream_out (tc_receiver c)) \<and>
     tc_cfg c' = tc_cfg c \<and> (tc_active c' \<longrightarrow> tc_active c)"

lemma reacts_refl: "conn_at S N isn E P M pisn c K \<Longrightarrow> reacts S N isn E P M pisn c K c K []"
  by (simp add: reacts_def)

lemma reacts_trans:
  assumes "reacts S N isn E P M pisn c K c1 K1 xs" "reacts S N isn E P M pisn c1 K1 c2 K2 ys"
  shows "reacts S N isn E P M pisn c K c2 K2 (xs @ ys)"
proof -
  have f: "feed S N isn (tc_n c) xs (tc_n c1)" "feed S N isn (tc_n c1) ys (tc_n c2)" using assms by (simp_all add: reacts_def)
  have "feed S N isn (tc_n c) (xs @ ys) (tc_n c2)" using f feed_append by blast
  moreover have "ack_feed M pisn (tc_edge c) K xs K1" "ack_feed M pisn (tc_edge c) K1 ys K2"
    using assms by (simp_all add: reacts_def)
  then have "ack_feed M pisn (tc_edge c) K (xs @ ys) K2" using ack_feed_append by blast
  moreover have "\<forall>x\<in>set (xs @ ys). seg_len x = 0" if "tc_n c2 = tc_n c"
  proof -
    have "tc_n c1 = tc_n c" "tc_n c2 = tc_n c1" using feed_mono [OF f(1)] feed_mono [OF f(2)] that by simp_all
    then show ?thesis using assms by (auto simp: reacts_def)
  qed
  ultimately show ?thesis using assms by (simp add: reacts_def)
qed

lemma reacts_mono: "reacts S N isn E P M pisn c K c' K' new \<Longrightarrow> tc_n c \<le> tc_n c' \<and> K \<le> K'"
  using feed_mono ack_feed_mono by (fastforce simp: reacts_def)

lemma feed_fits:
  assumes "seg_at P M pisn a seg" "feed P M pisn (max K (a + seg_len seg)) segs n" "min n (M + 1) \<le> E" "1 \<le> K" "a = K \<or> a + seg_len seg \<le> K"
  shows "a + length (seg_data seg) \<le> E \<or> a + seg_len seg \<le> K"
proof (cases "th_syn (seg_header seg)")
  case True
  then show ?thesis using assms(4,5) seg_at_syn [OF assms(1)] by auto
next
  case False
  have "a + seg_len seg \<le> n" using feed_mono [OF assms(2)] by simp
  then show ?thesis using assms(1,3,5) False seg_at_len [of seg] by (auto simp: seg_at_def data_index_def split: if_splits)
qed

lemma conn_receives_all:
  assumes "conn_at S N isn E P M pisn c K" "feed P M pisn K segs n" "ack_feed N isn E (tc_b c) segs k" "k \<le> tc_n c"
    "min n (M + 1) \<le> tc_edge c"
  shows "\<exists>c' new. deliver_segments segs c = Inr c' \<and> reacts S N isn E P M pisn c K c' n new \<and> tc_b c' = k \<and>
    same_input (tc_sender c) (tc_sender c') \<and>
    ((\<forall>x\<in>set segs. seg_len x = 0) \<and> tc_n c' = tc_n c \<longrightarrow> new = []) \<and>
    (tc_active c' \<longrightarrow> tc_time_since_last_segment_received c' = (if segs = [] then tc_time_since_last_segment_received c else 0)) \<and>
    (\<forall>D b0. pending S D b0 (tc_sender c) \<longrightarrow> k \<le> D \<longrightarrow> pending S D b0 (tc_sender c'))"
  using assms
proof (induction segs arbitrary: c K)
  case Nil
  then show ?case using reacts_refl same_input_refl by auto
next
  case (Cons seg segs)
  obtain a where a: "seg_at P M pisn a seg" "a = K \<or> a + seg_len seg \<le> K" "feed P M pisn (max K (a + seg_len seg)) segs n"
    using Cons.prems(2) by auto
  obtain j where j: "ack_at N isn E j seg" "tc_b c \<le> j" "ack_feed N isn E j segs k" using Cons.prems(3) by auto
  have jk: "j \<le> k" using ack_feed_mono [OF j(3)] .
  have ra: "rc_at P M pisn (tc_receiver c) K" using Cons.prems(1) by (simp add: conn_at_def)
  have fits: "a + length (seg_data seg) \<le> tc_edge c \<or> a + seg_len seg \<le> K"
    by (rule feed_fits [OF a(1,3) Cons.prems(5) rc_at_bounds(1) [OF ra] a(2)])
  have jn: "j \<le> tc_n c" using jk Cons.prems(4) by simp
  obtain c1 new1 where c1: "tc_segment_received seg c = Inr c1" "conn_at S N isn E P M pisn c1 (max K (a + seg_len seg))"
    "tc_b c1 = j" "tc_segments_out c1 = tc_segments_out c @ new1" "feed S N isn (tc_n c) new1 (tc_n c1)"
    "\<forall>x\<in>set new1. ack_at M pisn (tc_edge c) (max K (a + seg_len seg)) x" "new1 = [] \<longrightarrow> max K (a + seg_len seg) = K"
    "tc_n c1 = tc_n c \<longrightarrow> (\<forall>x\<in>set new1. seg_len x = 0) \<and> (seg_len seg = 0 \<longrightarrow> new1 = [])"
    "tc_edge c1 = tc_edge c" "bs_read_bytes (rc_stream_out (tc_receiver c1)) = bs_read_bytes (rc_stream_out (tc_receiver c))"
    "tc_cfg c1 = tc_cfg c" "tc_active c1 \<longrightarrow> tc_active c \<and> tc_time_since_last_segment_received c1 = 0" "same_input (tc_sender c) (tc_sender c1)"
    "\<And>D b0. pending S D b0 (tc_sender c) \<Longrightarrow> j \<le> D \<Longrightarrow> pending S D b0 (tc_sender c1)"
    by (rule conn_receives [OF Cons.prems(1) a(1,2) fits j(1,2) jn]) (rule that)
  have "ack_feed M pisn (tc_edge c) K new1 (max K (a + seg_len seg))" using c1(6,7) by (intro ack_feed_all) auto
  then have r1: "reacts S N isn E P M pisn c K c1 (max K (a + seg_len seg)) new1" using c1 by (simp add: reacts_def)
  have "ack_feed N isn E (tc_b c1) segs k" "k \<le> tc_n c1" "min n (M + 1) \<le> tc_edge c1"
    using j(3) c1(3,9) Cons.prems(4,5) reacts_mono [OF r1] by simp_all
  from Cons.IH [OF c1(2) a(3) this] obtain c2 new2 where
    c2: "deliver_segments segs c1 = Inr c2" "reacts S N isn E P M pisn c1 (max K (a + seg_len seg)) c2 n new2" "tc_b c2 = k" "same_input (tc_sender c1) (tc_sender c2)"
      "(\<forall>x\<in>set segs. seg_len x = 0) \<and> tc_n c2 = tc_n c1 \<longrightarrow> new2 = []"
      "tc_active c2 \<longrightarrow> tc_time_since_last_segment_received c2 = (if segs = [] then tc_time_since_last_segment_received c1 else 0)"
      "\<forall>D b0. pending S D b0 (tc_sender c1) \<longrightarrow> k \<le> D \<longrightarrow> pending S D b0 (tc_sender c2)"
    by blast
  note r2 = reacts_trans [OF r1 c2(2)]
  have "new1 @ new2 = []" if "\<forall>x\<in>set (seg # segs). seg_len x = 0" "tc_n c2 = tc_n c"
  proof -
    have "tc_n c1 = tc_n c" "tc_n c2 = tc_n c1" using that(2) reacts_mono [OF r1] reacts_mono [OF c2(2)] by simp_all
    then show ?thesis using that(1) c1(8) c2(5) by simp
  qed
  moreover have "tc_active c2 \<longrightarrow> tc_time_since_last_segment_received c2 = 0"
    using c2(2,6) c1(12) by (auto simp: reacts_def)
  moreover have "\<forall>D b0. pending S D b0 (tc_sender c) \<longrightarrow> k \<le> D \<longrightarrow> pending S D b0 (tc_sender c2)"
    using c1(14) c2(7) jk by fastforce
  ultimately show ?case using c1(1) c2(1,3) r2 same_input_trans [OF c1(13) c2(4)] by (intro exI [of _ c2] exI [of _ "new1 @ new2"]) auto
qed

lemma conn_fill:
  assumes c: "conn_at S N isn E P M pisn c K" "\<not> snd_fin_sent (tc_sender c)"
    and st: "stream_of S st" "bs_read_bytes st = bs_read_bytes (snd_stream (tc_sender c))" "bs_write_bytes st \<le> N"
      "bs_input_end st \<longrightarrow> bs_write_bytes st = N"
  obtains s' new where "fill_window ((tc_sender c)\<lparr>snd_stream := st\<rparr>) = Inr s'"
    "reacts S N isn E P M pisn c K (send_segs_from_sender (c\<lparr>tc_sender := s'\<rparr>)) K new"
    "snd_b s' = tc_b c" "bs_write_bytes (snd_stream s') = bs_write_bytes st" "bs_input_end (snd_stream s') = bs_input_end st"
    "bs_capacity (snd_stream s') = bs_capacity st"
    "snd_consecutive_retransmission s' = snd_consecutive_retransmission (tc_sender c)"
    "bs_contents st \<noteq> [] \<or> bs_input_end st \<longrightarrow> snd_fin_sent s' \<or> snd_b s' < snd_n s'"
proof -
  let ?t = "(tc_sender c)\<lparr>snd_stream := st\<rparr>"
  have pre: "snd_pre S N isn E (tc_sender c)" and r: "rc_at P M pisn (tc_receiver c) K" and q: "snd_segments_out (tc_sender c) = []"
    and act: "\<not> tc_active c \<longrightarrow> tc_b c = N + 2 \<and> K = M + 2"
    using c(1) by (simp_all add: conn_at_def snd_at_def)
  note p = snd_pre_parts [OF pre]
  have "snd_run_inv S N isn ?t" using snd_stream_works(1) [OF _ st(1-3)] pre by (simp add: snd_pre_def)
  then have pt: "snd_pre S N isn E ?t" using pre c(2) st(4) by (simp add: snd_pre_def calm_def right_edge_def)
  obtain s' segs where f: "fill_window ?t = Inr s'" "snd_at S N isn E s'" "sends ?t segs s'"
    "sent_chain S isn (snd_n ?t) segs (snd_n s')"
    "snd_consecutive_retransmission s' = snd_consecutive_retransmission ?t"
    "wants_to_send ?t \<longrightarrow> snd_fin_sent s' \<or> snd_b s' < snd_n s'"
    by (rule snd_pre_fill [OF pt]) (rule that)
  have s': "snd_b s' = tc_b c" "snd_segments_out s' = segs" using f(3) q by (simp_all add: sends_def)
  let ?c = "c\<lparr>tc_sender := s'\<rparr>"
  have at: "snd_at S N isn E (tc_sender ?c)" "rc_at P M pisn (tc_receiver ?c) K" "\<not> tc_active ?c \<longrightarrow> tc_b ?c = N + 2 \<and> K = M + 2"
    using f(2) r act s'(1) by simp_all
  note cs = conn_send [OF at]
  have ch: "sent_chain S isn (tc_n c) (snd_segments_out s') (snd_n s')" using f(4) s'(2) by simp
  have "segs = []" if "snd_n s' = tc_n c" using flight_nonempty [OF ch] that s'(2) by auto
  moreover have "feed S N isn (tc_n c) (map (set_seg ?c) segs) (snd_n s')" using queue_feed [OF f(2) ch] s'(2) by simp
  moreover have "ack_feed M pisn (tc_edge c) K (map (set_seg ?c) segs) K"
    using set_seg_ack [OF at(2)] by (intro ack_feed_all) auto
  ultimately have "reacts S N isn E P M pisn c K (send_segs_from_sender ?c) K (map (set_seg ?c) segs)"
    using cs s'(2) by (simp add: reacts_def)
  then show thesis using that f s' by (simp add: sends_def)
qed

lemma tc_write_at:
  assumes c: "conn_at S N isn E P M pisn c K" "\<not> bs_input_end (snd_stream (tc_sender c))"
    and l: "l \<noteq> 0" "l \<le> tc_remaining_outbound_capacity c" "bs_write_bytes (snd_stream (tc_sender c)) + l \<le> N"
  obtains c' new where "tc_write (map S [bs_write_bytes (snd_stream (tc_sender c))..<bs_write_bytes (snd_stream (tc_sender c)) + l]) c = Inr (l, c')"
    "reacts S N isn E P M pisn c K c' K new" "tc_b c' = tc_b c"
    "bs_write_bytes (snd_stream (tc_sender c')) = bs_write_bytes (snd_stream (tc_sender c)) + l"
    "\<not> bs_input_end (snd_stream (tc_sender c'))" "bs_capacity (snd_stream (tc_sender c')) = bs_capacity (snd_stream (tc_sender c))"
    "snd_consecutive_retransmission (tc_sender c') = snd_consecutive_retransmission (tc_sender c)"
    "snd_fin_sent (tc_sender c') \<or> tc_b c' < tc_n c'"
    "tc_time_since_last_segment_received c' = tc_time_since_last_segment_received c"
proof -
  let ?st = "snd_stream (tc_sender c)"
  let ?w = "bs_write_bytes ?st"
  define d where "d = map S [?w..<?w + l]"
  have pre: "snd_pre S N isn E (tc_sender c)" using c(1) by (simp add: conn_at_def snd_at_def)
  have nf: "\<not> snd_fin_sent (tc_sender c)" using pre c(2) by (auto simp: snd_pre_def calm_def bs_eof_def bs_input_ended_def)
  have k: "fst (bs_write d ?st) = l"
    using l(2) by (simp add: bs_write_accepted d_def tc_remaining_outbound_capacity_def bs_remaining_capacity_def)
  have so: "stream_of S (snd (bs_write d ?st))"
    by (rule stream_of_write [OF snd_pre_parts(5) [OF pre]]) (simp add: d_def)
  obtain s' new where s': "fill_window ((tc_sender c)\<lparr>snd_stream := snd (bs_write d ?st)\<rparr>) = Inr s'"
    "reacts S N isn E P M pisn c K (send_segs_from_sender (c\<lparr>tc_sender := s'\<rparr>)) K new"
    "snd_b s' = tc_b c" "bs_write_bytes (snd_stream s') = ?w + l" "bs_input_end (snd_stream s') = bs_input_end ?st"
    "bs_capacity (snd_stream s') = bs_capacity ?st"
    "snd_consecutive_retransmission s' = snd_consecutive_retransmission (tc_sender c)"
    "bs_contents (snd (bs_write d ?st)) \<noteq> [] \<or> bs_input_end ?st \<longrightarrow> snd_fin_sent s' \<or> snd_b s' < snd_n s'"
    by (rule conn_fill [OF c(1) nf so]) (use k l c(2) in simp_all)
  have "d \<noteq> []" using l(1) by (simp add: d_def)
  then have "tc_write d c = Inr (l, send_segs_from_sender (c\<lparr>tc_sender := s'\<rparr>))"
    using s'(1) k by (cases "bs_write d ?st") (simp add: tc_write_def)
  moreover have "take l d \<noteq> []" using \<open>d \<noteq> []\<close> l(1) by simp
  moreover have "tc_sender (send_segs_from_sender (c\<lparr>tc_sender := s'\<rparr>)) = s'\<lparr>snd_segments_out := []\<rparr>"
    using drain_sender_sender [OF refl, of "c\<lparr>tc_sender := s'\<rparr>"] by (simp add: send_segs_from_sender_def)
  moreover have "tc_time_since_last_segment_received (send_segs_from_sender (c\<lparr>tc_sender := s'\<rparr>)) = tc_time_since_last_segment_received c"
    by (simp add: send_segs_from_sender_def)
  ultimately show thesis using that s' k c(2) by (simp add: d_def)
qed

lemma tc_end_input_at:
  assumes c: "conn_at S N isn E P M pisn c K" "\<not> bs_input_end (snd_stream (tc_sender c))" "bs_write_bytes (snd_stream (tc_sender c)) = N"
  obtains c' new where "tc_end_input_stream c = Inr c'" "reacts S N isn E P M pisn c K c' K new" "tc_b c' = tc_b c"
    "bs_write_bytes (snd_stream (tc_sender c')) = N" "bs_input_end (snd_stream (tc_sender c'))"
    "bs_capacity (snd_stream (tc_sender c')) = bs_capacity (snd_stream (tc_sender c))"
    "snd_consecutive_retransmission (tc_sender c') = snd_consecutive_retransmission (tc_sender c)"
    "snd_fin_sent (tc_sender c') \<or> tc_b c' < tc_n c'"
    "tc_time_since_last_segment_received c' = tc_time_since_last_segment_received c"
proof -
  let ?st = "bs_end_input (snd_stream (tc_sender c))"
  have pre: "snd_pre S N isn E (tc_sender c)" using c(1) by (simp add: conn_at_def snd_at_def)
  have nf: "\<not> snd_fin_sent (tc_sender c)" using pre c(2) by (auto simp: snd_pre_def calm_def bs_eof_def bs_input_ended_def)
  have so: "stream_of S ?st"
    using snd_pre_parts(5) [OF pre] by (simp add: stream_of_def) (simp add: bs_end_input_def)
  have e: "bs_read_bytes ?st = bs_read_bytes (snd_stream (tc_sender c))" "bs_write_bytes ?st = N" "bs_input_end ?st"
    "bs_capacity ?st = bs_capacity (snd_stream (tc_sender c))" using c(3) by (simp_all add: bs_end_input_def)
  obtain s' new where s': "fill_window ((tc_sender c)\<lparr>snd_stream := ?st\<rparr>) = Inr s'"
    "reacts S N isn E P M pisn c K (send_segs_from_sender (c\<lparr>tc_sender := s'\<rparr>)) K new"
    "snd_b s' = tc_b c" "bs_write_bytes (snd_stream s') = bs_write_bytes ?st" "bs_input_end (snd_stream s') = bs_input_end ?st"
    "bs_capacity (snd_stream s') = bs_capacity ?st"
    "snd_consecutive_retransmission s' = snd_consecutive_retransmission (tc_sender c)"
    "bs_contents ?st \<noteq> [] \<or> bs_input_end ?st \<longrightarrow> snd_fin_sent s' \<or> snd_b s' < snd_n s'"
    by (rule conn_fill [OF c(1) nf so e(1)]) (use e in simp_all)
  have "tc_end_input_stream c = Inr (send_segs_from_sender (c\<lparr>tc_sender := s'\<rparr>))" using s'(1) by (simp add: tc_end_input_stream_def)
  moreover have "tc_sender (send_segs_from_sender (c\<lparr>tc_sender := s'\<rparr>)) = s'\<lparr>snd_segments_out := []\<rparr>"
    using drain_sender_sender [OF refl, of "c\<lparr>tc_sender := s'\<rparr>"] by (simp add: send_segs_from_sender_def)
  moreover have "tc_time_since_last_segment_received (send_segs_from_sender (c\<lparr>tc_sender := s'\<rparr>)) = tc_time_since_last_segment_received c"
    by (simp add: send_segs_from_sender_def)
  ultimately show thesis using that s' e by simp
qed

lemma snd_at_tick:
  assumes at: "snd_at S N isn E s"
  obtains s' segs where "snd_tick ms s = Inr s'" "snd_at S N isn E s'" "snd_segments_out s' = snd_segments_out s @ segs"
    "segs = [] \<or> snd_outstanding_segments s \<noteq> [] \<and> segs = [hd (snd_outstanding_segments s)]"
    "snd_n s' = snd_n s" "snd_b s' = snd_b s" "snd_stream s' = snd_stream s" "snd_base s' = snd_base s"
    "snd_outstanding_segments s' = snd_outstanding_segments s"
    "snd_consecutive_retransmission s' = snd_consecutive_retransmission s \<or>
     snd_outstanding_segments s \<noteq> [] \<and> snd_consecutive_retransmission s' = snd_consecutive_retransmission s + 1"
proof -
  have pre: "snd_pre S N isn E s" using at by (simp add: snd_at_def)
  note p = snd_pre_parts [OF pre]
  obtain s' segs where t: "snd_tick ms s = Inr s'" "snd_inv S s'" "snd_stream s' = snd_stream s"
    "snd_outstanding_segments s' = snd_outstanding_segments s" "snd_segments_out s' = snd_segments_out s @ segs"
    "segs = (if snd_timer_running s \<and> snd_time_elipsed s + ucast ms \<ge> snd_RTO s then [hd (snd_outstanding_segments s)] else [])"
    "snd_consecutive_retransmission s' =
       (if segs \<noteq> [] \<and> snd_back_off s then snd_consecutive_retransmission s + 1 else snd_consecutive_retransmission s)"
    by (rule snd_tick_facts [OF p(1)]) (rule that)
  have f: "snd_next_seqno s' = snd_next_seqno s" "snd_rcv_base s' = snd_rcv_base s" "snd_isn s' = snd_isn s" "snd_syn_sent s' = snd_syn_sent s"
      "snd_fin_sent s' = snd_fin_sent s" "snd_receiver_window_size s' = snd_receiver_window_size s"
    using t(1) by (auto simp: snd_tick_def Let_def split: if_splits list.splits)
  have sg: "segs = [] \<or> snd_outstanding_segments s \<noteq> [] \<and> segs = [hd (snd_outstanding_segments s)]"
    using t(6) snd_base_bounds(6) [OF p(1)] by auto
  then have "set segs \<subseteq> set (snd_outstanding_segments s)" by auto
  moreover have "calm s" using pre by (simp add: snd_pre_def)
  ultimately have "calm s'" unfolding calm_def t(3-5) f(5) by auto
  moreover have "snd_run_inv S N isn s'" using t(2,3) f(3) p(3,4,7) by (simp add: snd_run_inv_def)
  moreover have "right_edge s' = right_edge s" using f by (simp add: right_edge_def)
  ultimately have "snd_at S N isn E s'" using at t(3) f by (simp add: snd_at_def snd_pre_def)
  moreover have "snd_base s' = snd_base s" using f t(4) by (simp add: snd_base_def)
  moreover have "snd_consecutive_retransmission s' = snd_consecutive_retransmission s \<or>
      snd_outstanding_segments s \<noteq> [] \<and> snd_consecutive_retransmission s' = snd_consecutive_retransmission s + 1"
    using t(7) sg by (auto split: if_splits)
  ultimately show thesis using that [OF t(1) _ t(5) sg _ _ t(3) _ t(4)] f(1,2) by simp
qed

lemma chain_hd_at:
  assumes "snd_at S N isn E s" "snd_outstanding_segments s \<noteq> []"
  shows "seg_at S N isn (snd_base s) (hd (snd_outstanding_segments s))" "snd_base s + seg_len (hd (snd_outstanding_segments s)) \<le> snd_n s"
proof -
  have pre: "snd_pre S N isn E s" using assms(1) by (simp add: snd_at_def)
  note p = snd_pre_parts [OF pre] and b = snd_base_bounds [OF snd_pre_parts(1) [OF pre]]
  obtain x xs where o: "snd_outstanding_segments s = x # xs" using assms(2) by (cases "snd_outstanding_segments s") auto
  show "snd_base s + seg_len (hd (snd_outstanding_segments s)) \<le> snd_n s" using b(3) o by simp
  have "snd_log_ok S s x" "\<not> th_rst (seg_header x)" using p(1) pre o by (auto simp: snd_inv_def snd_pre_def calm_def)
  moreover have "carries S isn (snd_base s) x" "th_syn (seg_header x) \<or> 0 < snd_base s" using b(4) o p(4) by auto
  ultimately show "seg_at S N isn (snd_base s) (hd (snd_outstanding_segments s))"
    using b(1) p(12) o by (auto intro!: log_seg_at [OF pre])
qed

lemma conn_tick:
  assumes c: "conn_at S N isn E P M pisn c K"
    and cnt: "snd_consecutive_retransmission (tc_sender c) \<le> 1"
      "snd_consecutive_retransmission (tc_sender c) = 0 \<or> snd_outstanding_segments (tc_sender c) = []"
  obtains c' dup where "tc_tick ms c = Inr c'" "conn_at S N isn E P M pisn c' K" "tc_segments_out c' = tc_segments_out c @ dup"
    "feed S N isn (tc_n c) dup (tc_n c)" "ack_feed M pisn (tc_edge c) K dup K"
    "snd_outstanding_segments (tc_sender c) = [] \<longrightarrow> dup = []"
    "tc_n c' = tc_n c" "tc_b c' = tc_b c" "snd_stream (tc_sender c') = snd_stream (tc_sender c)"
    "snd_consecutive_retransmission (tc_sender c') \<le> 1" "tc_receiver c' = tc_receiver c" "tc_cfg c' = tc_cfg c"
    "tc_active c' \<longrightarrow> tc_active c \<and> tc_time_since_last_segment_received c' = tc_time_since_last_segment_received c + ms \<and>
       \<not> (tc_finished c \<and> 10 * ucast (cfg_rt_timeout (tc_cfg c)) \<le> tc_time_since_last_segment_received c + ms)"
proof (cases "tc_active c")
  case False
  then show thesis using that [of c "[]"] c cnt(1) by (simp add: tc_tick_def)
next
  case True
  have at: "snd_at S N isn E (tc_sender c)" and q: "snd_segments_out (tc_sender c) = []" and r: "rc_at P M pisn (tc_receiver c) K"
    using c by (simp_all add: conn_at_def)
  obtain s' segs where s': "snd_tick ms (tc_sender c) = Inr s'" "snd_at S N isn E s'" "snd_segments_out s' = segs"
    "segs = [] \<or> snd_outstanding_segments (tc_sender c) \<noteq> [] \<and> segs = [hd (snd_outstanding_segments (tc_sender c))]"
    "snd_n s' = tc_n c" "snd_b s' = tc_b c" "snd_stream s' = snd_stream (tc_sender c)"
    "snd_outstanding_segments s' = snd_outstanding_segments (tc_sender c)"
    "snd_consecutive_retransmission s' = snd_consecutive_retransmission (tc_sender c) \<or>
     snd_outstanding_segments (tc_sender c) \<noteq> [] \<and> snd_consecutive_retransmission s' = snd_consecutive_retransmission (tc_sender c) + 1"
    by (rule snd_at_tick [OF at, of ms]) (use q in auto)
  have cnt': "snd_consecutive_retransmission s' \<le> 1" using s'(9) cnt by auto
  then have few: "\<not> MAX_RETX_ATTEMPTS < snd_consecutive_retransmission s'" by (simp add: MAX_RETX_ATTEMPTS_def not_less order_trans [of _ 1])
  define c1 where "c1 = c\<lparr>tc_time_since_last_segment_received := tc_time_since_last_segment_received c + ms, tc_sender := s'\<rparr>"
  have eq: "tc_tick ms c = Inr (send_segs_from_sender c1)" using True s'(1) few by (simp add: tc_tick_def c1_def)
  have f: "tc_sender c1 = s'" "tc_receiver c1 = tc_receiver c" "tc_active c1" "tc_cfg c1 = tc_cfg c" "tc_segments_out c1 = tc_segments_out c"
      "tc_time_since_last_segment_received c1 = tc_time_since_last_segment_received c + ms" using True by (simp_all add: c1_def)
  have a1: "snd_at S N isn E (tc_sender c1)" "rc_at P M pisn (tc_receiver c1) K" "\<not> tc_active c1 \<longrightarrow> tc_b c1 = N + 2 \<and> K = M + 2"
    using s'(2) r f by simp_all
  note cs = conn_send [OF a1]
  let ?dup = "map (set_seg c1) segs"
  have "feed S N isn (tc_n c) ?dup (tc_n c)"
    using s'(4) chain_hd_at [OF at] by (auto simp: max_absorb1 intro!: exI [of _ "snd_base (tc_sender c)"])
  moreover have "ack_feed M pisn (tc_edge c) K ?dup K"
    using set_seg_ack [OF a1(2)] f(2) by (intro ack_feed_all) auto
  moreover have "\<not> (tc_finished c \<and> 10 * ucast (cfg_rt_timeout (tc_cfg c)) \<le> tc_time_since_last_segment_received c + ms)"
    if "tc_active (send_segs_from_sender c1)"
  proof -
    have "snd_bytes_in_flight s' = snd_bytes_in_flight (tc_sender c)"
      using s'(1) by (auto simp: snd_tick_def Let_def split: if_splits list.splits)
    then have "tc_finished (drain_sender segs c1) = tc_finished c" using f s'(7) by (simp add: tc_finished_def)
    then show ?thesis using that f s'(3) by (simp add: send_segs_from_sender_def clean_shutdown_active)
  qed
  moreover have "snd_outstanding_segments (tc_sender c) = [] \<longrightarrow> ?dup = []" using s'(4) by auto
  ultimately show thesis
    using that [of "send_segs_from_sender c1" ?dup] eq cs f s'(3,5-7) cnt' True by simp
qed

lemma snd_at_room:
  assumes "snd_at S N isn E s" "E \<le> E'"
  shows "snd_at S N isn E' s"
proof -
  have m: "max E (snd_b s + 1) \<le> max E' (snd_b s + 1)" using assms(2) by simp
  have "min (snd_n s) (N + 1) \<le> max E (snd_b s + 1)" "\<not> snd_fin_sent s \<longrightarrow> right_edge s \<le> max E (snd_b s + 1)"
    using assms(1) unfolding snd_at_def snd_pre_def by blast+
  then have "min (snd_n s) (N + 1) \<le> max E' (snd_b s + 1)" "\<not> snd_fin_sent s \<longrightarrow> right_edge s \<le> max E' (snd_b s + 1)"
    using m order_trans by blast+
  then show ?thesis using assms(1) unfolding snd_at_def snd_pre_def by blast
qed

lemma conn_at_room: "conn_at S N isn E P M pisn c K \<Longrightarrow> E \<le> E' \<Longrightarrow> conn_at S N isn E' P M pisn c K"
  unfolding conn_at_def using snd_at_room by blast

text \<open>The application takes everything there is to read.\<close>

lemma conn_read_all:
  assumes c: "conn_at S N isn E P M pisn c K"
  obtains c' where "tc_read (bs_buffer_size (rc_stream_out (tc_receiver c))) c = Inr (bs_contents (rc_stream_out (tc_receiver c)), c')"
    "conn_at S N isn E P M pisn c' K" "bs_contents (rc_stream_out (tc_receiver c')) = []" "tc_edge c \<le> tc_edge c'"
    "bs_contents (rc_stream_out (tc_receiver c)) = map P [bs_read_bytes (rc_stream_out (tc_receiver c))..<bs_read_bytes (rc_stream_out (tc_receiver c'))]"
    "bs_read_bytes (rc_stream_out (tc_receiver c)) \<le> bs_read_bytes (rc_stream_out (tc_receiver c'))"
    "tc_sender c' = tc_sender c" "tc_segments_out c' = tc_segments_out c" "tc_active c' = tc_active c" "tc_cfg c' = tc_cfg c"
    "tc_time_since_last_segment_received c' = tc_time_since_last_segment_received c"
    "rc_capacity (tc_receiver c') = rc_capacity (tc_receiver c)"
proof -
  let ?r = "tc_receiver c" and ?o = "rc_stream_out (tc_receiver c)"
  have ra: "rc_at P M pisn ?r K" using c by (simp add: conn_at_def)
  then have ri: "rc_inv P pisn ?r" by (simp add: rc_at_def)
  obtain d st where rd: "bs_read (bs_buffer_size ?o) ?o = Inr (d, st)" by (rule bs_read_cases [of "bs_buffer_size ?o" ?o]) auto
  note b = bs_read_Inr [OF rd] and i = rc_inv_read [OF ri rd]
  let ?r' = "?r\<lparr>rc_reassembler := (rc_reassembler ?r)\<lparr>ra_output := st\<rparr>\<rparr>"
  have so: "rc_stream_out ?r' = st" by (simp add: rc_stream_out_def)
  have "rc_received ?r' = rc_received ?r" by (simp add: received_def)
  then have "rc_at P M pisn ?r' K" using ra i(1) b(5) unfolding rc_at_def so by simp
  then have at: "conn_at S N isn E P M pisn (c\<lparr>tc_receiver := ?r'\<rparr>) K" using c by (simp add: conn_at_def)
  have d: "d = bs_contents ?o" "bs_contents st = []" using b(1,2) by simp_all
  show thesis
  proof (rule that [of "c\<lparr>tc_receiver := ?r'\<rparr>"])
    show "tc_read (bs_buffer_size ?o) c = Inr (bs_contents ?o, c\<lparr>tc_receiver := ?r'\<rparr>)" using rd d(1) by (simp add: tc_read_def)
    show "conn_at S N isn E P M pisn (c\<lparr>tc_receiver := ?r'\<rparr>) K" by (rule at)
    show "tc_edge c \<le> tc_edge (c\<lparr>tc_receiver := ?r'\<rparr>)" using b(7) so by (simp add: rc_edge_def)
    show "bs_contents ?o = map P [bs_read_bytes ?o..<bs_read_bytes (rc_stream_out (tc_receiver (c\<lparr>tc_receiver := ?r'\<rparr>)))]"
      using i(2) d(1) so by simp
  qed (use so d(2) b(7) in simp_all)
qed

abbreviation tc_written :: "tcp_connection \<Rightarrow> nat" where "tc_written c \<equiv> bs_write_bytes (snd_stream (tc_sender c))"
abbreviation tc_ended_input :: "tcp_connection \<Rightarrow> bool" where "tc_ended_input c \<equiv> bs_input_end (snd_stream (tc_sender c))"
abbreviation tc_retx :: "tcp_connection \<Rightarrow> u32" where "tc_retx c \<equiv> snd_consecutive_retransmission (tc_sender c)"
abbreviation tc_time :: "tcp_connection \<Rightarrow> u64" where "tc_time c \<equiv> tc_time_since_last_segment_received c"

lemma write_input_at:
  assumes "conn_at S N isn E P M pisn x K" "buf_str b = map S [tc_written x..<N]" "tc_ended_input x \<longrightarrow> buf_str b = []"
  shows "\<exists>b' x' new. write_input b x = Inr (b', x') \<and> reacts S N isn E P M pisn x K x' K new \<and> tc_b x' = tc_b x \<and>
    buf_str b' = map S [tc_written x'..<N] \<and> tc_ended_input x' = tc_ended_input x \<and> tc_retx x' = tc_retx x \<and> tc_time x' = tc_time x \<and>
    bs_capacity (snd_stream (tc_sender x')) = bs_capacity (snd_stream (tc_sender x)) \<and>
    (buf_str b' = [] \<or> tc_remaining_outbound_capacity x' = 0)"
  using assms
proof (induction b x rule: write_input.induct)
  case (1 b x)
  show ?case
  proof (cases "buf_size b \<noteq> 0 \<and> tc_remaining_outbound_capacity x \<noteq> 0")
    case False
    then have "write_input b x = Inr (b, x)" by (subst write_input.simps) auto
    moreover have "buf_str b = [] \<or> tc_remaining_outbound_capacity x = 0" using False by (simp add: buf_size_def)
    ultimately show ?thesis using 1(2-4) reacts_refl [OF 1(2)] by (intro exI [of _ b] exI [of _ x] exI [of _ "[]"]) simp
  next
    case True
    define w where "w = tc_written x"
    define l where "l = min (tc_remaining_outbound_capacity x) (buf_size b)"
    have len: "buf_size b = N - w" using 1(3) by (simp add: buf_size_def w_def)
    have l: "l \<noteq> 0" "l \<le> tc_remaining_outbound_capacity x" "tc_written x + l \<le> N" using True len by (auto simp: l_def w_def)
    have ne: "\<not> tc_ended_input x" using 1(4) True by (auto simp: buf_size_def)
    have tk: "take l (buf_str b) = map S [tc_written x..<tc_written x + l]" using 1(3) l(3) by (simp add: take_map)
    obtain x1 new1 where x1: "tc_write (map S [tc_written x..<tc_written x + l]) x = Inr (l, x1)" "reacts S N isn E P M pisn x K x1 K new1"
        "tc_b x1 = tc_b x" "tc_written x1 = tc_written x + l" "\<not> tc_ended_input x1"
        "bs_capacity (snd_stream (tc_sender x1)) = bs_capacity (snd_stream (tc_sender x))" "tc_retx x1 = tc_retx x" "tc_time x1 = tc_time x"
      by (rule tc_write_at [OF 1(2) ne l]) (rule that)
    have "l \<le> length (buf_str b)" by (simp add: l_def buf_size_def)
    then obtain b1 where b1: "buf_remove_prefix l b = Inr b1" "buf_str b1 = drop l (buf_str b)"
      using buf_remove_prefix_fits by blast
    have at1: "conn_at S N isn E P M pisn x1 K" using x1(2) by (simp add: reacts_def)
    have d: "buf_str b1 = map S [tc_written x1..<N]" using b1(2) 1(3) x1(4) by (simp add: drop_map drop_upt)
    have e1: "tc_ended_input x1 \<longrightarrow> buf_str b1 = []" using x1(5) by simp
    have x1': "tc_write (take l (buf_str b)) x = Inr (l, x1)" using x1(1) tk by simp
    have "write_input b x = write_input b1 x1"
      using True x1(1) b1(1) tk by (subst write_input.simps) (simp add: l_def [symmetric] Let_def)
    moreover obtain b2 x2 new2 where x2: "write_input b1 x1 = Inr (b2, x2)" "reacts S N isn E P M pisn x1 K x2 K new2"
        "tc_b x2 = tc_b x1" "buf_str b2 = map S [tc_written x2..<N]" "tc_ended_input x2 = tc_ended_input x1" "tc_retx x2 = tc_retx x1"
        "tc_time x2 = tc_time x1" "bs_capacity (snd_stream (tc_sender x2)) = bs_capacity (snd_stream (tc_sender x1))"
        "buf_str b2 = [] \<or> tc_remaining_outbound_capacity x2 = 0"
      using 1(1) [OF True l_def x1' refl _ b1(1) at1 d e1] by blast
    ultimately show ?thesis
      using reacts_trans [OF x1(2) x2(2)] x1 ne by (intro exI [of _ b2] exI [of _ x2] exI [of _ "new1 @ new2"]) simp
  qed
qed

end
