(* ===== verification/Benchmark_Rounds.thy ===== *)
theory Benchmark_Rounds
  imports Lossless_Exchange
begin

text \<open>
  One round of \<open>tcp_benchmark\<close>: the two connections exchange what they have sent, the application reads what has
  arrived, and a second passes. The invariant of the rounds says where each stream stands and what is on the link.
\<close>

section \<open>One round of the benchmark\<close>

abbreviation nothing :: "nat \<Rightarrow> u8" where "nothing \<equiv> \<lambda>_. 0"

text \<open>
  Two connections and what is on the link between them: \<open>x\<close> sends the \<open>N\<close> bytes of \<open>S\<close>, \<open>y\<close> sends nothing but
  its FIN. \<open>Kx\<close> and \<open>Ky\<close> are what the receivers of \<open>x\<close> and \<open>y\<close> expect.
\<close>

definition link_at :: "(nat \<Rightarrow> u8) \<Rightarrow> nat \<Rightarrow> wrapping_int32 \<Rightarrow> wrapping_int32 \<Rightarrow> tcp_connection \<Rightarrow> tcp_connection \<Rightarrow> nat \<Rightarrow> nat \<Rightarrow> bool" where
  "link_at S N ix iy x y Kx Ky \<longleftrightarrow>
     conn_at S N ix (tc_edge y) nothing 0 iy x Kx \<and> conn_at nothing 0 iy (tc_edge x) S N ix y Ky \<and>
     feed S N ix Ky (tc_segments_out x) (tc_n x) \<and> feed nothing 0 iy Kx (tc_segments_out y) (tc_n y) \<and>
     ack_feed 0 iy (tc_edge x) (tc_b y) (tc_segments_out x) Kx \<and> ack_feed N ix (tc_edge y) (tc_b x) (tc_segments_out y) Ky \<and>
     Kx = tc_n y \<and> tc_retx x \<le> 1 \<and> tc_retx y \<le> 1"

lemma link_at_bounds:
  assumes "link_at S N ix iy x y Kx Ky"
  shows "tc_b x \<le> Ky" "Ky \<le> tc_n x" "tc_n x \<le> N + 2" "tc_b y \<le> Kx" "Kx = tc_n y" "tc_n y \<le> 2" "1 \<le> Kx" "1 \<le> Ky"
    "snd_inv S (tc_sender x)" "snd_inv nothing (tc_sender y)"
proof -
  have l: "snd_pre S N ix (tc_edge y) (tc_sender x)" "snd_pre nothing 0 iy (tc_edge x) (tc_sender y)"
      "rc_at nothing 0 iy (tc_receiver x) Kx" "rc_at S N ix (tc_receiver y) Ky"
      "feed S N ix Ky (tc_segments_out x) (tc_n x)" "ack_feed 0 iy (tc_edge x) (tc_b y) (tc_segments_out x) Kx"
      "ack_feed N ix (tc_edge y) (tc_b x) (tc_segments_out y) Ky" "Kx = tc_n y"
    using assms unfolding link_at_def conn_at_def snd_at_def by blast+
  show "tc_b x \<le> Ky" "Ky \<le> tc_n x" "tc_n x \<le> N + 2" "tc_b y \<le> Kx" "Kx = tc_n y" "tc_n y \<le> 2" "1 \<le> Kx" "1 \<le> Ky"
    using ack_feed_mono [OF l(7)] ack_feed_mono [OF l(6)] feed_mono [OF l(5)] l(8) snd_pre_parts(11) [OF l(1)] snd_pre_parts(11) [OF l(2)]
      rc_at_bounds(1) [OF l(3)] rc_at_bounds(1) [OF l(4)] by simp_all
  show "snd_inv S (tc_sender x)" "snd_inv nothing (tc_sender y)" using snd_pre_parts(1) [OF l(1)] snd_pre_parts(1) [OF l(2)] by simp_all
qed

lemma conn_at_out [simp]: "conn_at S N isn E P M pisn (c\<lparr>tc_segments_out := q\<rparr>) K = conn_at S N isn E P M pisn c K"
  by (simp add: conn_at_def)

lemma no_flight: "snd_inv S s \<Longrightarrow> snd_b s = snd_n s \<Longrightarrow> snd_outstanding_segments s = []"
proof (rule ccontr)
  assume inv: "snd_inv S s" "snd_b s = snd_n s" and o: "snd_outstanding_segments s \<noteq> []"
  note b = snd_base_bounds [OF inv(1)]
  obtain z zs where "snd_outstanding_segments s = z # zs" using o by (cases "snd_outstanding_segments s") auto
  then show False using b inv(2) by auto
qed

lemma pending_timer:
  assumes "pending S D b0 s" "snd_inv S s" "snd_b s = D"
  shows "snd_consecutive_retransmission s \<le> 1" "snd_consecutive_retransmission s = 0 \<or> snd_outstanding_segments s = []"
  using assms(1) pending_done(2) [OF assms] no_flight [OF assms(2)] assms(3) by (auto simp: pending_def)

lemma conn_at_inv: "conn_at S N isn E P M pisn c K \<Longrightarrow> snd_inv S (tc_sender c)"
  unfolding conn_at_def snd_at_def using snd_pre_parts(1) by blast

lemma exchange_at:
  assumes l: "link_at S N ix iy x y Kx Ky" and room: "min (tc_n x) (N + 1) \<le> tc_edge y"
  obtains x' y' newx newy where "move_segments x y [] False = Inr (x\<lparr>tc_segments_out := []\<rparr>, y', [])"
    "reacts nothing 0 iy (tc_edge x) S N ix y Ky y' (tc_n x) newy" "tc_b y' = Kx"
    "move_segments y' (x\<lparr>tc_segments_out := []\<rparr>) [] False = Inr (y'\<lparr>tc_segments_out := []\<rparr>, x', [])"
    "reacts S N ix (tc_edge y) nothing 0 iy (x\<lparr>tc_segments_out := []\<rparr>) Kx x' (tc_n y') newx" "tc_b x' = tc_n x"
    "tc_retx x' \<le> 1" "tc_retx x' = 0 \<or> snd_outstanding_segments (tc_sender x') = []"
    "tc_retx y' \<le> 1" "tc_retx y' = 0 \<or> snd_outstanding_segments (tc_sender y') = []"
    "(\<forall>s\<in>set (tc_segments_out x). seg_len s = 0) \<and> tc_n y' = tc_n y \<longrightarrow> newy = []"
    "(\<forall>s\<in>set (tc_segments_out y'). seg_len s = 0) \<and> tc_n x' = tc_n x \<longrightarrow> newx = []"
    "tc_active y' \<longrightarrow> tc_time y' = (if tc_segments_out x = [] then tc_time y else 0)"
    "tc_active x' \<longrightarrow> tc_time x' = (if tc_segments_out y' = [] then tc_time x else 0)"
    "same_input (tc_sender x) (tc_sender x')" "same_input (tc_sender y) (tc_sender y')"
proof -
  note b = link_at_bounds [OF l]
  have at: "conn_at S N ix (tc_edge y) nothing 0 iy x Kx" "conn_at nothing 0 iy (tc_edge x) S N ix y Ky"
    "feed S N ix Ky (tc_segments_out x) (tc_n x)" "feed nothing 0 iy Kx (tc_segments_out y) (tc_n y)"
    "ack_feed 0 iy (tc_edge x) (tc_b y) (tc_segments_out x) Kx" "ack_feed N ix (tc_edge y) (tc_b x) (tc_segments_out y) Ky"
    "tc_retx x \<le> 1" "tc_retx y \<le> 1" using l unfolding link_at_def by blast+
  have kn: "Kx \<le> tc_n y" using b(5) by simp
  obtain y' newy where y': "deliver_segments (tc_segments_out x) y = Inr y'" "reacts nothing 0 iy (tc_edge x) S N ix y Ky y' (tc_n x) newy" "tc_b y' = Kx" "same_input (tc_sender y) (tc_sender y')"
    "(\<forall>s\<in>set (tc_segments_out x). seg_len s = 0) \<and> tc_n y' = tc_n y \<longrightarrow> newy = []"
    "tc_active y' \<longrightarrow> tc_time y' = (if tc_segments_out x = [] then tc_time y else 0)"
    "\<forall>D b0. pending nothing D b0 (tc_sender y) \<longrightarrow> Kx \<le> D \<longrightarrow> pending nothing D b0 (tc_sender y')"
    using conn_receives_all [OF at(2,3,5) kn room] by blast
  have y1: "conn_at nothing 0 iy (tc_edge x) S N ix y' (tc_n x)" "tc_segments_out y' = tc_segments_out y @ newy"
      "feed nothing 0 iy (tc_n y) newy (tc_n y')" "ack_feed N ix (tc_edge y) Ky newy (tc_n x)"
    using y'(2) by (simp_all add: reacts_def)
  let ?x = "x\<lparr>tc_segments_out := []\<rparr>"
  have fy: "feed nothing 0 iy Kx (tc_segments_out y') (tc_n y')" using at(4) y1(2,3) b(5) feed_append by force
  have ay: "ack_feed N ix (tc_edge y) (tc_b ?x) (tc_segments_out y') (tc_n x)" using at(6) y1(2,4) ack_feed_append by fastforce
  have cx: "conn_at S N ix (tc_edge y) nothing 0 iy ?x Kx" using at(1) by simp
  have nn: "tc_n x \<le> tc_n ?x" "min (tc_n y') (0 + 1) \<le> tc_edge ?x" by (simp_all add: rc_edge_def)
  obtain x' newx where x': "deliver_segments (tc_segments_out y') ?x = Inr x'"
      "reacts S N ix (tc_edge y) nothing 0 iy ?x Kx x' (tc_n y') newx" "tc_b x' = tc_n x" "same_input (tc_sender ?x) (tc_sender x')"
    "(\<forall>s\<in>set (tc_segments_out y'). seg_len s = 0) \<and> tc_n x' = tc_n ?x \<longrightarrow> newx = []"
    "tc_active x' \<longrightarrow> tc_time x' = (if tc_segments_out y' = [] then tc_time ?x else 0)"
    "\<forall>D b0. pending S D b0 (tc_sender ?x) \<longrightarrow> tc_n x \<le> D \<longrightarrow> pending S D b0 (tc_sender x')"
    using conn_receives_all [OF cx fy ay nn] by blast
  have ix': "snd_inv S (tc_sender x')" "snd_inv nothing (tc_sender y')" using conn_at_inv x'(2) y1(1) by (auto simp: reacts_def)
  have "pending S (tc_n x) (snd_base (tc_sender x)) (tc_sender x')" using x'(7) pending_start [OF b(9) at(7)] by simp
  note px = pending_timer [OF this ix'(1) x'(3)]
  have "pending nothing (tc_n y) (snd_base (tc_sender y)) (tc_sender y')" using y'(7) pending_start [OF b(10) at(8)] b(5) by simp
  note py = pending_timer [OF this ix'(2) y'(3) [unfolded b(5)]]
  show thesis
    by (rule that [of y' newy x' newx]) (use y' x' px py in \<open>simp_all add: move_segments_def\<close>)
qed

lemma send_at:
  assumes c: "conn_at S N isn E P M pisn x K" and b: "buf_str b = map S [tc_written x..<N]"
    and cl: "closed = tc_ended_input x" and cap: "0 < bs_capacity (snd_stream (tc_sender x))"
  shows "\<exists>b' x1 x2 closed' new. write_input b x = Inr (b', x1) \<and>
    (if buf_size b' = 0 \<and> \<not> closed then bindE (tc_end_input_stream x1) (\<lambda>x. Inr (x, True)) else Inr (x1, closed)) = Inr (x2, closed') \<and>
    reacts S N isn E P M pisn x K x2 K new \<and> tc_b x2 = tc_b x \<and> tc_retx x2 = tc_retx x \<and> tc_time x2 = tc_time x \<and>
    buf_str b' = map S [tc_written x2..<N] \<and> closed' = tc_ended_input x2 \<and> 0 < bs_capacity (snd_stream (tc_sender x2)) \<and>
    wants_to_send (tc_sender x2) \<and> (closed \<longrightarrow> x2 = x)"
proof -
  have pre: "snd_pre S N isn E (tc_sender x)" using c by (simp add: conn_at_def snd_at_def)
  have e: "tc_ended_input x \<longrightarrow> buf_str b = []" using pre b by (simp add: snd_pre_def)
  obtain b' x1 new1 where x1: "write_input b x = Inr (b', x1)" "reacts S N isn E P M pisn x K x1 K new1" "tc_b x1 = tc_b x"
      "buf_str b' = map S [tc_written x1..<N]" "tc_ended_input x1 = tc_ended_input x" "tc_retx x1 = tc_retx x" "tc_time x1 = tc_time x"
      "bs_capacity (snd_stream (tc_sender x1)) = bs_capacity (snd_stream (tc_sender x))"
      "buf_str b' = [] \<or> tc_remaining_outbound_capacity x1 = 0"
    using write_input_at [OF c b e] by blast
  have at1: "conn_at S N isn E P M pisn x1 K" using x1(2) by (simp add: reacts_def)
  have z: "buf_size b' = 0 \<longleftrightarrow> buf_str b' = []" by (simp add: buf_size_def)
  show ?thesis
  proof (cases "buf_str b' = [] \<and> \<not> closed")
    case True
    have pre1: "snd_pre S N isn E (tc_sender x1)" using at1 by (simp add: conn_at_def snd_at_def)
    have w: "tc_written x1 = N" using True x1(4) snd_pre_parts(7) [OF pre1] by auto
    have "\<not> tc_ended_input x1" using True x1(5) cl by simp
    from tc_end_input_at [OF at1 this w] obtain x2 new2 where
      x2: "tc_end_input_stream x1 = Inr x2" "reacts S N isn E P M pisn x1 K x2 K new2" "tc_b x2 = tc_b x1" "tc_written x2 = N" "tc_ended_input x2"
        "bs_capacity (snd_stream (tc_sender x2)) = bs_capacity (snd_stream (tc_sender x1))" "tc_retx x2 = tc_retx x1" "tc_time x2 = tc_time x1"
      by metis
    show ?thesis
      using x1 x2 True z cap cl reacts_trans [OF x1(2) x2(2)] w
      by (intro exI [of _ b'] exI [of _ x1] exI [of _ x2] exI [of _ True] exI [of _ "new1 @ new2"]) simp
  next
    case False
    have "wants_to_send (tc_sender x1)"
    proof (cases "buf_str b' = []")
      case True
      then show ?thesis using False cl x1(5) by simp
    next
      case False
      then have "tc_remaining_outbound_capacity x1 = 0" using x1(9) by simp
      then show ?thesis using cap x1(8) by (auto simp: tc_remaining_outbound_capacity_def bs_remaining_capacity_def)
    qed
    moreover have "x1 = x" if "closed"
    proof -
      have "buf_size b = 0" using e that cl by (simp add: buf_size_def)
      then show ?thesis using x1(1) by (subst (asm) write_input.simps) simp
    qed
    ultimately show ?thesis
      using x1 False z cap cl
      by (intro exI [of _ b'] exI [of _ x1] exI [of _ x1] exI [of _ closed] exI [of _ new1]) auto
  qed
qed

definition bm_inv :: "(nat \<Rightarrow> u8) \<Rightarrow> nat \<Rightarrow> wrapping_int32 \<Rightarrow> wrapping_int32 \<Rightarrow> benchmark \<Rightarrow> nat \<Rightarrow> nat \<Rightarrow> bool" where
  "bm_inv S N ix iy b Kx Ky \<longleftrightarrow> link_at S N ix iy (bm_x b) (bm_y b) Kx Ky \<and>
     bs_contents (rc_stream_out (tc_receiver (bm_y b))) = [] \<and> 0 < rc_capacity (tc_receiver (bm_y b)) \<and>
     buf_str (bm_bytes_to_send b) = map S [tc_written (bm_x b)..<N] \<and> bm_x_closed b = tc_ended_input (bm_x b) \<and>
     0 < bs_capacity (snd_stream (tc_sender (bm_x b))) \<and> tc_ended_input (bm_y b) \<and>
     bm_string_received b = map S [0..<bs_read_bytes (rc_stream_out (tc_receiver (bm_y b)))]"

text \<open>There is room at \<open>y\<close> for everything that \<open>x\<close> has sent.\<close>

lemma bm_room:
  assumes s: "snd_at S N ix (tc_edge y) (tc_sender x)" and r: "rc_at S N ix (tc_receiver y) Ky"
    and e: "bs_contents (rc_stream_out (tc_receiver y)) = []" "0 < rc_capacity (tc_receiver y)" and b: "tc_b x \<le> Ky"
  shows "min (tc_n x) (N + 1) \<le> tc_edge y"
proof -
  note k = rc_at_bounds [OF r]
  have cap: "0 < unat (rc_capacity (tc_receiver y))" using e(2) by (simp add: word_less_nat_alt)
  have m: "min (tc_n x) (N + 1) \<le> max (tc_edge y) (tc_b x + 1)" using s by (simp add: snd_at_def snd_pre_def)
  show ?thesis
  proof (cases "Ky \<le> N + 1")
    case True
    then have "tc_edge y = Ky + unat (rc_capacity (tc_receiver y))" using k(5,6) e(1) by simp
    then show ?thesis using m b cap by auto
  next
    case False
    then have K: "Ky = N + 2" "rc_fin (tc_receiver y)" using k(2,3) by auto
    then have "tc_edge y = N + unat (rc_capacity (tc_receiver y)) + 1" using k(8) e(1) by (simp add: rc_edge_def bs_bytes_read_def)
    then show ?thesis by simp
  qed
qed

text \<open>Everything has been received and acknowledged.\<close>

definition bm_done :: "nat \<Rightarrow> benchmark \<Rightarrow> bool" where
  "bm_done N b \<longleftrightarrow> tc_b (bm_x b) = N + 2 \<and> tc_b (bm_y b) = 2"

lemma conn_finished:
  assumes "conn_at S N isn E P M pisn c K" "tc_b c = N + 2" "K = M + 2"
  shows "tc_finished c" "tc_n c = N + 2" "snd_outstanding_segments (tc_sender c) = []" "tc_ended_input c"
proof -
  have pre: "snd_pre S N isn E (tc_sender c)" and r: "rc_at P M pisn (tc_receiver c) K"
    using assms(1) by (simp_all add: conn_at_def snd_at_def)
  note p = snd_pre_parts [OF pre]
  show n: "tc_n c = N + 2" using p(8,11) assms(2) by simp
  show o: "snd_outstanding_segments (tc_sender c) = []" using no_flight [OF p(1)] n assms(2) by simp
  have eof: "bs_eof (snd_stream (tc_sender c))" using pre n p(10) by (simp add: snd_pre_def calm_def)
  then show "tc_ended_input c" by (simp add: bs_eof_def bs_input_ended_def)
  have "snd_bytes_in_flight (tc_sender c) = 0" using p(1) o by (simp add: snd_inv_def snd_queue_ok_def)
  moreover have "bs_input_end (rc_stream_out (tc_receiver c))" using r rc_at_bounds(3) [OF r] assms(3) by (simp add: rc_at_def)
  ultimately show "tc_finished c" using eof by (simp add: tc_finished_def bs_input_ended_def)
qed

lemma link_done:
  assumes "link_at S N ix iy x y Kx Ky" "tc_b x = N + 2" "tc_b y = 2"
  shows "Ky = N + 2" "Kx = 2"
  using link_at_bounds [OF assms(1)] assms(2,3) by simp_all

text \<open>The last part of a round: \<open>y\<close> is read and time passes.\<close>

lemma reading_round:
  assumes y: "conn_at Q L iy E S N ix y Ky"
  obtains y2 where
    "(if bs_buffer_size (rc_stream_out (tc_receiver y)) > 0
      then bindE (tc_read (bs_buffer_size (rc_stream_out (tc_receiver y))) y) (\<lambda>(data, y). Inr (rcvd @ data, y)) else Inr (rcvd, y)) =
      Inr (rcvd @ map S [bs_read_bytes (rc_stream_out (tc_receiver y))..<bs_read_bytes (rc_stream_out (tc_receiver y2))], y2)"
    "conn_at Q L iy E S N ix y2 Ky" "bs_contents (rc_stream_out (tc_receiver y2)) = []" "tc_edge y \<le> tc_edge y2"
    "bs_read_bytes (rc_stream_out (tc_receiver y)) \<le> bs_read_bytes (rc_stream_out (tc_receiver y2))"
    "tc_sender y2 = tc_sender y" "tc_segments_out y2 = tc_segments_out y" "tc_active y2 = tc_active y" "tc_cfg y2 = tc_cfg y" "tc_time y2 = tc_time y"
    "rc_capacity (tc_receiver y2) = rc_capacity (tc_receiver y)" "tc_finished y2 = tc_finished y"
proof -
  let ?o = "rc_stream_out (tc_receiver y)"
  obtain y1 where rd: "tc_read (bs_buffer_size ?o) y = Inr (bs_contents ?o, y1)"
    and y1: "conn_at Q L iy E S N ix y1 Ky" "bs_contents (rc_stream_out (tc_receiver y1)) = []" "tc_edge y \<le> tc_edge y1"
      "bs_contents ?o = map S [bs_read_bytes ?o..<bs_read_bytes (rc_stream_out (tc_receiver y1))]"
      "bs_read_bytes ?o \<le> bs_read_bytes (rc_stream_out (tc_receiver y1))" "tc_sender y1 = tc_sender y" "tc_segments_out y1 = tc_segments_out y"
      "tc_active y1 = tc_active y" "tc_cfg y1 = tc_cfg y" "tc_time y1 = tc_time y" "rc_capacity (tc_receiver y1) = rc_capacity (tc_receiver y)"
    by (rule conn_read_all [OF y(1)]) (rule that)
  show thesis
  proof (cases "bs_contents ?o = []")
    case True
    then show thesis by (intro that [of y]) (simp_all add: y)
  next
    case False
    have r: "rc_at S N ix (tc_receiver y1) Ky" "rc_at S N ix (tc_receiver y) Ky" using y1(1) y by (simp_all add: conn_at_def)
    have "bs_input_end (rc_stream_out (tc_receiver y1)) = rc_fin (tc_receiver y1)" "bs_input_end ?o = rc_fin (tc_receiver y)"
      using r unfolding rc_at_def by blast+
    then have "bs_input_end (rc_stream_out (tc_receiver y1)) = bs_input_end ?o" using rc_at_bounds(3) [OF r(1)] rc_at_bounds(3) [OF r(2)] by simp
    then have fin: "tc_finished y1 = tc_finished y" using y1(6) by (simp add: tc_finished_def bs_input_ended_def)
    show thesis
    proof (rule that [of y1, folded y1(4)])
      show "(if bs_buffer_size ?o > 0 then bindE (tc_read (bs_buffer_size ?o) y) (\<lambda>(data, y). Inr (rcvd @ data, y)) else Inr (rcvd, y)) =
        Inr (rcvd @ bs_contents ?o, y1)" using False rd by simp
    qed (fact y1 fin)+
  qed
qed

lemma read_and_tick:
  assumes x: "conn_at S N ix (tc_edge y) nothing 0 iy x Kx" "tc_retx x \<le> 1" "tc_retx x = 0 \<or> snd_outstanding_segments (tc_sender x) = []"
    and y: "conn_at nothing 0 iy (tc_edge x) S N ix y Ky" "tc_retx y \<le> 1" "tc_retx y = 0 \<or> snd_outstanding_segments (tc_sender y) = []"
    and out: "tc_segments_out y = []"
  obtains y1 x' y' dup where
    "(if bs_buffer_size (rc_stream_out (tc_receiver y)) > 0
      then bindE (tc_read (bs_buffer_size (rc_stream_out (tc_receiver y))) y) (\<lambda>(data, y). Inr (rcvd @ data, y)) else Inr (rcvd, y)) =
      Inr (rcvd @ map S [bs_read_bytes (rc_stream_out (tc_receiver y))..<bs_read_bytes (rc_stream_out (tc_receiver y'))], y1)"
    "tc_tick 1000 x = Inr x'" "tc_tick 1000 y1 = Inr y'"
    "bs_read_bytes (rc_stream_out (tc_receiver y)) \<le> bs_read_bytes (rc_stream_out (tc_receiver y'))"
    "bs_contents (rc_stream_out (tc_receiver y')) = []" "rc_capacity (tc_receiver y') = rc_capacity (tc_receiver y)"
    "conn_at S N ix (tc_edge y') nothing 0 iy x' Kx" "conn_at nothing 0 iy (tc_edge x') S N ix y' Ky"
    "tc_segments_out x' = tc_segments_out x @ dup" "feed S N ix (tc_n x) dup (tc_n x)" "ack_feed 0 iy (tc_edge x') Kx dup Kx"
    "feed nothing 0 iy (tc_n y) (tc_segments_out y') (tc_n y)" "ack_feed N ix (tc_edge y') Ky (tc_segments_out y') Ky"
    "tc_retx x' \<le> 1" "tc_retx y' \<le> 1" "tc_n x' = tc_n x" "tc_b x' = tc_b x" "tc_n y' = tc_n y" "tc_b y' = tc_b y" "tc_edge x' = tc_edge x"
    "snd_stream (tc_sender x') = snd_stream (tc_sender x)" "snd_stream (tc_sender y') = snd_stream (tc_sender y)"
    "snd_outstanding_segments (tc_sender x) = [] \<longrightarrow> dup = []" "snd_outstanding_segments (tc_sender y) = [] \<longrightarrow> tc_segments_out y' = []"
    "tc_cfg x' = tc_cfg x" "tc_cfg y' = tc_cfg y"
    "tc_active x' \<longrightarrow> tc_active x \<and> tc_time x' = tc_time x + 1000 \<and> \<not> (tc_finished x \<and> 10 * ucast (cfg_rt_timeout (tc_cfg x)) \<le> tc_time x')"
    "tc_active y' \<longrightarrow> tc_active y \<and> tc_time y' = tc_time y + 1000 \<and> \<not> (tc_finished y \<and> 10 * ucast (cfg_rt_timeout (tc_cfg y)) \<le> tc_time y')"
proof -
  let ?o = "rc_stream_out (tc_receiver y)"
  obtain y2 where rdy: "(if bs_buffer_size ?o > 0 then bindE (tc_read (bs_buffer_size ?o) y) (\<lambda>(data, y). Inr (rcvd @ data, y)) else Inr (rcvd, y)) =
      Inr (rcvd @ map S [bs_read_bytes ?o..<bs_read_bytes (rc_stream_out (tc_receiver y2))], y2)"
    and y2: "conn_at nothing 0 iy (tc_edge x) S N ix y2 Ky" "bs_contents (rc_stream_out (tc_receiver y2)) = []" "tc_edge y \<le> tc_edge y2"
      "bs_read_bytes ?o \<le> bs_read_bytes (rc_stream_out (tc_receiver y2))"
      "tc_sender y2 = tc_sender y" "tc_segments_out y2 = []" "tc_active y2 = tc_active y" "tc_cfg y2 = tc_cfg y" "tc_time y2 = tc_time y"
      "rc_capacity (tc_receiver y2) = rc_capacity (tc_receiver y)" and fin: "tc_finished y2 = tc_finished y"
    by (rule reading_round [OF y(1), of rcvd, unfolded out]) (rule that)
  have x2: "conn_at S N ix (tc_edge y2) nothing 0 iy x Kx" by (rule conn_at_room [OF x(1) y2(3)])
  obtain x' dup where x': "tc_tick 1000 x = Inr x'" "conn_at S N ix (tc_edge y2) nothing 0 iy x' Kx" "tc_segments_out x' = tc_segments_out x @ dup"
    "feed S N ix (tc_n x) dup (tc_n x)" "ack_feed 0 iy (tc_edge x) Kx dup Kx" "snd_outstanding_segments (tc_sender x) = [] \<longrightarrow> dup = []"
    "tc_n x' = tc_n x" "tc_b x' = tc_b x" "snd_stream (tc_sender x') = snd_stream (tc_sender x)" "tc_retx x' \<le> 1" "tc_receiver x' = tc_receiver x" "tc_cfg x' = tc_cfg x"
    "tc_active x' \<longrightarrow> tc_active x \<and> tc_time x' = tc_time x + 1000 \<and> \<not> (tc_finished x \<and> 10 * ucast (cfg_rt_timeout (tc_cfg x)) \<le> tc_time x + 1000)"
    by (rule conn_tick [OF x2 x(2,3), of 1000]) (rule that)
  have cnt: "tc_retx y2 \<le> 1" "tc_retx y2 = 0 \<or> snd_outstanding_segments (tc_sender y2) = []" using y(2,3) y2(5) by simp_all
  obtain y' dupy where y': "tc_tick 1000 y2 = Inr y'" "conn_at nothing 0 iy (tc_edge x) S N ix y' Ky" "tc_segments_out y' = tc_segments_out y2 @ dupy"
    "feed nothing 0 iy (tc_n y2) dupy (tc_n y2)" "ack_feed N ix (tc_edge y2) Ky dupy Ky" "snd_outstanding_segments (tc_sender y2) = [] \<longrightarrow> dupy = []"
    "tc_n y' = tc_n y2" "tc_b y' = tc_b y2" "snd_stream (tc_sender y') = snd_stream (tc_sender y2)" "tc_retx y' \<le> 1" "tc_receiver y' = tc_receiver y2" "tc_cfg y' = tc_cfg y2"
    "tc_active y' \<longrightarrow> tc_active y2 \<and> tc_time y' = tc_time y2 + 1000 \<and> \<not> (tc_finished y2 \<and> 10 * ucast (cfg_rt_timeout (tc_cfg y2)) \<le> tc_time y2 + 1000)"
    by (rule conn_tick [OF y2(1) cnt, of 1000]) (rule that)
  have ey: "tc_segments_out y' = dupy" "tc_edge y' = tc_edge y2" "tc_edge x' = tc_edge x" "tc_n y' = tc_n y" "tc_b y' = tc_b y" "tc_cfg y' = tc_cfg y"
      "snd_stream (tc_sender y') = snd_stream (tc_sender y)" "rc_stream_out (tc_receiver y') = rc_stream_out (tc_receiver y2)"
    using y'(3,7-9,11,12) x'(11) y2(5,6,8) by simp_all
  show thesis
  proof (rule that [of y' y2 x' dup])
    show "conn_at S N ix (tc_edge y') nothing 0 iy x' Kx" "conn_at nothing 0 iy (tc_edge x') S N ix y' Ky" "ack_feed 0 iy (tc_edge x') Kx dup Kx"
      "ack_feed N ix (tc_edge y') Ky (tc_segments_out y') Ky" using x'(2,5) y'(2,5) ey(1,2,3) by simp_all
    show "feed nothing 0 iy (tc_n y) (tc_segments_out y') (tc_n y)" using y'(4) ey(1) y2(5) by simp
    show "snd_outstanding_segments (tc_sender y) = [] \<longrightarrow> tc_segments_out y' = []" using y'(6) ey(1) y2(5) by simp
    show "tc_active x' \<longrightarrow> tc_active x \<and> tc_time x' = tc_time x + 1000 \<and> \<not> (tc_finished x \<and> 10 * ucast (cfg_rt_timeout (tc_cfg x)) \<le> tc_time x')"
      using x'(13) by auto
    show "tc_active y' \<longrightarrow> tc_active y \<and> tc_time y' = tc_time y + 1000 \<and> \<not> (tc_finished y \<and> 10 * ucast (cfg_rt_timeout (tc_cfg y)) \<le> tc_time y')"
      using y'(13) fin y2(7-9) by auto
    show "bs_read_bytes ?o \<le> bs_read_bytes (rc_stream_out (tc_receiver y'))" using y2(4) ey(8) by simp
    show "bs_contents (rc_stream_out (tc_receiver y')) = []" "rc_capacity (tc_receiver y') = rc_capacity (tc_receiver y)"
      using y2(2,10) y'(11) by simp_all
  qed (use rdy ey x'(1,3,4,6-10,12) y'(1,10) in simp_all)
qed

text \<open>What a round keeps, how far it gets, and what it does when nothing is left to do.\<close>

definition bm_quiet :: "benchmark \<Rightarrow> bool" where
  "bm_quiet b \<longleftrightarrow> (\<forall>s\<in>set (tc_segments_out (bm_x b)). seg_len s = 0) \<and> tc_segments_out (bm_y b) = []"

definition bm_silent :: "benchmark \<Rightarrow> bool" where
  "bm_silent b \<longleftrightarrow> tc_segments_out (bm_x b) = [] \<and> tc_segments_out (bm_y b) = []"

definition waits :: "tcp_connection \<Rightarrow> tcp_connection \<Rightarrow> bool" where
  "waits c c' \<longleftrightarrow> (tc_active c' \<longrightarrow> tc_active c \<and> tc_time c' = tc_time c + 1000 \<and> \<not> 10 * ucast (cfg_rt_timeout (tc_cfg c)) \<le> tc_time c')"

text \<open>
  The connections in the course of a round: \<open>x\<close> has sent and become \<open>x2\<close>, \<open>y\<close> has received it and become \<open>y1\<close>, \<open>x2\<close> has
  received the answers and become \<open>x3\<close>, and \<open>b'\<close> is the end of the round.
\<close>

definition bm_sent where
  "bm_sent S N ix iy b Kx Ky x2 bytes closed \<longleftrightarrow> link_at S N ix iy x2 (bm_y b) Kx Ky \<and> (bm_x_closed b \<longrightarrow> x2 = bm_x b) \<and>
     tc_b x2 = tc_b (bm_x b) \<and> tc_time x2 = tc_time (bm_x b) \<and> tc_cfg x2 = tc_cfg (bm_x b) \<and> (tc_active x2 \<longrightarrow> tc_active (bm_x b)) \<and>
     wants_to_send (tc_sender x2) \<and> 0 < bs_capacity (snd_stream (tc_sender x2)) \<and>
     buf_str bytes = map S [tc_written x2..<N] \<and> closed = tc_ended_input x2"

definition bm_exchanged where
  "bm_exchanged S N ix iy y Kx Ky x2 y1 newy x3 newx \<longleftrightarrow>
     reacts nothing 0 iy (tc_edge x2) S N ix y Ky y1 (tc_n x2) newy \<and> tc_b y1 = Kx \<and>
     reacts S N ix (tc_edge y) nothing 0 iy (x2\<lparr>tc_segments_out := []\<rparr>) Kx x3 (tc_n y1) newx \<and> tc_b x3 = tc_n x2 \<and>
     ((\<forall>s\<in>set (tc_segments_out x2). seg_len s = 0) \<and> tc_n y1 = tc_n y \<longrightarrow> newy = []) \<and>
     ((\<forall>s\<in>set (tc_segments_out y1). seg_len s = 0) \<and> tc_n x3 = tc_n x2 \<longrightarrow> newx = []) \<and>
     (tc_active y1 \<longrightarrow> tc_time y1 = (if tc_segments_out x2 = [] then tc_time y else 0)) \<and>
     (tc_active x3 \<longrightarrow> tc_time x3 = (if tc_segments_out y1 = [] then tc_time x2 else 0)) \<and>
     same_input (tc_sender x2) (tc_sender x3) \<and> same_input (tc_sender y) (tc_sender y1)"

definition bm_ticks where
  "bm_ticks S N ix iy x2 y1 x3 x' y' dup \<longleftrightarrow>
     conn_at S N ix (tc_edge y') nothing 0 iy x' (tc_n y1) \<and> conn_at nothing 0 iy (tc_edge x') S N ix y' (tc_n x2) \<and>
     tc_segments_out x' = tc_segments_out x3 @ dup \<and> feed S N ix (tc_n x3) dup (tc_n x3) \<and> ack_feed 0 iy (tc_edge x') (tc_n y1) dup (tc_n y1) \<and>
     feed nothing 0 iy (tc_n y1) (tc_segments_out y') (tc_n y1) \<and> ack_feed N ix (tc_edge y') (tc_n x2) (tc_segments_out y') (tc_n x2) \<and>
     tc_retx x' \<le> 1 \<and> tc_retx y' \<le> 1 \<and> tc_n x' = tc_n x3 \<and> tc_b x' = tc_b x3 \<and> tc_n y' = tc_n y1 \<and> tc_b y' = tc_b y1 \<and> tc_edge x' = tc_edge x2 \<and>
     snd_stream (tc_sender x') = snd_stream (tc_sender x3) \<and> snd_stream (tc_sender y') = snd_stream (tc_sender y1) \<and>
     (snd_outstanding_segments (tc_sender x3) = [] \<longrightarrow> dup = []) \<and> (snd_outstanding_segments (tc_sender y1) = [] \<longrightarrow> tc_segments_out y' = []) \<and>
     tc_cfg x' = tc_cfg x3 \<and> tc_cfg y' = tc_cfg y1 \<and>
     (tc_active x' \<longrightarrow> tc_active x3 \<and> tc_time x' = tc_time x3 + 1000 \<and> \<not> (tc_finished x3 \<and> 10 * ucast (cfg_rt_timeout (tc_cfg x3)) \<le> tc_time x')) \<and>
     (tc_active y' \<longrightarrow> tc_active y1 \<and> tc_time y' = tc_time y1 + 1000 \<and> \<not> (tc_finished y1 \<and> 10 * ucast (cfg_rt_timeout (tc_cfg y1)) \<le> tc_time y'))"

definition bm_reads where
  "bm_reads S b b' \<longleftrightarrow> (let r = rc_stream_out (tc_receiver (bm_y b)); r' = rc_stream_out (tc_receiver (bm_y b')) in
     bm_string_received b' = bm_string_received b @ map S [bs_read_bytes r..<bs_read_bytes r'] \<and> bs_read_bytes r \<le> bs_read_bytes r' \<and>
     bs_contents r' = [] \<and> rc_capacity (tc_receiver (bm_y b')) = rc_capacity (tc_receiver (bm_y b)))"

definition bm_trace where
  "bm_trace S N ix iy b Kx Ky x2 y1 x3 newy newx dup b' \<longleftrightarrow> bm_sent S N ix iy b Kx Ky x2 (bm_bytes_to_send b') (bm_x_closed b') \<and>
     bm_exchanged S N ix iy (bm_y b) Kx Ky x2 y1 newy x3 newx \<and> bm_ticks S N ix iy x2 y1 x3 (bm_x b') (bm_y b') dup \<and> bm_reads S b b'"

lemma bm_sends:
  assumes inv: "bm_inv S N ix iy b Kx Ky"
  obtains bb x1 x2 closed where "write_input (bm_bytes_to_send b) (bm_x b) = Inr (bb, x1)"
    "(if buf_size bb = 0 \<and> \<not> bm_x_closed b then bindE (tc_end_input_stream x1) (\<lambda>x. Inr (x, True)) else Inr (x1, bm_x_closed b)) = Inr (x2, closed)"
    "bm_sent S N ix iy b Kx Ky x2 bb closed" "min (tc_n x2) (N + 1) \<le> tc_edge (bm_y b)"
proof -
  let ?x = "bm_x b" and ?y = "bm_y b"
  have l: "link_at S N ix iy ?x ?y Kx Ky"
    and bi: "bs_contents (rc_stream_out (tc_receiver ?y)) = []" "0 < rc_capacity (tc_receiver ?y)"
      "buf_str (bm_bytes_to_send b) = map S [tc_written ?x..<N]" "bm_x_closed b = tc_ended_input ?x"
      "0 < bs_capacity (snd_stream (tc_sender ?x))" "tc_ended_input ?y"
      "bm_string_received b = map S [0..<bs_read_bytes (rc_stream_out (tc_receiver ?y))]"
    using inv unfolding bm_inv_def by blast+
  note lb = link_at_bounds [OF l]
  have la: "conn_at S N ix (tc_edge ?y) nothing 0 iy ?x Kx" "conn_at nothing 0 iy (tc_edge ?x) S N ix ?y Ky"
     "feed S N ix Ky (tc_segments_out ?x) (tc_n ?x)" "feed nothing 0 iy Kx (tc_segments_out ?y) (tc_n ?y)"
     "ack_feed 0 iy (tc_edge ?x) (tc_b ?y) (tc_segments_out ?x) Kx" "ack_feed N ix (tc_edge ?y) (tc_b ?x) (tc_segments_out ?y) Ky"
     "tc_retx ?x \<le> 1" "tc_retx ?y \<le> 1"
    using l unfolding link_at_def by blast+
  obtain bb x1 x2 closed new where s: "write_input (bm_bytes_to_send b) ?x = Inr (bb, x1)"
      "(if buf_size bb = 0 \<and> \<not> bm_x_closed b then bindE (tc_end_input_stream x1) (\<lambda>x. Inr (x, True)) else Inr (x1, bm_x_closed b)) = Inr (x2, closed)"
      "reacts S N ix (tc_edge ?y) nothing 0 iy ?x Kx x2 Kx new" "tc_b x2 = tc_b ?x" "tc_retx x2 = tc_retx ?x" "tc_time x2 = tc_time ?x"
      "buf_str bb = map S [tc_written x2..<N]" "closed = tc_ended_input x2" "0 < bs_capacity (snd_stream (tc_sender x2))"
      "wants_to_send (tc_sender x2)" "bm_x_closed b \<longrightarrow> x2 = ?x"
    using send_at [OF la(1) bi(3-5)] by blast
  have x2: "conn_at S N ix (tc_edge ?y) nothing 0 iy x2 Kx" "tc_segments_out x2 = tc_segments_out ?x @ new" "feed S N ix (tc_n ?x) new (tc_n x2)"
      "ack_feed 0 iy (tc_edge ?x) Kx new Kx" "tc_edge x2 = tc_edge ?x" "tc_cfg x2 = tc_cfg ?x" "tc_active x2 \<longrightarrow> tc_active ?x"
    using s(3) unfolding reacts_def by blast+
  have f2: "feed S N ix Ky (tc_segments_out x2) (tc_n x2)" using la(3) x2(2,3) feed_append by force
  have a2: "ack_feed 0 iy (tc_edge x2) (tc_b ?y) (tc_segments_out x2) Kx" using la(5) x2(2,4,5) ack_feed_append by fastforce
  have l2: "link_at S N ix iy x2 ?y Kx Ky"
    unfolding link_at_def using x2(1,5) la f2 a2 lb(5) s(4,5) by auto
  have room: "min (tc_n x2) (N + 1) \<le> tc_edge ?y"
    by (rule bm_room [where S = S and ix = ix and Ky = Ky]) (use x2(1) la(2) bi(1,2) lb(1) s(4) in \<open>simp_all add: conn_at_def\<close>)
  show thesis
  proof (rule that [OF s(1,2) _ room])
    show "bm_sent S N ix iy b Kx Ky x2 bb closed" unfolding bm_sent_def by (intro conjI) (fact l2 s x2)+
  qed
qed

lemma bm_loop_trace:
  assumes inv: "bm_inv S N ix iy b Kx Ky"
  obtains x2 y1 x3 newy newx dup b' where "bm_loop False b = Inr b'" "bm_trace S N ix iy b Kx Ky x2 y1 x3 newy newx dup b'"
proof -
  let ?y = "bm_y b"
  obtain bb x1 x2 closed where s: "write_input (bm_bytes_to_send b) (bm_x b) = Inr (bb, x1)"
      "(if buf_size bb = 0 \<and> \<not> bm_x_closed b then bindE (tc_end_input_stream x1) (\<lambda>x. Inr (x, True)) else Inr (x1, bm_x_closed b)) = Inr (x2, closed)"
      "bm_sent S N ix iy b Kx Ky x2 bb closed" "min (tc_n x2) (N + 1) \<le> tc_edge ?y"
    by (rule bm_sends [OF inv])
  have l2: "link_at S N ix iy x2 ?y Kx Ky" using s(3) unfolding bm_sent_def by blast
  obtain x3 y1 newx newy where m: "move_segments x2 ?y [] False = Inr (x2\<lparr>tc_segments_out := []\<rparr>, y1, [])"
    "reacts nothing 0 iy (tc_edge x2) S N ix ?y Ky y1 (tc_n x2) newy" "tc_b y1 = Kx"
    "move_segments y1 (x2\<lparr>tc_segments_out := []\<rparr>) [] False = Inr (y1\<lparr>tc_segments_out := []\<rparr>, x3, [])"
    "reacts S N ix (tc_edge ?y) nothing 0 iy (x2\<lparr>tc_segments_out := []\<rparr>) Kx x3 (tc_n y1) newx" "tc_b x3 = tc_n x2"
    and mt: "tc_retx x3 \<le> 1" "tc_retx x3 = 0 \<or> snd_outstanding_segments (tc_sender x3) = []"
    "tc_retx y1 \<le> 1" "tc_retx y1 = 0 \<or> snd_outstanding_segments (tc_sender y1) = []"
    and mq: "(\<forall>s\<in>set (tc_segments_out x2). seg_len s = 0) \<and> tc_n y1 = tc_n ?y \<longrightarrow> newy = []"
    "(\<forall>s\<in>set (tc_segments_out y1). seg_len s = 0) \<and> tc_n x3 = tc_n x2 \<longrightarrow> newx = []"
    "tc_active y1 \<longrightarrow> tc_time y1 = (if tc_segments_out x2 = [] then tc_time ?y else 0)"
    "tc_active x3 \<longrightarrow> tc_time x3 = (if tc_segments_out y1 = [] then tc_time x2 else 0)"
    and mi: "same_input (tc_sender x2) (tc_sender x3)" "same_input (tc_sender ?y) (tc_sender y1)"
    by (rule exchange_at [OF l2 s(4)]) (rule that)
  have m2: "conn_at nothing 0 iy (tc_edge x2) S N ix y1 (tc_n x2)" "tc_edge y1 = tc_edge ?y"
      "bs_read_bytes (rc_stream_out (tc_receiver y1)) = bs_read_bytes (rc_stream_out (tc_receiver ?y))"
    using m(2) unfolding reacts_def by blast+
  have cap: "rc_capacity (tc_receiver y1) = rc_capacity (tc_receiver ?y)" using m2(2,3) by (simp add: rc_edge_def word_unat_eq_iff)
  have m5: "conn_at S N ix (tc_edge ?y) nothing 0 iy x3 (tc_n y1)" "tc_segments_out x3 = newx" "tc_edge x3 = tc_edge x2"
    using m(5) unfolding reacts_def by simp_all
  define y2 where "y2 = y1\<lparr>tc_segments_out := []\<rparr>"
  have e: "tc_edge y2 = tc_edge ?y" "tc_n y2 = tc_n y1" "tc_b y2 = tc_b y1" "tc_retx y2 = tc_retx y1" "tc_time y2 = tc_time y1" "tc_cfg y2 = tc_cfg y1" "tc_active y2 = tc_active y1"
      "snd_outstanding_segments (tc_sender y2) = snd_outstanding_segments (tc_sender y1)" "snd_stream (tc_sender y2) = snd_stream (tc_sender y1)"
      "tc_finished y2 = tc_finished y1" "tc_segments_out y2 = []" "rc_capacity (tc_receiver y2) = rc_capacity (tc_receiver ?y)"
      "bs_read_bytes (rc_stream_out (tc_receiver y2)) = bs_read_bytes (rc_stream_out (tc_receiver ?y))"
    using m2(2,3) cap by (simp_all add: y2_def tc_finished_def)
  have c3: "conn_at S N ix (tc_edge y2) nothing 0 iy x3 (tc_n y1)" using m5(1) e(1) by simp
  have c1: "conn_at nothing 0 iy (tc_edge x3) S N ix y2 (tc_n x2)" using m2(1) m5(3) by (simp add: y2_def)
  show thesis
  proof (rule read_and_tick [OF c3 mt(1,2) c1 mt(3,4) [folded e(4,8)] e(11), of "bm_string_received b"], unfold e m5(3))
    fix y3 x' y' dup
    assume r: "(if bs_buffer_size (rc_stream_out (tc_receiver y2)) > 0
      then bindE (tc_read (bs_buffer_size (rc_stream_out (tc_receiver y2))) y2) (\<lambda>(data, y). Inr (bm_string_received b @ data, y)) else Inr (bm_string_received b, y2)) =
      Inr (bm_string_received b @ map S [bs_read_bytes (rc_stream_out (tc_receiver ?y))..<bs_read_bytes (rc_stream_out (tc_receiver y'))], y3)"
      "tc_tick 1000 x3 = Inr x'" "tc_tick 1000 y3 = Inr y'"
    assume t: "bs_read_bytes (rc_stream_out (tc_receiver ?y)) \<le> bs_read_bytes (rc_stream_out (tc_receiver y'))"
      "bs_contents (rc_stream_out (tc_receiver y')) = []" "rc_capacity (tc_receiver y') = rc_capacity (tc_receiver ?y)"
      "conn_at S N ix (tc_edge y') nothing 0 iy x' (tc_n y1)" "conn_at nothing 0 iy (tc_edge x') S N ix y' (tc_n x2)"
      "tc_segments_out x' = tc_segments_out x3 @ dup" "feed S N ix (tc_n x3) dup (tc_n x3)" "ack_feed 0 iy (tc_edge x') (tc_n y1) dup (tc_n y1)"
      "feed nothing 0 iy (tc_n y1) (tc_segments_out y') (tc_n y1)" "ack_feed N ix (tc_edge y') (tc_n x2) (tc_segments_out y') (tc_n x2)"
      "tc_retx x' \<le> 1" "tc_retx y' \<le> 1" "tc_n x' = tc_n x3" "tc_b x' = tc_b x3" "tc_n y' = tc_n y1" "tc_b y' = tc_b y1" "tc_edge x' = tc_edge x2"
      "snd_stream (tc_sender x') = snd_stream (tc_sender x3)" "snd_stream (tc_sender y') = snd_stream (tc_sender y1)"
      "snd_outstanding_segments (tc_sender x3) = [] \<longrightarrow> dup = []" "snd_outstanding_segments (tc_sender y1) = [] \<longrightarrow> tc_segments_out y' = []"
      "tc_cfg x' = tc_cfg x3" "tc_cfg y' = tc_cfg y1"
      "tc_active x' \<longrightarrow> tc_active x3 \<and> tc_time x' = tc_time x3 + 1000 \<and> \<not> (tc_finished x3 \<and> 10 * ucast (cfg_rt_timeout (tc_cfg x3)) \<le> tc_time x')"
      "tc_active y' \<longrightarrow> tc_active y1 \<and> tc_time y' = tc_time y1 + 1000 \<and> \<not> (tc_finished y1 \<and> 10 * ucast (cfg_rt_timeout (tc_cfg y1)) \<le> tc_time y')"
    let ?b = "\<lparr>bm_x = x', bm_y = y', bm_bytes_to_send = bb, bm_x_closed = closed,
      bm_string_received = bm_string_received b @ map S [bs_read_bytes (rc_stream_out (tc_receiver ?y))..<bs_read_bytes (rc_stream_out (tc_receiver y'))]\<rparr>"
    have "bm_loop False b = Inr ?b"
      by (simp only: bm_loop_def s(1,2) m(1,4) bindE_simps prod.case Let_def y2_def [symmetric] r)
    then show thesis
    proof (rule that [of _ x2 y1 x3 newy newx dup])
      show "bm_trace S N ix iy b Kx Ky x2 y1 x3 newy newx dup ?b"
        unfolding bm_trace_def bm_exchanged_def bm_ticks_def bm_reads_def Let_def benchmark.simps by (intro conjI) (fact s(3) m mq mi t refl)+
    qed
  qed
qed

lemma bm_trace_inv:
  assumes inv: "bm_inv S N ix iy b Kx Ky" and t: "bm_trace S N ix iy b Kx Ky x2 y1 x3 newy newx dup b'"
  shows "bm_inv S N ix iy b' (tc_n y1) (tc_n x2)"
proof -
  have i: "0 < rc_capacity (tc_receiver (bm_y b))" "tc_ended_input (bm_y b)"
      "bm_string_received b = map S [0..<bs_read_bytes (rc_stream_out (tc_receiver (bm_y b)))]"
    using inv unfolding bm_inv_def by blast+
  have t1: "bm_sent S N ix iy b Kx Ky x2 (bm_bytes_to_send b') (bm_x_closed b')" and t2: "bm_exchanged S N ix iy (bm_y b) Kx Ky x2 y1 newy x3 newx"
    and t3: "bm_ticks S N ix iy x2 y1 x3 (bm_x b') (bm_y b') dup" and t4: "bm_reads S b b'" using t by (simp_all add: bm_trace_def)
  have p: "tc_n (bm_x b') = tc_n x3" "tc_b (bm_x b') = tc_b x3" "tc_n (bm_y b') = tc_n y1" "tc_b (bm_y b') = tc_b y1"
      "tc_edge (bm_x b') = tc_edge x2" "snd_stream (tc_sender (bm_x b')) = snd_stream (tc_sender x3)" "snd_stream (tc_sender (bm_y b')) = snd_stream (tc_sender y1)"
      "tc_segments_out (bm_x b') = tc_segments_out x3 @ dup" "feed S N ix (tc_n x3) dup (tc_n x3)" "ack_feed 0 iy (tc_edge (bm_x b')) (tc_n y1) dup (tc_n y1)"
      "feed nothing 0 iy (tc_n y1) (tc_segments_out (bm_y b')) (tc_n y1)" "ack_feed N ix (tc_edge (bm_y b')) (tc_n x2) (tc_segments_out (bm_y b')) (tc_n x2)"
      "tc_retx (bm_x b') \<le> 1" "tc_retx (bm_y b') \<le> 1"
    and c: "conn_at S N ix (tc_edge (bm_y b')) nothing 0 iy (bm_x b') (tc_n y1)" "conn_at nothing 0 iy (tc_edge (bm_x b')) S N ix (bm_y b') (tc_n x2)"
    using t3 unfolding bm_ticks_def by blast+
  have rx: "reacts S N ix (tc_edge (bm_y b)) nothing 0 iy (x2\<lparr>tc_segments_out := []\<rparr>) Kx x3 (tc_n y1) newx"
    and q: "tc_b x3 = tc_n x2" "tc_b y1 = Kx" "same_input (tc_sender x2) (tc_sender x3)" "same_input (tc_sender (bm_y b)) (tc_sender y1)"
    using t2 unfolding bm_exchanged_def by blast+
  have o: "buf_str (bm_bytes_to_send b') = map S [tc_written x2..<N]" "bm_x_closed b' = tc_ended_input x2" "0 < bs_capacity (snd_stream (tc_sender x2))"
    using t1 unfolding bm_sent_def by blast+
  have st: "tc_written (bm_x b') = tc_written x2" "tc_ended_input (bm_x b') = tc_ended_input x2" "tc_ended_input (bm_y b')"
      "bs_capacity (snd_stream (tc_sender (bm_x b'))) = bs_capacity (snd_stream (tc_sender x2))"
    using p(6,7) q(3,4) i(2) by (simp_all add: same_input_def)
  have "feed S N ix (tc_n x2) newx (tc_n x3)" "feed S N ix (tc_n x3) dup (tc_n x3)" using p(9) rx by (simp_all add: reacts_def)
  then have f: "feed S N ix (tc_n x2) (newx @ dup) (tc_n x3)" using feed_append by blast
  have "ack_feed 0 iy (tc_edge x2) Kx newx (tc_n y1)" "ack_feed 0 iy (tc_edge x2) (tc_n y1) dup (tc_n y1)"
    using p(5,10) rx by (simp_all add: reacts_def)
  then have a: "ack_feed 0 iy (tc_edge x2) Kx (newx @ dup) (tc_n y1)" using ack_feed_append by blast
  have "link_at S N ix iy (bm_x b') (bm_y b') (tc_n y1) (tc_n x2)"
    unfolding link_at_def using c f a p q rx by (simp add: reacts_def)
  moreover have "bm_string_received b' = map S [0..<bs_read_bytes (rc_stream_out (tc_receiver (bm_y b')))]"
  proof -
    let ?r = "bs_read_bytes (rc_stream_out (tc_receiver (bm_y b)))" and ?r' = "bs_read_bytes (rc_stream_out (tc_receiver (bm_y b')))"
    have "bm_string_received b' = bm_string_received b @ map S [?r..<?r']" "?r \<le> ?r'" using t4 by (simp_all add: bm_reads_def Let_def)
    moreover have "[0..<?r'] = [0..<?r] @ [?r..<?r']" using calculation(2) upt_add_eq_append [of 0 ?r "?r' - ?r"] by simp
    ultimately show ?thesis using i(3) by simp
  qed
  ultimately show ?thesis unfolding bm_inv_def using st o i(1) t4 by (simp add: bm_reads_def Let_def)
qed

lemma bm_trace_progress:
  assumes inv: "bm_inv S N ix iy b Kx Ky" and t: "bm_trace S N ix iy b Kx Ky x2 y1 x3 newy newx dup b'"
  shows "Ky \<le> tc_n x2" "Kx \<le> tc_n y1" "tc_b (bm_x b) = Ky \<Longrightarrow> Ky < N + 2 \<Longrightarrow> Ky < tc_n x2" "Kx < 2 \<Longrightarrow> Kx < tc_n y1"
    "tc_b (bm_x b') = tc_n x2" "tc_b (bm_y b') = Kx"
proof -
  have t1: "bm_sent S N ix iy b Kx Ky x2 (bm_bytes_to_send b') (bm_x_closed b')" and t2: "bm_exchanged S N ix iy (bm_y b) Kx Ky x2 y1 newy x3 newx"
    and t3: "bm_ticks S N ix iy x2 y1 x3 (bm_x b') (bm_y b') dup" using t by (simp_all add: bm_trace_def)
  have l: "link_at S N ix iy x2 (bm_y b) Kx Ky" "tc_b x2 = tc_b (bm_x b)" "wants_to_send (tc_sender x2)"
    using t1 unfolding bm_sent_def by blast+
  have r: "reacts nothing 0 iy (tc_edge x2) S N ix (bm_y b) Ky y1 (tc_n x2) newy" "tc_b y1 = Kx" "same_input (tc_sender (bm_y b)) (tc_sender y1)"
    using t2 unfolding bm_exchanged_def by blast+
  note b = link_at_bounds [OF l(1)]
  show "Ky \<le> tc_n x2" by (rule b)
  show "Kx \<le> tc_n y1" using reacts_mono [OF r(1)] b(5) by simp
  have sx: "snd_at S N ix (tc_edge (bm_y b)) (tc_sender x2)" using l(1) by (simp add: link_at_def conn_at_def)
  have sy: "snd_at nothing 0 iy (tc_edge x2) (tc_sender y1)" using r(1) by (simp add: reacts_def conn_at_def)
  show "Ky < tc_n x2" if "tc_b (bm_x b) = Ky" "Ky < N + 2"
    using sx that l(2,3) snd_pre_parts(10) [of S N ix _ "tc_sender x2"] by (auto simp: snd_at_def)
  have "tc_ended_input y1" using inv r(3) by (simp add: bm_inv_def same_input_def)
  then show "Kx < tc_n y1" if "Kx < 2"
    using sy that r(2) snd_pre_parts(10) [of nothing 0 iy _ "tc_sender y1"] by (auto simp: snd_at_def)
  show "tc_b (bm_x b') = tc_n x2" "tc_b (bm_y b') = Kx" using t2 t3 by (simp_all add: bm_exchanged_def bm_ticks_def)
qed

lemma bm_trace_done:
  assumes inv: "bm_inv S N ix iy b Kx Ky" and t: "bm_trace S N ix iy b Kx Ky x2 y1 x3 newy newx dup b'" and d: "bm_done N b"
  shows "bm_quiet b'" "bm_quiet b \<Longrightarrow> bm_silent b'" "bm_silent b \<Longrightarrow> waits (bm_x b) (bm_x b') \<and> waits (bm_y b) (bm_y b')"
proof -
  have l: "link_at S N ix iy (bm_x b) (bm_y b) Kx Ky" and cl: "bm_x_closed b = tc_ended_input (bm_x b)"
    using inv unfolding bm_inv_def by blast+
  have k: "Ky = N + 2" "Kx = 2" using link_done [OF l] d by (simp_all add: bm_done_def)
  have "conn_at S N ix (tc_edge (bm_y b)) nothing 0 iy (bm_x b) Kx" using l unfolding link_at_def by blast
  from conn_finished(4) [OF this] have "tc_ended_input (bm_x b)" using d k(2) by (simp add: bm_done_def)
  have t1: "bm_sent S N ix iy b Kx Ky x2 (bm_bytes_to_send b') (bm_x_closed b')" and t2: "bm_exchanged S N ix iy (bm_y b) Kx Ky x2 y1 newy x3 newx"
    and t3: "bm_ticks S N ix iy x2 y1 x3 (bm_x b') (bm_y b') dup" using t by (simp_all add: bm_trace_def)
  have x2: "x2 = bm_x b" using t1 cl \<open>tc_ended_input (bm_x b)\<close> by (simp add: bm_sent_def)
  have l2: "link_at S N ix iy x2 (bm_y b) Kx Ky" using l x2 by simp
  have rx: "reacts S N ix (tc_edge (bm_y b)) nothing 0 iy (x2\<lparr>tc_segments_out := []\<rparr>) Kx x3 (tc_n y1) newx"
    and ry: "reacts nothing 0 iy (tc_edge x2) S N ix (bm_y b) Ky y1 (tc_n x2) newy"
    and tb: "tc_b y1 = Kx" "tc_b x3 = tc_n x2" using t2 unfolding bm_exchanged_def by blast+
  note b = link_at_bounds [OF l2]
  have n: "tc_n x2 = N + 2" "tc_n (bm_y b) = 2" using b k by simp_all
  have "conn_at nothing 0 iy (tc_edge x2) S N ix y1 (tc_n x2)" using ry by (simp add: reacts_def)
  from conn_finished [OF this] have fy: "tc_finished y1" "tc_n y1 = 2" "snd_outstanding_segments (tc_sender y1) = []"
    using tb(1) k(2) n(1) by simp_all
  have "conn_at S N ix (tc_edge (bm_y b)) nothing 0 iy x3 (tc_n y1)" using rx by (simp add: reacts_def)
  from conn_finished [OF this] have fx: "tc_finished x3" "tc_n x3 = N + 2" "snd_outstanding_segments (tc_sender x3) = []"
    using tb(2) fy(2) n(1) by simp_all
  have out: "tc_segments_out (bm_x b') = newx" "tc_segments_out (bm_y b') = []" "tc_segments_out y1 = tc_segments_out (bm_y b) @ newy"
    using t3 fx(3) fy(3) rx ry by (simp_all add: reacts_def bm_ticks_def)
  have len: "\<forall>s\<in>set newx. seg_len s = 0" using rx fx(2) n(1) by (simp add: reacts_def)
  then show "bm_quiet b'" using out by (simp add: bm_quiet_def)
  have ny: "newy = []" if "bm_quiet b" using that t2 fy(2) n(2) x2 by (simp add: bm_quiet_def bm_exchanged_def)
  have nx: "newx = []" if "bm_quiet b"
  proof -
    have "tc_segments_out y1 = []" using that out(3) ny by (simp add: bm_quiet_def)
    then show ?thesis using t2 fx(2) n(1) by (simp add: bm_exchanged_def)
  qed
  then show "bm_quiet b \<Longrightarrow> bm_silent b'" using out by (simp add: bm_silent_def)
  show "waits (bm_x b) (bm_x b') \<and> waits (bm_y b) (bm_y b')" if "bm_silent b"
  proof -
    have q: "bm_quiet b" "tc_segments_out x2 = []" "tc_segments_out y1 = []" using that x2 out(3) ny by (auto simp: bm_silent_def bm_quiet_def)
    have c: "tc_cfg x3 = tc_cfg x2" "tc_cfg y1 = tc_cfg (bm_y b)" "tc_active x3 \<longrightarrow> tc_active x2" "tc_active y1 \<longrightarrow> tc_active (bm_y b)"
      using rx ry by (simp_all add: reacts_def)
    have "tc_active y1 \<longrightarrow> tc_time y1 = (if tc_segments_out x2 = [] then tc_time (bm_y b) else 0)"
      "tc_active x3 \<longrightarrow> tc_time x3 = (if tc_segments_out y1 = [] then tc_time x2 else 0)"
      using t2 unfolding bm_exchanged_def by blast+
    moreover have "tc_active (bm_x b') \<longrightarrow> tc_active x3 \<and> tc_time (bm_x b') = tc_time x3 + 1000 \<and> \<not> (tc_finished x3 \<and> 10 * ucast (cfg_rt_timeout (tc_cfg x3)) \<le> tc_time (bm_x b'))"
      "tc_active (bm_y b') \<longrightarrow> tc_active y1 \<and> tc_time (bm_y b') = tc_time y1 + 1000 \<and> \<not> (tc_finished y1 \<and> 10 * ucast (cfg_rt_timeout (tc_cfg y1)) \<le> tc_time (bm_y b'))"
      using t3 unfolding bm_ticks_def by blast+
    ultimately show ?thesis using q fx(1) fy(1) c x2 by (auto simp: waits_def)
  qed
qed

lemma bm_trace_time:
  assumes "bm_trace S N ix iy b Kx Ky x2 y1 x3 newy newx dup b'"
  shows "tc_cfg (bm_x b') = tc_cfg (bm_x b)" "tc_cfg (bm_y b') = tc_cfg (bm_y b)"
    "tc_active (bm_x b') \<Longrightarrow> tc_active (bm_x b) \<and> tc_time (bm_x b') \<in> {1000, tc_time (bm_x b) + 1000}"
    "tc_active (bm_y b') \<Longrightarrow> tc_active (bm_y b) \<and> tc_time (bm_y b') \<in> {1000, tc_time (bm_y b) + 1000}"
proof -
  have t1: "bm_sent S N ix iy b Kx Ky x2 (bm_bytes_to_send b') (bm_x_closed b')" and t2: "bm_exchanged S N ix iy (bm_y b) Kx Ky x2 y1 newy x3 newx"
    and t3: "bm_ticks S N ix iy x2 y1 x3 (bm_x b') (bm_y b') dup" using assms by (simp_all add: bm_trace_def)
  have r: "tc_cfg x3 = tc_cfg x2" "tc_cfg y1 = tc_cfg (bm_y b)" "tc_active x3 \<longrightarrow> tc_active x2" "tc_active y1 \<longrightarrow> tc_active (bm_y b)"
    using t2 by (simp_all add: bm_exchanged_def reacts_def)
  have s: "tc_cfg x2 = tc_cfg (bm_x b)" "tc_active x2 \<longrightarrow> tc_active (bm_x b)" "tc_time x2 = tc_time (bm_x b)"
    using t1 unfolding bm_sent_def by blast+
  show "tc_cfg (bm_x b') = tc_cfg (bm_x b)" "tc_cfg (bm_y b') = tc_cfg (bm_y b)" using r(1,2) s(1) t3 by (simp_all add: bm_ticks_def)
  have "tc_active y1 \<longrightarrow> tc_time y1 \<in> {0, tc_time (bm_y b)}" "tc_active x3 \<longrightarrow> tc_time x3 \<in> {0, tc_time x2}"
    using t2 unfolding bm_exchanged_def by auto
  moreover have "tc_active (bm_x b') \<longrightarrow> tc_active x3 \<and> tc_time (bm_x b') = tc_time x3 + 1000"
      "tc_active (bm_y b') \<longrightarrow> tc_active y1 \<and> tc_time (bm_y b') = tc_time y1 + 1000" using t3 unfolding bm_ticks_def by blast+
  ultimately show "tc_active (bm_x b') \<Longrightarrow> tc_active (bm_x b) \<and> tc_time (bm_x b') \<in> {1000, tc_time (bm_x b) + 1000}"
    "tc_active (bm_y b') \<Longrightarrow> tc_active (bm_y b) \<and> tc_time (bm_y b') \<in> {1000, tc_time (bm_y b) + 1000}"
    using r(3,4) s(2,3) by auto
qed

end
