(* ===== verification/Benchmark_Completes.thy ===== *)
theory Benchmark_Completes
  imports Benchmark_Rounds
begin

text \<open>
  The loops of \<open>tcp_benchmark\<close> end. A bound on the rounds that remain decreases with every round; the first round,
  in which the SYNs of the two connections cross, establishes the invariant.
\<close>

section \<open>The loops end\<close>

text \<open>A loop of the benchmark ends when every round brings it closer to a state without rounds to go.\<close>

locale bm_rounds =
  fixes at :: "nat \<Rightarrow> benchmark \<Rightarrow> bool" and reorder :: bool
  assumes round: "at m b \<Longrightarrow> 0 < m \<Longrightarrow> \<exists>b' m'. bm_loop reorder b = Inr b' \<and> at m' b' \<and> m' < m"
begin

lemma while_ends:
  assumes "\<And>b. at 0 b \<Longrightarrow> \<not> cond b" "at m b"
  shows "\<exists>b' m'. bm_while cond reorder b = Some (Inr b') \<and> at m' b' \<and> \<not> cond b'"
  using assms(2)
proof (induction m arbitrary: b rule: less_induct)
  case (less m)
  show ?case
  proof (cases "cond b")
    case True
    then have "0 < m" using less.prems assms(1) by (cases m) auto
    from round [OF less.prems this] obtain b' m' where b': "bm_loop reorder b = Inr b'" "at m' b'" "m' < m" by blast
    show ?thesis using less.IH [OF b'(3,2)] True b'(1) by (subst bm_while.simps) simp
  next
    case False
    then show ?thesis using less.prems by (subst bm_while.simps) auto
  qed
qed

end

text \<open>How far the transfer is from its end, in sequence numbers.\<close>

definition bm_distance :: "nat \<Rightarrow> benchmark \<Rightarrow> nat \<Rightarrow> nat \<Rightarrow> nat" where
  "bm_distance N b Kx Ky = (N + 2 - Ky) + (N + 2 - tc_b (bm_x b)) + (2 - Kx) + (2 - tc_b (bm_y b))"

abbreviation bm_conns :: "benchmark \<Rightarrow> tcp_connection set" where "bm_conns b \<equiv> {bm_x b, bm_y b}"

text \<open>
  A bound on the rounds that remain: until the streams are acknowledged, the distance; then a round for the last
  acknowledgments, one for what they trigger, and ten for the connections to linger.
\<close>

definition bm_stage :: "nat \<Rightarrow> nat \<Rightarrow> benchmark \<Rightarrow> bool" where
  "bm_stage d m b \<longleftrightarrow> (if 0 < d then m = d + 13 else m = 13 \<or> m = 12 \<and> bm_quiet b \<or>
     m \<le> 10 \<and> bm_silent b \<and> (\<forall>c\<in>bm_conns b. tc_active c \<longrightarrow> 0 < m \<and> 10000 \<le> unat (tc_time c) + 1000 * m))"

definition bm_at :: "(nat \<Rightarrow> u8) \<Rightarrow> nat \<Rightarrow> wrapping_int32 \<Rightarrow> wrapping_int32 \<Rightarrow> nat \<Rightarrow> benchmark \<Rightarrow> bool" where
  "bm_at S N ix iy m b \<longleftrightarrow> (\<exists>Kx Ky. bm_inv S N ix iy b Kx Ky \<and> bm_stage (bm_distance N b Kx Ky) m b) \<and>
     (\<forall>c\<in>bm_conns b. cfg_rt_timeout (tc_cfg c) = 1000 \<and> (tc_active c \<longrightarrow> unat (tc_time c) + 1000 * m \<le> 1000 * (2 * N + 30)))"

lemma bm_distance_done:
  assumes "bm_inv S N ix iy b Kx Ky"
  shows "bm_distance N b Kx Ky = 0 \<longleftrightarrow> bm_done N b"
proof -
  have l: "link_at S N ix iy (bm_x b) (bm_y b) Kx Ky" using assms by (simp add: bm_inv_def)
  show ?thesis using link_at_bounds [OF l] by (auto simp: bm_distance_def bm_done_def)
qed

lemma distance_step:
  fixes K :: nat
  assumes le: "bx \<le> K" "K \<le> K'" "K' \<le> n" "b \<le> L" "L \<le> L'" "L' \<le> m" and st: "bx = K \<Longrightarrow> K < n \<Longrightarrow> K < K'" "L < m \<Longrightarrow> L < L'"
  shows "(n - K') + (n - K') + (m - L') + (m - L) < (n - K) + (n - bx) + (m - L) + (m - b) \<or>
    (n - K) + (n - bx) + (m - L) + (m - b) = 0 \<and> (n - K') + (n - K') + (m - L') + (m - L) = 0"
proof -
  have "bx < K' \<or> bx = n" using le st(1) by fastforce
  moreover have "L < L' \<or> L = m" using le st(2) by fastforce
  moreover have "n - K' \<le> n - K" "n - K' \<le> n - bx" "m - L' \<le> m - L" "m - L \<le> m - b" using le by simp_all
  ultimately show ?thesis using le by auto
qed

lemma bm_trace_distance:
  assumes inv: "bm_inv S N ix iy b Kx Ky" and t: "bm_trace S N ix iy b Kx Ky x2 y1 x3 newy newx dup b'"
  shows "bm_distance N b' (tc_n y1) (tc_n x2) < bm_distance N b Kx Ky \<or> bm_distance N b Kx Ky = 0 \<and> bm_distance N b' (tc_n y1) (tc_n x2) = 0"
proof -
  have l: "link_at S N ix iy (bm_x b) (bm_y b) Kx Ky" using inv by (simp add: bm_inv_def)
  note b = link_at_bounds [OF l] and p = bm_trace_progress [OF inv t]
  have l': "link_at S N ix iy (bm_x b') (bm_y b') (tc_n y1) (tc_n x2)" using bm_trace_inv [OF inv t] by (simp add: bm_inv_def)
  have "tc_n x2 \<le> N + 2" "tc_n y1 \<le> 2" using link_at_bounds [OF l'] by simp_all
  from distance_step [OF b(1) p(1) this(1) b(4) p(2) this(2) p(3,4)] show ?thesis by (simp only: bm_distance_def p(5,6))
qed

lemma waits_bound:
  assumes "waits c c'" "cfg_rt_timeout (tc_cfg c) = 1000" "tc_active c \<longrightarrow> 10000 \<le> unat (tc_time c) + 1000 * m \<and> unat (tc_time c) + 1000 < 2 ^ 64"
    "0 < m" "tc_active c'"
  shows "0 < m - 1 \<and> 10000 \<le> unat (tc_time c') + 1000 * (m - 1)"
proof -
  have w: "tc_active c" "tc_time c' = tc_time c + 1000" "\<not> 10000 \<le> tc_time c'"
    using assms(1,2,5) by (auto simp: waits_def)
  have "unat (tc_time c') = unat (tc_time c) + 1000" using w(1,2) assms(3) by (simp add: unat_add64)
  moreover have "unat (tc_time c') < 10000" using w(3) by (simp add: word_le_nat_alt)
  ultimately show ?thesis using assms(3,4) w(1) by (cases m) auto
qed

lemma bm_stage_step:
  assumes inv: "bm_inv S N ix iy b Kx Ky" and t: "bm_trace S N ix iy b Kx Ky x2 y1 x3 newy newx dup b'"
    and st: "bm_stage (bm_distance N b Kx Ky) m b" "0 < m"
    and tm: "\<forall>c\<in>bm_conns b. cfg_rt_timeout (tc_cfg c) = 1000 \<and> (tc_active c \<longrightarrow> unat (tc_time c) + 1000 < 2 ^ 64)"
  shows "\<exists>m'<m. bm_stage (bm_distance N b' (tc_n y1) (tc_n x2)) m' b'"
proof -
  let ?d = "bm_distance N b Kx Ky" and ?d' = "bm_distance N b' (tc_n y1) (tc_n x2)"
  note dd = bm_trace_distance [OF inv t]
  show ?thesis
  proof (cases "0 < ?d")
    case True
    then have "?d' < ?d" "m = ?d + 13" using dd st(1) by (auto simp: bm_stage_def)
    then show ?thesis by (intro exI [of _ "?d' + 13"]) (simp add: bm_stage_def)
  next
    case False
    then have d: "bm_done N b" "?d' = 0" using bm_distance_done [OF inv] dd by auto
    note q = bm_trace_done [OF inv t d(1)]
    have "m = 13 \<or> m = 12 \<and> bm_quiet b \<or> m \<le> 10 \<and> bm_silent b \<and>
        (\<forall>c\<in>bm_conns b. tc_active c \<longrightarrow> 0 < m \<and> 10000 \<le> unat (tc_time c) + 1000 * m)"
      using st(1) False by (simp add: bm_stage_def)
    then consider "m = 13" | "m = 12" "bm_quiet b" | "m \<le> 10" "bm_silent b"
        "\<forall>c\<in>bm_conns b. tc_active c \<longrightarrow> 10000 \<le> unat (tc_time c) + 1000 * m" by blast
    then show ?thesis
    proof cases
      case 1
      then show ?thesis using q(1) d(2) by (intro exI [of _ 12]) (simp add: bm_stage_def)
    next
      case 2
      then show ?thesis using q(2) d(2) by (intro exI [of _ 10]) (simp add: bm_stage_def)
    next
      case 3
      have w: "waits (bm_x b) (bm_x b')" "waits (bm_y b) (bm_y b')" "bm_silent b'"
        using q(2,3) 3(2) by (auto simp: bm_silent_def bm_quiet_def)
      have x: "cfg_rt_timeout (tc_cfg (bm_x b)) = 1000" "tc_active (bm_x b) \<longrightarrow> 10000 \<le> unat (tc_time (bm_x b)) + 1000 * m \<and> unat (tc_time (bm_x b)) + 1000 < 2 ^ 64"
        and y: "cfg_rt_timeout (tc_cfg (bm_y b)) = 1000" "tc_active (bm_y b) \<longrightarrow> 10000 \<le> unat (tc_time (bm_y b)) + 1000 * m \<and> unat (tc_time (bm_y b)) + 1000 < 2 ^ 64"
        using 3(3) tm by blast+
      have "\<forall>c\<in>bm_conns b'. tc_active c \<longrightarrow> 0 < m - 1 \<and> 10000 \<le> unat (tc_time c) + 1000 * (m - 1)"
        using waits_bound [OF w(1) x st(2)] waits_bound [OF w(2) y st(2)] by blast
      moreover have "m - 1 \<le> 10" "m - 1 < m" using 3(1) st(2) by simp_all
      ultimately have "m - 1 < m \<and> bm_stage ?d' (m - 1) b'" unfolding bm_stage_def using w(3) d(2) by (simp only: less_irrefl if_False simp_thms) blast
      then show ?thesis by blast
    qed
  qed
qed

lemma time_step:
  fixes t t' :: u64
  assumes "t' \<in> {1000, t + 1000}" "unat t + 1000 * m \<le> 1000 * B" "m' < m" "1000 * B + 1000 < 2 ^ 64"
  shows "unat t' + 1000 * m' \<le> 1000 * B"
proof -
  have "unat (t + 1000) = unat t + 1000" using assms(2,4) by (simp add: unat_add64)
  then show ?thesis using assms by auto
qed

lemma bm_at_step:
  assumes "bm_at S N ix iy m b" "0 < m"
  shows "\<exists>b' m'. bm_loop False b = Inr b' \<and> bm_at S N ix iy m' b' \<and> m' < m"
proof -
  obtain Kx Ky where inv: "bm_inv S N ix iy b Kx Ky" and st: "bm_stage (bm_distance N b Kx Ky) m b"
    and tm: "\<forall>c\<in>bm_conns b. cfg_rt_timeout (tc_cfg c) = 1000 \<and> (tc_active c \<longrightarrow> unat (tc_time c) + 1000 * m \<le> 1000 * (2 * N + 30))"
    using assms(1) unfolding bm_at_def by blast
  obtain x2 y1 x3 newy newx dup b' where b': "bm_loop False b = Inr b'" and t: "bm_trace S N ix iy b Kx Ky x2 y1 x3 newy newx dup b'"
    by (rule bm_loop_trace [OF inv])
  have "N + 2 < 2 ^ 31" using inv by (simp add: bm_inv_def link_at_def conn_at_def rc_at_def)
  then have B: "1000 * (2 * N + 30) + 1000 < (2 :: nat) ^ 64" by simp
  have tm': "\<forall>c\<in>bm_conns b. cfg_rt_timeout (tc_cfg c) = 1000 \<and> (tc_active c \<longrightarrow> unat (tc_time c) + 1000 < 2 ^ 64)"
  proof (intro ballI conjI impI)
    fix c
    assume c: "c \<in> bm_conns b"
    then show "cfg_rt_timeout (tc_cfg c) = 1000" using tm by blast
    assume "tc_active c"
    then have "unat (tc_time c) + 1000 * m \<le> 1000 * (2 * N + 30)" using c tm by blast
    then show "unat (tc_time c) + 1000 < 2 ^ 64" using B by linarith
  qed
  obtain m' where m': "m' < m" "bm_stage (bm_distance N b' (tc_n y1) (tc_n x2)) m' b'"
    using bm_stage_step [OF inv t st assms(2) tm'] by blast
  note tt = bm_trace_time [OF t]
  have tx: "unat (tc_time (bm_x b')) + 1000 * m' \<le> 1000 * (2 * N + 30)" if "tc_active (bm_x b')"
    by (rule time_step [OF _ _ m'(1) B]) (use tt(3) [OF that] tm in blast)+
  have ty: "unat (tc_time (bm_y b')) + 1000 * m' \<le> 1000 * (2 * N + 30)" if "tc_active (bm_y b')"
    by (rule time_step [OF _ _ m'(1) B]) (use tt(4) [OF that] tm in blast)+
  have "cfg_rt_timeout (tc_cfg (bm_x b')) = 1000" "cfg_rt_timeout (tc_cfg (bm_y b')) = 1000" unfolding tt(1,2) using tm by blast+
  then have "bm_at S N ix iy m' b'" unfolding bm_at_def using bm_trace_inv [OF inv t] m'(2) tx ty by blast
  then show ?thesis using b' m'(1) by blast
qed

lemma bm_at_idle:
  assumes "bm_at S N ix iy m b" "\<not> bm_active b"
  shows "\<not> bm_receiving b"
proof -
  obtain Kx Ky where inv: "bm_inv S N ix iy b Kx Ky" using assms(1) unfolding bm_at_def by blast
  have c: "conn_at nothing 0 iy (tc_edge (bm_x b)) S N ix (bm_y b) Ky" and e: "bs_contents (rc_stream_out (tc_receiver (bm_y b))) = []"
    using inv unfolding bm_inv_def link_at_def by blast+
  have k: "Ky = N + 2" and r: "rc_at S N ix (tc_receiver (bm_y b)) Ky" using c assms(2) unfolding conn_at_def bm_active_def by blast+
  show ?thesis using rc_at_bounds(3) [OF r] k r e by (simp add: bm_receiving_def bs_eof_def bs_input_ended_def rc_at_def)
qed

lemma bm_at_end:
  assumes "bm_at S N ix iy 0 b"
  shows "\<not> bm_active b" "\<not> bm_receiving b"
proof -
  obtain d where "bm_stage d 0 b" using assms unfolding bm_at_def by blast
  then show a: "\<not> bm_active b" by (auto simp: bm_stage_def bm_active_def split: if_splits)
  show "\<not> bm_receiving b" by (rule bm_at_idle [OF assms a])
qed

lemma bm_at_received:
  assumes "bm_at S N ix iy m b" "\<not> bm_receiving b"
  shows "bm_string_received b = map S [0..<N]"
proof -
  obtain Kx Ky where inv: "bm_inv S N ix iy b Kx Ky" using assms(1) unfolding bm_at_def by blast
  have r: "rc_at S N ix (tc_receiver (bm_y b)) Ky" and e: "bs_contents (rc_stream_out (tc_receiver (bm_y b))) = []"
    and s: "bm_string_received b = map S [0..<bs_read_bytes (rc_stream_out (tc_receiver (bm_y b)))]"
    using inv unfolding bm_inv_def link_at_def conn_at_def by blast+
  have "rc_fin (tc_receiver (bm_y b))" using assms(2) r by (simp add: bm_receiving_def bs_eof_def bs_input_ended_def rc_at_def)
  then have "bs_read_bytes (rc_stream_out (tc_receiver (bm_y b))) = N" using rc_at_bounds(3,8) [OF r] e by (simp add: bs_bytes_read_def)
  then show ?thesis using s by simp
qed

interpretation lossless: bm_rounds "bm_at S N ix iy" False for S N ix iy
  by unfold_locales (rule bm_at_step)

text \<open>From any state in which the invariant holds, both loops end, and everything has been received.\<close>

lemma bm_loops_end:
  assumes "bm_at S N ix iy m b"
  shows "\<exists>b1 b2. bm_while bm_receiving False b = Some (Inr b1) \<and> bm_string_received b1 = map S [0..<N] \<and>
    bm_while bm_active False b1 = Some (Inr b2) \<and> bm_string_received b2 = map S [0..<N] \<and> \<not> bm_active b2"
proof -
  obtain b1 m1 where b1: "bm_while bm_receiving False b = Some (Inr b1)" "bm_at S N ix iy m1 b1" "\<not> bm_receiving b1"
    using lossless.while_ends [where cond = bm_receiving, OF _ assms] bm_at_end(2) by blast
  obtain b2 m2 where b2: "bm_while bm_active False b1 = Some (Inr b2)" "bm_at S N ix iy m2 b2" "\<not> bm_active b2"
    using lossless.while_ends [where cond = bm_active, OF _ b1(2)] bm_at_end(1) by blast
  show ?thesis using b1 b2 bm_at_received bm_at_idle by blast
qed

section \<open>The first round\<close>

text \<open>Both connections send their SYN before they hear from each other; \<open>st\<close> is the stream to send.\<close>

definition tc_opening :: "u32 \<Rightarrow> byte_stream \<Rightarrow> tcp_segment list \<Rightarrow> tcp_connection" where
  "tc_opening r st out = (tc_new cfg_default r)\<lparr>tc_sender := (syn_sent (tc_sender (tc_new cfg_default r)))\<lparr>snd_stream := st\<rparr>, tc_segments_out := out\<rparr>"

definition tc_heard :: "u32 \<Rightarrow> byte_stream \<Rightarrow> u32 \<Rightarrow> tcp_segment list \<Rightarrow> tcp_connection" where
  "tc_heard r st peer out = (tc_opening r st out)\<lparr>tc_receiver := rc_opened 64000 peer,
     tc_sender := (tc_sender (tc_opening r st out))\<lparr>snd_segments_out := [ack_segment r]\<rparr>\<rparr>"

definition tc_crossed :: "u32 \<Rightarrow> byte_stream \<Rightarrow> u32 \<Rightarrow> tcp_connection" where
  "tc_crossed r st peer = (tc_new cfg_default r)\<lparr>tc_receiver := rc_opened 64000 peer, tc_time_since_last_segment_received := 1000,
     tc_sender := (syn_sent (tc_sender (tc_new cfg_default r)))\<lparr>snd_stream := st, snd_RTO := 2000, snd_consecutive_retransmission := 1\<rparr>,
     tc_segments_out := [ack_fields cfg_default peer (ack_segment r), ack_fields cfg_default peer (syn_segment r)]\<rparr>"

lemma cfg_default_fields [simp]:
  "cfg_rt_timeout cfg_default = 1000" "cfg_recv_capacity cfg_default = 64000" "cfg_send_capacity cfg_default = 64000" "tc_isn cfg_default r = r"
  by (simp_all add: cfg_default_def TIMEOUT_DFLT_def DEFAULT_CAPACITY_def tc_isn_def)

lemma tc_opening_fields [simp]:
  "tc_receiver (tc_opening r st out) = rc_new 64000" "tc_segments_out (tc_opening r st out) = out" "tc_active (tc_opening r st out)"
  "snd_stream (tc_sender (tc_opening r st out)) = st" "(tc_opening r st out)\<lparr>tc_segments_out := out'\<rparr> = tc_opening r st out'"
  "snd_segments_out (tc_sender (tc_opening r st out)) = []" "snd_outstanding_segments (tc_sender (tc_opening r st out)) = [syn_segment r]"
  "(tc_opening r st out)\<lparr>tc_sender := (tc_sender (tc_opening r st out))\<lparr>snd_stream := st'\<rparr>\<rparr> = tc_opening r st' out" "snd_syn_sent (tc_sender (tc_opening r st out))"
  by (simp_all add: tc_opening_def syn_sent_def)

lemma tc_heard_fields [simp]:
  "tc_segments_out (tc_heard r st peer out) = out" "(tc_heard r st peer out)\<lparr>tc_segments_out := out'\<rparr> = tc_heard r st peer out'"
  "tc_receiver (tc_heard r st peer out) = rc_opened 64000 peer"
  by (simp_all add: tc_heard_def tc_opening_def)

lemma tc_opening_sends: "send_segs_from_sender (tc_opening r st out) = tc_opening r st out"
  by (simp add: send_segs_from_sender_def clean_shutdown_def)

lemma tc_opening_fill: "fill_window ((tc_sender (tc_opening r st out))\<lparr>snd_stream := st'\<rparr>) = Inr (tc_sender (tc_opening r st' out))"
  by (simp add: fill_window_def) (simp add: tc_opening_def)

lemma tc_opening_same [simp]: "(tc_opening r st out)\<lparr>tc_sender := tc_sender (tc_opening r st' out')\<rparr> = tc_opening r st' out"
  by (simp add: tc_opening_def)

lemma tc_opening_write: "d \<noteq> [] \<Longrightarrow> tc_write d (tc_opening r st out) = Inr (fst (bs_write d st), tc_opening r (snd (bs_write d st)) out)"
  by (simp add: tc_write_def tc_opening_fill tc_opening_sends split_beta)

lemma tc_opening_end: "tc_end_input_stream (tc_opening r st out) = Inr (tc_opening r (bs_end_input st) out)"
  by (simp add: tc_end_input_stream_def tc_opening_fill tc_opening_sends)

lemma bm_starts:
  "bm_start cfg_default rx ry d = Inr \<lparr>bm_x = tc_opening rx (bs_new 64000) [syn_segment rx], bm_y = tc_opening ry (bs_end_input (bs_new 64000)) [syn_segment ry],
     bm_bytes_to_send = buf_of_string d, bm_x_closed = False, bm_string_received = []\<rparr>"
proof -
  have x: "tc_syn_sent cfg_default rx = tc_opening rx (bs_new 64000) [syn_segment rx]"
    by (simp add: tc_syn_sent_def tc_opening_def) (simp add: syn_sent_def tc_new_def snd_new_def)
  have r: "rc_ackno (rc_new c) = None" for c by (simp add: rc_ackno_def rc_new_def)
  have "tc_end_input_stream (tc_new cfg_default ry) = Inr (tc_opening ry (bs_end_input (bs_new 64000)) [syn_segment ry])"
    by (simp add: tc_end_input_stream_def fill_window_def segment_handler_def Let_def length_in_sequence_space_def)
     (simp add: tc_new_def snd_new_def tc_opening_def syn_sent_def syn_segment_def seg_new_def th_new_def send_segs_from_sender_def clean_shutdown_def set_seg_def r cfg_default_def DEFAULT_CAPACITY_def)
  then show ?thesis by (simp add: bm_start_def connect_new x)
qed

lemma tc_opening_receives_syn:
  "tc_segment_received (syn_segment peer) (tc_opening r st out) = Inr (tc_heard r st peer out)"
proof -
  have r: "rc_ackno (rc_new c) = None" for c by (simp add: rc_ackno_def rc_new_def)
  have t: "(tc_opening r st out)\<lparr>tc_time_since_last_segment_received := 0\<rparr> = tc_opening r st out" by (simp add: tc_opening_def tc_new_def)
  have e: "send_empty_segment (tc_sender (tc_opening r st out)) = (tc_sender (tc_opening r st out))\<lparr>snd_segments_out := [ack_segment r]\<rparr>"
    by (simp add: send_empty_segment_def ack_segment_def) (simp add: tc_opening_def syn_sent_def seg_new_def)
  have n: "snd_next_seqno (tc_sender (tc_opening r st out)) = 1" "snd_bytes_in_flight (tc_sender (tc_opening r st out)) = 1"
    by (simp_all add: tc_opening_def syn_sent_def)
  have a: "\<not> th_ack (seg_header (syn_segment peer))" by (simp add: syn_segment_def th_new_def seg_new_def)
  show ?thesis by (simp add: tc_segment_received_def t r n a rc_receives_syn e Let_def tc_heard_def)
qed

lemma tc_heard_ticks: "tc_tick 1000 (tc_heard r st peer []) = Inr (tc_crossed r st peer)"
proof -
  define c where "c = (tc_opening r st [])\<lparr>tc_receiver := rc_opened 64000 peer, tc_time_since_last_segment_received := 1000,
    tc_sender := (tc_sender (tc_opening r st []))\<lparr>snd_segments_out := [ack_segment r]\<rparr>\<rparr>"
  define s where "s = (tc_sender c)\<lparr>snd_segments_out := [ack_segment r, syn_segment r], snd_RTO := 2000, snd_consecutive_retransmission := 1\<rparr>"
  have "snd_tick 1000 (tc_sender c) = Inr s"
    by (simp add: snd_tick_def c_def tc_opening_def syn_sent_def tc_new_def snd_new_def s_def cfg_default_def TIMEOUT_DFLT_def)
  moreover have "\<not> MAX_RETX_ATTEMPTS < (1 :: u32)" by (simp add: MAX_RETX_ATTEMPTS_def)
  ultimately have "tc_tick 1000 (tc_heard r st peer []) = Inr (send_segs_from_sender (c\<lparr>tc_sender := s\<rparr>))"
    by (simp add: tc_tick_def c_def s_def tc_heard_def tc_opening_def tc_new_def)
  also have "send_segs_from_sender (c\<lparr>tc_sender := s\<rparr>) = tc_crossed r st peer"
    by (simp add: send_segs_from_sender_def s_def c_def clean_shutdown_def set_seg_def ack_fields_def tc_crossed_def)
      (simp add: tc_opening_def tc_new_def snd_new_def syn_sent_def)
  finally show ?thesis .
qed

text \<open>What the application of \<open>x\<close> writes meanwhile is only kept.\<close>

lemma bs_write_stream:
  assumes "stream_of S st" "d = map S [bs_write_bytes st..<bs_write_bytes st + l]" "l \<le> bs_remaining_capacity st" "\<not> bs_input_end st"
  shows "fst (bs_write d st) = l" "stream_of S (snd (bs_write d st))" "bs_write_bytes (snd (bs_write d st)) = bs_write_bytes st + l"
    "bs_read_bytes (snd (bs_write d st)) = bs_read_bytes st" "\<not> bs_input_end (snd (bs_write d st))" "bs_capacity (snd (bs_write d st)) = bs_capacity st"
proof -
  show l: "fst (bs_write d st) = l" using assms(2,3) by (simp add: bs_write_accepted bs_remaining_capacity_def)
  show "stream_of S (snd (bs_write d st))" by (rule stream_of_write [OF assms(1)]) (simp add: assms(2))
  show "bs_write_bytes (snd (bs_write d st)) = bs_write_bytes st + l" using l by simp
qed (use assms(4) in simp_all)

lemma tc_opening_input:
  assumes "stream_of S st" "buf_str b = map S [bs_write_bytes st..<N]" "\<not> bs_input_end st" "bs_write_bytes st \<le> N"
  shows "\<exists>b' st'. write_input b (tc_opening r st out) = Inr (b', tc_opening r st' out) \<and> stream_of S st' \<and> \<not> bs_input_end st' \<and>
    bs_read_bytes st' = bs_read_bytes st \<and> bs_capacity st' = bs_capacity st \<and> buf_str b' = map S [bs_write_bytes st'..<N] \<and> bs_write_bytes st' \<le> N"
  using assms
proof (induction b "tc_opening r st out" arbitrary: st rule: write_input.induct)
  case (1 b)
  show ?case
  proof (cases "buf_size b \<noteq> 0 \<and> tc_remaining_outbound_capacity (tc_opening r st out) \<noteq> 0")
    case False
    then have "write_input b (tc_opening r st out) = Inr (b, tc_opening r st out)" by (subst write_input.simps) auto
    then show ?thesis using 1(2-5) by blast
  next
    case True
    define l where "l = min (tc_remaining_outbound_capacity (tc_opening r st out)) (buf_size b)"
    define d where "d = map S [bs_write_bytes st..<bs_write_bytes st + l]"
    have len: "length (buf_str b) = N - bs_write_bytes st" using 1(3) by simp
    have l: "l \<noteq> 0" "l \<le> bs_remaining_capacity st" "bs_write_bytes st + l \<le> N" "l \<le> length (buf_str b)"
      using True len 1(5) by (auto simp: l_def tc_remaining_outbound_capacity_def buf_size_def simp del: length_0_conv)
    have tk: "take l (buf_str b) = d" using 1(3) l(3) by (simp add: take_map d_def)
    note w = bs_write_stream [OF 1(2) d_def l(2) 1(4)]
    obtain b1 where b1: "buf_remove_prefix l b = Inr b1" "buf_str b1 = drop l (buf_str b)" using buf_remove_prefix_fits l(4) by blast
    have wr: "tc_write (take l (buf_str b)) (tc_opening r st out) = Inr (l, tc_opening r (snd (bs_write d st)) out)"
      using l(1) w(1) by (simp add: tk tc_opening_write d_def)
    have b1': "buf_str b1 = map S [bs_write_bytes (snd (bs_write d st))..<N]" using b1(2) 1(3) w(3) by (simp add: drop_map drop_upt)
    have le: "bs_write_bytes (snd (bs_write d st)) \<le> N" using w(3) l(3) by simp
    have "write_input b (tc_opening r st out) = write_input b1 (tc_opening r (snd (bs_write d st)) out)"
      using True wr b1(1) by (subst write_input.simps) (simp add: l_def [symmetric] Let_def)
    then show ?thesis using 1(1) [OF True l_def wr refl _ b1(1) w(2) b1' w(5) le] w(4,6) by simp
  qed
qed

text \<open>The state in which the regular rounds begin.\<close>

lemma tc_crossed_fields [simp]:
  "tc_n (tc_crossed r st peer) = 1" "tc_b (tc_crossed r st peer) = 0" "rc_edge (rc_opened 64000 peer) = 64001" "tc_active (tc_crossed r st peer)"
  "snd_stream (tc_sender (tc_crossed r st peer)) = st" "tc_cfg (tc_crossed r st peer) = cfg_default" "tc_time (tc_crossed r st peer) = 1000"
  "tc_retx (tc_crossed r st peer) = 1" "tc_receiver (tc_crossed r st peer) = rc_opened 64000 peer"
  "tc_segments_out (tc_crossed r st peer) = [ack_fields cfg_default peer (ack_segment r), ack_fields cfg_default peer (syn_segment r)]"
  "snd_segments_out (tc_sender (tc_crossed r st peer)) = []" "snd_isn (tc_sender (tc_crossed r st peer)) = r"
  by (simp_all add: tc_crossed_def syn_sent_def) (simp_all add: tc_new_def snd_new_def rc_edge_def bs_new_def rc_opened_def rc_new_def rc_stream_out_def ra_new_def)

lemma rc_opened_at: "N + 2 < 2 ^ 31 \<Longrightarrow> rc_at S N peer (rc_opened 64000 peer) 1"
  by (simp add: rc_at_def rc_inv_def rc_opened_def rc_new_def) (simp add: ra_new_def bs_new_def rc_stream_out_def)

lemma tc_crossed_snd:
  assumes "stream_of S st" "bs_read_bytes st = 0" "bs_write_bytes st \<le> N" "bs_input_end st \<longrightarrow> bs_write_bytes st = N" "N + 2 < 2 ^ 31"
  shows "snd_at S N r E (tc_sender (tc_crossed r st peer))"
proof -
  let ?s = "tc_sender (tc_crossed r st peer)"
  have f: "snd_syn_sent ?s" "\<not> snd_fin_sent ?s" "snd_outstanding_segments ?s = [syn_segment r]" "snd_next_seqno ?s = 1" "snd_rcv_base ?s = 0"
      "snd_bytes_in_flight ?s = 1" "snd_timer_running ?s" "snd_receiver_window_size ?s = 1"
    by (simp_all add: tc_crossed_def syn_sent_def) (simp_all add: tc_new_def snd_new_def)
  have c: "carries S r 0 (syn_segment r)" "seg_data (syn_segment r) = []"
    by (simp_all add: carries_def seg_data_def)
  have "snd_inv S ?s"
    using assms(1,2) f c by (simp add: snd_inv_def snd_parts)
  then have "snd_run_inv S N r ?s" using assms(3,5) by (simp add: snd_run_inv_def)
  then show ?thesis using f assms(4) by (simp add: snd_at_def snd_pre_def calm_def right_edge_def)
qed

lemma tc_crossed_feeds:
  "feed S N r 1 (tc_segments_out (tc_crossed r st peer)) 1"
  "ack_feed M peer 64001 0 (tc_segments_out (tc_crossed r st peer)) 1"
proof -
  let ?a = "ack_fields cfg_default peer (ack_segment r)" and ?s = "ack_fields cfg_default peer (syn_segment r)"
  have "seg_at S N r 1 ?a" "seg_len ?a = 0"
    by (simp_all add: seg_at_def carries_def ack_fields_def ack_segment_def seg_data_def seg_new_def th_new_def length_in_sequence_space_def data_index_def)
  moreover have "seg_at S N r 0 ?s" "seg_len ?s = 1"
    by (simp_all add: seg_at_def carries_def ack_fields_def seg_data_def syn_segment_def seg_new_def th_new_def length_in_sequence_space_def)
  ultimately show "feed S N r 1 (tc_segments_out (tc_crossed r st peer)) 1"
    by (simp del: One_nat_def) (intro exI [of _ 1] exI [of _ 0] conjI, simp_all)
  have "ack_at M peer 64001 1 ?a" "ack_at M peer 64001 1 ?s" by (simp_all add: ack_at_def ack_fields_def)
  then show "ack_feed M peer 64001 0 (tc_segments_out (tc_crossed r st peer)) 1" by (auto intro!: exI [of _ 1])
qed

lemma tc_crossed_at:
  assumes "stream_of S st" "bs_read_bytes st = 0" "bs_write_bytes st \<le> N" "bs_input_end st \<longrightarrow> bs_write_bytes st = N" "N + 2 < 2 ^ 31" "M + 2 < 2 ^ 31"
  shows "conn_at S N r E P M peer (tc_crossed r st peer) 1"
  using tc_crossed_snd [OF assms(1-5)] rc_opened_at [OF assms(6)] by (simp add: conn_at_def)

lemma bm_first_round:
  assumes "N + 2 < 2 ^ 31" "d = map S [0..<N]" "bm_start cfg_default rx ry d = Inr b0"
  shows "bm_receiving b0 \<and> (\<exists>b1. bm_loop False b0 = Inr b1 \<and> bm_at S N rx ry (2 * N + 19) b1)"
proof -
  let ?y = "bs_end_input (bs_new 64000)"
  have b0: "b0 = \<lparr>bm_x = tc_opening rx (bs_new 64000) [syn_segment rx], bm_y = tc_opening ry ?y [syn_segment ry],
     bm_bytes_to_send = buf_of_string d, bm_x_closed = False, bm_string_received = []\<rparr>"
    using assms(3) by (simp add: bm_starts)
  have new: "stream_of S (bs_new 64000)" "bs_write_bytes (bs_new 64000) = 0" "bs_read_bytes (bs_new 64000) = 0" "\<not> bs_input_end (bs_new 64000)"
      "bs_capacity (bs_new 64000) = 64000" for S
    by (simp_all add: stream_of_def) (simp_all add: bs_new_def bs_contents_def)
  obtain bb st where w: "write_input (buf_of_string d) (tc_opening rx (bs_new 64000) [syn_segment rx]) = Inr (bb, tc_opening rx st [syn_segment rx])"
      "stream_of S st" "\<not> bs_input_end st" "bs_read_bytes st = 0" "bs_capacity st = 64000" "buf_str bb = map S [bs_write_bytes st..<N]" "bs_write_bytes st \<le> N"
    using tc_opening_input [of S "bs_new 64000" "buf_of_string d" N rx "[syn_segment rx]"] new assms(2) by auto
  define closed where "closed \<longleftrightarrow> buf_size bb = 0"
  define st' where "st' = (if closed then bs_end_input st else st)"
  have cl: "(if buf_size bb = 0 \<and> \<not> False then bindE (tc_end_input_stream (tc_opening rx st [syn_segment rx])) (\<lambda>x. Inr (x, True))
      else Inr (tc_opening rx st [syn_segment rx], False)) = Inr (tc_opening rx st' [syn_segment rx], closed)"
    by (simp add: closed_def st'_def tc_opening_end)
  have se: "stream_of S (bs_end_input st)" using w(2) by (simp add: stream_of_def) (simp add: bs_end_input_def)
  have st': "stream_of S st'" "bs_read_bytes st' = 0" "bs_write_bytes st' = bs_write_bytes st" "bs_input_end st' = closed" "bs_capacity st' = 64000"
    using w(2-5) se by (simp_all add: st'_def) (simp_all add: bs_end_input_def)
  have fin: "bs_input_end st' \<longrightarrow> bs_write_bytes st' = N" using w(6,7) st'(3,4) by (auto simp: closed_def buf_size_def)
  have y: "stream_of nothing ?y" "bs_read_bytes ?y = 0" "bs_write_bytes ?y \<le> 0" "bs_input_end ?y \<longrightarrow> bs_write_bytes ?y = 0" "bs_input_end ?y"
    using new(1) [of nothing] new(2-5) by (simp_all add: stream_of_def) (simp_all add: bs_end_input_def bs_contents_def)
  let ?b = "\<lparr>bm_x = tc_crossed rx st' ry, bm_y = tc_crossed ry ?y rx, bm_bytes_to_send = bb, bm_x_closed = closed, bm_string_received = []\<rparr>"
  have z: "bs_contents (bs_new 64000) = []" by (simp add: bs_new_def bs_contents_def)
  have cap: "0 < rc_capacity (rc_opened 64000 rx)" by (simp add: rc_opened_def rc_new_def)
  have loop: "bm_loop False b0 = Inr ?b"
    unfolding bm_loop_def b0 benchmark.simps w(1) bindE_simps prod.case cl
    by (simp add: move_segments_def tc_opening_receives_syn tc_heard_ticks z)
  have "link_at S N rx ry (bm_x ?b) (bm_y ?b) 1 1"
    unfolding link_at_def using tc_crossed_at [OF st'(1,2) _ fin assms(1)] tc_crossed_at [OF y(1-4)]
      tc_crossed_feeds w(7) st'(3) assms(1) by simp
  then have inv: "bm_inv S N rx ry ?b 1 1"
    unfolding bm_inv_def using w(6) st'(3-5) y(5) z new(3) cap by simp
  have "bm_stage (bm_distance N ?b 1 1) (2 * N + 19) ?b" by (simp add: bm_stage_def bm_distance_def)
  with inv have "bm_at S N rx ry (2 * N + 19) ?b" unfolding bm_at_def by auto
  moreover have "bm_receiving b0" by (simp add: b0 bm_receiving_def)
  ultimately show ?thesis using loop by blast
qed

text \<open>
  (C3) The benchmark ends and delivers: for every string shorter than 2 GiB (the program takes 100 MiB) and all
  initial sequence numbers, the run of \<open>main_loop\<close> without reordering leaves both of its loops without an exception.
  Then \<open>y\<close> has received exactly the string that \<open>x\<close> was given, and both connections have closed.
\<close>

theorem benchmark_completes:
  assumes "length d + 2 < 2 ^ 31"
  shows "\<exists>b. main_loop False random_x random_y d = Some (Inr b) \<and> bm_string_received b = d \<and>
    \<not> tc_active (bm_x b) \<and> \<not> tc_active (bm_y b)"
proof -
  let ?S = "\<lambda>i. d ! i"
  obtain b0 where b0: "bm_start cfg_default random_x random_y d = Inr b0" using bm_starts by blast
  have d: "d = map ?S [0..<length d]" by (simp add: map_nth)
  obtain b1 where b1: "bm_loop False b0 = Inr b1" "bm_receiving b0" "bm_at ?S (length d) random_x random_y (2 * length d + 19) b1"
    using bm_first_round [OF assms d b0] by blast
  have "bm_while bm_receiving False b0 = bm_while bm_receiving False b1" using b1 by (subst bm_while.simps) simp
  moreover obtain b2 b3 where "bm_while bm_receiving False b1 = Some (Inr b2)" "bm_string_received b2 = map ?S [0..<length d]"
    "bm_while bm_active False b2 = Some (Inr b3)" "bm_string_received b3 = map ?S [0..<length d]" "\<not> bm_active b3"
    using bm_loops_end [OF b1(3)] by blast
  ultimately show ?thesis unfolding main_loop_def b0 using d by (simp add: map_nth bm_active_def)
qed

theorem benchmark_completes_witness:
  "length [1, 2, 3 :: u8] + 2 < 2 ^ 31 \<and>
   (\<exists>b. main_loop False 4294967295 7 [1, 2, 3] = Some (Inr b) \<and> bm_string_received b = [1, 2, 3] \<and>
     \<not> tc_active (bm_x b) \<and> \<not> tc_active (bm_y b))"
  using benchmark_completes [of "[1, 2, 3]" 4294967295 7] by simp

end
