(* ===== verification/Hex_Dump.thy ===== *)
theory Hex_Dump
  imports Text_Format
begin

text \<open>
  \<open>hexdump\<close> of \<open>util/util.cc\<close>: the loop over the bytes writes lines of sixteen bytes.
\<close>

unbundle bit_operations_syntax

section \<open>Hexadecimal dump\<close>

definition newline :: string where "newline = [char_of (10 :: nat)]"

definition isprint :: "u8 \<Rightarrow> bool" where
  "isprint b \<longleftrightarrow> 32 \<le> b \<and> b \<le> 126"

definition printable :: "u8 \<Rightarrow> char" where
  "printable b = (if isprint b then char_of (unat b) else CHR ''.'')"

text \<open>
  \<open>pchars\<close> is the content of the string stream without its initial blank: the stream is not opened at its end, so
  the first character that is written to it replaces the blank.
\<close>

definition pchars_str :: "string \<Rightarrow> string" where
  "pchars_str pchars = (if pchars = [] then '' '' else pchars)"

fun hexdump_loop :: "string \<Rightarrow> bytes \<Rightarrow> nat \<Rightarrow> string \<Rightarrow> string \<Rightarrow> string \<times> nat \<times> string" where
  "hexdump_loop indent_string [] printed pchars out = (out, printed, pchars)"
| "hexdump_loop indent_string (b # data) printed pchars out =
     (let (out, pchars) =
        (if printed mod 16 = 0 then
           let (out, pchars) = (if printed \<noteq> 0 then (out @ ''    '' @ pchars_str pchars @ newline, []) else (out, pchars))
           in (out @ indent_string @ zero_fill 8 (hex_string printed) @ '':    '', pchars)
         else if printed mod 2 = 0 then (out @ '' '', pchars)
         else (out, pchars))
      in hexdump_loop indent_string data (printed + 1) (pchars @ [printable b]) (out @ zero_fill 2 (hex_string (unat b))))"

definition hexdump :: "bytes \<Rightarrow> nat \<Rightarrow> string" where
  "hexdump data indent =
     (let (out, printed, pchars) = hexdump_loop (replicate indent (CHR '' '')) data 0 [] [];
          print_rem = (16 - printed mod 16) mod 16
      in out @ replicate (2 * print_rem + print_rem div 2 + 4) (CHR '' '') @ pchars_str pchars @ newline @ newline)"

text \<open>The same text line by line, sixteen bytes on a line.\<close>

fun hex_pairs :: "bytes \<Rightarrow> string" where
  "hex_pairs [] = []"
| "hex_pairs [a] = zero_fill 2 (hex_string (unat a))"
| "hex_pairs (a # b # bs) = zero_fill 2 (hex_string (unat a)) @ zero_fill 2 (hex_string (unat b)) @ (if bs = [] then [] else '' '' @ hex_pairs bs)"

definition dump_line :: "nat \<Rightarrow> nat \<Rightarrow> bytes \<Rightarrow> string" where
  "dump_line indent off line = replicate indent (CHR '' '') @ zero_fill 8 (hex_string off) @ '':    '' @ hex_pairs line @
     replicate (2 * (16 - length line) + (16 - length line) div 2 + 4) (CHR '' '') @ map printable line @ newline"

function dump_lines :: "nat \<Rightarrow> nat \<Rightarrow> bytes \<Rightarrow> string" where
  "dump_lines indent off data =
     (if data = [] then [] else dump_line indent off (take 16 data) @ dump_lines indent (off + 16) (drop 16 data))"
  by pat_completeness auto
termination by (relation "measure (\<lambda>(_, _, data). length data)") auto

declare dump_lines.simps [simp del]

fun later_pairs :: "nat \<Rightarrow> bytes \<Rightarrow> string" where
  "later_pairs j [] = []"
| "later_pairs j (b # bs) = (if even j then '' '' else []) @ zero_fill 2 (hex_string (unat b)) @ later_pairs (Suc j) bs"

lemma later_pairs_parity: "later_pairs (Suc (Suc j)) bs = later_pairs j bs"
  by (induction bs arbitrary: j) auto

lemma hex_pairs_later: "hex_pairs (b # bs) = zero_fill 2 (hex_string (unat b)) @ later_pairs 1 bs"
proof (induction "b # bs" arbitrary: b bs rule: hex_pairs.induct)
  case (3 a b bs)
  then show ?case by (cases bs) (auto simp: later_pairs_parity numeral_eq_Suc)
qed simp

lemma hexdump_in_line:
  "0 < p mod 16 \<Longrightarrow> p mod 16 + length xs \<le> 16 \<Longrightarrow>
   hexdump_loop ind (xs @ ys) p c out = hexdump_loop ind ys (p + length xs) (c @ map printable xs) (out @ later_pairs (p mod 16) xs)"
proof (induction xs arbitrary: p c out)
  case (Cons b xs)
  have par: "even (p mod 16) \<longleftrightarrow> p mod 2 = 0" by presburger
  have step: "hexdump_loop ind ((b # xs) @ ys) p c out = hexdump_loop ind (xs @ ys) (Suc p) (c @ [printable b])
      (out @ (if even (p mod 16) then '' '' else []) @ zero_fill 2 (hex_string (unat b)))"
    using Cons.prems(1) by (simp add: par)
  show ?case
  proof (cases xs)
    case Nil
    then show ?thesis unfolding step by simp
  next
    case xs: (Cons a as)
    then have "Suc p mod 16 = Suc (p mod 16)" using Cons.prems by (simp add: mod_Suc)
    then show ?thesis unfolding step using Cons.IH [of "Suc p"] Cons.prems by simp
  qed
qed simp

lemma hexdump_line:
  assumes "p mod 16 = 0" "line \<noteq> []" "length line \<le> 16" "p = 0 \<longrightarrow> c = []"
  shows "hexdump_loop ind (line @ ys) p c out = hexdump_loop ind ys (p + length line) (map printable line)
    (out @ (if p = 0 then [] else ''    '' @ pchars_str c @ newline) @ ind @ zero_fill 8 (hex_string p) @ '':    '' @ hex_pairs line)"
proof -
  obtain b bs where l: "line = b # bs" using assms(2) by (cases line) auto
  have m: "Suc p mod 16 = 1" using assms(1) by (simp add: mod_Suc)
  have "hexdump_loop ind (line @ ys) p c out = hexdump_loop ind (bs @ ys) (Suc p) [printable b]
      (out @ (if p = 0 then [] else ''    '' @ pchars_str c @ newline) @ ind @ zero_fill 8 (hex_string p) @ '':    '' @ zero_fill 2 (hex_string (unat b)))"
    using assms(1,4) l by simp
  also have "\<dots> = hexdump_loop ind ys (p + length line) (map printable line)
    (out @ (if p = 0 then [] else ''    '' @ pchars_str c @ newline) @ ind @ zero_fill 8 (hex_string p) @ '':    '' @ hex_pairs line)"
    using hexdump_in_line [of "Suc p" bs ind ys] m assms(3) by (simp add: l hex_pairs_later)
  finally show ?thesis .
qed

lemma replicate_4: "replicate 4 a = [a, a, a, a]"
  by (simp add: eval_nat_numeral)

definition dump_end :: "string \<times> nat \<times> string \<Rightarrow> string" where
  "dump_end r = (case r of (out, printed, pchars) \<Rightarrow>
     let print_rem = (16 - printed mod 16) mod 16
     in out @ replicate (2 * print_rem + print_rem div 2 + 4) (CHR '' '') @ pchars_str pchars @ newline @ newline)"

lemma line_rest:
  fixes p n :: nat
  assumes "p mod 16 = 0" "0 < n" "n \<le> 16"
  shows "(16 - (p + n) mod 16) mod 16 = 16 - n"
proof -
  have "(p + n) mod 16 = n mod 16" using assms(1) by (simp add: mod_add_eq [symmetric])
  then show ?thesis using assms(2,3) by (cases "n = 16") simp_all
qed

lemma dump_end_lines:
  assumes "p mod 16 = 0" "data \<noteq> []" "p = 0 \<longrightarrow> c = []"
  shows "dump_end (hexdump_loop (replicate indent (CHR '' '')) data p c out) =
    out @ (if p = 0 then [] else ''    '' @ pchars_str c @ newline) @ dump_lines indent p data @ newline"
  using assms
proof (induction "length data" arbitrary: data p c out rule: less_induct)
  case less
  let ?l = "take 16 data" and ?r = "drop 16 data" and ?ind = "replicate indent (CHR '' '')"
  let ?out = "out @ (if p = 0 then [] else ''    '' @ pchars_str c @ newline) @ ?ind @ zero_fill 8 (hex_string p) @ '':    '' @ hex_pairs ?l"
  have l: "?l \<noteq> []" "length ?l \<le> 16" using less.prems(2) by auto
  have lp: "hexdump_loop ?ind data p c out = hexdump_loop ?ind ?r (p + length ?l) (map printable ?l) ?out"
    using hexdump_line [OF less.prems(1) l less.prems(3), of ?ind ?r out] by simp
  have ps: "pchars_str (map printable ?l) = map printable ?l" using l(1) by (simp add: pchars_str_def)
  show ?case
  proof (cases "?r = []")
    case True
    then have len: "length data \<le> 16" "?l = data" by auto
    have "(16 - (p + length data) mod 16) mod 16 = 16 - length data" by (rule line_rest) (use less.prems(1,2) len(1) in simp_all)
    then have "dump_end (hexdump_loop ?ind data p c out) = ?out @ replicate (2 * (16 - length data) + (16 - length data) div 2 + 4) (CHR '' '') @ map printable ?l @ newline @ newline"
      using len ps by (simp add: lp True dump_end_def Let_def)
    moreover have "dump_lines indent p data = dump_line indent p data" using less.prems(2) True len(2) by (subst dump_lines.simps) (simp add: dump_lines.simps [of _ _ "[]"])
    ultimately show ?thesis using len(2) by (simp add: dump_line_def)
  next
    case False
    then have len: "length ?l = 16" "length ?r < length data" by auto
    have "dump_end (hexdump_loop ?ind ?r (p + 16) (map printable ?l) ?out) =
        ?out @ ''    '' @ map printable ?l @ newline @ dump_lines indent (p + 16) ?r @ newline"
      using less.hyps [OF len(2), of "p + 16" "map printable ?l" ?out] less.prems(1) False ps by simp
    moreover have "dump_lines indent p data = dump_line indent p ?l @ dump_lines indent (p + 16) ?r" using less.prems(2) by (subst dump_lines.simps) simp
    moreover have "dump_line indent p ?l = ?ind @ zero_fill 8 (hex_string p) @ '':    '' @ hex_pairs ?l @ ''    '' @ map printable ?l @ newline"
      using len(1) by (simp add: dump_line_def replicate_4 del: length_take)
    ultimately show ?thesis using lp len(1) by simp
  qed
qed

theorem hexdump_by_lines: "hexdump data indent = (if data = [] then ''     '' @ newline else dump_lines indent 0 data) @ newline"
proof -
  have "hexdump data indent = dump_end (hexdump_loop (replicate indent (CHR '' '')) data 0 [] [])"
    by (simp add: hexdump_def dump_end_def)
  then show ?thesis using dump_end_lines [of 0 data "[]" indent "[]"] by (cases "data = []") (simp_all add: dump_end_def pchars_str_def replicate_4)
qed

end
