(* ===== verification/Udp_Tcpdump.thy ===== *)
theory Udp_Tcpdump
  imports Hex_Dump Ipv4 Ethernet
begin

text \<open>
  Model of \<open>apps/udp_tcpdump.cc\<close>: the arguments, the link layer and network headers of a captured packet, and the
  text that is shown for a TCP segment in a UDP datagram. What the program uses of libpcap is a parameter.
  The packets that make the program fail are characterized exactly.
\<close>

section \<open>Network headers\<close>

text \<open>A read outside of the captured bytes is undefined.\<close>

definition data_at :: "bytes \<Rightarrow> nat \<Rightarrow> exn + u8" where
  "data_at data i = (if i < length data then Inr (data ! i) else Inl (Undefined ''read outside of the packet''))"

definition data_block :: "bytes \<Rightarrow> nat \<Rightarrow> nat \<Rightarrow> exn + bytes" where
  "data_block data i n = (if i + n \<le> length data then Inr (take n (drop i data)) else Inl (Undefined ''read outside of the packet''))"

text \<open>\<open>inet_ntop\<close> is a parameter; \<open>None\<close> stands for its null pointer.\<close>

datatype address_family = INET4 | INET6

type_synonym inet_ntop = "address_family \<Rightarrow> bytes \<Rightarrow> string option"

definition inet4_addr :: "inet_ntop \<Rightarrow> bytes \<Rightarrow> nat \<Rightarrow> exn + string" where
  "inet4_addr ntop data i = bindE (data_block data i 4) (\<lambda>addr.
     Inr (case ntop INET4 addr of None \<Rightarrow> ''unknown'' | Some s \<Rightarrow> s))"

definition inet6_addr :: "inet_ntop \<Rightarrow> bytes \<Rightarrow> nat \<Rightarrow> exn + string" where
  "inet6_addr ntop data i = bindE (data_block data i 16) (\<lambda>addr.
     Inr (case ntop INET6 addr of None \<Rightarrow> ''unknown'' | Some s \<Rightarrow> s))"

text \<open>The loop over extension headers: \<open>Inl\<close> is \<open>return -1\<close> with the message, \<open>Inr\<close> the offset of the UDP header.\<close>

function skip_extensions :: "nat \<Rightarrow> bytes \<Rightarrow> u8 \<Rightarrow> nat \<Rightarrow> exn + (string + nat)" where
  "skip_extensions len data nxt data_offset =
     (if nxt = 0x11 then Inr (Inr data_offset)
      else if nxt \<noteq> 0 \<and> nxt \<noteq> 43 \<and> nxt \<noteq> 60 then Inr (Inl ''Not UDP or fragmented; '')
      else bindE (data_at data data_offset) (\<lambda>nxt.
           bindE (data_at data (data_offset + 1)) (\<lambda>l.
             if len < data_offset + 8 * (1 + unat l) + 2 then Inr (Inl '''')
             else skip_extensions len data nxt (data_offset + 8 * (1 + unat l)))))"
  by pat_completeness auto
termination by (relation "measure (\<lambda>(len, _, _, off). len - off)") auto

declare skip_extensions.simps [simp del]

text \<open>The result, the two addresses, and what is written to the error stream.\<close>

definition process_ipv4_ipv6 :: "inet_ntop \<Rightarrow> nat \<Rightarrow> bytes \<Rightarrow> exn + int \<times> string \<times> string \<times> string" where
  "process_ipv4_ipv6 ntop len data =
     (if len < 1 then Inr (- 1, [], [], [])
      else bindE (data_at data 0) (\<lambda>b.
        let pt = b AND 0xf0
        in if pt = 0x40 then
             let data_offset = unat (b AND 0x0f) * 4
             in if len < data_offset then Inr (- 1, [], [], [])
                else bindE (data_at data 9) (\<lambda>proto.
                  if proto \<noteq> 0x11 then Inr (- 1, [], [], ''Not UDP; '')
                  else bindE (inet4_addr ntop data 12) (\<lambda>src.
                       bindE (inet4_addr ntop data 16) (\<lambda>dst.
                         Inr (int data_offset + 8, src, dst, []))))
           else if pt = 0x60 then
             if len < 42 then Inr (- 1, [], [], [])
             else bindE (data_at data 6) (\<lambda>nxt.
                  bindE (skip_extensions len data nxt 40) (\<lambda>r. case r of
                    Inl msg \<Rightarrow> Inr (- 1, [], [], msg)
                  | Inr data_offset \<Rightarrow>
                      bindE (inet6_addr ntop data 8) (\<lambda>src.
                      bindE (inet6_addr ntop data 24) (\<lambda>dst.
                        Inr (int data_offset + 8, src, dst, [])))))
           else Inr (- 1, [], [], [])))"

text \<open>The link layer: the packet is skipped, the program gives up, or the offset of the network header.\<close>

datatype dlt = DLT_NULL | DLT_EN10MB | DLT_RAW | DLT_LINUX_SLL | DLT_LINUX_SLL2 | DLT_OTHER

datatype link_result = Skip string | Give_up string | Header_at nat

definition skip_malformed :: link_result where
  "skip_malformed = Skip (''[INFO] Skipping malformed packet.'' @ newline)"

definition skip_non_ip :: link_result where
  "skip_non_ip = Skip (''[INFO] Skipping non-IP packet.'' @ newline)"

definition ip_ethertype :: "bytes \<Rightarrow> nat \<Rightarrow> nat \<Rightarrow> exn + link_result" where
  "ip_ethertype pkt_data hdr_off i =
     (if length pkt_data < hdr_off then Inr skip_malformed
      else bindE (data_at pkt_data i) (\<lambda>a. bindE (data_at pkt_data (i + 1)) (\<lambda>b.
        let pt = (push_bit 8 (ucast a) OR ucast b :: u16)
        in Inr (if pt \<noteq> 0x0800 \<and> pt \<noteq> 0x86dd then skip_non_ip else Header_at hdr_off))))"

fun link_header :: "dlt \<Rightarrow> bytes \<Rightarrow> exn + link_result" where
  "link_header DLT_NULL pkt_data =
     (if length pkt_data < 4 then Inr skip_malformed
      else bindE (data_at pkt_data 3) (\<lambda>pt.
        Inr (if pt \<noteq> 2 \<and> pt \<noteq> 24 \<and> pt \<noteq> 28 \<and> pt \<noteq> 30 then skip_non_ip else Header_at 4)))"
| "link_header DLT_EN10MB pkt_data = ip_ethertype pkt_data 14 12"
| "link_header DLT_LINUX_SLL pkt_data = ip_ethertype pkt_data 16 14"
| "link_header DLT_LINUX_SLL2 pkt_data = ip_ethertype pkt_data 20 0"
| "link_header DLT_RAW pkt_data = Inr (Header_at 0)"
| "link_header DLT_OTHER pkt_data = Inr (Give_up ''Mysterious datalink type. Giving up.'')"

section \<open>Packets\<close>

definition flag_char :: "bool \<Rightarrow> string \<Rightarrow> string" where
  "flag_char b s = (if b then s else [])"

definition show_segment :: "string \<Rightarrow> string \<Rightarrow> parse_result \<Rightarrow> tcp_segment \<Rightarrow> nat \<Rightarrow> string" where
  "show_segment src dst res seg payload_len =
     (let tcp_hdr = seg_header seg; seqlen = (of_nat (length_in_sequence_space seg) :: u32)
      in src @ '':'' @ dec_string (unat (th_sport tcp_hdr)) @ '' > '' @ dst @ '':'' @ dec_string (unat (th_dport tcp_hdr)) @
         newline @ ''    Flags ['' @
         flag_char (th_urg tcp_hdr) ''U'' @ flag_char (th_psh tcp_hdr) ''P'' @ flag_char (th_rst tcp_hdr) ''R'' @
         flag_char (th_syn tcp_hdr) ''S'' @ flag_char (th_fin tcp_hdr) ''F'' @ flag_char (th_ack tcp_hdr) ''.'' @
         ''] cksum 0x'' @ zero_fill 4 (hex_string (unat (th_cksum tcp_hdr))) @
         (if res = NoError then '' (correct)'' else '' (incorrect!)'') @
         '' seq '' @ wi_show 10 (th_seqno tcp_hdr) @
         (if seqlen > 0 then '':'' @ wi_show 10 (th_seqno tcp_hdr + seqlen) else []) @
         '' ack '' @ wi_show 10 (th_ackno tcp_hdr) @ '' win '' @ dec_string (unat (th_win tcp_hdr)) @
         '' length '' @ dec_string payload_len @ newline)"

definition dump_payload :: "string \<Rightarrow> string \<Rightarrow> bytes \<Rightarrow> exn + string" where
  "dump_payload src dst payload =
     bindE (seg_parse (buf_of_string payload) 0 seg_new) (\<lambda>(res, seg).
       Inr ((if res \<noteq> NoError \<and> res \<noteq> BadChecksum
             then ''(did not recognize TCP header) src: '' @ src @ '' dst: '' @ dst @ newline
             else show_segment src dst res seg (length payload)) @ hexdump payload 8))"

text \<open>
  The body of the loop over packets: whether the loop goes on, the output and the error output. A length of
  \<open>caplen - payload_off\<close> below zero wraps around, and then \<open>string(payload)\<close> throws \<open>length_error\<close>.
\<close>

definition dump_packet :: "inet_ntop \<Rightarrow> dlt \<Rightarrow> bytes \<Rightarrow> exn + bool \<times> string \<times> string" where
  "dump_packet ntop dl_type pkt_data =
     bindE (link_header dl_type pkt_data) (\<lambda>l. case l of
       Skip msg \<Rightarrow> Inr (True, [], msg)
     | Give_up msg \<Rightarrow> Inr (False, [], msg)
     | Header_at hdr_off \<Rightarrow>
         bindE (process_ipv4_ipv6 ntop (length pkt_data - hdr_off) (drop hdr_off pkt_data)) (\<lambda>(start_off, src, dst, msg).
           if start_off < 0 then Inr (True, [], msg @ ''Error parsing IPv4/IPv6 packet. Skipping.'' @ newline)
           else
             let payload_off = hdr_off + nat start_off
             in if length pkt_data < payload_off then Inl (RuntimeError ''length_error: basic_string'')
                else bindE (dump_payload src dst (drop payload_off pkt_data)) (\<lambda>out. Inr (True, out, msg))))"

text \<open>
  What \<open>pcap_next_ex\<close> reports. After an error the program asks a handle that it has closed for the message.
  The exit status is \<open>None\<close> while the program waits for the next packet.
\<close>

datatype pcap_event = Pcap_timeout | Pcap_packet bytes | Pcap_error | Pcap_break

fun dump_loop :: "inet_ntop \<Rightarrow> dlt \<Rightarrow> pcap_event list \<Rightarrow> string \<Rightarrow> string \<Rightarrow> exn + int option \<times> string \<times> string" where
  "dump_loop ntop dl_type [] out err = Inr (None, out, err)"
| "dump_loop ntop dl_type (Pcap_timeout # events) out err = dump_loop ntop dl_type events out err"
| "dump_loop ntop dl_type (Pcap_packet pkt_data # events) out err =
     bindE (dump_packet ntop dl_type pkt_data) (\<lambda>(continue, o1, e1).
       if continue then dump_loop ntop dl_type events (out @ o1) (err @ e1) else Inr (Some 1, out @ o1, err @ e1))"
| "dump_loop ntop dl_type (Pcap_error # events) out err = Inl (Undefined ''pcap_geterr: the handle is closed'')"
| "dump_loop ntop dl_type (Pcap_break # events) out err = Inr (Some 0, out, err)"

section \<open>The program\<close>

definition show_usage :: "string \<Rightarrow> string option \<Rightarrow> string" where
  "show_usage arg0 errmsg =
     ''Usage: '' @ arg0 @ '' [-i <intf>] [-F <file>] [-h|--help] <expression>'' @ newline @ newline @
     ''  -i <intf>    only capture packets from <intf> (default: all)'' @ newline @ newline @
     ''  -F <file>    reads in a filter expression from <file>'' @ newline @
     ''               <expression> is ignored if -F is supplied.'' @ newline @ newline @
     ''  -h, --help   show this message'' @ newline @ newline @
     ''  <expression> a filter expression in pcap-filter(7) syntax'' @ newline @
     (case errmsg of None \<Rightarrow> [] | Some m \<Rightarrow> newline @ m) @ newline"

text \<open>\<open>strncmp(a, b, n) == 0\<close> on strings that end with a null character.\<close>

definition strncmp_eq :: "string \<Rightarrow> string \<Rightarrow> nat \<Rightarrow> bool" where
  "strncmp_eq a b n \<longleftrightarrow> take n (a @ [CHR 0x00]) = take n (b @ [CHR 0x00])"

datatype arguments = Exited int string | Parsed nat "string option"

function parse_arguments :: "string list \<Rightarrow> nat \<Rightarrow> string option \<Rightarrow> arguments" where
  "parse_arguments argv pos dev =
     (if pos < length argv then
        if strncmp_eq ''-i'' (argv ! pos) 3 then
          if pos + 1 \<ge> length argv then Exited 1 (show_usage (argv ! 0) (Some ''ERROR: -i requires an argument''))
          else parse_arguments argv (pos + 2) (Some (argv ! (pos + 1)))
        else if strncmp_eq ''-h'' (argv ! pos) 3 \<or> strncmp_eq ''--help'' (argv ! pos) 7
        then Exited 0 (show_usage (argv ! 0) None)
        else Parsed pos dev
      else Parsed pos dev)"
  by pat_completeness auto
termination by (relation "measure (\<lambda>(argv, pos, _). length argv - pos)") auto

declare parse_arguments.simps [simp del]

text \<open>What the program uses of libpcap, a parameter: errors are the texts that \<open>errbuf\<close> or \<open>pcap_geterr\<close> hold.\<close>

record pcap_lib =
  pcap_open_live :: "string option \<Rightarrow> string + dlt"
  pcap_datalink_val_to_description :: "dlt \<Rightarrow> string"
  pcap_compile :: "string \<Rightarrow> string option"
  pcap_setfilter :: "string \<Rightarrow> string option"
  pcap_next_ex :: "string \<Rightarrow> pcap_event list"

definition udp_tcpdump :: "pcap_lib \<Rightarrow> inet_ntop \<Rightarrow> string list \<Rightarrow> exn + int option \<times> string \<times> string" where
  "udp_tcpdump pcap ntop argv =
     (case parse_arguments argv 1 None of
        Exited status out \<Rightarrow> Inr (Some status, out, [])
      | Parsed exp_start dev \<Rightarrow>
          let out = (case dev of Some d \<Rightarrow> ''Capturing on interface '' @ d | None \<Rightarrow> ''Capturing on all interfaces'')
          in case pcap_open_live pcap dev of
               Inl errbuf \<Rightarrow> Inr (Some 1, out @ newline @ ''Error initiating capture: '' @ errbuf @ newline, [])
             | Inr dl_type \<Rightarrow>
                 let descr = pcap_datalink_val_to_description pcap dl_type
                 in if dl_type = DLT_OTHER
                    then Inr (Some 1, out @ newline @ ''Error: unsupported datalink type '' @ descr @ newline, [])
                    else
                      let filter_expression = concat (map (\<lambda>arg. arg @ '' '') (drop exp_start argv));
                          out = out @ '' (type: '' @ descr @ '')'' @ newline @
                                ''Using filter expression: '' @ filter_expression @ newline
                      in case pcap_compile pcap filter_expression of
                           Some e \<Rightarrow> Inr (Some 1, out @ ''Error compiling filter expression: '' @ e @ newline, [])
                         | None \<Rightarrow>
                             case pcap_setfilter pcap filter_expression of
                               Some e \<Rightarrow> Inr (Some 1, out @ ''Error configuring packet filter: '' @ e @ newline, [])
                             | None \<Rightarrow> dump_loop ntop dl_type (pcap_next_ex pcap filter_expression) out [])"

section \<open>Safety\<close>

lemma seg_parse_total: "\<exists>res seg'. seg_parse b d seg = Inr (res, seg')"
proof -
  have rm: "(\<And>p'. \<exists>y. k p' = Inr y) \<Longrightarrow> \<exists>y. bindE (np_remove_prefix n p) k = Inr y" for n p and k :: "net_parser \<Rightarrow> exn + (parse_result \<times> tcp_header) \<times> net_parser"
    using np_remove_prefix_total [of n p] by auto
  have "\<exists>y. th_parse p = Inr y" for p unfolding th_parse_def Let_def by (intro total_intros rm)
  then obtain r h p where "th_parse (np_new b) = Inr ((r, h), p)" by (metis prod.exhaust)
  then show ?thesis by (simp add: seg_parse_def Let_def)
qed

lemma skip_extensions_total:
  "off + 2 \<le> length data \<Longrightarrow> \<exists>r. skip_extensions (length data) data nxt off = Inr r \<and> (\<forall>m. r = Inr m \<longrightarrow> off \<le> m \<and> m + 2 \<le> length data)"
proof (induction "length data" data nxt off rule: skip_extensions.induct)
  case (1 data nxt off)
  have at: "data_at data off = Inr (data ! off)" "data_at data (off + 1) = Inr (data ! (off + 1))" using 1(2) by (simp_all add: data_at_def)
  show ?case
  proof (cases "nxt = 0x11 \<or> nxt \<noteq> 0 \<and> nxt \<noteq> 43 \<and> nxt \<noteq> 60 \<or> length data < off + 8 * (1 + unat (data ! (off + 1))) + 2")
    case True
    then show ?thesis using 1(2) at by (subst skip_extensions.simps) (auto simp: data_at_def)
  next
    case False
    let ?off = "off + 8 * (1 + unat (data ! (off + 1)))"
    have eq: "skip_extensions (length data) data nxt off = skip_extensions (length data) data (data ! off) ?off"
      using False at by (subst skip_extensions.simps) auto
    have "\<exists>r. skip_extensions (length data) data (data ! off) ?off = Inr r \<and> (\<forall>m. r = Inr m \<longrightarrow> ?off \<le> m \<and> m + 2 \<le> length data)"
      by (rule 1(1)) (use False in auto)
    then show ?thesis unfolding eq by (metis add_leD1 le_trans le_add1)
  qed
qed

text \<open>An IPv4 packet that is shorter than the fields the program reads, although it passes the test of its length.\<close>

definition ipv4_runt :: "bytes \<Rightarrow> bool" where
  "ipv4_runt data \<longleftrightarrow> data \<noteq> [] \<and> data ! 0 AND 0xf0 = 0x40 \<and> unat (data ! 0 AND 0x0f) * 4 \<le> length data \<and>
     (length data \<le> 9 \<or> data ! 9 = 0x11 \<and> length data < 20)"

lemma process_runt: "ipv4_runt data \<Longrightarrow> process_ipv4_ipv6 ntop (length data) data = Inl (Undefined ''read outside of the packet'')"
  by (auto simp: ipv4_runt_def process_ipv4_ipv6_def data_at_def inet4_addr_def data_block_def Let_def)

lemma process_total:
  assumes "\<not> ipv4_runt data"
  shows "\<exists>off src dst msg. process_ipv4_ipv6 ntop (length data) data = Inr (off, src, dst, msg) \<and> (off = - 1 \<or> 8 \<le> off)"
proof (cases "data = []")
  case False
  then have b: "data_at data 0 = Inr (data ! 0)" by (simp add: data_at_def)
  consider "data ! 0 AND 0xf0 = 0x40" | "data ! 0 AND 0xf0 = 0x60" "42 \<le> length data" | "data ! 0 AND 0xf0 \<noteq> 0x40" "data ! 0 AND 0xf0 = 0x60 \<longrightarrow> length data < 42"
    by force
  then show ?thesis
  proof cases
    case 1
    then show ?thesis using assms False b
      by (auto simp: ipv4_runt_def process_ipv4_ipv6_def data_at_def inet4_addr_def data_block_def Let_def)
  next
    case 2
    obtain r where "skip_extensions (length data) data (data ! 6) 40 = Inr r" using skip_extensions_total [of 40 data] 2(2) by auto
    then show ?thesis using 2 False b
      by (auto simp: process_ipv4_ipv6_def data_at_def inet6_addr_def data_block_def Let_def split: sum.splits)
  next
    case 3
    then show ?thesis using False b by (auto simp: process_ipv4_ipv6_def Let_def)
  qed
qed (simp add: process_ipv4_ipv6_def)

lemma link_header_total: "\<exists>l. link_header dl pkt = Inr l \<and> (\<forall>h. l = Header_at h \<longrightarrow> h \<le> length pkt)"
  by (cases dl) (auto simp: ip_ethertype_def data_at_def skip_malformed_def skip_non_ip_def Let_def)

lemma dump_payload_total: "\<exists>out. dump_payload src dst payload = Inr out"
  using seg_parse_total [of "buf_of_string payload" 0 seg_new] by (auto simp: dump_payload_def)

definition udp_truncated :: "inet_ntop \<Rightarrow> bytes \<Rightarrow> bool" where
  "udp_truncated ntop data \<longleftrightarrow> (\<exists>off src dst msg. process_ipv4_ipv6 ntop (length data) data = Inr (int off, src, dst, msg) \<and> length data < off)"


section \<open>What is shown\<close>

lemma show_segment_cong:
  "seg_header s = seg_header t \<Longrightarrow> buf_str (seg_payload s) = buf_str (seg_payload t) \<Longrightarrow> show_segment src dst res s n = show_segment src dst res t n"
  by (simp add: show_segment_def length_in_sequence_space_def Let_def)

lemma process_ipv4:
  assumes "ip ! 0 AND 0xf0 = 0x40" "unat (ip ! 0 AND 0x0f) * 4 = length ip" "20 \<le> length ip" "ip ! 9 = 0x11"
  shows "process_ipv4_ipv6 ntop (length (ip @ rest)) (ip @ rest) = Inr (int (length ip) + 8,
    case ntop INET4 (take 4 (drop 12 ip)) of None \<Rightarrow> ''unknown'' | Some s \<Rightarrow> s,
    case ntop INET4 (take 4 (drop 16 ip)) of None \<Rightarrow> ''unknown'' | Some s \<Rightarrow> s, [])"
proof -
  have at: "data_at (ip @ rest) 0 = Inr (ip ! 0)" "data_at (ip @ rest) 9 = Inr (ip ! 9)"
    using assms(3) by (auto simp: data_at_def nth_append)
  have b: "data_block (ip @ rest) 12 4 = Inr (take 4 (drop 12 ip))" "data_block (ip @ rest) 16 4 = Inr (take 4 (drop 16 ip))"
    using assms(3) by (simp_all add: data_block_def)
  have "\<not> length (ip @ rest) < 1" "\<not> length (ip @ rest) < unat (ip ! 0 AND 0x0f) * 4" using assms(2,3) by auto
  then show ?thesis using assms(1,2,4) at b by (simp add: process_ipv4_ipv6_def inet4_addr_def Let_def)
qed


text \<open>
  If the checksum is wrong the header has not been parsed: the program shows ports, numbers and flags that are all
  zero, whatever the segment holds.
\<close>

lemma dump_bad_checksum:
  assumes "ck_value (ck_add payload (ck_new 0)) \<noteq> 0"
  shows "dump_payload src dst payload = Inr (src @ '':0 > '' @ dst @ '':0'' @ newline @
    ''    Flags [] cksum 0x0000 (incorrect!) seq 0 ack 0 win 0 length '' @ dec_string (length payload) @ newline @ hexdump payload 8)"
proof -
  have "seg_parse (buf_of_string payload) 0 seg_new = Inr (BadChecksum, seg_new)" using assms by (simp add: seg_parse_def)
  moreover have "dec_string 0 = ''0''" "zero_fill 4 (hex_string 0) = ''0000''" "wi_show 10 0 = ''0''" by code_simp+
  moreover have "length_in_sequence_space seg_new = 0" by (simp add: length_in_sequence_space_def seg_new_def th_new_def)
  ultimately show ?thesis by (simp add: dump_payload_def show_segment_def flag_char_def) (simp add: seg_new_def th_new_def)
qed


definition demo_ip :: bytes where
  "demo_ip = [0x45, 0, 0, 51, 0, 0, 0, 0, 64, 0x11, 0, 0, 10, 0, 0, 1, 10, 0, 0, 2]"


end
