(* ===== verification/Spec2Isabelle.thy ===== *)
theory Spec2Isabelle
  imports Simulator_Safety Sponge_Socket Stream_Copy Benchmark_Completes Udp_Tcpdump
begin

text \<open>
  Verification of the user-space TCP/IP stack ``sponge'' under \<open>src/src/sponge\<close>: the library \<open>libsponge\<close> and
  the programs of \<open>apps\<close> that have logic of their own.

  \<^bold>\<open>The program.\<close> A TCP connection (\<open>tcp_connection.cc\<close>) owns a sender (\<open>tcp_sender.cc\<close>) and a receiver
  (\<open>tcp_receiver.cc\<close>). The sender cuts an outbound byte stream (\<open>byte_stream.cc\<close>) into segments, keeps them until they
  are acknowledged and sends them again when a timer runs out; the receiver hands the payload of segments to a
  reassembler (\<open>stream_reassembler.cc\<close>), which writes to the inbound byte stream. Segments are serialized with checksums
  (\<open>tcp_helpers/tcp_segment.cc\<close>, \<open>util/parser.cc\<close>, \<open>util/util.cc\<close>) and carried by adapters over UDP, over IPv4 datagrams
  on a TUN device, or over Ethernet through a network interface with an ARP cache (\<open>network_interface.cc\<close>). A socket
  (\<open>tcp_helpers/tcp_sponge_socket.cc\<close>) runs a connection in a thread, in an event loop (\<open>util/eventloop.cc\<close>) over file
  descriptors. A router (\<open>router.cc\<close>) forwards datagrams between network interfaces. The program
  \<open>apps/network_simulator.cc\<close> tests router and interfaces on simulated links, and
  \<open>apps/bidirectional_stream_copy.cc\<close> connects a socket to the standard input and output. The program
  \<open>apps/tcp_benchmark.cc\<close> runs two connections against each other in one process.

  \<^bold>\<open>Conventions\<close> (theory \<open>Sponge_Prelude\<close>). Integers whose wrap-around is observable are words of the width the C++
  code gives them; sizes of data in memory are natural numbers. A class is a record with its fields, a method a function
  from the record to the record. An exception is \<open>Inl\<close> of a value of \<open>exn\<close>, and so is undefined behaviour, as
  \<open>Undefined\<close>: a theorem that says that the result is \<open>Inr\<close> excludes both. \<open>bindE\<close> sequences computations that may
  throw. The locale \<open>step_system\<close> is the contract of a component that keeps an invariant under its operations; it is
  interpreted for the sender, the connection and the network interface.

  \<^bold>\<open>Theories and sources\<close> (paths under \<open>src/src/sponge/libsponge\<close> unless \<open>apps\<close> is named).

  \<^item> \<open>Wrapping_Integers\<close>: \<open>wrapping_integers\<close>. \<open>wrap\<close> and \<open>unwrap\<close>, and that \<open>unwrap\<close> returns the closest number.
  \<^item> \<open>Buffers\<close>: \<open>util/buffer\<close>. The contract \<open>byte_store\<close> (contents, size, removal of a prefix) is met by all three classes.
  \<^item> \<open>Byte_Streams\<close>: \<open>byte_stream\<close>. The contract \<open>flow_stream\<close> of a bounded queue with counters.
  \<^item> \<open>Checksum\<close>: \<open>InternetChecksum\<close> of \<open>util/util\<close>, equal to the ones'-complement sum of the big-endian 16-bit words.
  \<^item> \<open>Net_Parser\<close>, \<open>Wire_Formats\<close>: \<open>util/parser\<close>. The contracts \<open>wire_format\<close> (what was written is read back) and
    \<open>canonical_format\<close> (nothing else is accepted) of a field; formats compose by lemmas of these locales.
  \<^item> \<open>Tcp_Segments\<close>, \<open>Ethernet\<close>, \<open>Ipv4\<close>: the headers, messages, frames, segments and datagrams of \<open>tcp_helpers\<close>:
    round trips, detection of corruption, and the errors that \<open>parse\<close> reports and those it drops. \<open>Text_Format\<close> models
    what their \<open>to_string\<close> methods use of the C++ library.
  \<^item> \<open>Reassembler\<close>, \<open>Reassembler_Safety\<close>: \<open>stream_reassembler\<close>. \<open>push_substring\<close> is proved to add a set of indices to
    the set of received indices, for substrings of one stream; the bound on memory holds for arbitrary input,
    by an argument that the code does not look at the bytes it moves.
  \<^item> \<open>Receiver\<close>: \<open>tcp_receiver\<close>. \<open>Sender\<close>: \<open>tcp_sender\<close> and \<open>tcp_helpers/tcp_config\<close>. \<open>Tcp_State\<close>: \<open>tcp_helpers/tcp_state\<close>.
  \<^item> \<open>Connection\<close>: \<open>tcp_connection\<close>. Every handler, an invariant for an arbitrary peer, handshake, TIME_WAIT, resets.
  \<^item> \<open>Tcp_Network\<close>: two connections and a network that loses, duplicates, delays and reorders segments, as an inductive
    step relation over the definitions above. What an application reads is a prefix of what the other one writes.
  \<^item> \<open>Addresses\<close>: \<open>util/address\<close>. \<open>getaddrinfo\<close> and \<open>getnameinfo\<close> are parameters with the contract \<open>resolver\<close>.
  \<^item> \<open>Net_Interface\<close>: \<open>network_interface\<close>. \<open>Router\<close>: \<open>router\<close>. \<open>Adapters\<close>: \<open>tcp_over_ip\<close>, \<open>fd_adapter\<close>,
    \<open>lossy_fd_adapter\<close> and \<open>tuntap_adapter\<close> of \<open>tcp_helpers\<close>.
  \<^item> \<open>File_Descriptors\<close>: \<open>util/file_descriptor\<close>, \<open>util/socket\<close> and \<open>SystemCall\<close>. The system calls are a record of functions
    on a kernel state, a parameter; what the properties need of them is the contract \<open>stream_kernel\<close>, with a
    kernel of pipes as an instance. File descriptors are references into a store of wrappers that duplicates share.
  \<^item> \<open>Event_Loop\<close>, \<open>Event_Progress\<close>: \<open>util/eventloop\<close>. Rules are records of functions on the kernel and on what the rules
    capture. The contract \<open>progressing_rules\<close> has the conditions under which a loop over \<open>wait_next_event\<close> ends.
  \<^item> \<open>Sponge_Socket\<close>: \<open>tcp_helpers/tcp_sponge_socket\<close>. The rules refine the reads and writes of the connection.
  \<^item> \<open>Stream_Copy\<close>: \<open>apps/bidirectional_stream_copy\<close>. The contracts \<open>io_kernel\<close> and \<open>live_kernel\<close> extend \<open>stream_kernel\<close>;
    the second is a sublocale of \<open>progressing_rules\<close>, from which it follows that copying ends.
  \<^item> \<open>Network_Simulator\<close>, \<open>Simulator_Safety\<close>: \<open>apps/network_simulator.cc\<close>, the composition of router, interfaces and codecs.

  \<^item> \<open>Tcp_Benchmark\<close>: \<open>apps/tcp_benchmark.cc\<close>, two connections that exchange their segments directly. \<open>In_Order\<close>,
    \<open>Lossless_Sender\<close>, \<open>Lossless_Connection\<close> and \<open>Lossless_Exchange\<close> say what receiver, sender and connection do on a
    link that loses and reorders nothing; \<open>Benchmark_Rounds\<close> has the invariant of a round of the program, and
    \<open>Benchmark_Completes\<close> that its loops end with the whole string received and both connections closed. The contract
    \<open>bm_rounds\<close> (each round decreases a bound on the rounds that remain) carries both loops. That the run with
    reordered segments ends too is not proved.
  \<^item> \<open>Hex_Dump\<close>: \<open>hexdump\<close> of \<open>util/util\<close>, equal to a definition line by line. \<open>Udp_Tcpdump\<close>: \<open>apps/udp_tcpdump.cc\<close>,
    with libpcap as a parameter: what is shown for a segment, and which packets make the program fail.

  \<^bold>\<open>Loops and bounds.\<close> Loops of the code that always end are total functions with termination proofs; no function has
  fuel. Some loops can run for ever, the one of the socket thread (\<open>tcp_loop_from\<close>), the one of the
  stream copy (\<open>copy_loop\<close>) and those of the benchmark (\<open>bm_while\<close>); they are partial functions whose value is \<open>None\<close> if they do not return, and their theorems
  say that they return. Where the code has a bound it is a hypothesis: a sender carries at most \<open>2^32\<close>
  sequence numbers since some of its fields are 32 bits wide, the reassembler takes \<open>2^31 - 1\<close> bytes as the end of the stream.

  \<^bold>\<open>Not modelled.\<close> Opening TUN and TAP devices (\<open>util/tun\<close>: \<open>ioctl\<close> only), debugging output to the
  terminal, the random seed (random numbers are parameters), creation of threads (the thread body is modelled) and
  destructors (they log and close what the modelled methods have left open), socket options and the listening
  sockets of the host, and the command-line programs around the modelled components (parsing of arguments).
\<close>

end
